(* ===== verification/Prelude.thy ===== *)
theory Prelude
  imports Main
begin

text \<open>
  Shared vocabulary of the development: the error values of the kernel code, page
  arithmetic, null-terminated linked lists in a pointer-indexed store, and the lemma
  collections the component theories extend.

  \<^item> \<open>kerror\<close> is the error side of a kernel operation: \<open>panic(s)\<close> stops the machine.
  \<^item> \<open>linked nxt p xs\<close> says that following \<open>nxt\<close> from \<open>p\<close> visits exactly the addresses
    \<open>xs\<close> and then reaches the null pointer, which is address \<open>0\<close>.
  \<^item> the collections \<open>ptr_simps\<close> (pointer stores), \<open>inv_intros\<close> (rules that
    establish a component invariant) and \<open>step_simps\<close> (unfolding of operations).
\<close>

named_theorems ptr_simps
named_theorems inv_intros
named_theorems step_simps

datatype kerror = Panic string

type_synonym addr = nat

section \<open>Sums as results\<close>

definition bindE :: "'e + 'a \<Rightarrow> ('a \<Rightarrow> 'e + 'b) \<Rightarrow> 'e + 'b" where
  "bindE m f = (case m of Inl e \<Rightarrow> Inl e | Inr x \<Rightarrow> f x)"

lemma bindE_simps [simp]:
  "bindE (Inl e) f = Inl e"
  "bindE (Inr x) f = f x"
  by (simp_all add: bindE_def)

lemma bindE_Inr_iff: "bindE m f = Inr y \<longleftrightarrow> (\<exists>x. m = Inr x \<and> f x = Inr y)"
  by (cases m) auto

section \<open>C integers\<close>

text \<open>
  C's \<open>%\<close> on signed operands takes the sign of the dividend. \<open>u64\<close> is the value
  after conversion to an unsigned 64-bit type, \<open>u32\<close> to an unsigned 32-bit type and
  \<open>s32\<close> to a 32-bit \<open>int\<close>; pointer plus integer is \<open>padd\<close>.
\<close>

definition c_rem :: "int \<Rightarrow> int \<Rightarrow> int" where
  "c_rem a b = sgn a * (\<bar>a\<bar> mod \<bar>b\<bar>)"

definition u64 :: "int \<Rightarrow> int" where "u64 x = x mod 2 ^ 64"

definition u32 :: "int \<Rightarrow> int" where "u32 x = x mod 2 ^ 32"

definition s32 :: "int \<Rightarrow> int" where "s32 x = (x + 2 ^ 31) mod 2 ^ 32 - 2 ^ 31"

definition padd :: "addr \<Rightarrow> int \<Rightarrow> addr" where "padd p i = nat (int p + i)"

lemma c_rem_nonneg: "0 \<le> a \<Longrightarrow> 0 < b \<Longrightarrow> c_rem a b = a mod b"
  by (cases "a = 0") (auto simp: c_rem_def)

lemma u64_id: "0 \<le> x \<Longrightarrow> x < 2 ^ 64 \<Longrightarrow> u64 x = x"
  by (simp add: u64_def)

lemma s32_id: "- (2 ^ 31) \<le> x \<Longrightarrow> x < 2 ^ 31 \<Longrightarrow> s32 x = x"
  by (simp add: s32_def)

lemma padd_nat [simp]: "padd p (int n) = p + n"
  by (simp add: padd_def)

section \<open>Page arithmetic\<close>

definition PGSIZE :: nat where "PGSIZE = 4096"

definition PGROUNDUP :: "nat \<Rightarrow> nat" where
  "PGROUNDUP sz = (sz + PGSIZE - 1) div PGSIZE * PGSIZE"

definition PGROUNDDOWN :: "nat \<Rightarrow> nat" where
  "PGROUNDDOWN a = a div PGSIZE * PGSIZE"

lemma PGSIZE_pos [simp]: "0 < PGSIZE"
  by (simp add: PGSIZE_def)

lemma PGROUNDUP_dvd [simp]: "PGSIZE dvd PGROUNDUP a"
  by (simp add: PGROUNDUP_def)

lemma PGROUNDUP_eq: "PGROUNDUP a = (a + 4095) - (a + 4095) mod 4096"
  by (simp add: PGROUNDUP_def PGSIZE_def minus_mod_eq_div_mult)

lemma PGROUNDUP_ge: "a \<le> PGROUNDUP a"
proof -
  have "(a + 4095) mod 4096 < 4096" by simp
  then show ?thesis unfolding PGROUNDUP_eq by linarith
qed

lemma PGROUNDUP_less: "PGROUNDUP a < a + PGSIZE"
  unfolding PGROUNDUP_eq by (simp add: PGSIZE_def)

lemma PGROUNDUP_least:
  assumes "PGSIZE dvd b" "a \<le> b"
  shows "PGROUNDUP a \<le> b"
proof -
  from assms(1) obtain k where k: "b = PGSIZE * k" by blast
  have "(a + PGSIZE - 1) div PGSIZE \<le> (PGSIZE * k + (PGSIZE - 1)) div PGSIZE"
    using assms(2) k by (intro div_le_mono) (simp add: PGSIZE_def)
  also have "\<dots> = k" by (simp add: PGSIZE_def)
  finally show ?thesis unfolding PGROUNDUP_def k by (simp add: mult.commute)
qed

section \<open>Null-terminated lists in a store\<close>

primrec linked :: "(addr \<Rightarrow> addr) \<Rightarrow> addr \<Rightarrow> addr list \<Rightarrow> bool" where
  "linked nxt p [] \<longleftrightarrow> p = 0"
| "linked nxt p (x # xs) \<longleftrightarrow> p = x \<and> x \<noteq> 0 \<and> linked nxt (nxt x) xs"

lemma linked_null [ptr_simps, simp]: "linked nxt 0 xs \<longleftrightarrow> xs = []"
  by (cases xs) auto

lemma linked_nonnull: "p \<noteq> 0 \<Longrightarrow> linked nxt p xs \<longleftrightarrow> (\<exists>ys. xs = p # ys \<and> linked nxt (nxt p) ys)"
  by (cases xs) auto

lemma linked_frame [ptr_simps]:
  "a \<notin> set xs \<Longrightarrow> linked (nxt(a := v)) p xs \<longleftrightarrow> linked nxt p xs"
  by (induction xs arbitrary: p) auto

lemma linked_cong_on:
  "(\<And>x. x \<in> set xs \<Longrightarrow> nxt x = nxt' x) \<Longrightarrow> linked nxt p xs \<longleftrightarrow> linked nxt' p xs"
  by (induction xs arbitrary: p) auto

lemma linked_det: "linked nxt p xs \<Longrightarrow> linked nxt p ys \<Longrightarrow> xs = ys"
proof (induction xs arbitrary: p ys)
  case Nil
  then show ?case by (cases ys) auto
next
  case (Cons x xs)
  then show ?case by (cases ys) auto
qed

lemma linked_nonzero: "linked nxt p xs \<Longrightarrow> 0 \<notin> set xs"
  by (induction xs arbitrary: p) auto

lemma linked_suffix: "linked nxt p (xs @ y # ys) \<Longrightarrow> linked nxt y (y # ys)"
  by (induction xs arbitrary: p) auto

lemma linked_distinct: "linked nxt p xs \<Longrightarrow> distinct xs"
proof (induction xs arbitrary: p)
  case Nil
  then show ?case by simp
next
  case (Cons x xs)
  have "x \<notin> set xs"
  proof
    assume "x \<in> set xs"
    then obtain as bs where xs: "xs = as @ x # bs" by (meson split_list)
    with Cons.prems have "linked nxt (nxt x) (as @ x # bs)" by simp
    then have "linked nxt x (x # bs)" by (rule linked_suffix)
    moreover from Cons.prems have "linked nxt x (x # xs)" by simp
    ultimately have "x # bs = x # xs" by (rule linked_det)
    then have "length (x # bs) = length (x # xs)" by simp
    with xs show False by simp
  qed
  with Cons show ?case by auto
qed

text \<open>Unlinking a node in the middle of a list, and linking one in.\<close>

lemma linked_unlink:
  "linked nxt p (xs @ [a, b] @ ys) \<Longrightarrow> linked (nxt(a := nxt b)) p (xs @ [a] @ ys)"
proof (induction xs arbitrary: p)
  case Nil
  then have d: "distinct ([a, b] @ ys)" using linked_distinct by fastforce
  then have "linked (nxt(a := nxt b)) q ys \<longleftrightarrow> linked nxt q ys" for q
    by (intro linked_cong_on) auto
  with Nil d show ?case by (simp del: fun_upd_apply add: fun_upd_same fun_upd_other)
next
  case (Cons x xs)
  then have "distinct (x # xs @ [a, b] @ ys)" using linked_distinct by fastforce
  with Cons show ?case by auto
qed

lemma linked_insert:
  assumes "linked nxt p (xs @ [a] @ ys)" and "b \<noteq> 0" and "b \<notin> set (xs @ [a] @ ys)"
  shows "linked (nxt(b := nxt a, a := b)) p (xs @ [a, b] @ ys)"
  using assms
proof (induction xs arbitrary: p)
  case Nil
  then have d: "distinct ([a] @ ys)" using linked_distinct by fastforce
  have "linked (nxt(b := nxt a, a := b)) q ys \<longleftrightarrow> linked nxt q ys" for q
    using d Nil.prems(3) by (intro linked_cong_on) auto
  with Nil d show ?case by (simp del: fun_upd_apply add: fun_upd_same fun_upd_other)
next
  case (Cons x xs)
  then have "distinct (x # xs @ [a] @ ys)" using linked_distinct by fastforce
  with Cons show ?case by auto
qed

section \<open>Ring indices\<close>

lemma mod_add_distinct:
  assumes "k < c" "c < n"
  shows "(u + k) mod n \<noteq> (u + c) mod (n :: nat)"
proof
  assume "(u + k) mod n = (u + c) mod n"
  then have "n dvd (u + c) - (u + k)" using assms(1)
    by (metis add_le_cancel_left less_imp_le_nat mod_eq_dvd_iff_nat)
  then have "n dvd c - k" by simp
  then have "n \<le> c - k" using assms(1) by (intro dvd_imp_le) auto
  with assms show False by simp
qed

section \<open>Lists\<close>

lemma nth_upd: "j < length xs \<Longrightarrow> xs[i := x] ! j = (if i = j then x else xs ! j)"
  by (auto simp: nth_list_update)

lemma find_map_comp: "find P (map f xs) = map_option f (find (\<lambda>x. P (f x)) xs)"
  by (induction xs) auto

lemma filter_eq_split:
  "filter P xs = as @ b # bs \<Longrightarrow>
   \<exists>us vs. xs = us @ b # vs \<and> filter P us = as \<and> filter P vs = bs \<and> P b"
proof (induction xs arbitrary: as)
  case Nil
  then show ?case by simp
next
  case (Cons x xs)
  show ?case
  proof (cases "P x")
    case False
    with Cons.prems have "filter P xs = as @ b # bs" by simp
    with Cons.IH obtain us vs where "xs = us @ b # vs" "filter P us = as" "filter P vs = bs" "P b"
      by blast
    with False have "x # xs = (x # us) @ b # vs \<and> filter P (x # us) = as \<and> filter P vs = bs \<and> P b"
      by simp
    then show ?thesis by blast
  next
    case True
    show ?thesis
    proof (cases as)
      case Nil
      with Cons.prems True have "x # xs = [] @ b # xs \<and> filter P [] = as \<and> filter P xs = bs \<and> P b"
        by auto
      then show ?thesis by blast
    next
      case (Cons a as')
      with Cons.prems True have "filter P xs = as' @ b # bs" and a: "a = x" by auto
      with Cons.IH obtain us vs where "xs = us @ b # vs" "filter P us = as'" "filter P vs = bs" "P b"
        by blast
      with True Cons a have "x # xs = (x # us) @ b # vs \<and> filter P (x # us) = as \<and> filter P vs = bs \<and> P b"
        by simp
      then show ?thesis by blast
    qed
  qed
qed

section \<open>C strings in a list of characters\<close>

text \<open>Reading a buffer, the NUL standing past its end, and the string that starts at a position.\<close>

definition NUL :: char where "NUL = CHR 0x00"

definition ch :: "string \<Rightarrow> nat \<Rightarrow> char" where
  "ch t s = (if s < length t then t ! s else NUL)"

definition cstr :: "string \<Rightarrow> nat \<Rightarrow> string" where
  "cstr u q = takeWhile (\<lambda>c. c \<noteq> NUL) (drop q u)"

lemma ch_not_NUL: "ch t s \<noteq> NUL \<Longrightarrow> s < length t"
  by (simp add: ch_def split: if_splits)

end
