(* ===== verification/Pool.thy ===== *)
theory Pool
  imports Prelude
begin

text \<open>
  The interface of a pool of free addresses kept as a stack through the addresses
  themselves. Two components of the program provide it: the kernel's page allocator
  (\<open>Kalloc\<close>) and the slab stack of the user-level allocator (\<open>MemAlloc\<close>). A pool
  state \<open>s\<close> is related to the list of its free addresses by \<open>pool s xs\<close>; \<open>give\<close>
  pushes a legal address that is not free yet, \<open>take1\<close> pops the top one, or \<open>0\<close>.
\<close>

locale lifo_pool =
  fixes give :: "addr \<Rightarrow> 's \<Rightarrow> 's option"
    and take1 :: "'s \<Rightarrow> addr \<times> 's"
    and pool :: "'s \<Rightarrow> addr list \<Rightarrow> bool"
    and legal :: "addr \<Rightarrow> bool"
  assumes give_pool: "pool s xs \<Longrightarrow> legal v \<Longrightarrow> v \<notin> set xs \<Longrightarrow>
      \<exists>s'. give v s = Some s' \<and> pool s' (v # xs)"
    and take_empty: "pool s [] \<Longrightarrow> take1 s = (0, s)"
    and take_pool: "pool s (x # xs) \<Longrightarrow> \<exists>s'. take1 s = (x, s') \<and> pool s' xs"
    and pool_wf: "pool s xs \<Longrightarrow> distinct xs \<and> 0 \<notin> set xs"
begin

fun take_n :: "nat \<Rightarrow> 's \<Rightarrow> addr list \<times> 's" where
  "take_n 0 s = ([], s)"
| "take_n (Suc n) s =
     (let (p, s1) = take1 s in
      if p = 0 then ([], s1) else let (ps, s2) = take_n n s1 in (p # ps, s2))"

fun give_all :: "addr list \<Rightarrow> 's \<Rightarrow> 's option" where
  "give_all [] s = Some s"
| "give_all (v # vs) s = (case give v s of None \<Rightarrow> None | Some s' \<Rightarrow> give_all vs s')"

lemma take_fails_iff: "pool s xs \<Longrightarrow> fst (take1 s) = 0 \<longleftrightarrow> xs = []"
proof (cases xs)
  case Nil
  then show "pool s xs \<Longrightarrow> ?thesis" by (simp add: take_empty)
next
  case (Cons y ys)
  assume p: "pool s xs"
  with Cons obtain s' where "take1 s = (y, s')" using take_pool by blast
  moreover from p Cons have "y \<noteq> 0" using pool_wf by fastforce
  ultimately show ?thesis using Cons by simp
qed

lemma take_after_give:
  assumes "pool s xs" "legal v" "v \<notin> set xs"
  shows "\<exists>s1 s2. give v s = Some s1 \<and> take1 s1 = (v, s2) \<and> pool s2 xs"
  using assms give_pool take_pool by meson

lemma take_n_pool:
  "pool s xs \<Longrightarrow> \<exists>s'. take_n n s = (take n xs, s') \<and> pool s' (drop n xs)"
proof (induction n arbitrary: s xs)
  case 0
  then show ?case by simp
next
  case (Suc n)
  show ?case
  proof (cases xs)
    case Nil
    with Suc.prems show ?thesis by (auto simp: take_empty)
  next
    case (Cons y ys)
    with Suc.prems obtain s1 where s1: "take1 s = (y, s1)" "pool s1 ys"
      using take_pool by blast
    from Suc.IH [OF s1(2)] obtain s2 where "take_n n s1 = (take n ys, s2)" "pool s2 (drop n ys)"
      by blast
    moreover from Suc.prems Cons have "y \<noteq> 0" using pool_wf by fastforce
    ultimately show ?thesis using s1 Cons by simp
  qed
qed

lemma give_all_pool:
  "pool s xs \<Longrightarrow> distinct (vs @ xs) \<Longrightarrow> (\<forall>v \<in> set vs. legal v) \<Longrightarrow>
   \<exists>s'. give_all vs s = Some s' \<and> pool s' (rev vs @ xs)"
proof (induction vs arbitrary: s xs)
  case Nil
  then show ?case by simp
next
  case (Cons v vs)
  then obtain s1 where s1: "give v s = Some s1" "pool s1 (v # xs)"
    using give_pool [of s xs v] by auto
  with Cons.IH [of s1 "v # xs"] Cons.prems show ?case by auto
qed

end

end
