(* ===== verification/Fifo.thy ===== *)
theory Fifo
  imports Prelude
begin

text \<open>
  The interface of a bounded first-in first-out buffer: \<open>put\<close> fails on a full buffer, \<open>get\<close>
  on an empty one, and \<open>abs\<close> is the sequence of elements a state stands for. Ring buffers of
  the kernel provide it; the laws on whole batches of operations are proved once here.
\<close>

locale bounded_fifo =
  fixes put :: "'a \<Rightarrow> 's \<Rightarrow> 's option"
    and get :: "'s \<Rightarrow> ('a \<times> 's) option"
    and abs :: "'s \<Rightarrow> 'a list"
    and ok :: "'s \<Rightarrow> bool"
    and cap :: nat
  assumes ok_bound: "ok s \<Longrightarrow> length (abs s) \<le> cap"
    and put_full: "ok s \<Longrightarrow> length (abs s) = cap \<Longrightarrow> put x s = None"
    and put_room: "ok s \<Longrightarrow> length (abs s) < cap \<Longrightarrow>
      \<exists>s'. put x s = Some s' \<and> ok s' \<and> abs s' = abs s @ [x]"
    and get_empty: "ok s \<Longrightarrow> abs s = [] \<Longrightarrow> get s = None"
    and get_some: "ok s \<Longrightarrow> abs s = x # xs \<Longrightarrow> \<exists>s'. get s = Some (x, s') \<and> ok s' \<and> abs s' = xs"
begin

primrec put_some :: "'a list \<Rightarrow> 's \<Rightarrow> 'a list \<times> 's" where
  "put_some [] s = ([], s)"
| "put_some (x # xs) s = (case put x s of None \<Rightarrow> (x # xs, s) | Some s' \<Rightarrow> put_some xs s')"

primrec get_upto :: "nat \<Rightarrow> 's \<Rightarrow> 'a list \<times> 's" where
  "get_upto 0 s = ([], s)"
| "get_upto (Suc n) s = (case get s of None \<Rightarrow> ([], s)
     | Some (x, s') \<Rightarrow> let (xs, s'') = get_upto n s' in (x # xs, s''))"

lemma put_some_spec:
  "ok s \<Longrightarrow> \<exists>s'. put_some xs s = (drop (cap - length (abs s)) xs, s') \<and> ok s' \<and>
     abs s' = abs s @ take (cap - length (abs s)) xs"
proof (induction xs arbitrary: s)
  case Nil
  then show ?case by simp
next
  case (Cons x xs)
  show ?case
  proof (cases "length (abs s) = cap")
    case True
    with Cons.prems put_full show ?thesis by simp
  next
    case False
    with ok_bound [OF Cons.prems] have lt: "length (abs s) < cap" by simp
    then obtain n where n: "cap - length (abs s) = Suc n" using zero_less_diff gr0_conv_Suc by metis
    from put_room [OF Cons.prems lt, of x] obtain s1 where
      s1: "put x s = Some s1" "ok s1" "abs s1 = abs s @ [x]" by blast
    with n have "cap - length (abs s1) = n" by simp
    with Cons.IH [OF s1(2)] s1 n show ?thesis by auto
  qed
qed

lemma get_upto_spec:
  "ok s \<Longrightarrow> \<exists>s'. get_upto n s = (take n (abs s), s') \<and> ok s' \<and> abs s' = drop n (abs s)"
proof (induction n arbitrary: s)
  case 0
  then show ?case by simp
next
  case (Suc n)
  show ?case
  proof (cases "abs s")
    case Nil
    with Suc.prems get_empty show ?thesis by simp
  next
    case (Cons x xs)
    from get_some [OF Suc.prems Cons] obtain s1 where
      s1: "get s = Some (x, s1)" "ok s1" "abs s1 = xs" by blast
    with Suc.IH [OF s1(2)] Cons show ?thesis by auto
  qed
qed

end

end
