(* ===== verification/BlockDev.thy ===== *)
theory BlockDev
  imports Main
begin

text \<open>
  The interface between the file system and the layers below it: a device of blocks on which a write
  changes one block and a read changes none. \<open>view\<close> is the contents that reads return. Both the bytes
  that \<open>Fs\<close> works on and the buffer cache over the disk driver provide it.
\<close>

datatype 'v blk_op = ReadB nat nat | WriteB nat nat 'v

fun op_key :: "'v blk_op \<Rightarrow> nat \<times> nat" where
  "op_key (ReadB d k) = (d, k)"
| "op_key (WriteB d k v) = (d, k)"

text \<open>A sequence of operations on a plain array, and on a device.\<close>

fun flat_run :: "'v blk_op list \<Rightarrow> (nat \<Rightarrow> nat \<Rightarrow> 'v) \<Rightarrow> 'v list \<times> (nat \<Rightarrow> nat \<Rightarrow> 'v)" where
  "flat_run [] m = ([], m)"
| "flat_run (ReadB d k # ops) m = (let (vs, m') = flat_run ops m in (m d k # vs, m'))"
| "flat_run (WriteB d k v # ops) m = flat_run ops (m(d := (m d)(k := v)))"

fun dev_run :: "(nat \<Rightarrow> nat \<Rightarrow> 's \<Rightarrow> ('v \<times> 's) option) \<Rightarrow> (nat \<Rightarrow> nat \<Rightarrow> 'v \<Rightarrow> 's \<Rightarrow> 's option) \<Rightarrow>
    'v blk_op list \<Rightarrow> 's \<Rightarrow> ('v list \<times> 's) option" where
  "dev_run rd wr [] s = Some ([], s)"
| "dev_run rd wr (ReadB d k # ops) s =
     (case rd d k s of None \<Rightarrow> None
      | Some (v, s1) \<Rightarrow> map_option (\<lambda>(vs, s2). (v # vs, s2)) (dev_run rd wr ops s1))"
| "dev_run rd wr (WriteB d k v # ops) s =
     (case wr d k v s of None \<Rightarrow> None | Some s1 \<Rightarrow> dev_run rd wr ops s1)"

locale block_device =
  fixes inv :: "'s \<Rightarrow> bool" and has_block :: "'s \<Rightarrow> nat \<Rightarrow> nat \<Rightarrow> bool" and view :: "'s \<Rightarrow> nat \<Rightarrow> nat \<Rightarrow> 'v"
    and rd :: "nat \<Rightarrow> nat \<Rightarrow> 's \<Rightarrow> ('v \<times> 's) option" and wr :: "nat \<Rightarrow> nat \<Rightarrow> 'v \<Rightarrow> 's \<Rightarrow> 's option"
  assumes rd_law: "inv s \<Longrightarrow> has_block s d k \<Longrightarrow>
      \<exists>s'. rd d k s = Some (view s d k, s') \<and> inv s' \<and> view s' = view s \<and> has_block s' = has_block s"
    and wr_law: "inv s \<Longrightarrow> has_block s d k \<Longrightarrow>
      \<exists>s'. wr d k v s = Some s' \<and> inv s' \<and> view s' = (view s)(d := (view s d)(k := v)) \<and> has_block s' = has_block s"
begin

lemma run_flat:
  assumes "inv s" "\<forall>x \<in> set ops. has_block s (fst (op_key x)) (snd (op_key x))"
  shows "\<exists>s'. dev_run rd wr ops s = Some (fst (flat_run ops (view s)), s') \<and> inv s' \<and>
    view s' = snd (flat_run ops (view s)) \<and> has_block s' = has_block s"
  using assms
proof (induction ops arbitrary: s)
  case (Cons x ops)
  show ?case
  proof (cases x)
    case (ReadB d k)
    then obtain s1 where s1: "rd d k s = Some (view s d k, s1)" "inv s1" "view s1 = view s" "has_block s1 = has_block s"
      using rd_law [of s d k] Cons.prems by auto
    then show ?thesis using Cons.IH [of s1] Cons.prems(2) ReadB by (auto split: prod.splits)
  next
    case (WriteB d k v)
    then obtain s1 where s1: "wr d k v s = Some s1" "inv s1" "view s1 = (view s)(d := (view s d)(k := v))"
      "has_block s1 = has_block s"
      using wr_law [of s d k v] Cons.prems by auto
    have "\<forall>x \<in> set ops. has_block s1 (fst (op_key x)) (snd (op_key x))" using Cons.prems(2) s1(4) by simp
    from Cons.IH [OF s1(2) this, unfolded s1(3,4)] show ?thesis using s1(1) WriteB by (simp add: fun_upd_def)
  qed
qed simp

lemma read_back:
  assumes "inv s" "has_block s d k" "has_block s d' k'" "(d', k') \<noteq> (d, k)"
  shows "\<exists>s'. dev_run rd wr [WriteB d k v, ReadB d' k', ReadB d k] s = Some ([view s d' k', v], s') \<and> inv s'"
  using run_flat [of s "[WriteB d k v, ReadB d' k', ReadB d k]"] assms by auto

end

end
