(* ===== verification/Kalloc.thy ===== *)
theory Kalloc
  imports Pool
begin

text \<open>
  The physical page allocator of the kernel, p4/xv6/kernel/kalloc.c (the same file in every
  project). The free list is intrusive: the first word of a free page holds the address of
  the next one, so the state is the head pointer and a store of first words. \<open>kfree\<close>
  panics on a pointer that is not a page of the managed range; \<open>kalloc\<close> returns \<open>0\<close> when
  no page is left. The contract the clients rely on is the locale \<open>lifo_pool\<close>.
\<close>

definition PHYSTOP :: nat where "PHYSTOP = 0x1000000"

record kmem =
  freelist :: addr
  run_next :: "addr \<Rightarrow> addr"

text \<open>\<open>memset(v, 1, PGSIZE)\<close> leaves this value in the first word of the page.\<close>

definition junk_word :: addr where "junk_word = 0x01010101"

definition kfree :: "addr \<Rightarrow> addr \<Rightarrow> kmem \<Rightarrow> kerror + kmem" where
  "kfree kend v s =
     (if v mod PGSIZE \<noteq> 0 \<or> v < kend \<or> v \<ge> PHYSTOP then Inl (Panic ''kfree'')
      else let s1 = s\<lparr>run_next := (run_next s)(v := junk_word)\<rparr>;
               s2 = s1\<lparr>run_next := (run_next s1)(v := freelist s1)\<rparr>
           in Inr (s2\<lparr>freelist := v\<rparr>))"

definition kalloc :: "kmem \<Rightarrow> addr \<times> kmem" where
  "kalloc s = (let r = freelist s
               in (r, if r \<noteq> 0 then s\<lparr>freelist := run_next s r\<rparr> else s))"

text \<open>The loop of \<open>kinit\<close>: \<open>for(; p + PGSIZE <= PHYSTOP; p += PGSIZE) kfree(p)\<close>.\<close>

function kinit_loop :: "addr \<Rightarrow> addr \<Rightarrow> kmem \<Rightarrow> kerror + kmem" where
  "kinit_loop kend p s =
     (if p + PGSIZE \<le> PHYSTOP
      then bindE (kfree kend p s) (kinit_loop kend (p + PGSIZE))
      else Inr s)"
  by pat_completeness auto
termination
  by (relation "measure (\<lambda>(e, p, s). PHYSTOP - p)") (auto simp: PGSIZE_def)

declare kinit_loop.simps [simp del]

definition kinit :: "addr \<Rightarrow> kmem \<Rightarrow> kerror + kmem" where
  "kinit kend s = kinit_loop kend (PGROUNDUP kend) s"

section \<open>The kernel allocator meets the contract\<close>

definition page_ok :: "addr \<Rightarrow> addr \<Rightarrow> bool" where
  "page_ok kend v \<longleftrightarrow> v mod PGSIZE = 0 \<and> kend \<le> v \<and> v < PHYSTOP \<and> v \<noteq> 0"

definition kmem_inv :: "addr \<Rightarrow> kmem \<Rightarrow> addr list \<Rightarrow> bool" where
  "kmem_inv kend s xs \<longleftrightarrow> linked (run_next s) (freelist s) xs \<and> (\<forall>x \<in> set xs. page_ok kend x)"

lemma kfree_inv:
  assumes "kmem_inv kend s xs" "page_ok kend v" "v \<notin> set xs"
  shows "\<exists>s'. kfree kend v s = Inr s' \<and> kmem_inv kend s' (v # xs)"
  using assms by (auto simp: kfree_def kmem_inv_def page_ok_def Let_def linked_frame)

lemma kalloc_inv_empty: "kmem_inv kend s [] \<Longrightarrow> kalloc s = (0, s)"
  by (simp add: kmem_inv_def kalloc_def)

lemma kalloc_inv_cons:
  "kmem_inv kend s (x # xs) \<Longrightarrow> \<exists>s'. kalloc s = (x, s') \<and> kmem_inv kend s' xs"
  by (auto simp: kmem_inv_def kalloc_def)

lemma kmem_inv_wf: "kmem_inv kend s xs \<Longrightarrow> distinct xs \<and> 0 \<notin> set xs"
  by (auto simp: kmem_inv_def dest: linked_distinct linked_nonzero)

definition kgive :: "addr \<Rightarrow> addr \<Rightarrow> kmem \<Rightarrow> kmem option" where
  "kgive kend v s = (case kfree kend v s of Inl e \<Rightarrow> None | Inr s' \<Rightarrow> Some s')"

interpretation kpool: lifo_pool "kgive kend" kalloc "kmem_inv kend" "page_ok kend"
  for kend
proof unfold_locales
  fix s xs v
  assume "kmem_inv kend s xs" "page_ok kend v" "v \<notin> set xs"
  then show "\<exists>s'. kgive kend v s = Some s' \<and> kmem_inv kend s' (v # xs)"
    using kfree_inv by (fastforce simp: kgive_def)
next
  fix s assume "kmem_inv kend s []"
  then show "kalloc s = (0, s)" by (rule kalloc_inv_empty)
next
  fix s x xs assume "kmem_inv kend s (x # xs)"
  then show "\<exists>s'. kalloc s = (x, s') \<and> kmem_inv kend s' xs" by (rule kalloc_inv_cons)
next
  fix s xs assume "kmem_inv kend s xs"
  then show "distinct xs \<and> 0 \<notin> set xs" by (rule kmem_inv_wf)
qed

section \<open>Boot: the free list after kinit\<close>

lemma page_ok_step:
  assumes "PGSIZE dvd p" "0 < p" "kend \<le> p"
  shows "{v. page_ok kend v \<and> v < p + PGSIZE} = 
         {v. page_ok kend v \<and> v < p} \<union> (if p < PHYSTOP then {p} else {})"
proof -
  have "v = p" if "PGSIZE dvd v" "\<not> v < p" "v < p + PGSIZE" for v
  proof -
    from assms(1) obtain k where k: "p = PGSIZE * k" by blast
    from that(1) obtain j where j: "v = PGSIZE * j" by blast
    from that(2) k j have "k \<le> j" by simp
    moreover have "PGSIZE * j < PGSIZE * (k + 1)" using that(3) k j by simp
    then have "j < k + 1" by (simp only: nat_mult_less_cancel_disj)
    ultimately show ?thesis using k j by simp
  qed
  then have key: "v = p" if "page_ok kend v" "\<not> v < p" "v < p + PGSIZE" for v
    using that by (simp add: page_ok_def mod_0_imp_dvd)
  have p: "page_ok kend p \<longleftrightarrow> p < PHYSTOP"
    using assms by (auto simp: page_ok_def)
  show ?thesis
  proof (intro set_eqI iffI)
    fix v assume v: "v \<in> {v. page_ok kend v \<and> v < p + PGSIZE}"
    show "v \<in> {v. page_ok kend v \<and> v < p} \<union> (if p < PHYSTOP then {p} else {})"
      using v key [of v] p by (cases "v < p") (auto simp del: split_paired_All)
  next
    fix v assume "v \<in> {v. page_ok kend v \<and> v < p} \<union> (if p < PHYSTOP then {p} else {})"
    then show "v \<in> {v. page_ok kend v \<and> v < p + PGSIZE}"
      using p by (auto split: if_splits intro: less_trans)
  qed
qed

lemma PHYSTOP_room: "PGSIZE dvd p \<Longrightarrow> p < PHYSTOP \<Longrightarrow> p + PGSIZE \<le> PHYSTOP"
  unfolding PGSIZE_def PHYSTOP_def by (elim dvdE) simp

lemma kinit_loop_pool:
  assumes "kmem_inv kend s xs" "set xs = {v. page_ok kend v \<and> v < p}"
    "PGSIZE dvd p" "0 < p" "kend \<le> p"
  shows "\<exists>s' ys. kinit_loop kend p s = Inr s' \<and> kmem_inv kend s' ys \<and>
           set ys = {v. page_ok kend v}"
  using assms
proof (induction kend p s arbitrary: xs rule: kinit_loop.induct)
  case (1 kend p s)
  show ?case
  proof (cases "p + PGSIZE \<le> PHYSTOP")
    case True
    then have pp: "p < PHYSTOP" by (simp add: PGSIZE_def)
    then have ok: "page_ok kend p" using "1.prems" by (auto simp: page_ok_def)
    have "p \<notin> set xs" using "1.prems"(2) by simp
    then obtain s1 where s1: "kfree kend p s = Inr s1" "kmem_inv kend s1 (p # xs)"
      using kfree_inv [OF "1.prems"(1) ok] by blast
    have "set (p # xs) = {v. page_ok kend v \<and> v < p + PGSIZE}"
      using page_ok_step [OF "1.prems"(3-5)] "1.prems"(2) pp by auto
    with "1.IH" [OF True s1(2)] "1.prems" s1 show ?thesis
      by (subst kinit_loop.simps) (simp add: True)
  next
    case False
    then have "\<not> p < PHYSTOP" using PHYSTOP_room "1.prems"(3) by blast
    then have "{v. page_ok kend v \<and> v < p} = {v. page_ok kend v}"
      by (auto simp: page_ok_def)
    with False "1.prems" show ?thesis by (subst kinit_loop.simps) auto
  qed
qed

text \<open>Boot of the page allocator. Started on an empty free list, \<open>kinit\<close> never panics and
  leaves a well-formed free list that holds exactly the page-aligned addresses from the end of
  the kernel image to \<open>PHYSTOP\<close>, each once.\<close>

lemma kinit_frees_all_pages:
  assumes "freelist s = 0" and "0 < kend"
  shows "\<exists>s' xs. kinit kend s = Inr s' \<and> kmem_inv kend s' xs \<and> distinct xs \<and>
           set xs = {v. page_ok kend v}"
proof -
  have ge: "kend \<le> PGROUNDUP kend" by (rule PGROUNDUP_ge)
  have "v \<notin> {v. page_ok kend v \<and> v < PGROUNDUP kend}" for v
    using PGROUNDUP_least [of v kend] by (auto simp: page_ok_def dvd_eq_mod_eq_0)
  then have e: "set [] = {v. page_ok kend v \<and> v < PGROUNDUP kend}" by auto
  have i: "kmem_inv kend s []" using assms(1) by (simp add: kmem_inv_def)
  from kinit_loop_pool [OF i e PGROUNDUP_dvd _ ge] assms(2) ge
  obtain s' ys where "kinit kend s = Inr s'" "kmem_inv kend s' ys" "set ys = {v. page_ok kend v}"
    unfolding kinit_def by auto
  then show ?thesis using kmem_inv_wf by blast
qed

definition bss_kmem :: kmem where
  "bss_kmem = \<lparr>freelist = 0, run_next = (\<lambda>_. 0)\<rparr>"

lemma kinit_frees_all_pages_example:
  "\<exists>s' xs. kinit 0x10a000 bss_kmem = Inr s' \<and> kmem_inv 0x10a000 s' xs \<and> distinct xs \<and>
     set xs = {v. page_ok 0x10a000 v}"
  by (rule kinit_frees_all_pages) (simp_all add: bss_kmem_def)

text \<open>Pages are conserved and never handed out twice. From a free list \<open>xs\<close>, \<open>n\<close> calls of
  \<open>kalloc\<close> return the first \<open>n\<close> pages of \<open>xs\<close> (fewer when it runs dry), all different, and
  giving them back with \<open>kfree\<close> never panics and restores exactly the same set of free pages.\<close>

lemma kalloc_kfree_conserve:
  assumes "kmem_inv kend s xs"
  shows "\<exists>s1 s2. kpool.take_n n s = (take n xs, s1) \<and> distinct (take n xs) \<and>
     kmem_inv kend s1 (drop n xs) \<and> kpool.give_all kend (take n xs) s1 = Some s2 \<and>
     kmem_inv kend s2 (rev (take n xs) @ drop n xs)"
proof -
  from kpool.take_n_pool [OF assms] obtain s1 where
    s1: "kpool.take_n n s = (take n xs, s1)" "kmem_inv kend s1 (drop n xs)" by blast
  have d: "distinct xs" using assms kmem_inv_wf by blast
  then have "distinct (take n xs @ drop n xs)" by (simp only: append_take_drop_id)
  moreover have "\<forall>v \<in> set (take n xs). page_ok kend v"
    using assms by (auto simp: kmem_inv_def dest: in_set_takeD)
  ultimately show ?thesis using kpool.give_all_pool [OF s1(2), of "take n xs"] s1 d
    by (auto simp del: distinct_append)
qed

lemma kalloc_kfree_conserve_example:
  "\<exists>s1 s2. kpool.take_n 2 \<lparr>freelist = 8192, run_next = (\<lambda>_. 0)(8192 := 4096)\<rparr> = (take 2 [8192, 4096], s1) \<and>
     distinct (take 2 [8192, 4096 :: addr]) \<and> kmem_inv 4096 s1 (drop 2 [8192, 4096]) \<and>
     kpool.give_all 4096 (take 2 [8192, 4096]) s1 = Some s2 \<and>
     kmem_inv 4096 s2 (rev (take 2 [8192, 4096]) @ drop 2 [8192, 4096])"
  by (rule kalloc_kfree_conserve)
     (simp add: kmem_inv_def page_ok_def PGSIZE_def PHYSTOP_def)

end
