(* ===== verification/MemAlloc.thy ===== *)
theory MemAlloc
  imports Pool
begin

text \<open>
  The user-level allocator p3/mem/mem.c: a slab stack for one distinguished size in the first
  quarter of the region and a next-fit free list, address-ordered and coalescing, in the rest.

  \<open>mem_state\<close> holds \<open>struct memAllocators\<close>, \<open>initializedOnce\<close> and the memory the
  allocator itself reads: \<open>hd_len\<close> is the \<open>length\<close> word of a header, \<open>hd_ptr\<close> its second
  word, which is \<open>next\<close> of a \<open>FreeHeader\<close> and \<open>magic\<close> of an \<open>AllocatedHeader\<close> (the two
  structs overlay), \<open>slab_next\<close> the link of a free slab and \<open>bytes\<close> the payload. Each
  public function is one critical section, so it is one state transformer here; a pointer
  loop that may not end is a \<open>partial_function (option)\<close>, whose \<open>None\<close> is "does not
  return" (it also stands for the abort of \<open>assert(freePtr != NULL)\<close> in \<open>addFreeNode\<close>).
\<close>

definition ALIGN_SIZE :: int where "ALIGN_SIZE = 16"

definition MAGIC :: addr where "MAGIC = 0x5077604"

text \<open>\<open>sizeof(struct FreeHeader)\<close> and \<open>sizeof(struct AllocatedHeader)\<close> on x86-64.\<close>

definition HDR :: int where "HDR = 16"

record mem_state =
  freeHead :: addr
  nextPtr :: addr
  regionStartPtr :: addr
  topOfSlabStack :: addr
  nextFitRegionStartPtr :: addr
  slabUnitSize :: int
  roundedSlabAllocationSize :: int
  sizeOfRegion :: int
  initializedOnce :: bool
  hd_len :: "addr \<Rightarrow> int"
  hd_ptr :: "addr \<Rightarrow> addr"
  slab_next :: "addr \<Rightarrow> addr"
  bytes :: "addr \<Rightarrow> int"

definition fitToAlignSize :: "int \<Rightarrow> int" where
  "fitToAlignSize sz =
     (if c_rem sz ALIGN_SIZE \<noteq> 0 then sz + (ALIGN_SIZE - c_rem sz ALIGN_SIZE) else sz)"

section \<open>The slab stack\<close>

definition slabPush :: "addr \<Rightarrow> mem_state \<Rightarrow> kerror + mem_state" where
  "slabPush node s =
     (if node = 0 then Inl (Panic ''assert(nodeToAdd != NULL)'')
      else Inr (s\<lparr>slab_next := (slab_next s)(node := topOfSlabStack s), topOfSlabStack := node\<rparr>))"

definition slabPop :: "mem_state \<Rightarrow> addr \<times> mem_state" where
  "slabPop s =
     (if topOfSlabStack s = 0 then (0, s)
      else (topOfSlabStack s, s\<lparr>topOfSlabStack := slab_next s (topOfSlabStack s)\<rparr>))"

section \<open>The free list\<close>

partial_function (option) remove_loop :: "addr \<Rightarrow> addr \<Rightarrow> mem_state \<Rightarrow> mem_state option" where
  "remove_loop p itr s =
     (if itr = 0 then Some s
      else if hd_ptr s itr = p then Some (s\<lparr>hd_ptr := (hd_ptr s)(itr := hd_ptr s p)\<rparr>)
      else remove_loop p (hd_ptr s itr) s)"

definition removeFreeNode :: "addr \<Rightarrow> mem_state \<Rightarrow> mem_state option" where
  "removeFreeNode p s =
     (if freeHead s = p then Some (s\<lparr>freeHead := hd_ptr s (freeHead s)\<rparr>)
      else remove_loop p (freeHead s) s)"

partial_function (option) add_loop :: "addr \<Rightarrow> addr \<Rightarrow> mem_state \<Rightarrow> mem_state option" where
  "add_loop p itr s =
     (if itr = 0 then Some s
      else if itr = p then Some s
      else if hd_ptr s itr = 0 then Some (s\<lparr>hd_ptr := (hd_ptr s)(itr := p, p := 0)\<rparr>)
      else if hd_ptr s itr > p then Some (s\<lparr>hd_ptr := (hd_ptr s)(p := hd_ptr s itr, itr := p)\<rparr>)
      else add_loop p (hd_ptr s itr) s)"

definition addFreeNode :: "addr \<Rightarrow> mem_state \<Rightarrow> mem_state option" where
  "addFreeNode p s =
     (if p = 0 then None
      else if freeHead s = 0 then Some (s\<lparr>hd_ptr := (hd_ptr s)(p := 0), freeHead := p\<rparr>)
      else if freeHead s > p then Some (s\<lparr>hd_ptr := (hd_ptr s)(p := freeHead s), freeHead := p\<rparr>)
      else add_loop p (freeHead s) s)"

section \<open>Next-fit allocation\<close>

text \<open>
  The guard of \<open>nextFitAlloc\<close> compares \<open>int + size_t\<close> sums, that is, values of an unsigned
  64-bit type.
\<close>

definition chunk_fits :: "mem_state \<Rightarrow> int \<Rightarrow> addr \<Rightarrow> bool" where
  "chunk_fits s al itr \<longleftrightarrow> u64 (hd_len s itr + HDR) \<ge> u64 (al + HDR)"

definition nf_next :: "mem_state \<Rightarrow> addr \<Rightarrow> addr" where
  "nf_next s itr = (if hd_ptr s itr = 0 then freeHead s else hd_ptr s itr)"

text \<open>The \<open>do ... while (itr != nextPtr)\<close> loop up to the chunk it takes, \<open>0\<close> if it takes none.\<close>

partial_function (option) nf_search :: "mem_state \<Rightarrow> int \<Rightarrow> addr \<Rightarrow> addr option" where
  "nf_search s al itr =
     (if chunk_fits s al itr then Some itr
      else if nf_next s itr = nextPtr s then Some 0
      else nf_search s al (nf_next s itr))"

definition nf_take :: "addr \<Rightarrow> int \<Rightarrow> mem_state \<Rightarrow> (addr \<times> mem_state) option" where
  "nf_take itr al s =
     (let s1 = (if u64 (hd_len s itr + HDR) = u64 (al + HDR)
                then s\<lparr>nextPtr := hd_ptr s itr\<rparr> else s);
          currLen = hd_len s1 itr
      in Option.bind (removeFreeNode itr s1) (\<lambda>s2.
         let s3 = s2\<lparr>hd_ptr := (hd_ptr s2)(itr := MAGIC), hd_len := (hd_len s2)(itr := al)\<rparr>
         in if u64 (currLen + HDR) > u64 (al + HDR)
            then let leftOver = padd itr (al + HDR);
                     s4 = s3\<lparr>hd_len := (hd_len s3)(leftOver := s32 (currLen - al - HDR))\<rparr>
                 in Option.bind (addFreeNode leftOver s4)
                      (\<lambda>s5. Some (padd itr HDR, s5\<lparr>nextPtr := leftOver\<rparr>))
            else Some (padd itr HDR, s3)))"

definition nextFitAlloc :: "int \<Rightarrow> mem_state \<Rightarrow> (addr \<times> mem_state) option" where
  "nextFitAlloc sz s =
     (let al = fitToAlignSize sz
      in if freeHead s = 0 then Some (0, s)
         else let s1 = (if nextPtr s = 0 then s\<lparr>nextPtr := freeHead s\<rparr> else s)
              in Option.bind (nf_search s1 al (nextPtr s1))
                   (\<lambda>itr. if itr = 0 then Some (0, s1) else nf_take itr al s1))"

section \<open>Freeing and coalescing\<close>

text \<open>The scan of \<open>nextFitCoalesce\<close>: the free neighbour before \<open>fp\<close>, and whether \<open>nn\<close> is free.\<close>

partial_function (option) coal_scan ::
  "mem_state \<Rightarrow> addr \<Rightarrow> addr \<Rightarrow> addr \<Rightarrow> addr \<Rightarrow> bool \<Rightarrow> (addr \<times> bool) option" where
  "coal_scan s fp nn itr prev nif =
     (if itr = 0 then Some (prev, nif)
      else if padd itr (hd_len s itr + HDR) = fp then coal_scan s fp nn (hd_ptr s itr) itr nif
      else if itr = nn then coal_scan s fp nn (hd_ptr s itr) prev True
      else coal_scan s fp nn (hd_ptr s itr) prev nif)"

definition coal_next :: "addr \<Rightarrow> addr \<Rightarrow> mem_state \<Rightarrow> mem_state option" where
  "coal_next fp nn s =
     (let s1 = (if nn = nextPtr s then s\<lparr>nextPtr := fp\<rparr> else s)
      in Option.bind (removeFreeNode nn s1) (\<lambda>s2.
           Some (s2\<lparr>hd_len := (hd_len s2)(fp := s32 (hd_len s2 fp + (hd_len s2 nn + HDR)))\<rparr>)))"

definition coal_prev :: "addr \<Rightarrow> addr \<Rightarrow> mem_state \<Rightarrow> mem_state option" where
  "coal_prev fp prev s =
     (let s1 = (if fp = nextPtr s then s\<lparr>nextPtr := prev\<rparr> else s);
          s2 = s1\<lparr>hd_ptr := (hd_ptr s1)(prev := hd_ptr s1 fp)\<rparr>;
          s3 = s2\<lparr>hd_len := (hd_len s2)(prev := s32 (hd_len s2 prev + (hd_len s2 fp + HDR)))\<rparr>
      in removeFreeNode fp s3)"

definition nextFitCoalesce :: "addr \<Rightarrow> mem_state \<Rightarrow> mem_state option" where
  "nextFitCoalesce fp s =
     (let nn = padd fp (hd_len s fp + HDR)
      in Option.bind (coal_scan s fp nn (freeHead s) 0 False) (\<lambda>(prev, nif).
         Option.bind (if nif then coal_next fp nn s else Some s) (\<lambda>s1.
         if prev \<noteq> 0 then coal_prev fp prev s1 else Some s1)))"

definition nextFitFree :: "addr \<Rightarrow> mem_state \<Rightarrow> (int \<times> mem_state) option" where
  "nextFitFree ptr s =
     (let ap = padd ptr (- HDR)
      in if hd_ptr s ap \<noteq> MAGIC then Some (- 1, s)
         else let s1 = s\<lparr>hd_ptr := (hd_ptr s)(ap := 0)\<rparr>;
                  s2 = s1\<lparr>hd_len := (hd_len s1)(ap := hd_len s1 ap)\<rparr>
              in Option.bind (addFreeNode ap s2) (\<lambda>s3.
                 Option.bind (nextFitCoalesce ap s3) (\<lambda>s4. Some (0, s4))))"

section \<open>The public functions\<close>

text \<open>\<open>for(; itr < ptr + roundedSlabAllocationSize; itr++) *itr = 0\<close>.\<close>

function zero_loop :: "int \<Rightarrow> int \<Rightarrow> mem_state \<Rightarrow> mem_state" where
  "zero_loop itr end s =
     (if itr < end then zero_loop (itr + 1) end (s\<lparr>bytes := (bytes s)(nat itr := 0)\<rparr>) else s)"
  by pat_completeness auto
termination
  by (relation "measure (\<lambda>(itr, end, s). nat (end - itr))") auto

declare zero_loop.simps [simp del]

definition initToZero :: "addr \<Rightarrow> bool \<Rightarrow> mem_state \<Rightarrow> mem_state" where
  "initToZero ptr isNextFit s =
     (let itr = (if isNextFit then int ptr + HDR else int ptr)
      in zero_loop itr (int ptr + roundedSlabAllocationSize s) s)"

text \<open>
  The slab loop of \<open>Mem_Init\<close>; \<open>itr\<close> is an integer because it ends below the region.
\<close>

partial_function (option) slab_init_loop :: "int \<Rightarrow> mem_state \<Rightarrow> (kerror + mem_state) option" where
  "slab_init_loop itr s =
     (if itr \<ge> int (regionStartPtr s)
      then case slabPush (nat itr) s of
             Inl e \<Rightarrow> Some (Inl e)
           | Inr s1 \<Rightarrow> slab_init_loop (itr - roundedSlabAllocationSize s1) s1
      else Some (Inr s))"

text \<open>
  \<open>mm\<close> is what \<open>mmap\<close> returns, \<open>None\<close> for \<open>MAP_FAILED\<close>. The division by 4 of a
  positive \<open>int\<close> is the same in C and in HOL.
\<close>

definition Mem_Init :: "addr option \<Rightarrow> int \<Rightarrow> int \<Rightarrow> mem_state \<Rightarrow> (kerror + addr \<times> mem_state) option" where
  "Mem_Init mm szRegion slabSize s =
     (let s0 = s\<lparr>roundedSlabAllocationSize := fitToAlignSize slabSize\<rparr> in
      if szRegion < 4 \<or> slabSize < 1 \<or> szRegion div 4 < roundedSlabAllocationSize s0 \<or>
         szRegion < roundedSlabAllocationSize s0
      then Some (Inr (0, s0))
      else if initializedOnce s0 then Some (Inr (0, s0))
      else
        let s1 = s0\<lparr>initializedOnce := True\<rparr> in
        if szRegion mod 4 \<noteq> 0 then Some (Inl (Panic ''assert(sizeOfRegion % 4 == 0)''))
        else
          let s2 = s1\<lparr>slabUnitSize := slabSize, sizeOfRegion := szRegion,
                       roundedSlabAllocationSize := fitToAlignSize slabSize\<rparr>;
              slabRegionSize = szRegion div 4;
              nextFitRegionSize = szRegion - slabRegionSize
          in case mm of None \<Rightarrow> Some (Inr (0, s2))
             | Some base \<Rightarrow>
               let s3 = s2\<lparr>regionStartPtr := base, topOfSlabStack := 0,
                            nextFitRegionStartPtr := padd base slabRegionSize\<rparr>
               in Option.bind (slab_init_loop
                    (int (nextFitRegionStartPtr s3) - roundedSlabAllocationSize s3) s3) (\<lambda>r.
                  case r of Inl e \<Rightarrow> Some (Inl e)
                  | Inr s4 \<Rightarrow>
                    let h = nextFitRegionStartPtr s4;
                        s5 = s4\<lparr>freeHead := h, hd_len := (hd_len s4)(h := s32 (nextFitRegionSize - HDR)),
                                 hd_ptr := (hd_ptr s4)(h := 0), nextPtr := h\<rparr>
                    in Some (Inr (base, s5))))"

definition Mem_Alloc :: "int \<Rightarrow> mem_state \<Rightarrow> (addr \<times> mem_state) option" where
  "Mem_Alloc sz s =
     (if \<not> initializedOnce s then Some (0, s)
      else
        let (ret, s1) = (if sz = slabUnitSize s then slabPop s else (0, s)) in
        if ret \<noteq> 0 then Some (ret, initToZero ret False s1)
        else Option.bind (nextFitAlloc sz s1) (\<lambda>(r, s2).
               Some (r, if sz = slabUnitSize s2 \<and> r \<noteq> 0 then initToZero r True s2 else s2)))"

definition Mem_Free :: "addr \<Rightarrow> mem_state \<Rightarrow> (kerror + int \<times> mem_state) option" where
  "Mem_Free ptr s =
     (if \<not> initializedOnce s then Some (Inr (- 1, s))
      else if ptr = 0 \<or> ptr < regionStartPtr s \<or> ptr > padd (regionStartPtr s) (sizeOfRegion s)
      then Some (Inr (- 1, s))
      else if int ptr mod ALIGN_SIZE \<noteq> 0 then Some (Inr (- 1, s))
      else if ptr < nextFitRegionStartPtr s then
        (if c_rem (s32 (int (nextFitRegionStartPtr s) - int ptr)) (roundedSlabAllocationSize s) \<noteq> 0
         then Some (Inr (- 1, s))
         else case slabPush ptr s of
                Inl e \<Rightarrow> Some (Inl e)
              | Inr s1 \<Rightarrow> Some (Inr (0, s1)))
      else Option.bind (nextFitFree ptr s) (\<lambda>(r, s1). Some (Inr (r, s1))))"

end
