(* ===== verification/MemInv.thy ===== *)
theory MemInv
  imports MemAlloc
begin

text \<open>
  Correctness of the next-fit half of p3/mem/mem.c against a list of blocks.

  A block \<open>(b, l, f)\<close> is a header at \<open>b\<close>, \<open>l\<close> payload bytes and a flag that says
  whether it is free. \<open>nf_inv s bs\<close> relates a state to the blocks in address order: they tile
  the region without gap or overlap, the free list links exactly the free ones in that order,
  each header word holds what the code stored there, and \<open>nextPtr\<close> is null or a free block.
  The pointer operations are first shown to act on \<open>linked\<close> lists, then on blocks.
\<close>

declare fun_upd_apply [simp del] fun_upd_same [simp] fun_upd_other [simp]

section \<open>The pointer operations on linked lists\<close>

lemma linked_remove:
  "as \<noteq> [] \<Longrightarrow> linked h p (as @ x # cs) \<Longrightarrow> linked (h(last as := h x)) p (as @ cs)"
proof (induction as arbitrary: p)
  case Nil
  then show ?case by simp
next
  case (Cons a as)
  have d: "distinct ((a # as) @ x # cs)" using Cons.prems(2) by (rule linked_distinct)
  show ?case
  proof (cases "as = []")
    case True
    with d have "linked (h(a := h x)) q cs \<longleftrightarrow> linked h q cs" for q
      by (intro linked_cong_on) (auto simp: fun_upd_apply)
    with True Cons.prems show ?thesis
      by simp
  next
    case False
    with Cons.IH Cons.prems have "linked (h(last as := h x)) (h a) (as @ cs)" by simp
    moreover have "a \<noteq> last as" using d False last_in_set [of as] by auto
    ultimately show ?thesis using Cons.prems False
      by simp
  qed
qed

lemma linked_insert_after:
  "as \<noteq> [] \<Longrightarrow> linked h p (as @ cs) \<Longrightarrow> x \<noteq> 0 \<Longrightarrow> x \<notin> set (as @ cs) \<Longrightarrow>
   linked (h(x := h (last as), last as := x)) p (as @ x # cs)"
proof (induction as arbitrary: p)
  case Nil
  then show ?case by simp
next
  case (Cons a as)
  have d: "distinct ((a # as) @ cs)" using Cons.prems(2) by (rule linked_distinct)
  show ?case
  proof (cases "as = []")
    case True
    with d Cons.prems have "linked (h(x := h a, a := x)) q cs \<longleftrightarrow> linked h q cs" for q
      by (intro linked_cong_on) (auto simp: fun_upd_apply)
    with True Cons.prems show ?thesis
      by auto
  next
    case False
    with Cons.IH Cons.prems have "linked (h(x := h (last as), last as := x)) (h a) (as @ x # cs)"
      by simp
    moreover have "a \<noteq> last as" "a \<noteq> x" using d False last_in_set [of as] Cons.prems by auto
    ultimately show ?thesis using Cons.prems False
      by simp
  qed
qed

lemma linked_last_next: "linked h p (as @ cs) \<Longrightarrow> as \<noteq> [] \<Longrightarrow> h (last as) = (case cs of [] \<Rightarrow> 0 | c # _ \<Rightarrow> c)"
proof (induction as arbitrary: p)
  case Nil
  then show ?case by simp
next
  case (Cons a as)
  then show ?case by (cases "as = []") (auto split: list.splits)
qed

lemma remove_loop_spec:
  "as \<noteq> [] \<Longrightarrow> linked (hd_ptr s) itr (as @ p # cs) \<Longrightarrow>
   remove_loop p itr s = Some (s\<lparr>hd_ptr := (hd_ptr s)(last as := hd_ptr s p)\<rparr>)"
proof (induction as arbitrary: itr)
  case Nil
  then show ?case by simp
next
  case (Cons a as)
  have d: "distinct ((a # as) @ p # cs)" using Cons.prems(2) by (rule linked_distinct)
  show ?case
  proof (cases as)
    case Nil
    with Cons.prems show ?thesis by (subst remove_loop.simps) auto
  next
    case as: (Cons b bs)
    with Cons.prems have itr: "itr = a" "a \<noteq> 0" "hd_ptr s a = b"
      and l: "linked (hd_ptr s) b (as @ p # cs)" by auto
    have "b \<noteq> p" using d as by auto
    with itr have "remove_loop p itr s = remove_loop p b s"
      by (subst remove_loop.simps) simp
    also have "\<dots> = Some (s\<lparr>hd_ptr := (hd_ptr s)(last as := hd_ptr s p)\<rparr>)"
      using Cons.IH [OF _ l] as by simp
    finally show ?thesis using as by simp
  qed
qed

lemma remove_loop_absent:
  "linked (hd_ptr s) itr xs \<Longrightarrow> p \<notin> set xs \<Longrightarrow> p \<noteq> 0 \<Longrightarrow> remove_loop p itr s = Some s"
proof (induction xs arbitrary: itr)
  case Nil
  then show ?case by (subst remove_loop.simps) simp
next
  case (Cons x xs)
  then have "hd_ptr s x \<noteq> p" by (cases xs) auto
  with Cons show ?case by (subst remove_loop.simps) simp
qed

lemma removeFreeNode_absent:
  "linked (hd_ptr s) (freeHead s) xs \<Longrightarrow> p \<notin> set xs \<Longrightarrow> p \<noteq> 0 \<Longrightarrow> removeFreeNode p s = Some s"
  using remove_loop_absent [of s "freeHead s" xs p]
  by (cases xs) (auto simp: removeFreeNode_def)

text \<open>What a list operation may change: the list head and second header words in \<open>A\<close>.\<close>

definition ptr_frame :: "addr set \<Rightarrow> mem_state \<Rightarrow> mem_state \<Rightarrow> bool" where
  "ptr_frame A s s' \<longleftrightarrow> s' = s\<lparr>freeHead := freeHead s', hd_ptr := hd_ptr s'\<rparr> \<and>
     (\<forall>x. x \<notin> A \<longrightarrow> hd_ptr s' x = hd_ptr s x)"

lemma removeFreeNode_spec:
  assumes "linked (hd_ptr s) (freeHead s) (as @ p # cs)"
  shows "\<exists>s'. removeFreeNode p s = Some s' \<and> linked (hd_ptr s') (freeHead s') (as @ cs) \<and>
    ptr_frame (set as) s s'"
proof (cases "as = []")
  case True
  with assms show ?thesis by (auto simp: removeFreeNode_def ptr_frame_def)
next
  case False
  then obtain a as' where as: "as = a # as'" by (cases as) auto
  have d: "distinct (as @ p # cs)" using assms by (rule linked_distinct)
  let ?s = "s\<lparr>hd_ptr := (hd_ptr s)(last as := hd_ptr s p)\<rparr>"
  have "freeHead s \<noteq> p" using assms as d by auto
  then have "removeFreeNode p s = Some ?s"
    using remove_loop_spec [OF False assms] by (simp add: removeFreeNode_def)
  moreover have "linked (hd_ptr ?s) (freeHead ?s) (as @ cs)"
    using linked_remove [OF False assms] by simp
  moreover have "ptr_frame (set as) s ?s"
    using False by (auto simp: ptr_frame_def fun_upd_apply)
  ultimately show ?thesis by blast
qed

lemma add_loop_spec:
  "as \<noteq> [] \<Longrightarrow> linked (hd_ptr s) itr (as @ cs) \<Longrightarrow> \<forall>x \<in> set as. x < p \<Longrightarrow> \<forall>x \<in> set cs. p < x \<Longrightarrow>
   add_loop p itr s = Some (s\<lparr>hd_ptr := (hd_ptr s)(p := hd_ptr s (last as), last as := p)\<rparr>)"
proof (induction as arbitrary: itr)
  case Nil
  then show ?case by simp
next
  case (Cons a as)
  have ia: "itr = a" "a \<noteq> 0" "a < p" using Cons.prems by auto
  show ?case
  proof (cases "as = []")
    case True
    show ?thesis
    proof (cases cs)
      case Nil
      with True Cons.prems ia show ?thesis
        by (subst add_loop.simps) (auto simp: fun_upd_twist)
    next
      case (Cons c cs')
      with True Cons.prems ia show ?thesis by (subst add_loop.simps) auto
    qed
  next
    case False
    then obtain b bs where as: "as = b # bs" by (cases as) auto
    with Cons.prems have b: "hd_ptr s a = b" "b \<noteq> 0" "b < p"
      and l: "linked (hd_ptr s) b (as @ cs)" by auto
    with ia have "add_loop p itr s = add_loop p b s"
      by (subst add_loop.simps) simp
    also have "\<dots> = Some (s\<lparr>hd_ptr := (hd_ptr s)(p := hd_ptr s (last as), last as := p)\<rparr>)"
      using Cons.IH [OF False l] Cons.prems by simp
    finally show ?thesis using as by simp
  qed
qed

lemma addFreeNode_spec:
  assumes l: "linked (hd_ptr s) (freeHead s) (as @ cs)"
    and lt: "\<forall>x \<in> set as. x < p" and gt: "\<forall>x \<in> set cs. p < x" and p: "p \<noteq> 0"
  shows "\<exists>s'. addFreeNode p s = Some s' \<and> linked (hd_ptr s') (freeHead s') (as @ p # cs) \<and>
    ptr_frame (insert p (set as)) s s'"
proof (cases "as = []")
  case True
  show ?thesis
  proof (cases cs)
    case Nil
    with True l p show ?thesis by (auto simp: addFreeNode_def ptr_frame_def)
  next
    case (Cons c cs')
    with True l gt have c: "freeHead s = c" "c \<noteq> 0" "p < c" by auto
    let ?s = "s\<lparr>hd_ptr := (hd_ptr s)(p := freeHead s), freeHead := p\<rparr>"
    have "addFreeNode p s = Some ?s" using c p by (simp add: addFreeNode_def)
    moreover have "p \<notin> set cs" using gt by auto
    with True l p have "linked (hd_ptr ?s) (freeHead ?s) (as @ p # cs)"
      by (simp add: linked_frame)
    moreover have "ptr_frame (insert p (set as)) s ?s" by (auto simp: ptr_frame_def)
    ultimately show ?thesis by blast
  qed
next
  case False
  then obtain a as' where as: "as = a # as'" by (cases as) auto
  let ?s = "s\<lparr>hd_ptr := (hd_ptr s)(p := hd_ptr s (last as), last as := p)\<rparr>"
  have "freeHead s = a" "a \<noteq> 0" "a < p" using l lt as by auto
  then have "addFreeNode p s = Some ?s"
    using add_loop_spec [OF False l lt gt] by (simp add: addFreeNode_def)
  moreover have "p \<notin> set (as @ cs)" using lt gt by auto
  then have "linked (hd_ptr ?s) (freeHead ?s) (as @ p # cs)"
    using linked_insert_after [OF False l p] by simp
  moreover have "ptr_frame (insert p (set as)) s ?s"
    using False by (auto simp: ptr_frame_def fun_upd_apply)
  ultimately show ?thesis by blast
qed

section \<open>Blocks\<close>

type_synonym block = "addr \<times> nat \<times> bool"

fun tiles :: "addr \<Rightarrow> block list \<Rightarrow> addr \<Rightarrow> bool" where
  "tiles a [] e \<longleftrightarrow> a = e"
| "tiles a ((b, l, f) # bs) e \<longleftrightarrow> b = a \<and> 16 dvd l \<and> tiles (a + 16 + l) bs e"

definition free_starts :: "block list \<Rightarrow> addr list" where
  "free_starts bs = map fst (filter (\<lambda>(b, l, f). f) bs)"

definition block_ok :: "mem_state \<Rightarrow> block \<Rightarrow> bool" where
  "block_ok s = (\<lambda>(b, l, f). hd_len s b = int l \<and> (\<not> f \<longrightarrow> hd_ptr s b = MAGIC))"

definition regionEnd :: "mem_state \<Rightarrow> addr" where
  "regionEnd s = regionStartPtr s + nat (sizeOfRegion s)"

definition nf_inv :: "mem_state \<Rightarrow> block list \<Rightarrow> bool" where
  "nf_inv s bs \<longleftrightarrow>
     tiles (nextFitRegionStartPtr s) bs (regionEnd s) \<and>
     16 dvd nextFitRegionStartPtr s \<and> 0 < nextFitRegionStartPtr s \<and>
     regionEnd s < nextFitRegionStartPtr s + 2 ^ 31 \<and>
     linked (hd_ptr s) (freeHead s) (free_starts bs) \<and>
     (\<forall>b \<in> set bs. block_ok s b) \<and>
     (nextPtr s = 0 \<or> nextPtr s \<in> set (free_starts bs))"

lemma free_starts_simps [simp]:
  "free_starts [] = []"
  "free_starts ((b, l, f) # bs) = (if f then b # free_starts bs else free_starts bs)"
  "free_starts (us @ vs) = free_starts us @ free_starts vs"
  by (simp_all add: free_starts_def)

lemma free_starts_mem: "x \<in> set (free_starts bs) \<longleftrightarrow> (\<exists>l. (x, l, True) \<in> set bs)"
  by (induction bs) (auto split: if_splits)

lemma tiles_le: "tiles a bs e \<Longrightarrow> a \<le> e"
  by (induction a bs e rule: tiles.induct) auto

lemma tiles_append: "tiles a (us @ vs) e \<longleftrightarrow> (\<exists>m. tiles a us m \<and> tiles m vs e)"
  by (induction us arbitrary: a) auto

lemma tiles_bounds: "tiles a bs e \<Longrightarrow> (b, l, f) \<in> set bs \<Longrightarrow> a \<le> b \<and> b + 16 + l \<le> e"
proof (induction bs arbitrary: a)
  case Nil
  then show ?case by simp
next
  case (Cons x bs)
  obtain c m g where x: "x = (c, m, g)" by (cases x)
  with Cons.prems have t: "tiles (a + 16 + m) bs e" and c: "c = a" by auto
  from tiles_le [OF t] Cons.IH [OF t] Cons.prems(2) x c show ?case by fastforce
qed

lemma tiles_aligned: "tiles a bs e \<Longrightarrow> 16 dvd a \<Longrightarrow> (b, l, f) \<in> set bs \<Longrightarrow> 16 dvd b \<and> 16 dvd l"
proof (induction bs arbitrary: a)
  case Nil
  then show ?case by simp
next
  case (Cons x bs)
  obtain c m g where x: "x = (c, m, g)" by (cases x)
  with Cons.prems have t: "tiles (a + 16 + m) bs e" and c: "c = a" "16 dvd m" by auto
  have "16 dvd a + 16 + m" using Cons.prems(2) c(2) by simp
  from Cons.IH [OF t this] Cons.prems x c show ?case by auto
qed

lemma tiles_split_bounds:
  assumes "tiles a (us @ (b, l, f) # vs) e"
  shows "tiles a us b" "16 dvd l" "tiles (b + 16 + l) vs e"
    "\<forall>x \<in> set (map fst us). x < b" "\<forall>x \<in> set (map fst vs). b < x"
proof -
  from assms show t: "tiles a us b" "16 dvd l" "tiles (b + 16 + l) vs e"
    by (auto simp: tiles_append)
  from tiles_bounds [OF t(1)] show "\<forall>x \<in> set (map fst us). x < b" by fastforce
  from tiles_bounds [OF t(3)] show "\<forall>x \<in> set (map fst vs). b < x" by fastforce
qed

lemma free_starts_sub: "set (free_starts bs) \<subseteq> set (map fst bs)"
  by (auto simp: free_starts_def)

lemma tiles_distinct: "tiles a bs e \<Longrightarrow> distinct (map fst bs)"
proof (induction bs arbitrary: a)
  case Nil
  then show ?case by simp
next
  case (Cons x bs)
  obtain c m g where x: "x = (c, m, g)" by (cases x)
  with Cons.prems have t: "tiles (a + 16 + m) bs e" and c: "c = a" by auto
  have "c \<notin> set (map fst bs)" using tiles_bounds [OF t] c by fastforce
  with Cons.IH [OF t] x show ?case by simp
qed

section \<open>The search of the next-fit loop\<close>

text \<open>The order in which \<open>nextFitAlloc\<close> tries the free chunks.\<close>

definition nf_order :: "addr \<Rightarrow> addr list \<Rightarrow> addr list" where
  "nf_order np F = (if np = 0 then F else dropWhile (\<lambda>x. x \<noteq> np) F @ takeWhile (\<lambda>x. x \<noteq> np) F)"

lemma nf_order_split: "np \<noteq> 0 \<Longrightarrow> np \<notin> set as \<Longrightarrow> nf_order np (as @ np # cs) = np # cs @ as"
proof -
  assume np: "np \<noteq> 0" "np \<notin> set as"
  then have "\<forall>x \<in> set as. x \<noteq> np" by auto
  then have "dropWhile (\<lambda>x. x \<noteq> np) (as @ np # cs) = np # cs"
    "takeWhile (\<lambda>x. x \<noteq> np) (as @ np # cs) = as"
    by (induction as) auto
  with np show ?thesis by (simp add: nf_order_def)
qed

lemma nf_next_linked:
  "linked (hd_ptr s) (freeHead s) (us @ x # vs) \<Longrightarrow>
   nf_next s x = (case vs of [] \<Rightarrow> freeHead s | v # _ \<Rightarrow> v)"
  using linked_last_next [of "hd_ptr s" "freeHead s" "us @ [x]" vs]
    linked_nonzero [of "hd_ptr s" "freeHead s" "us @ x # vs"]
  by (cases vs) (auto simp: nf_next_def)

lemma nf_next_cyclic:
  assumes l: "linked (hd_ptr s) (freeHead s) (as @ np # cs)"
    and sp: "np # cs @ as = pre @ x # post"
  shows "nf_next s x = hd (post @ [np])"
proof -
  have h: "freeHead s = hd (as @ [np])" using l by (cases as) auto
  from sp have "(np # cs) @ as = pre @ (x # post)" by simp
  then consider (left) us where "np # cs = pre @ us" "us @ as = x # post"
    | (right) us where "(np # cs) @ us = pre" "as = us @ x # post"
    unfolding append_eq_append_conv2 by blast
  then show ?thesis
  proof cases
    case left
    show ?thesis
    proof (cases us)
      case Nil
      with left have as: "as = x # post" "pre = np # cs" by auto
      with l have "linked (hd_ptr s) (freeHead s) ([] @ x # (post @ np # cs))" by simp
      from nf_next_linked [OF this] show ?thesis by (cases post) auto
    next
      case (Cons u us')
      with left have x: "u = x" "post = us' @ as" by auto
      have "linked (hd_ptr s) (freeHead s) ((as @ pre) @ x # us')"
        using l left(1) Cons x by simp
      from nf_next_linked [OF this] h x show ?thesis by (cases us') auto
    qed
  next
    case right
    with l have "linked (hd_ptr s) (freeHead s) (us @ x # (post @ np # cs))" by simp
    from nf_next_linked [OF this] show ?thesis by (cases post) auto
  qed
qed

lemma nf_search_spec:
  assumes l: "linked (hd_ptr s) (freeHead s) (as @ np # cs)" and np: "nextPtr s = np"
  shows "np # cs @ as = pre @ x # post \<Longrightarrow>
    nf_search s al x = Some (case find (chunk_fits s al) (x # post) of None \<Rightarrow> 0 | Some p \<Rightarrow> p)"
proof (induction post arbitrary: pre x)
  case Nil
  from nf_next_cyclic [OF l Nil] np show ?case by (subst nf_search.simps) simp
next
  case (Cons y post)
  have d: "distinct (as @ np # cs)" using l by (rule linked_distinct)
  then have "distinct (np # cs @ as)" by auto
  then have "distinct (pre @ x # y # post)" by (simp only: Cons.prems)
  moreover have "np \<in> set (pre @ [x])" using Cons.prems by (cases pre) auto
  ultimately have "y \<noteq> np" by auto
  have n: "nf_next s x = y" using nf_next_cyclic [OF l Cons.prems] by simp
  have "nf_search s al y = Some (case find (chunk_fits s al) (y # post) of None \<Rightarrow> 0 | Some p \<Rightarrow> p)"
    using Cons.IH [of "pre @ [x]" y] Cons.prems by simp
  then show ?case using n np \<open>y \<noteq> np\<close>
    by (subst nf_search.simps) (simp split: option.splits)
qed

lemma nf_search_order:
  assumes l: "linked (hd_ptr s) (freeHead s) F" and np: "nextPtr s \<in> set F"
  shows "nf_search s al (nextPtr s) =
    Some (case find (chunk_fits s al) (nf_order (nextPtr s) F) of None \<Rightarrow> 0 | Some p \<Rightarrow> p)"
proof -
  from np obtain as cs where F: "F = as @ nextPtr s # cs" "nextPtr s \<notin> set as"
    by (meson split_list_first)
  have "nextPtr s \<noteq> 0" using linked_nonzero [OF l] np by metis
  with F have "nf_order (nextPtr s) F = nextPtr s # cs @ as" by (simp add: nf_order_split)
  with nf_search_spec [OF l [unfolded F(1)] refl, of "[]" "nextPtr s" "cs @ as"] show ?thesis
    by simp
qed

section \<open>Rounding and the guard\<close>

lemma fitToAlignSize_spec:
  assumes "0 \<le> sz"
  shows "16 dvd fitToAlignSize sz" "sz \<le> fitToAlignSize sz" "fitToAlignSize sz < sz + 16"
proof -
  have e: "fitToAlignSize sz = (if sz mod 16 = 0 then sz else sz + (16 - sz mod 16))"
    using assms by (simp add: fitToAlignSize_def ALIGN_SIZE_def c_rem_nonneg)
  have r: "0 \<le> sz mod 16" "sz mod 16 < 16" by simp_all
  have d: "fitToAlignSize sz = sz \<or> (fitToAlignSize sz = sz + (16 - sz mod 16) \<and> sz mod 16 \<noteq> 0)"
    using e by metis
  from d r show "sz \<le> fitToAlignSize sz" by (elim disjE conjE) linarith+
  from d r show "fitToAlignSize sz < sz + 16" by (elim disjE conjE) linarith+
  have "sz + (16 - sz mod 16) = 16 * (sz div 16 + 1)"
    using minus_mod_eq_mult_div [of sz 16] by (simp add: algebra_simps)
  with e show "16 dvd fitToAlignSize sz" by (metis dvd_triv_left mod_0_imp_dvd)
qed

lemma nf_inv_len_bound:
  assumes "nf_inv s bs" "(b, l, f) \<in> set bs"
  shows "hd_len s b = int l" "int l + 16 < 2 ^ 31" "16 dvd l" "16 dvd b" "0 < b"
proof -
  from assms have t: "tiles (nextFitRegionStartPtr s) bs (regionEnd s)"
    and e: "regionEnd s < nextFitRegionStartPtr s + 2 ^ 31"
    and a: "16 dvd nextFitRegionStartPtr s" "0 < nextFitRegionStartPtr s"
    and ok: "block_ok s (b, l, f)" by (auto simp: nf_inv_def)
  from ok show "hd_len s b = int l" by (simp add: block_ok_def)
  from tiles_bounds [OF t assms(2)] e show "int l + 16 < 2 ^ 31" by simp
  from tiles_aligned [OF t a(1) assms(2)] show "16 dvd l" "16 dvd b" by auto
  from tiles_bounds [OF t assms(2)] a show "0 < b" by simp
qed

lemma chunk_fits_iff:
  assumes "nf_inv s bs" "(b, l, f) \<in> set bs" "0 \<le> al" "al < 2 ^ 31"
  shows "chunk_fits s al b \<longleftrightarrow> al \<le> int l"
    and "u64 (hd_len s b + HDR) = u64 (al + HDR) \<longleftrightarrow> al = int l"
    and "u64 (hd_len s b + HDR) > u64 (al + HDR) \<longleftrightarrow> int l > al"
proof -
  note nf_inv_len_bound [OF assms(1,2)]
  with assms(3,4) have "u64 (hd_len s b + HDR) = int l + 16" "u64 (al + HDR) = al + 16"
    by (simp_all add: u64_id HDR_def)
  then show "chunk_fits s al b \<longleftrightarrow> al \<le> int l"
    "u64 (hd_len s b + HDR) = u64 (al + HDR) \<longleftrightarrow> al = int l"
    "u64 (hd_len s b + HDR) > u64 (al + HDR) \<longleftrightarrow> int l > al"
    by (auto simp: chunk_fits_def)
qed

section \<open>Allocation keeps the invariant\<close>

text \<open>What is left of a free block \<open>(b, l)\<close> when \<open>a\<close> bytes are taken from its front.\<close>

definition carve :: "addr \<Rightarrow> nat \<Rightarrow> nat \<Rightarrow> block list" where
  "carve b l a = (if l = a then [(b, l, False)]
                  else [(b, a, False), (b + 16 + a, l - a - 16, True)])"

lemma block_ok_agree:
  assumes "\<forall>b \<in> set bs. block_ok s b"
    and "\<And>b l f. (b, l, f) \<in> set bs \<Longrightarrow> hd_len s' b = hd_len s b"
    and "\<And>b l. (b, l, False) \<in> set bs \<Longrightarrow> hd_ptr s' b = hd_ptr s b"
  shows "\<forall>b \<in> set bs. block_ok s' b"
  using assms by (fastforce simp: block_ok_def)

lemma nf_inv_split:
  assumes "nf_inv s (us @ (b, l, f) # vs)"
  shows "tiles (nextFitRegionStartPtr s) us b" "16 dvd l" "tiles (b + 16 + l) vs (regionEnd s)"
    "\<forall>x \<in> set (map fst us). x < b" "\<forall>x \<in> set (map fst vs). b + 16 + l \<le> x"
    "b \<notin> set (map fst us)" "b \<notin> set (map fst vs)"
    "distinct (map fst (us @ (b, l, f) # vs))" "b \<noteq> 0" "16 dvd b"
proof -
  from assms have t: "tiles (nextFitRegionStartPtr s) (us @ (b, l, f) # vs) (regionEnd s)"
    by (simp add: nf_inv_def)
  note sp = tiles_split_bounds [OF t]
  from sp show "tiles (nextFitRegionStartPtr s) us b" "16 dvd l"
    "tiles (b + 16 + l) vs (regionEnd s)" "\<forall>x \<in> set (map fst us). x < b" by auto
  from tiles_bounds [OF sp(3)] show "\<forall>x \<in> set (map fst vs). b + 16 + l \<le> x" by fastforce
  from sp show "b \<notin> set (map fst us)" "b \<notin> set (map fst vs)" by auto
  from tiles_distinct [OF t] show "distinct (map fst (us @ (b, l, f) # vs))" .
  from nf_inv_len_bound [OF assms, of b l f] show "b \<noteq> 0" "16 dvd b" by auto
qed

lemma nonfree_not_free_start:
  "distinct (map fst bs) \<Longrightarrow> (x, m, False) \<in> set bs \<Longrightarrow> x \<notin> set (free_starts bs)"
  by (force simp: free_starts_mem dest: eq_key_imp_eq_value)

lemma nf_take_spec:
  assumes inv: "nf_inv s (us @ (b, l, True) # vs)" and al: "al = int a" "a \<le> l" "16 dvd a"
  shows "\<exists>s'. nf_take b al s = Some (b + 16, s') \<and> nf_inv s' (us @ carve b l a @ vs)"
proof -
  let ?bs = "us @ (b, l, True) # vs"
  note sp = nf_inv_split [OF inv]
  note len = nf_inv_len_bound [OF inv, of b l True, simplified]
  from len(2) al have "al < 2 ^ 31" by simp
  then have guard: "u64 (hd_len s b + HDR) = u64 (al + HDR) \<longleftrightarrow> a = l"
    "u64 (hd_len s b + HDR) > u64 (al + HDR) \<longleftrightarrow> a < l"
    using chunk_fits_iff [OF inv, of b l True al] al by auto
  from inv have l: "linked (hd_ptr s) (freeHead s) (free_starts us @ b # free_starts vs)"
    by (simp add: nf_inv_def)
  from inv have ok: "\<forall>x \<in> set ?bs. block_ok s x" by (simp add: nf_inv_def)
  have fs: "set (free_starts us) \<subseteq> set (map fst us)" "set (free_starts vs) \<subseteq> set (map fst vs)"
    by (rule free_starts_sub)+
  define s1 where "s1 = (if a = l then s\<lparr>nextPtr := hd_ptr s b\<rparr> else s)"
  have s1: "hd_ptr s1 = hd_ptr s" "freeHead s1 = freeHead s" "hd_len s1 = hd_len s"
    "regionEnd s1 = regionEnd s" "nextFitRegionStartPtr s1 = nextFitRegionStartPtr s"
    by (simp_all add: s1_def regionEnd_def)
  from removeFreeNode_spec [of s1, unfolded s1, OF l] obtain s2 where
    s2: "removeFreeNode b s1 = Some s2"
      "linked (hd_ptr s2) (freeHead s2) (free_starts us @ free_starts vs)"
      "ptr_frame (set (free_starts us)) s1 s2" by blast
  define s3 where "s3 = s2\<lparr>hd_ptr := (hd_ptr s2)(b := MAGIC), hd_len := (hd_len s2)(b := al)\<rparr>"
  have f2: "hd_len s2 = hd_len s1" "regionEnd s2 = regionEnd s1" "nextPtr s2 = nextPtr s1"
    "nextFitRegionStartPtr s2 = nextFitRegionStartPtr s1"
    "\<And>x. x \<notin> set (free_starts us) \<Longrightarrow> hd_ptr s2 x = hd_ptr s1 x"
    using s2(3) unfolding ptr_frame_def regionEnd_def by (metis mem_state.simps mem_state.surjective)+
  have b_notin: "b \<notin> set (free_starts us @ free_starts vs)" using sp fs by auto
  have l3: "linked (hd_ptr s3) (freeHead s3) (free_starts us @ free_starts vs)"
    using s2(2) b_notin by (simp add: s3_def linked_frame)
  have nf: "x \<notin> set (free_starts us)" "x \<noteq> b" if "(x, m, False) \<in> set us \<union> set vs" for x m
    using nonfree_not_free_start [OF sp(8), of x m] that sp(6,7) by force+
  have ok3: "\<forall>x \<in> set (us @ vs). block_ok s3 x"
  proof (rule block_ok_agree)
    show "\<forall>x \<in> set (us @ vs). block_ok s x" using ok by auto
    show "hd_len s3 x = hd_len s x" if "(x, m, f) \<in> set (us @ vs)" for x m f
      using that sp(6,7) f2(1) s1(3) by (force simp: s3_def)
    show "hd_ptr s3 x = hd_ptr s x" if "(x, m, False) \<in> set (us @ vs)" for x m
      using that nf [of x m] f2(5) s1(1) by (auto simp: s3_def)
  qed
  have okb: "block_ok s3 (b, a, False)" by (simp add: block_ok_def s3_def al)
  have geo3: "regionEnd s3 = regionEnd s" "nextFitRegionStartPtr s3 = nextFitRegionStartPtr s"
    using f2 s1 by (simp_all add: s3_def regionEnd_def)
  have base: "16 dvd nextFitRegionStartPtr s" "0 < nextFitRegionStartPtr s"
    "regionEnd s < nextFitRegionStartPtr s + 2 ^ 31" using inv by (simp_all add: nf_inv_def)
  have pb: "padd b HDR = b + 16" by (simp add: padd_def HDR_def)
  show ?thesis
  proof (cases "a = l")
    case True
    have "nextPtr s3 = hd_ptr s b" using f2(3) True by (simp add: s3_def s1_def)
    moreover have "hd_ptr s b = (case free_starts vs of [] \<Rightarrow> 0 | c # _ \<Rightarrow> c)"
      using linked_last_next [of "hd_ptr s" _ "free_starts us @ [b]" "free_starts vs"] l by simp
    ultimately have np: "nextPtr s3 = 0 \<or> nextPtr s3 \<in> set (free_starts vs)"
      by (auto split: list.splits)
    have "nf_take b al s = Some (b + 16, s3)"
      using guard s2(1) True pb by (simp add: nf_take_def Let_def s1_def s3_def)
    moreover have "nf_inv s3 (us @ carve b l a @ vs)"
      unfolding nf_inv_def carve_def using True sp(1-3) geo3 base l3 ok3 okb np
      by (auto simp: tiles_append)
    ultimately show ?thesis by blast
  next
    case False
    with al have lt: "a < l" by simp
    with al(3) sp(2) have ge: "a + 16 \<le> l"
      by (metis dvd_diff_nat dvd_imp_le le_diff_conv2 less_imp_le_nat zero_less_diff add.commute)
    define lo where "lo = b + 16 + a"
    have lo: "padd b (al + HDR) = lo" by (simp add: lo_def padd_def al HDR_def)
    define s4 where "s4 = s3\<lparr>hd_len := (hd_len s3)(lo := int (l - a - 16))\<rparr>"
    have vlen: "s32 (hd_len s1 b - al - HDR) = int (l - a - 16)"
      using s1(3) len(1,2) ge al by (simp add: s32_id HDR_def)
    have lo_us: "\<forall>x \<in> set (map fst us). x < lo" using sp(4) by (auto simp: lo_def)
    have lo_vs: "\<forall>x \<in> set (map fst vs). lo < x" using sp(5) ge by (fastforce simp: lo_def)
    have "linked (hd_ptr s4) (freeHead s4) (free_starts us @ free_starts vs)"
      using l3 by (simp add: s4_def)
    moreover have "\<forall>x \<in> set (free_starts us). x < lo" "\<forall>x \<in> set (free_starts vs). lo < x" "lo \<noteq> 0"
      using lo_us lo_vs fs by (auto simp: lo_def)
    ultimately obtain s5 where s5: "addFreeNode lo s4 = Some s5"
      "linked (hd_ptr s5) (freeHead s5) (free_starts us @ lo # free_starts vs)"
      "ptr_frame (insert lo (set (free_starts us))) s4 s5"
      using addFreeNode_spec [of s4 "free_starts us" "free_starts vs" lo] by blast
    define s6 where "s6 = s5\<lparr>nextPtr := lo\<rparr>"
    have f5: "hd_len s5 = hd_len s4" "regionEnd s5 = regionEnd s4"
      "nextFitRegionStartPtr s5 = nextFitRegionStartPtr s4"
      "\<And>x. x \<notin> insert lo (set (free_starts us)) \<Longrightarrow> hd_ptr s5 x = hd_ptr s4 x"
      using s5(3) unfolding ptr_frame_def regionEnd_def
      by (metis mem_state.simps mem_state.surjective)+
    have bl: "b \<noteq> lo" by (simp add: lo_def)
    have "\<forall>x \<in> set (us @ (b, a, False) # vs). block_ok s6 x"
    proof (rule block_ok_agree)
      show "\<forall>x \<in> set (us @ (b, a, False) # vs). block_ok s3 x" using ok3 okb by auto
      show "hd_len s6 x = hd_len s3 x" if "(x, m, f) \<in> set (us @ (b, a, False) # vs)" for x m f
      proof -
        have "x \<noteq> lo" using that lo_us lo_vs bl by fastforce
        then show ?thesis using f5(1) by (simp add: s6_def s4_def)
      qed
      show "hd_ptr s6 x = hd_ptr s3 x" if "(x, m, False) \<in> set (us @ (b, a, False) # vs)" for x m
      proof -
        have "x \<noteq> lo" using that lo_us lo_vs bl by fastforce
        moreover have "x \<notin> set (free_starts us)" using that nf(1) [of x m] b_notin by auto
        ultimately show ?thesis using f5(4) [of x] by (simp add: s6_def s4_def)
      qed
    qed
    moreover have "block_ok s6 (lo, l - a - 16, True)"
      using f5(1) by (simp add: block_ok_def s6_def s4_def)
    moreover have "linked (hd_ptr s6) (freeHead s6) (free_starts us @ lo # free_starts vs)"
      using s5(2) by (simp add: s6_def)
    moreover have "16 dvd l - a - 16" using sp(2) al(3) ge by (simp add: dvd_diff_nat)
    moreover have "regionEnd s6 = regionEnd s" "nextFitRegionStartPtr s6 = nextFitRegionStartPtr s"
      using f5 geo3 by (simp_all add: s6_def s4_def regionEnd_def)
    moreover have "nextPtr s6 = lo" by (simp add: s6_def)
    moreover have "b + 16 + a + 16 + (l - a - 16) = b + 16 + l" using ge by simp
    ultimately have "nf_inv s6 (us @ carve b l a @ vs)"
      unfolding nf_inv_def carve_def using False sp(1-3) base al(3)
      by (auto simp: tiles_append lo_def ac_simps)
    moreover have "nf_take b al s = Some (b + 16, s6)"
      using guard s2(1) False lt lo vlen s5(1) pb
      by (simp add: nf_take_def Let_def s1_def s3_def s4_def s6_def)
    ultimately show ?thesis by blast
  qed
qed


text \<open>The start of the block chosen by a request, as the code's search order gives it.\<close>

definition nf_choice :: "mem_state \<Rightarrow> block list \<Rightarrow> int \<Rightarrow> addr option" where
  "nf_choice s bs al = find (\<lambda>x. \<exists>l. (x, l, True) \<in> set bs \<and> al \<le> int l)
                            (nf_order (nextPtr s) (free_starts bs))"

lemma find_cong_on: "(\<And>x. x \<in> set xs \<Longrightarrow> P x = Q x) \<Longrightarrow> find P xs = find Q xs"
  by (induction xs) auto

lemma set_nf_order: "set (nf_order np F) = set F"
  by (auto simp: nf_order_def dest: set_takeWhileD set_dropWhileD)
     (metis (mono_tags, lifting) Un_iff set_append takeWhile_dropWhile_id)

lemma nf_order_head: "F \<noteq> [] \<Longrightarrow> nf_order (hd F) F = F"
  by (cases F) (auto simp: nf_order_def)

lemma nextFitAlloc_search:
  assumes inv: "nf_inv s bs" and sz: "0 \<le> sz" "sz + 16 \<le> 2 ^ 31" and ne: "free_starts bs \<noteq> []"
  shows "\<exists>s1. nf_inv s1 bs \<and> regionEnd s1 = regionEnd s \<and>
    nextFitAlloc sz s = (case nf_choice s bs (fitToAlignSize sz) of None \<Rightarrow> Some (0, s1)
                         | Some b \<Rightarrow> nf_take b (fitToAlignSize sz) s1)"
proof -
  define al where "al = fitToAlignSize sz"
  have al: "0 \<le> al" "al < 2 ^ 31" using fitToAlignSize_spec [OF sz(1)] sz by (auto simp: al_def)
  let ?F = "free_starts bs"
  define s1 where "s1 = (if nextPtr s = 0 then s\<lparr>nextPtr := freeHead s\<rparr> else s)"
  have l: "linked (hd_ptr s) (freeHead s) ?F" using inv by (simp add: nf_inv_def)
  then have h: "freeHead s = hd ?F" "freeHead s \<noteq> 0" using ne by (cases ?F; auto)+
  have same: "regionEnd s1 = regionEnd s" "hd_len s1 = hd_len s" "hd_ptr s1 = hd_ptr s"
    "freeHead s1 = freeHead s" "nextFitRegionStartPtr s1 = nextFitRegionStartPtr s"
    by (simp_all add: s1_def regionEnd_def)
  have np1: "nextPtr s1 \<in> set ?F" using inv h ne by (auto simp: s1_def nf_inv_def)
  have inv1: "nf_inv s1 bs" using inv same np1 by (auto simp: nf_inv_def block_ok_def)
  have ord: "nf_order (nextPtr s1) ?F = nf_order (nextPtr s) ?F"
    using h ne by (auto simp: s1_def nf_order_head) (simp add: nf_order_def)
  have "find (chunk_fits s1 al) (nf_order (nextPtr s1) ?F) = nf_choice s bs al"
    unfolding nf_choice_def ord
  proof (rule find_cong_on)
    fix x assume "x \<in> set (nf_order (nextPtr s) ?F)"
    then obtain l where x: "(x, l, True) \<in> set bs" by (auto simp: set_nf_order free_starts_mem)
    have u: "int m = int l" if "(x, m, True) \<in> set bs" for m
      using nf_inv_len_bound(1) [OF inv x] nf_inv_len_bound(1) [OF inv that] by simp
    have "chunk_fits s1 al x \<longleftrightarrow> al \<le> int l" by (rule chunk_fits_iff(1) [OF inv1 x al])
    then show "chunk_fits s1 al x = (\<exists>l. (x, l, True) \<in> set bs \<and> al \<le> int l)"
      using x u by metis
  qed
  then have "nf_search s1 al (nextPtr s1) =
      Some (case nf_choice s bs al of None \<Rightarrow> 0 | Some p \<Rightarrow> p)"
    using nf_search_order [OF _ np1, of al] l same by simp
  moreover have "nf_choice s bs al = Some b \<Longrightarrow> b \<noteq> 0" for b
  proof -
    assume "nf_choice s bs al = Some b"
    then have "b \<in> set (nf_order (nextPtr s) ?F)" by (auto simp: nf_choice_def find_Some_iff)
    then have "b \<in> set ?F" by (simp only: set_nf_order)
    then show "b \<noteq> 0" using linked_nonzero [OF l] by metis
  qed
  ultimately have "nextFitAlloc sz s = (case nf_choice s bs al of None \<Rightarrow> Some (0, s1)
                         | Some b \<Rightarrow> nf_take b al s1)"
    using h(2) by (auto simp: nextFitAlloc_def Let_def al_def s1_def split: option.splits)
  with inv1 same(1) show ?thesis unfolding al_def by blast
qed

lemma nf_choice_block:
  assumes "nf_inv s bs" "nf_choice s bs al = Some b"
  obtains us l vs where "bs = us @ (b, l, True) # vs" "al \<le> int l"
  using assms by (fastforce simp: nf_choice_def find_Some_iff in_set_conv_decomp)

lemma nf_choice_None:
  "nf_choice s bs al = None \<longleftrightarrow> (\<forall>b l. (b, l, True) \<in> set bs \<longrightarrow> int l < al)"
  by (auto simp: nf_choice_def find_None_iff set_nf_order free_starts_mem not_le)


text \<open>Allocation as one theorem: the two outcomes of \<open>nextFitAlloc\<close> on a well-formed region.\<close>

lemma nextFitAlloc_spec:
  assumes inv: "nf_inv s bs" and sz: "0 \<le> sz" "sz + 16 \<le> 2 ^ 31"
  shows "(nf_choice s bs (fitToAlignSize sz) = None \<longrightarrow>
            (\<exists>s'. nextFitAlloc sz s = Some (0, s') \<and> nf_inv s' bs)) \<and>
         (\<forall>b. nf_choice s bs (fitToAlignSize sz) = Some b \<longrightarrow>
            (\<exists>us l vs s'. bs = us @ (b, l, True) # vs \<and> fitToAlignSize sz \<le> int l \<and>
               nextFitAlloc sz s = Some (b + 16, s') \<and>
               nf_inv s' (us @ carve b l (nat (fitToAlignSize sz)) @ vs)))"
proof (cases "free_starts bs = []")
  case True
  then have "nf_choice s bs al = None" for al
    by (auto simp: nf_choice_def find_None_iff set_nf_order)
  moreover have "freeHead s = 0" using inv True by (simp add: nf_inv_def)
  ultimately show ?thesis using inv by (simp add: nextFitAlloc_def Let_def)
next
  case False
  define al where "al = fitToAlignSize sz"
  from nextFitAlloc_search [OF inv sz False] obtain s1 where inv1: "nf_inv s1 bs"
    and al_eq: "nextFitAlloc sz s = (case nf_choice s bs al of None \<Rightarrow> Some (0, s1)
                 | Some b \<Rightarrow> nf_take b al s1)" unfolding al_def by blast
  have al: "al = int (nat al)" "16 dvd nat al"
  proof -
    have "0 \<le> al" "16 dvd al" using fitToAlignSize_spec [OF sz(1)] sz(1) by (auto simp: al_def)
    then show "al = int (nat al)" "16 dvd nat al"
      by (simp, metis \<open>0 \<le> al\<close> \<open>16 dvd al\<close> int_dvd_int_iff int_nat_eq of_nat_numeral)
  qed
  have "\<exists>us l vs s'. bs = us @ (b, l, True) # vs \<and> al \<le> int l \<and>
          nextFitAlloc sz s = Some (b + 16, s') \<and> nf_inv s' (us @ carve b l (nat al) @ vs)"
    if ch: "nf_choice s bs al = Some b" for b
  proof -
    from nf_choice_block [OF inv ch] obtain us l vs
      where bs: "bs = us @ (b, l, True) # vs" "al \<le> int l" .
    have "nat al \<le> l" using bs(2) al(1) by linarith
    from nf_take_spec [OF inv1 [unfolded bs(1)] al(1) this al(2)] al_eq ch bs show ?thesis
      by auto
  qed
  with inv1 al_eq show ?thesis unfolding al_def [symmetric] by auto
qed

section \<open>Freeing merges with both neighbours\<close>

text \<open>The blocks after the allocated block \<open>(b, l)\<close> between \<open>us\<close> and \<open>vs\<close> is freed.\<close>

definition join_next :: "nat \<Rightarrow> block list \<Rightarrow> nat \<times> block list" where
  "join_next l vs = (case vs of (c, m, True) # ws \<Rightarrow> (l + (m + 16), ws) | _ \<Rightarrow> (l, vs))"

definition release_block :: "block list \<Rightarrow> addr \<Rightarrow> nat \<Rightarrow> block list \<Rightarrow> block list" where
  "release_block us b l vs =
     (let (l', vs') = join_next l vs in
      case rev us of (c, m, True) # ws \<Rightarrow> rev ws @ (c, m + (l' + 16), True) # vs'
                   | _ \<Rightarrow> us @ (b, l', True) # vs')"

lemma coal_scan_spec:
  "linked (hd_ptr s) itr xs \<Longrightarrow>
   coal_scan s fp nn itr prev nif =
     Some (foldl (\<lambda>q x. if padd x (hd_len s x + HDR) = fp then x else q) prev xs,
           nif \<or> (\<exists>x \<in> set xs. padd x (hd_len s x + HDR) \<noteq> fp \<and> x = nn))"
proof (induction xs arbitrary: itr prev nif)
  case Nil
  then show ?case by (subst coal_scan.simps) simp
next
  case (Cons x xs)
  then have i: "itr = x" "x \<noteq> 0" "linked (hd_ptr s) (hd_ptr s x) xs" by auto
  show ?case using Cons.IH [OF i(3)] i(1,2)
    by (subst coal_scan.simps) auto
qed


lemma ptr_frameD:
  assumes "ptr_frame A s s'"
  shows "hd_len s' = hd_len s" "regionEnd s' = regionEnd s" "nextPtr s' = nextPtr s"
    "nextFitRegionStartPtr s' = nextFitRegionStartPtr s" "\<And>x. x \<notin> A \<Longrightarrow> hd_ptr s' x = hd_ptr s x"
  using assms unfolding ptr_frame_def regionEnd_def
  by (metis mem_state.simps mem_state.surjective)+

lemma free_add_spec:
  assumes inv: "nf_inv s (us @ (b, l, False) # vs)"
  shows "\<exists>s'. addFreeNode b (s\<lparr>hd_ptr := (hd_ptr s)(b := 0)\<rparr>) = Some s' \<and>
    nf_inv s' (us @ (b, l, True) # vs) \<and> regionEnd s' = regionEnd s"
proof -
  note sp = nf_inv_split [OF inv]
  let ?s = "s\<lparr>hd_ptr := (hd_ptr s)(b := 0)\<rparr>"
  have fs: "set (free_starts us) \<subseteq> set (map fst us)" "set (free_starts vs) \<subseteq> set (map fst vs)"
    by (rule free_starts_sub)+
  have l: "linked (hd_ptr s) (freeHead s) (free_starts us @ free_starts vs)"
    using inv by (simp add: nf_inv_def)
  have "b \<notin> set (free_starts us @ free_starts vs)" using sp(6,7) fs by auto
  with l have "linked (hd_ptr ?s) (freeHead ?s) (free_starts us @ free_starts vs)"
    by (simp add: linked_frame)
  moreover have "\<forall>x \<in> set (free_starts us). x < b" "\<forall>x \<in> set (free_starts vs). b < x"
    using sp(4,5) fs by fastforce+
  ultimately obtain s' where s': "addFreeNode b ?s = Some s'"
    "linked (hd_ptr s') (freeHead s') (free_starts us @ b # free_starts vs)"
    "ptr_frame (insert b (set (free_starts us))) ?s s'"
    using addFreeNode_spec [of ?s "free_starts us" "free_starts vs" b] sp(9) by blast
  note f = ptr_frameD [OF s'(3)]
  have "\<forall>x \<in> set (us @ vs). block_ok s' x"
  proof (rule block_ok_agree)
    show "\<forall>x \<in> set (us @ vs). block_ok s x" using inv by (auto simp: nf_inv_def)
    show "hd_len s' x = hd_len s x" for x using f(1) by simp
    show "hd_ptr s' x = hd_ptr s x" if "(x, m, False) \<in> set (us @ vs)" for x m
    proof -
      have "x \<noteq> b" using that sp(6,7) by force
      moreover have "x \<notin> set (free_starts us)"
        using nonfree_not_free_start [OF sp(8), of x m] that by auto
      ultimately show ?thesis using f(5) [of x] by simp
    qed
  qed
  moreover have "block_ok s' (b, l, True)" using inv f(1) by (auto simp: nf_inv_def block_ok_def)
  moreover have "regionEnd s' = regionEnd s" using f(2) by (simp add: regionEnd_def)
  ultimately have "nf_inv s' (us @ (b, l, True) # vs)"
    using inv s'(2) f(3,4) by (auto simp: nf_inv_def tiles_append)
  with s'(1) f(2) show ?thesis by (auto simp: regionEnd_def)
qed

lemma coal_next_spec:
  assumes inv: "nf_inv s (us @ (b, l, True) # (c, m, True) # ws)"
  shows "\<exists>s'. coal_next b c s = Some s' \<and> nf_inv s' (us @ (b, l + (m + 16), True) # ws) \<and>
    regionEnd s' = regionEnd s"
proof -
  have inv': "nf_inv s ((us @ [(b, l, True)]) @ (c, m, True) # ws)" using inv by simp
  note sb = nf_inv_split [OF inv] and sc = nf_inv_split [OF inv']
  have cb: "c = b + 16 + l" using sb(3) by simp
  have m: "16 dvd m" "tiles (c + 16 + m) ws (regionEnd s)" using sc(2,3) by auto
  define s1 where "s1 = (if c = nextPtr s then s\<lparr>nextPtr := b\<rparr> else s)"
  have s1: "hd_ptr s1 = hd_ptr s" "freeHead s1 = freeHead s" "hd_len s1 = hd_len s"
    "regionEnd s1 = regionEnd s" "nextFitRegionStartPtr s1 = nextFitRegionStartPtr s"
    by (simp_all add: s1_def regionEnd_def)
  have "linked (hd_ptr s1) (freeHead s1) ((free_starts us @ [b]) @ c # free_starts ws)"
    using inv s1 by (simp add: nf_inv_def)
  from removeFreeNode_spec [OF this] obtain s2 where s2: "removeFreeNode c s1 = Some s2"
    "linked (hd_ptr s2) (freeHead s2) (free_starts us @ b # free_starts ws)"
    "ptr_frame (set (free_starts us @ [b])) s1 s2" by auto
  note f = ptr_frameD [OF s2(3)]
  define s' where "s' = s2\<lparr>hd_len := (hd_len s2)(b := int (l + (m + 16)))\<rparr>"
  have len: "hd_len s b = int l" "hd_len s c = int m"
    using nf_inv_len_bound(1) [OF inv] by auto
  have "nextFitRegionStartPtr s \<le> b" using tiles_le [OF sb(1)] .
  then have "int (l + (m + 16)) < 2 ^ 31"
    using tiles_le [OF m(2)] inv cb by (simp add: nf_inv_def)
  then have v: "s32 (hd_len s2 b + (hd_len s2 c + HDR)) = int (l + (m + 16))"
    using f(1) s1(3) len by (simp add: s32_id HDR_def)
  have "coal_next b c s = Some s'"
    using s2(1) v by (simp add: coal_next_def Let_def s1_def s'_def)
  moreover have "\<forall>x \<in> set (us @ ws). block_ok s' x"
  proof (rule block_ok_agree)
    show "\<forall>x \<in> set (us @ ws). block_ok s x" using inv by (auto simp: nf_inv_def)
    show "hd_len s' x = hd_len s x" if "(x, k, g) \<in> set (us @ ws)" for x k g
    proof -
      have "x \<noteq> b" using that sb(6,7) by force
      then show ?thesis using f(1) s1(3) by (simp add: s'_def)
    qed
    show "hd_ptr s' x = hd_ptr s x" if "(x, k, False) \<in> set (us @ ws)" for x k
    proof -
      have "x \<notin> set (free_starts us @ [b])"
        using nonfree_not_free_start [OF sb(8), of x k] that by auto
      then show ?thesis using f(5) [of x] s1(1) by (simp add: s'_def)
    qed
  qed
  moreover have "block_ok s' (b, l + (m + 16), True)" by (simp add: block_ok_def s'_def)
  moreover have "nextPtr s' = 0 \<or> nextPtr s' \<in> set (free_starts us @ b # free_starts ws)"
    using inv f(3) by (auto simp: nf_inv_def s'_def s1_def)
  moreover have "linked (hd_ptr s') (freeHead s') (free_starts us @ b # free_starts ws)"
    using s2(2) by (simp add: s'_def)
  moreover have geo: "regionEnd s' = regionEnd s" "nextFitRegionStartPtr s' = nextFitRegionStartPtr s"
    using f s1 by (simp_all add: s'_def regionEnd_def)
  moreover have "16 dvd l + (m + 16)" using sb(2) m(1) by simp
  moreover have "tiles (b + 16 + (l + (m + 16))) ws (regionEnd s)"
    using m(2) cb by (simp add: ac_simps)
  ultimately show ?thesis using inv sb(1) by (auto simp: nf_inv_def tiles_append)
qed

lemma coal_prev_spec:
  assumes inv: "nf_inv s (us @ (c, m, True) # (b, l, True) # vs)"
  shows "\<exists>s'. coal_prev b c s = Some s' \<and> nf_inv s' (us @ (c, m + (l + 16), True) # vs) \<and>
    regionEnd s' = regionEnd s"
proof -
  have inv': "nf_inv s ((us @ [(c, m, True)]) @ (b, l, True) # vs)" using inv by simp
  note sc = nf_inv_split [OF inv] and sb = nf_inv_split [OF inv']
  have cb: "b = c + 16 + m" using sc(3) by simp
  have l: "16 dvd l" "tiles (b + 16 + l) vs (regionEnd s)" using sb(2,3) by auto
  have lk: "linked (hd_ptr s) (freeHead s) ((free_starts us @ [c]) @ b # free_starts vs)"
    using inv by (simp add: nf_inv_def)
  define s2 where "s2 = s\<lparr>nextPtr := (if b = nextPtr s then c else nextPtr s),
      hd_ptr := (hd_ptr s)(c := hd_ptr s b), hd_len := (hd_len s)(c := s32 (hd_len s c + (hd_len s b + HDR)))\<rparr>"
  have len: "hd_len s b = int l" "hd_len s c = int m"
    using nf_inv_len_bound(1) [OF inv] by auto
  have "nextFitRegionStartPtr s \<le> c" using tiles_le [OF sc(1)] .
  then have bound: "int (m + (l + 16)) < 2 ^ 31"
    using tiles_le [OF l(2)] inv cb by (simp add: nf_inv_def)
  then have v: "s32 (hd_len s c + (hd_len s b + HDR)) = int (m + (l + 16))"
    using len by (simp add: s32_id HDR_def)
  have l2: "linked (hd_ptr s2) (freeHead s2) (free_starts us @ c # free_starts vs)"
    using linked_remove [OF _ lk] by (simp add: s2_def)
  have "b \<notin> set (free_starts us @ c # free_starts vs)"
    using linked_distinct [OF lk] by auto
  then have rm: "removeFreeNode b s2 = Some s2"
    using removeFreeNode_absent [OF l2] sb(9) by simp
  have "coal_prev b c s = removeFreeNode b s2"
    by (simp add: coal_prev_def Let_def s2_def)
  with rm have "coal_prev b c s = Some s2" by simp
  moreover have "\<forall>x \<in> set (us @ vs). block_ok s2 x"
  proof (rule block_ok_agree)
    show "\<forall>x \<in> set (us @ vs). block_ok s x" using inv by (auto simp: nf_inv_def)
    fix x k g assume "(x, k, g) \<in> set (us @ vs)"
    then have "x \<noteq> c" using sc(6,7) by force
    then show "hd_len s2 x = hd_len s x" "hd_ptr s2 x = hd_ptr s x" by (simp_all add: s2_def)
  qed
  moreover have "block_ok s2 (c, m + (l + 16), True)" using v by (simp add: block_ok_def s2_def)
  moreover have "nextPtr s2 = 0 \<or> nextPtr s2 \<in> set (free_starts us @ c # free_starts vs)"
    using inv by (auto simp: nf_inv_def s2_def)
  moreover have "regionEnd s2 = regionEnd s" "nextFitRegionStartPtr s2 = nextFitRegionStartPtr s"
    by (simp_all add: s2_def regionEnd_def)
  moreover have "16 dvd m + (l + 16)" using sc(2) l(1) by simp
  moreover have "tiles (c + 16 + (m + (l + 16))) vs (regionEnd s)"
    using l(2) cb by (simp add: ac_simps)
  ultimately show ?thesis using inv sc(1) l2 by (auto simp: nf_inv_def tiles_append)
qed


lemma foldl_skip: "(\<forall>x \<in> set xs. \<not> P x) \<Longrightarrow> foldl (\<lambda>q x. if P x then x else q) q xs = q"
  by (induction xs arbitrary: q) auto

definition last_free :: "block list \<Rightarrow> addr" where
  "last_free us = (case rev us of (c, m, True) # _ \<Rightarrow> c | _ \<Rightarrow> 0)"

definition first_free :: "block list \<Rightarrow> bool" where
  "first_free vs = (case vs of (c, m, True) # _ \<Rightarrow> True | _ \<Rightarrow> False)"

lemma coal_scan_blocks:
  assumes inv: "nf_inv s (us @ (b, l, True) # vs)"
  shows "coal_scan s b (b + 16 + l) (freeHead s) 0 False = Some (last_free us, first_free vs)"
proof -
  let ?bs = "us @ (b, l, True) # vs"
  let ?P = "\<lambda>x. padd x (hd_len s x + HDR) = b"
  note sp = nf_inv_split [OF inv]
  have P: "?P x \<longleftrightarrow> x + 16 + m = b" if "(x, m, f) \<in> set ?bs" for x m f
    using nf_inv_len_bound(1) [OF inv that] by (simp add: padd_def HDR_def nat_add_distrib) arith
  have "linked (hd_ptr s) (freeHead s) (free_starts us @ b # free_starts vs)"
    using inv by (simp add: nf_inv_def)
  note scan = coal_scan_spec [OF this, of b "b + 16 + l" 0 False]
  have b_no: "\<not> ?P b" using P [of b l True] by simp
  have v_no: "\<not> ?P x" "b + 16 + l \<le> x" if "x \<in> set (free_starts vs)" for x
  proof -
    from that obtain m where m: "(x, m, True) \<in> set vs" by (auto simp: free_starts_mem)
    then show "b + 16 + l \<le> x" using sp(5) by force
    with P [of x m True] m show "\<not> ?P x" by auto
  qed
  have prev: "foldl (\<lambda>q x. if ?P x then x else q) 0 (free_starts us) = last_free us"
  proof (cases us rule: rev_cases)
    case Nil
    then show ?thesis by (simp add: last_free_def)
  next
    case (snoc us0 x)
    obtain c m f where x: "x = (c, m, f)" by (cases x)
    have t: "tiles (nextFitRegionStartPtr s) us0 c" "c + 16 + m = b"
      using sp(1) snoc x by (auto simp: tiles_append)
    have no: "\<not> ?P y" if "y \<in> set (free_starts us0)" for y
    proof -
      from that obtain k where k: "(y, k, True) \<in> set us0" by (auto simp: free_starts_mem)
      then have "y + 16 + k \<le> c" using tiles_bounds [OF t(1)] by blast
      with P [of y k True] k snoc t(2) show ?thesis by auto
    qed
    have "?P c" using P [of c m f] snoc x t(2) by simp
    with no foldl_skip [of "free_starts us0" ?P 0] snoc x show ?thesis
      by (auto simp: last_free_def)
  qed
  have nxt: "(\<exists>x \<in> set (free_starts us @ b # free_starts vs). \<not> ?P x \<and> x = b + 16 + l) = first_free vs"
  proof -
    have "x < b" if "x \<in> set (free_starts us)" for x
      using that sp(4) free_starts_sub [of us] by auto
    then have "(\<exists>x \<in> set (free_starts us @ b # free_starts vs). \<not> ?P x \<and> x = b + 16 + l)
        \<longleftrightarrow> b + 16 + l \<in> set (free_starts vs)" using v_no(1) by force
    also have "\<dots> = first_free vs"
    proof (cases vs)
      case Nil
      then show ?thesis by (simp add: first_free_def)
    next
      case (Cons y ws)
      obtain c m f where y: "y = (c, m, f)" by (cases y)
      have "c = b + 16 + l" "tiles (c + 16 + m) ws (regionEnd s)" using sp(3) Cons y by auto
      moreover from this have "c \<notin> set (free_starts ws)"
        using tiles_bounds [of "c + 16 + m" ws "regionEnd s"] by (fastforce simp: free_starts_mem)
      ultimately show ?thesis using Cons y by (auto simp: first_free_def)
    qed
    finally show ?thesis .
  qed
  have "foldl (\<lambda>q x. if ?P x then x else q) 0 (free_starts us @ b # free_starts vs) = last_free us"
    using prev b_no v_no(1) by (simp add: foldl_skip)
  with scan nxt show ?thesis by simp
qed

lemma nextFitCoalesce_spec:
  assumes inv: "nf_inv s (us @ (b, l, True) # vs)"
  shows "\<exists>s'. nextFitCoalesce b s = Some s' \<and> nf_inv s' (release_block us b l vs) \<and>
    regionEnd s' = regionEnd s"
proof -
  have nn: "padd b (hd_len s b + HDR) = b + 16 + l"
    using nf_inv_len_bound(1) [OF inv, of b l True] by (simp add: padd_def HDR_def nat_add_distrib)
  obtain l' vs' where jn: "join_next l vs = (l', vs')" by (cases "join_next l vs")
  have "\<exists>s1. (if first_free vs then coal_next b (b + 16 + l) s else Some s) = Some s1 \<and>
      nf_inv s1 (us @ (b, l', True) # vs') \<and> regionEnd s1 = regionEnd s"
  proof (cases "first_free vs")
    case True
    then obtain c m ws where vs: "vs = (c, m, True) # ws"
      by (auto simp: first_free_def split: list.splits bool.splits)
    with inv have "c = b + 16 + l" using nf_inv_split(3) by fastforce
    with coal_next_spec [OF inv [unfolded vs]] True jn vs show ?thesis
      by (auto simp: join_next_def)
  next
    case False
    then have "l' = l" "vs' = vs"
      using jn by (auto simp: first_free_def join_next_def split: list.splits bool.splits)
    with False inv show ?thesis by simp
  qed
  then obtain s1 where s1: "(if first_free vs then coal_next b (b + 16 + l) s else Some s) = Some s1"
    "nf_inv s1 (us @ (b, l', True) # vs')" "regionEnd s1 = regionEnd s" by blast
  have "\<exists>s'. (if last_free us \<noteq> 0 then coal_prev b (last_free us) s1 else Some s1) = Some s' \<and>
      nf_inv s' (release_block us b l vs) \<and> regionEnd s' = regionEnd s"
  proof (cases "last_free us = 0")
    case False
    then obtain c m ws where rv: "rev us = (c, m, True) # ws"
      by (auto simp: last_free_def split: list.splits bool.splits)
    then have us: "us = rev ws @ [(c, m, True)]" by (metis rev.simps(2) rev_rev_ident)
    from s1(2) us have "nf_inv s1 (rev ws @ (c, m, True) # (b, l', True) # vs')" by simp
    from coal_prev_spec [OF this] False rv jn s1(3) show ?thesis
      by (auto simp: last_free_def release_block_def)
  next
    case True
    have "release_block us b l vs = us @ (b, l', True) # vs'"
    proof (cases "rev us")
      case Nil
      with jn show ?thesis by (simp add: release_block_def)
    next
      case (Cons x ws)
      obtain c m f where x: "x = (c, m, f)" by (cases x)
      have "x \<in> set us" using Cons by (metis list.set_intros(1) set_rev)
      then have "c \<noteq> 0" using nf_inv_len_bound(5) [OF inv, of c m f] x by auto
      with True Cons x jn show ?thesis
        by (auto simp: release_block_def last_free_def split: bool.splits)
    qed
    with True s1 show ?thesis by simp
  qed
  then show ?thesis
    using coal_scan_blocks [OF inv] s1(1) by (simp add: nextFitCoalesce_def Let_def nn)
qed

lemma nextFitFree_spec:
  assumes inv: "nf_inv s (us @ (b, l, False) # vs)"
  shows "\<exists>s'. nextFitFree (b + 16) s = Some (0, s') \<and> nf_inv s' (release_block us b l vs) \<and>
    regionEnd s' = regionEnd s"
proof -
  have p: "padd (b + 16) (- HDR) = b" by (simp add: padd_def HDR_def)
  have m: "hd_ptr s b = MAGIC" using inv by (auto simp: nf_inv_def block_ok_def)
  from free_add_spec [OF inv] obtain s1 where
    s1: "addFreeNode b (s\<lparr>hd_ptr := (hd_ptr s)(b := 0)\<rparr>) = Some s1"
    "nf_inv s1 (us @ (b, l, True) # vs)" "regionEnd s1 = regionEnd s" by blast
  have e: "(hd_len s)(b := hd_len s b) = hd_len s" by (rule fun_upd_triv)
  from nextFitCoalesce_spec [OF s1(2)] s1 show ?thesis
    by (auto simp: nextFitFree_def Let_def p m e)
qed

end
