(* ===== verification/MemProps.thy ===== *)
theory MemProps
  imports MemInv
begin

text \<open>
  The public interface of p3/mem/mem.c: \<open>Mem_Init\<close>, \<open>Mem_Alloc\<close>, \<open>Mem_Free\<close>. The state
  invariant \<open>mem_inv s bs ss\<close> joins the blocks \<open>bs\<close> of the next-fit half with the free slabs
  \<open>ss\<close> of the slab half. The slab stack provides the pool interface of \<open>Pool\<close>.
\<close>

section \<open>The slab stack as a pool\<close>

definition slab_pool :: "mem_state \<Rightarrow> addr list \<Rightarrow> bool" where
  "slab_pool s ss \<longleftrightarrow> linked (slab_next s) (topOfSlabStack s) ss"

definition sgive :: "addr \<Rightarrow> mem_state \<Rightarrow> mem_state option" where
  "sgive v s = (case slabPush v s of Inl e \<Rightarrow> None | Inr s' \<Rightarrow> Some s')"

lemma slabPush_pool:
  "slab_pool s ss \<Longrightarrow> v \<noteq> 0 \<Longrightarrow> v \<notin> set ss \<Longrightarrow>
   \<exists>s'. slabPush v s = Inr s' \<and> slab_pool s' (v # ss) \<and>
     s' = s\<lparr>slab_next := slab_next s', topOfSlabStack := v\<rparr>"
  by (rule exI [of _ "s\<lparr>slab_next := (slab_next s)(v := topOfSlabStack s), topOfSlabStack := v\<rparr>"])
     (simp add: slabPush_def slab_pool_def linked_frame)

lemma slabPop_pool:
  assumes "slab_pool s (v # ss)"
  shows "slabPop s = (v, s\<lparr>topOfSlabStack := slab_next s v\<rparr>)"
    "slab_pool (s\<lparr>topOfSlabStack := slab_next s v\<rparr>) ss"
proof -
  from assms have v: "topOfSlabStack s = v" "v \<noteq> 0" "linked (slab_next s) (slab_next s v) ss"
    by (auto simp: slab_pool_def)
  from v(2) show "slabPop s = (v, s\<lparr>topOfSlabStack := slab_next s v\<rparr>)"
    unfolding slabPop_def v(1) by (simp only: if_False)
  from v(3) show "slab_pool (s\<lparr>topOfSlabStack := slab_next s v\<rparr>) ss" by (simp add: slab_pool_def)
qed

lemma slabPop_empty: "slab_pool s [] \<Longrightarrow> slabPop s = (0, s)"
  by (simp add: slabPop_def slab_pool_def)

interpretation spool: lifo_pool sgive slabPop slab_pool "\<lambda>v. v \<noteq> 0"
proof unfold_locales
  fix s xs v
  assume "slab_pool s xs" "v \<noteq> 0" "v \<notin> set xs"
  from slabPush_pool [OF this] obtain s' where "slabPush v s = Inr s'" "slab_pool s' (v # xs)"
    by blast
  then show "\<exists>s'. sgive v s = Some s' \<and> slab_pool s' (v # xs)" by (simp add: sgive_def)
next
  fix s assume "slab_pool s []" then show "slabPop s = (0, s)" by (rule slabPop_empty)
next
  fix s x xs assume "slab_pool s (x # xs)"
  then show "\<exists>s'. slabPop s = (x, s') \<and> slab_pool s' xs" using slabPop_pool by blast
next
  fix s xs assume "slab_pool s xs"
  then show "distinct xs \<and> 0 \<notin> set xs"
    by (auto simp: slab_pool_def dest: linked_distinct linked_nonzero)
qed

section \<open>The whole state\<close>

definition slab_ok :: "mem_state \<Rightarrow> addr \<Rightarrow> bool" where
  "slab_ok s v \<longleftrightarrow> v \<noteq> 0 \<and> 16 dvd v \<and> regionStartPtr s \<le> v \<and>
     v + nat (roundedSlabAllocationSize s) \<le> nextFitRegionStartPtr s \<and>
     nat (roundedSlabAllocationSize s) dvd nextFitRegionStartPtr s - v"

definition mem_inv :: "mem_state \<Rightarrow> block list \<Rightarrow> addr list \<Rightarrow> bool" where
  "mem_inv s bs ss \<longleftrightarrow> initializedOnce s \<and> nf_inv s bs \<and> slab_pool s ss \<and>
     (\<forall>v \<in> set ss. slab_ok s v) \<and> 0 < regionStartPtr s \<and> 0 \<le> sizeOfRegion s \<and>
     regionStartPtr s \<le> nextFitRegionStartPtr s \<and> sizeOfRegion s < 2 ^ 31 \<and>
     0 < roundedSlabAllocationSize s \<and> roundedSlabAllocationSize s = fitToAlignSize (slabUnitSize s)"

lemma zero_loop_eq:
  "zero_loop i e s = s\<lparr>bytes := (\<lambda>a. if i \<le> int a \<and> int a < e then 0 else bytes s a)\<rparr>"
  if "0 \<le> i"
  using that
proof (induction i e s rule: zero_loop.induct)
  case (1 i e s)
  show ?case
  proof (cases "i < e")
    case True
    have "(\<lambda>a. if i + 1 \<le> int a \<and> int a < e then 0 else ((bytes s)(nat i := 0)) a) =
          (\<lambda>a. if i \<le> int a \<and> int a < e then 0 else bytes s a)"
      using True "1.prems" by (auto simp: fun_eq_iff fun_upd_apply)
    with "1.IH" [OF True] "1.prems" True show ?thesis
      by (subst zero_loop.simps) (simp cong: if_cong)
  next
    case False
    then have "(\<lambda>a. if i \<le> int a \<and> int a < e then 0 else bytes s a) = bytes s" by auto
    with False show ?thesis by (subst zero_loop.simps) simp
  qed
qed

lemma initToZero_eq:
  "initToZero p nf s = s\<lparr>bytes := (\<lambda>a. if (if nf then p + 16 else p) \<le> a \<and>
     int a < int p + roundedSlabAllocationSize s then 0 else bytes s a)\<rparr>"
  by (cases nf) (auto simp: initToZero_def Let_def zero_loop_eq HDR_def fun_eq_iff)

lemma nf_inv_slab_irrelevant:
  "nf_inv (s\<lparr>slab_next := n, topOfSlabStack := t\<rparr>) bs = nf_inv s bs"
  "nf_inv (s\<lparr>topOfSlabStack := t\<rparr>) bs = nf_inv s bs"
  "nf_inv (s\<lparr>slab_next := n\<rparr>) bs = nf_inv s bs"
  "nf_inv (s\<lparr>bytes := by'\<rparr>) bs = nf_inv s bs"
  by (simp_all add: nf_inv_def regionEnd_def block_ok_def)

text \<open>The next-fit functions touch neither the slab stack nor the region parameters.\<close>

definition nf_frame :: "mem_state \<Rightarrow> mem_state \<Rightarrow> bool" where
  "nf_frame s s' \<longleftrightarrow> regionStartPtr s' = regionStartPtr s \<and>
     topOfSlabStack s' = topOfSlabStack s \<and> nextFitRegionStartPtr s' = nextFitRegionStartPtr s \<and>
     slabUnitSize s' = slabUnitSize s \<and> sizeOfRegion s' = sizeOfRegion s \<and>
     roundedSlabAllocationSize s' = roundedSlabAllocationSize s \<and>
     initializedOnce s' = initializedOnce s \<and> slab_next s' = slab_next s \<and> bytes s' = bytes s"

lemma nf_frame_refl [simp]: "nf_frame s s"
  by (simp add: nf_frame_def)

lemma nf_frame_trans [trans]: "nf_frame a b \<Longrightarrow> nf_frame b c \<Longrightarrow> nf_frame a c"
  by (auto simp: nf_frame_def)

lemma nf_frame_upd [simp]:
  "nf_frame s (s\<lparr>freeHead := h\<rparr>)" "nf_frame s (s\<lparr>nextPtr := h\<rparr>)"
  "nf_frame s (s\<lparr>hd_ptr := f\<rparr>)" "nf_frame s (s\<lparr>hd_len := g\<rparr>)"
  "nf_frame s (s\<lparr>hd_ptr := f, freeHead := h\<rparr>)" "nf_frame s (s\<lparr>hd_ptr := f, hd_len := g\<rparr>)"
  by (simp_all add: nf_frame_def)

lemma remove_loop_frame: "remove_loop p itr s = Some s' \<Longrightarrow> nf_frame s s'"
  by (rule remove_loop.raw_induct [where P = "\<lambda>p itr s s'. nf_frame s s'"])
     (auto split: if_splits)

lemma add_loop_frame: "add_loop p itr s = Some s' \<Longrightarrow> nf_frame s s'"
  by (rule add_loop.raw_induct [where P = "\<lambda>p itr s s'. nf_frame s s'"])
     (auto split: if_splits)

lemma removeFreeNode_frame: "removeFreeNode p s = Some s' \<Longrightarrow> nf_frame s s'"
  by (auto simp: removeFreeNode_def dest: remove_loop_frame split: if_splits)

lemma addFreeNode_frame: "addFreeNode p s = Some s' \<Longrightarrow> nf_frame s s'"
  by (auto simp: addFreeNode_def dest: add_loop_frame split: if_splits)

lemmas nf_frame_steps = removeFreeNode_frame addFreeNode_frame

lemma nf_take_frame: "nf_take b al s = Some (r, s') \<Longrightarrow> nf_frame s s'"
  by (auto simp: nf_take_def Let_def bind_eq_Some_conv nf_frame_def
      dest!: removeFreeNode_frame addFreeNode_frame split: if_splits)

lemma nextFitAlloc_frame: "nextFitAlloc n s = Some (r, s') \<Longrightarrow> nf_frame s s'"
  by (auto simp: nextFitAlloc_def Let_def bind_eq_Some_conv
      dest!: nf_take_frame split: if_splits) (simp_all add: nf_frame_def)

lemma coal_next_frame: "coal_next b c s = Some s' \<Longrightarrow> nf_frame s s'"
  by (cases "c = nextPtr s")
     (auto simp: coal_next_def Let_def bind_eq_Some_conv dest!: removeFreeNode_frame
           simp: nf_frame_def)

lemma coal_prev_frame: "coal_prev b c s = Some s' \<Longrightarrow> nf_frame s s'"
  unfolding coal_prev_def Let_def
  by (drule removeFreeNode_frame) (cases "b = nextPtr s"; simp add: nf_frame_def)

lemma nextFitCoalesce_frame: "nextFitCoalesce b s = Some s' \<Longrightarrow> nf_frame s s'"
  by (auto simp: nextFitCoalesce_def Let_def bind_eq_Some_conv
      dest!: coal_next_frame coal_prev_frame elim: nf_frame_trans split: if_splits)

lemma nextFitFree_frame: "nextFitFree b s = Some (r, s') \<Longrightarrow> nf_frame s s'"
  by (auto simp: nextFitFree_def Let_def bind_eq_Some_conv nf_frame_def
      dest!: addFreeNode_frame nextFitCoalesce_frame split: if_splits)

lemma mem_inv_nf_step:
  assumes "mem_inv s bs ss" "nf_frame s s'" "nf_inv s' bs'"
  shows "mem_inv s' bs' ss"
  using assms by (auto simp: mem_inv_def nf_frame_def slab_pool_def slab_ok_def)

section \<open>Initialisation\<close>

lemma slab_frame_trans:
  "s1 = s\<lparr>slab_next := a, topOfSlabStack := b\<rparr> \<Longrightarrow>
   s2 = s1\<lparr>slab_next := c, topOfSlabStack := d\<rparr> \<Longrightarrow> s2 = s\<lparr>slab_next := c, topOfSlabStack := d\<rparr>"
  by simp

lemma slab_frame_fields:
  "s1 = s\<lparr>slab_next := a, topOfSlabStack := b\<rparr> \<Longrightarrow>
   roundedSlabAllocationSize s1 = roundedSlabAllocationSize s \<and>
   regionStartPtr s1 = regionStartPtr s \<and> nextFitRegionStartPtr s1 = nextFitRegionStartPtr s \<and>
   sizeOfRegion s1 = sizeOfRegion s \<and> initializedOnce s1 = initializedOnce s \<and>
   slabUnitSize s1 = slabUnitSize s"
  by simp

lemma slab_init_loop_spec:
  assumes "slab_pool s ss" "roundedSlabAllocationSize s = int k" "0 < k"
    "regionStartPtr s \<le> low" "low < regionStartPtr s + k" "0 < low" "\<forall>v \<in> set ss. low + n * k \<le> v"
  shows "\<exists>s'. slab_init_loop (int low + (int n - 1) * int k) s = Some (Inr s') \<and>
    slab_pool s' (map (\<lambda>i. low + i * k) [0..<n] @ ss) \<and>
    s' = s\<lparr>slab_next := slab_next s', topOfSlabStack := topOfSlabStack s'\<rparr>"
  using assms
proof (induction n arbitrary: s ss)
  case 0
  then have "slab_init_loop (int low + (int 0 - 1) * int k) s = Some (Inr s)"
    by (subst slab_init_loop.simps) simp
  with 0 show ?case by auto
next
  case (Suc n)
  let ?v = "low + n * k"
  have v: "?v \<noteq> 0" "?v \<notin> set ss" using Suc.prems(3,6,7) by fastforce+
  from slabPush_pool [OF Suc.prems(1) v] obtain s1 where
    s1: "slabPush ?v s = Inr s1" "slab_pool s1 (?v # ss)"
      "s1 = s\<lparr>slab_next := slab_next s1, topOfSlabStack := ?v\<rparr>" by blast
  have same: "roundedSlabAllocationSize s1 = int k" "regionStartPtr s1 = regionStartPtr s"
    using slab_frame_fields [OF s1(3)] Suc.prems(2) by simp_all
  have "\<forall>u \<in> set (?v # ss). low + n * k \<le> u" using Suc.prems(7) by fastforce
  with Suc.IH [OF s1(2) same(1) Suc.prems(3)] Suc.prems(4-6) same(2) obtain s' where
    s': "slab_init_loop (int low + (int n - 1) * int k) s1 = Some (Inr s')"
      "slab_pool s' (map (\<lambda>i. low + i * k) [0..<n] @ ?v # ss)"
      "s' = s1\<lparr>slab_next := slab_next s', topOfSlabStack := topOfSlabStack s'\<rparr>" by auto
  have e: "int low + (int (Suc n) - 1) * int k = int ?v" by simp
  have "slab_init_loop (int ?v) s = slab_init_loop (int ?v - int k) s1"
    using Suc.prems(4) s1(1) same(1)
    by (subst slab_init_loop.simps) (simp del: of_nat_add of_nat_mult add: trans_le_add1)
  also have "int ?v - int k = int low + (int n - 1) * int k" by (simp add: algebra_simps)
  finally have "slab_init_loop (int low + (int (Suc n) - 1) * int k) s = Some (Inr s')"
    unfolding e using s'(1) by simp
  moreover have "s' = s\<lparr>slab_next := slab_next s', topOfSlabStack := topOfSlabStack s'\<rparr>"
    by (rule slab_frame_trans [OF s1(3) s'(3)])
  ultimately show ?case using s'(2) by simp
qed

text \<open>The slabs in address order: as many as fit below the next-fit half, flush against it.\<close>

definition slab_list :: "addr \<Rightarrow> nat \<Rightarrow> nat \<Rightarrow> addr list" where
  "slab_list base q k = map (\<lambda>i. base + q mod k + i * k) [0..<q div k]"

lemma slab_list_ok:
  assumes "v \<in> set (slab_list base q k)" "0 < k" "16 dvd base + q" "16 dvd k"
  shows "base \<le> v" "v + k \<le> base + q" "k dvd base + q - v" "16 dvd v"
proof -
  from assms(1) have "v \<in> (\<lambda>i. base + q mod k + i * k) ` {0..<q div k}"
    by (simp add: slab_list_def)
  then obtain i where "v = base + q mod k + i * k" and "i \<in> {0..<q div k}" by blast
  then have i: "v = base + q mod k + i * k" "i < q div k" by simp_all
  then obtain j where j: "q div k = i + 1 + j" using less_imp_Suc_add by fastforce
  have q: "base + q = v + k + j * k"
    using mult_div_mod_eq [of k q] j i(1) by (simp add: algebra_simps)
  show "base \<le> v" using i by simp
  show "v + k \<le> base + q" using q by simp
  show "k dvd base + q - v" using q by simp
  have "16 dvd v + (k + j * k)" using assms(3) q by (simp add: ac_simps)
  moreover have "16 dvd k + j * k" using assms(4) by simp
  ultimately show "16 dvd v" by (simp add: dvd_add_left_iff)
qed

lemma Mem_Init_spec:
  assumes "\<not> initializedOnce s" "1 \<le> slabSize" "fitToAlignSize slabSize \<le> szRegion div 4"
    "64 dvd szRegion" "0 < szRegion" "szRegion < 2 ^ 31" "16 dvd base" "0 < base"
  shows "\<exists>s'. Mem_Init (Some base) szRegion slabSize s = Some (Inr (base, s')) \<and>
    mem_inv s' [(base + nat (szRegion div 4), nat (szRegion - szRegion div 4 - 16), True)]
      (slab_list base (nat (szRegion div 4)) (nat (fitToAlignSize slabSize)))"
proof -
  obtain q16 where q16: "szRegion = 64 * q16" using assms(4) by blast
  then have pos: "0 < q16" using assms(5) by simp
  define q where "q = nat (szRegion div 4)"
  define k where "k = nat (fitToAlignSize slabSize)"
  have sl0: "0 \<le> slabSize" using assms(2) by simp
  have kf: "fitToAlignSize slabSize = int k" "0 < k" "16 dvd k"
  proof -
    have "0 < fitToAlignSize slabSize" "16 dvd fitToAlignSize slabSize"
      using fitToAlignSize_spec [OF sl0] assms(2) by auto
    then show "fitToAlignSize slabSize = int k" "0 < k" "16 dvd k"
      unfolding k_def by (simp_all, metis int_dvd_int_iff int_nat_eq less_imp_le of_nat_numeral)
  qed
  have qi: "szRegion div 4 = int q" "szRegion = 4 * int q" "16 dvd q" "0 < q"
    using q16 pos by (auto simp: q_def nat_mult_distrib)
  have kq: "k \<le> q" using assms(3) kf qi by simp
  have guards: "\<not> (szRegion < 4 \<or> slabSize < 1 \<or> szRegion div 4 < fitToAlignSize slabSize \<or>
      szRegion < fitToAlignSize slabSize)" "szRegion mod 4 = 0"
    using assms(2,3) qi kf kq by auto
  define s3 where "s3 = s\<lparr>initializedOnce := True, slabUnitSize := slabSize,
     sizeOfRegion := szRegion, roundedSlabAllocationSize := int k, regionStartPtr := base,
     topOfSlabStack := 0, nextFitRegionStartPtr := base + q\<rparr>"
  let ?low = "base + q mod k" and ?n = "q div k"
  have nf: "base + q = ?low + ?n * k" by simp
  have start: "int (base + q) - int k = int ?low + (int ?n - 1) * int k"
  proof -
    have "int (a + n * k) - int k = int a + (int n - 1) * int k" for a n
      by (simp add: algebra_simps)
    from this [of ?low ?n] show ?thesis by (simp only: nf [symmetric])
  qed
  have "slab_pool s3 []" by (simp add: slab_pool_def s3_def)
  from slab_init_loop_spec [OF this, of k ?low ?n] kf(2) assms(8) obtain s4 where
    s4: "slab_init_loop (int ?low + (int ?n - 1) * int k) s3 = Some (Inr s4)"
      "slab_pool s4 (slab_list base q k)"
      "s4 = s3\<lparr>slab_next := slab_next s4, topOfSlabStack := topOfSlabStack s4\<rparr>"
    by (auto simp: s3_def slab_list_def)
  have geo: "regionStartPtr s4 = base" "nextFitRegionStartPtr s4 = base + q"
    "sizeOfRegion s4 = szRegion" "initializedOnce s4" "slabUnitSize s4 = slabSize"
    "roundedSlabAllocationSize s4 = int k"
    using slab_frame_fields [OF s4(3)] by (simp_all add: s3_def)
  define s5 where "s5 = s4\<lparr>freeHead := base + q,
     hd_len := (hd_len s4)(base + q := s32 (szRegion - szRegion div 4 - HDR)),
     hd_ptr := (hd_ptr s4)(base + q := 0), nextPtr := base + q\<rparr>"
  have run: "Mem_Init (Some base) szRegion slabSize s = Some (Inr (base, s5))"
  proof -
    have "slab_init_loop (int base + int q - int k) s3 = Some (Inr s4)"
      using s4(1) unfolding start [symmetric] by simp
    then show ?thesis
      using guards assms(1) geo(2) kf(1) qi(1)
      by (simp add: Mem_Init_def Let_def s3_def s5_def)
  qed
  have v: "s32 (szRegion - szRegion div 4 - HDR) = int (3 * q - 16)"
    using qi assms(6) by (auto simp: HDR_def s32_id elim!: dvdE)
  have l16: "16 \<le> 3 * q" using qi(3,4) by (auto elim!: dvdE)
  have blk: "nat (szRegion - szRegion div 4 - 16) = 3 * q - 16" using qi l16 by simp
  have "16 dvd 3 * q - 16" using qi(3) by (simp add: dvd_diff_nat)
  then have "nf_inv s5 [(base + q, 3 * q - 16, True)]"
    using geo v assms(6-8) qi l16
    by (auto simp: nf_inv_def s5_def regionEnd_def block_ok_def nat_mult_distrib)
  moreover have "\<forall>x \<in> set (slab_list base q k). slab_ok s5 x"
    using slab_list_ok [of _ base q k] kf qi(3) assms(7,8) geo
    by (fastforce simp: slab_ok_def s5_def)
  moreover have "slab_pool s5 (slab_list base q k)" using s4(2) by (simp add: slab_pool_def s5_def)
  ultimately have "mem_inv s5 [(base + q, 3 * q - 16, True)] (slab_list base q k)"
    using geo kf assms(6,8) qi by (simp add: mem_inv_def s5_def)
  with run show ?thesis unfolding blk unfolding q_def [symmetric] k_def [symmetric] by blast
qed

section \<open>Adjacent free blocks\<close>

fun coalesced :: "block list \<Rightarrow> bool" where
  "coalesced ((a, l, f) # (b, m, g) # bs) \<longleftrightarrow> \<not> (f \<and> g) \<and> coalesced ((b, m, g) # bs)"
| "coalesced [x] = True"
| "coalesced [] = True"

lemma coalesced_append:
  "coalesced (us @ vs) \<longleftrightarrow> coalesced us \<and> coalesced vs \<and>
     (us = [] \<or> vs = [] \<or> \<not> (snd (snd (last us)) \<and> snd (snd (hd vs))))"
proof (induction us rule: coalesced.induct)
  case (2 x)
  obtain a l f where "x = (a, l, f)" by (cases x)
  then show ?case by (cases vs) auto
qed auto

lemma coalesced_Cons:
  "coalesced (x # vs) \<longleftrightarrow> coalesced vs \<and> (vs = [] \<or> \<not> (snd (snd x) \<and> snd (snd (hd vs))))"
  using coalesced_append [of "[x]" vs] by auto

lemma coalesced_all_free:
  "coalesced bs \<Longrightarrow> (\<forall>x \<in> set bs. snd (snd x)) \<Longrightarrow> length bs \<le> 1"
  by (induction bs rule: coalesced.induct) auto

lemma coalesced_carve:
  "coalesced (us @ (b, l, True) # vs) \<Longrightarrow> coalesced (us @ carve b l a @ vs)"
  by (auto simp: coalesced_append coalesced_Cons carve_def)

lemma coalesced_release:
  assumes "coalesced (us @ (b, l, False) # vs)"
  shows "coalesced (release_block us b l vs)"
proof -
  obtain l' vs' where j: "join_next l vs = (l', vs')" by (cases "join_next l vs")
  have v: "coalesced vs'" "vs' = [] \<or> \<not> snd (snd (hd vs'))"
    using j assms by (auto simp: join_next_def coalesced_append coalesced_Cons
        split: list.splits bool.splits)
  have u: "coalesced us" using assms by (simp add: coalesced_append)
  show ?thesis
  proof (cases us rule: rev_cases)
    case Nil
    with j v show ?thesis by (auto simp: release_block_def coalesced_Cons)
  next
    case (snoc us0 x)
    obtain c m f where "x = (c, m, f)" by (cases x)
    with snoc u v j show ?thesis
      by (cases f) (auto simp: release_block_def coalesced_append coalesced_Cons)
  qed
qed

section \<open>The public operations on well-formed states\<close>

lemma mem_inv_zero: "mem_inv s bs ss \<Longrightarrow> mem_inv (initToZero p nf s) bs ss"
  by (auto simp: initToZero_eq mem_inv_def nf_inv_slab_irrelevant slab_pool_def slab_ok_def)

lemma Mem_Alloc_slab:
  assumes inv: "mem_inv s bs (v # ss)"
  shows "\<exists>s'. Mem_Alloc (slabUnitSize s) s = Some (v, s') \<and> mem_inv s' bs ss \<and>
    (\<forall>a. v \<le> a \<and> a < v + nat (roundedSlabAllocationSize s) \<longrightarrow> bytes s' a = 0)"
proof -
  let ?s1 = "s\<lparr>topOfSlabStack := slab_next s v\<rparr>"
  have sp: "slab_pool s (v # ss)" and i: "initializedOnce s" and ok: "slab_ok s v"
    and R: "0 < roundedSlabAllocationSize s" using inv by (auto simp: mem_inv_def)
  note pop = slabPop_pool [OF sp]
  have "mem_inv ?s1 bs ss"
    using inv pop(2) by (auto simp: mem_inv_def nf_inv_slab_irrelevant slab_ok_def)
  then have "mem_inv (initToZero v False ?s1) bs ss" by (rule mem_inv_zero)
  moreover have "Mem_Alloc (slabUnitSize s) s = Some (v, initToZero v False ?s1)"
    using i pop(1) ok by (simp add: Mem_Alloc_def slab_ok_def)
  moreover have "bytes (initToZero v False ?s1) a = 0"
    if "v \<le> a" "a < v + nat (roundedSlabAllocationSize s)" for a
  proof -
    have "int a < int v + roundedSlabAllocationSize s" using that R by linarith
    with that(1) show ?thesis by (simp add: initToZero_eq)
  qed
  ultimately show ?thesis by blast
qed

lemma Mem_Alloc_nf:
  assumes inv: "mem_inv s bs ss" and sz: "0 \<le> sz" "sz + 16 \<le> 2 ^ 31"
    and no_slab: "sz \<noteq> slabUnitSize s \<or> ss = []"
  shows "\<exists>r s' bs'. Mem_Alloc sz s = Some (r, s') \<and> mem_inv s' bs' ss \<and>
    (case nf_choice s bs (fitToAlignSize sz) of
       None \<Rightarrow> r = 0 \<and> bs' = bs
     | Some b \<Rightarrow> r = b + 16 \<and> (\<exists>us l vs. bs = us @ (b, l, True) # vs \<and>
         fitToAlignSize sz \<le> int l \<and> bs' = us @ carve b l (nat (fitToAlignSize sz)) @ vs))"
proof -
  have nf: "nf_inv s bs" and i: "initializedOnce s" using inv by (simp_all add: mem_inv_def)
  have pop: "(if sz = slabUnitSize s then slabPop s else (0, s)) = (0, s)"
    using no_slab inv slabPop_empty by (auto simp: mem_inv_def)
  obtain r s1 bs' where run: "nextFitAlloc sz s = Some (r, s1)" "nf_inv s1 bs'"
    and res: "case nf_choice s bs (fitToAlignSize sz) of
       None \<Rightarrow> r = 0 \<and> bs' = bs
     | Some b \<Rightarrow> r = b + 16 \<and> (\<exists>us l vs. bs = us @ (b, l, True) # vs \<and>
         fitToAlignSize sz \<le> int l \<and> bs' = us @ carve b l (nat (fitToAlignSize sz)) @ vs)"
    using nextFitAlloc_spec [OF nf sz] by (cases "nf_choice s bs (fitToAlignSize sz)") fastforce+
  have "mem_inv s1 bs' ss" using mem_inv_nf_step [OF inv nextFitAlloc_frame [OF run(1)] run(2)] .
  moreover define s2 where "s2 = (if sz = slabUnitSize s1 \<and> r \<noteq> 0 then initToZero r True s1 else s1)"
  ultimately have "mem_inv s2 bs' ss" using mem_inv_zero by simp
  moreover have "Mem_Alloc sz s = Some (r, s2)"
    using i pop run(1) by (simp add: Mem_Alloc_def s2_def)
  ultimately show ?thesis using res by blast
qed

lemma Mem_Free_nf:
  assumes inv: "mem_inv s (us @ (b, l, False) # vs) ss"
  shows "\<exists>s'. Mem_Free (b + 16) s = Some (Inr (0, s')) \<and> mem_inv s' (release_block us b l vs) ss"
proof -
  have nf: "nf_inv s (us @ (b, l, False) # vs)" and i: "initializedOnce s"
    and reg: "0 < regionStartPtr s" "0 \<le> sizeOfRegion s" "regionStartPtr s \<le> nextFitRegionStartPtr s"
    using inv by (simp_all add: mem_inv_def)
  note sp = nf_inv_split [OF nf]
  have lo: "nextFitRegionStartPtr s \<le> b" using tiles_le [OF sp(1)] .
  have hi: "b + 16 \<le> regionEnd s" using tiles_le [OF sp(3)] by simp
  have e: "padd (regionStartPtr s) (sizeOfRegion s) = regionEnd s"
    using reg by (simp add: padd_def regionEnd_def nat_add_distrib)
  have al: "int (b + 16) mod ALIGN_SIZE = 0"
    using sp(10) by (auto simp: ALIGN_SIZE_def elim!: dvdE)
  from nextFitFree_spec [OF nf] obtain s' where
    s': "nextFitFree (b + 16) s = Some (0, s')" "nf_inv s' (release_block us b l vs)" by blast
  have "Mem_Free (b + 16) s = Some (Inr (0, s'))"
    using i lo hi e al reg s'(1) by (simp add: Mem_Free_def)
  with mem_inv_nf_step [OF inv nextFitFree_frame [OF s'(1)] s'(2)] show ?thesis by blast
qed

lemma Mem_Free_slab:
  assumes inv: "mem_inv s bs ss" and ok: "slab_ok s v" and new: "v \<notin> set ss"
  shows "\<exists>s'. Mem_Free v s = Some (Inr (0, s')) \<and> mem_inv s' bs (v # ss)"
proof -
  let ?R = "roundedSlabAllocationSize s"
  have i: "initializedOnce s" and reg: "0 < regionStartPtr s" "0 \<le> sizeOfRegion s" "0 < ?R"
    "sizeOfRegion s < 2 ^ 31" "regionStartPtr s \<le> nextFitRegionStartPtr s"
    and sp: "slab_pool s ss" and nf: "nf_inv s bs" using inv by (auto simp: mem_inv_def)
  have v: "v \<noteq> 0" "16 dvd v" "regionStartPtr s \<le> v" "v + nat ?R \<le> nextFitRegionStartPtr s"
    "nat ?R dvd nextFitRegionStartPtr s - v" using ok by (auto simp: slab_ok_def)
  have lt: "v < nextFitRegionStartPtr s" using v(4) reg(3) by linarith
  have "nextFitRegionStartPtr s \<le> regionEnd s" using nf tiles_le by (auto simp: nf_inv_def)
  then have e: "v \<le> padd (regionStartPtr s) (sizeOfRegion s)" "nextFitRegionStartPtr s - v < 2 ^ 31"
    using reg lt v(3) by (auto simp: padd_def regionEnd_def)
  have al: "int v mod ALIGN_SIZE = 0" using v(2) by (auto simp: ALIGN_SIZE_def elim!: dvdE)
  have "int (nextFitRegionStartPtr s - v) mod ?R = 0"
    using v(5) reg(3) by (metis dvd_imp_mod_0 int_dvd_int_iff int_nat_eq less_imp_le)
  then have m: "c_rem (s32 (int (nextFitRegionStartPtr s) - int v)) ?R = 0"
    using e(2) lt reg(3) by (simp add: s32_id c_rem_nonneg of_nat_diff)
  from slabPush_pool [OF sp v(1) new] obtain s' where
    s': "slabPush v s = Inr s'" "slab_pool s' (v # ss)"
      "s' = s\<lparr>slab_next := slab_next s', topOfSlabStack := v\<rparr>" by blast
  have run: "Mem_Free v s = Some (Inr (0, s'))"
    using i v e al lt m s'(1) by (simp add: Mem_Free_def)
  have "mem_inv (s\<lparr>slab_next := slab_next s', topOfSlabStack := v\<rparr>) bs (v # ss)"
    using inv ok s'(2) by (auto simp: mem_inv_def nf_inv_slab_irrelevant slab_ok_def slab_pool_def)
  with run s'(3) show ?thesis by metis
qed

end
