(* ===== verification/MemSpec.thy ===== *)
theory MemSpec
  imports MemProps
begin

text \<open>
  The contract of p3/mem/mem.c: what \<open>Mem_Init\<close>, \<open>Mem_Alloc\<close> and \<open>Mem_Free\<close> promise to
  their callers, over the block list and the slab list of \<open>MemProps\<close>. The two sample states
  at the start serve the concrete instances.
\<close>

section \<open>Sample states\<close>

text \<open>The state after \<open>Mem_Init(256, 16)\<close> with the region at 64, and after one allocation.\<close>

definition sample_region :: mem_state where
  "sample_region = \<lparr>freeHead = 128, nextPtr = 128, regionStartPtr = 64, topOfSlabStack = 64,
     nextFitRegionStartPtr = 128, slabUnitSize = 16, roundedSlabAllocationSize = 16,
     sizeOfRegion = 256, initializedOnce = True, hd_len = (\<lambda>_. 0)(128 := 176), hd_ptr = (\<lambda>_. 0),
     slab_next = (\<lambda>_. 0)(64 := 80, 80 := 96, 96 := 112), bytes = (\<lambda>_. 1)\<rparr>"

definition sample_used :: mem_state where
  "sample_used = sample_region\<lparr>freeHead := 176, nextPtr := 176,
     hd_len := (\<lambda>_. 0)(128 := 32, 176 := 128), hd_ptr := (\<lambda>_. 0)(128 := MAGIC),
     topOfSlabStack := 80\<rparr>"

lemma sample_region_inv:
  "mem_inv sample_region [(128, 176, True)] [64, 80, 96, 112]"
  by (simp add: mem_inv_def sample_region_def nf_inv_def regionEnd_def block_ok_def slab_pool_def
      slab_ok_def fitToAlignSize_def ALIGN_SIZE_def c_rem_def fun_upd_apply)

lemma sample_used_inv:
  "mem_inv sample_used [(128, 32, False), (176, 128, True)] [80, 96, 112]"
  by (simp add: mem_inv_def sample_region_def sample_used_def nf_inv_def regionEnd_def block_ok_def
      slab_pool_def slab_ok_def fitToAlignSize_def ALIGN_SIZE_def c_rem_def fun_upd_apply)

section \<open>Facts about the block list\<close>

lemma carve_allocated:
  "(b, a, False) \<in> set (carve b l a)"
  by (simp add: carve_def)

lemma release_carve:
  assumes "coalesced (us @ (b, l, True) # vs)" "a \<le> l" "16 dvd a" "16 dvd l"
  shows "\<exists>ws. carve b l a = (b, a, False) # ws \<and> release_block us b a (ws @ vs) = us @ (b, l, True) # vs"
proof (cases "l = a")
  case True
  from assms(1) have "vs = [] \<or> \<not> snd (snd (hd vs))" "us = [] \<or> \<not> snd (snd (last us))"
    by (auto simp: coalesced_append coalesced_Cons)
  with True show ?thesis
    by (cases us rule: rev_cases; cases vs)
       (auto simp: carve_def release_block_def join_next_def split: bool.splits)
next
  case False
  then have "a + 16 \<le> l" using assms(2-4) by (auto elim!: dvdE)
  moreover from assms(1) have "us = [] \<or> \<not> snd (snd (last us))"
    by (auto simp: coalesced_append coalesced_Cons)
  ultimately show ?thesis using False
    by (cases us rule: rev_cases)
       (auto simp: carve_def release_block_def join_next_def split: bool.splits)
qed

lemma blocks_disjoint:
  assumes "tiles a bs e" "(b, l, f) \<in> set bs" "(c, m, g) \<in> set bs" "b \<noteq> c"
  shows "b + 16 + l \<le> c \<or> c + 16 + m \<le> b"
proof -
  from assms(2) obtain us vs where bs: "bs = us @ (b, l, f) # vs" by (meson split_list)
  with assms(1) have t: "tiles a us b" "tiles (b + 16 + l) vs e" by (auto simp: tiles_append)
  from bs assms(3,4) have "(c, m, g) \<in> set us \<or> (c, m, g) \<in> set vs" by auto
  with tiles_bounds [OF t(1)] tiles_bounds [OF t(2)] show ?thesis by blast
qed

section \<open>Properties\<close>

text \<open>Initialisation. On a region of a multiple of 64 bytes \<open>Mem_Init\<close> terminates, returns
  the region and establishes the invariant: the upper three quarters are one free block, the
  lower quarter holds as many rounded slabs as fit, flush against the next-fit half.\<close>

lemma Mem_Init_establishes:
  assumes "\<not> initializedOnce s" "1 \<le> slabSize" "fitToAlignSize slabSize \<le> szRegion div 4"
    "64 dvd szRegion" "0 < szRegion" "szRegion < 2 ^ 31" "16 dvd base" "0 < base"
  shows "\<exists>s'. Mem_Init (Some base) szRegion slabSize s = Some (Inr (base, s')) \<and>
    mem_inv s' [(base + nat (szRegion div 4), nat (szRegion - szRegion div 4 - 16), True)]
      (slab_list base (nat (szRegion div 4)) (nat (fitToAlignSize slabSize)))"
  using Mem_Init_spec [OF assms] .

lemma Mem_Init_establishes_example:
  "\<exists>s'. Mem_Init (Some 4096) 8192 100 (sample_region\<lparr>initializedOnce := False\<rparr>) = Some (Inr (4096, s')) \<and>
    mem_inv s' [(4096 + nat (8192 div 4), nat (8192 - 8192 div 4 - 16), True)]
      (slab_list 4096 (nat (8192 div 4)) (nat (fitToAlignSize 100)))"
  by (rule Mem_Init_establishes) (simp_all add: fitToAlignSize_def ALIGN_SIZE_def c_rem_def)

text \<open>C7: Next-fit allocation. A request that no slab serves terminates. It returns \<open>NULL\<close>, with
  the blocks unchanged, exactly when no free block is large enough; otherwise it returns the
  payload of the first large enough free block in next-fit order (from \<open>nextPtr\<close>, wrapping at
  the end of the free list), which is carved into the allocated part and the free rest.\<close>

theorem Mem_Alloc_next_fit:
  assumes "mem_inv s bs ss" "0 \<le> sz" "sz + 16 \<le> 2 ^ 31" "sz \<noteq> slabUnitSize s \<or> ss = []"
  shows "\<exists>r s' bs'. Mem_Alloc sz s = Some (r, s') \<and> mem_inv s' bs' ss \<and>
    (r = 0 \<longleftrightarrow> \<not> (\<exists>b l. (b, l, True) \<in> set bs \<and> fitToAlignSize sz \<le> int l)) \<and>
    (case nf_choice s bs (fitToAlignSize sz) of
       None \<Rightarrow> r = 0 \<and> bs' = bs
     | Some b \<Rightarrow> r = b + 16 \<and> (\<exists>us l vs. bs = us @ (b, l, True) # vs \<and>
         fitToAlignSize sz \<le> int l \<and> bs' = us @ carve b l (nat (fitToAlignSize sz)) @ vs))"
proof -
  from Mem_Alloc_nf [OF assms] obtain r s' bs' where
    r: "Mem_Alloc sz s = Some (r, s')" "mem_inv s' bs' ss"
      "case nf_choice s bs (fitToAlignSize sz) of
       None \<Rightarrow> r = 0 \<and> bs' = bs
     | Some b \<Rightarrow> r = b + 16 \<and> (\<exists>us l vs. bs = us @ (b, l, True) # vs \<and>
         fitToAlignSize sz \<le> int l \<and> bs' = us @ carve b l (nat (fitToAlignSize sz)) @ vs)"
    by blast
  have "r = 0 \<longleftrightarrow> nf_choice s bs (fitToAlignSize sz) = None"
    using r(3) by (auto split: option.splits)
  then have "r = 0 \<longleftrightarrow> \<not> (\<exists>b l. (b, l, True) \<in> set bs \<and> fitToAlignSize sz \<le> int l)"
    unfolding nf_choice_None by (meson not_le)
  with r show ?thesis by blast
qed

theorem Mem_Alloc_next_fit_witness:
  "\<exists>r s' bs'. Mem_Alloc 40 sample_region = Some (r, s') \<and> mem_inv s' bs' [64, 80, 96, 112] \<and>
    (r = 0 \<longleftrightarrow> \<not> (\<exists>b l. (b, l, True) \<in> set [(128 :: addr, 176, True)] \<and> fitToAlignSize 40 \<le> int l)) \<and>
    (case nf_choice sample_region [(128, 176, True)] (fitToAlignSize 40) of
       None \<Rightarrow> r = 0 \<and> bs' = [(128, 176, True)]
     | Some b \<Rightarrow> r = b + 16 \<and> (\<exists>us l vs. [(128, 176, True)] = us @ (b, l, True) # vs \<and>
         fitToAlignSize 40 \<le> int l \<and> bs' = us @ carve b l (nat (fitToAlignSize 40)) @ vs))"
  by (rule Mem_Alloc_next_fit [OF sample_region_inv]) (simp_all add: sample_region_def)



text \<open>C6: Freeing a next-fit block. \<open>Mem_Free\<close> of the payload address of an allocated block
  terminates with 0, marks the block free and merges it with a free right and a free left
  neighbour; if no two neighbours were free before, none are afterwards, so a region in which
  everything is free is one block again.\<close>

theorem Mem_Free_coalesces:
  assumes "mem_inv s (us @ (b, l, False) # vs) ss" "coalesced (us @ (b, l, False) # vs)"
  shows "\<exists>s'. Mem_Free (b + 16) s = Some (Inr (0, s')) \<and> mem_inv s' (release_block us b l vs) ss \<and>
    coalesced (release_block us b l vs) \<and>
    ((\<forall>x \<in> set (release_block us b l vs). snd (snd x)) \<longrightarrow> length (release_block us b l vs) \<le> 1)"
  using Mem_Free_nf [OF assms(1)] coalesced_release [OF assms(2)] coalesced_all_free by blast

theorem Mem_Free_coalesces_witness:
  "\<exists>s'. Mem_Free (128 + 16) sample_used = Some (Inr (0, s')) \<and>
    mem_inv s' (release_block [] 128 32 [(176, 128, True)]) [80, 96, 112] \<and>
    coalesced (release_block [] 128 32 [(176, 128, True)]) \<and>
    ((\<forall>x \<in> set (release_block [] 128 32 [(176, 128, True)]). snd (snd x)) \<longrightarrow>
       length (release_block [] 128 32 [(176, 128, True)]) \<le> 1)"
  by (rule Mem_Free_coalesces) (simp_all add: sample_used_inv)

text \<open>C23: Round trip. Allocating from a coalesced region and freeing the result at once gives the
  block list back exactly as it was.\<close>

theorem Mem_Alloc_Free_roundtrip:
  assumes "mem_inv s bs ss" "coalesced bs" "0 \<le> sz" "sz + 16 \<le> 2 ^ 31"
    "sz \<noteq> slabUnitSize s \<or> ss = []" "(c, m, True) \<in> set bs" "fitToAlignSize sz \<le> int m"
  shows "\<exists>r s1 s2. Mem_Alloc sz s = Some (r, s1) \<and> r \<noteq> 0 \<and>
    Mem_Free r s1 = Some (Inr (0, s2)) \<and> mem_inv s2 bs ss"
proof -
  let ?al = "fitToAlignSize sz"
  from assms(6,7) have "nf_choice s bs ?al \<noteq> None"
    using nf_choice_None [of s bs ?al] by force
  with Mem_Alloc_nf [OF assms(1,3,4,5)] obtain r s1 b us l vs where
    r: "Mem_Alloc sz s = Some (r, s1)" "r = b + 16" "bs = us @ (b, l, True) # vs" "?al \<le> int l"
      "mem_inv s1 (us @ carve b l (nat ?al) @ vs) ss"
    by (auto split: option.splits)
  have nf: "nf_inv s (us @ (b, l, True) # vs)" using assms(1) r(3) by (simp add: mem_inv_def)
  have al: "0 \<le> ?al" "16 dvd ?al" using fitToAlignSize_spec [OF assms(3)] assms(3) by auto
  then have "16 dvd nat ?al" "nat ?al \<le> l"
    using r(4) by (metis int_dvd_int_iff int_nat_eq of_nat_numeral, linarith)
  from release_carve [OF _ this(2,1) nf_inv_split(2) [OF nf], where us = us and vs = vs] assms(2) r(3) obtain ws where
    ws: "carve b l (nat ?al) = (b, nat ?al, False) # ws" "release_block us b (nat ?al) (ws @ vs) = bs"
    by blast
  with r(5) have "mem_inv s1 (us @ (b, nat ?al, False) # ws @ vs) ss" by simp
  from Mem_Free_nf [OF this] ws(2) r(1,2) show ?thesis by auto
qed

theorem Mem_Alloc_Free_roundtrip_witness:
  "\<exists>r s1 s2. Mem_Alloc 40 sample_region = Some (r, s1) \<and> r \<noteq> 0 \<and>
    Mem_Free r s1 = Some (Inr (0, s2)) \<and> mem_inv s2 [(128, 176, True)] [64, 80, 96, 112]"
  by (rule Mem_Alloc_Free_roundtrip [OF sample_region_inv, where c = 128 and m = 176])
     (simp_all add: sample_region_def fitToAlignSize_def ALIGN_SIZE_def c_rem_def)

end
