(* ===== verification/CString.thy ===== *)
theory CString
  imports Prelude "HOL-Library.Word"
begin

text \<open>
  The byte and string routines of kernel/string.c and user/ulib.c on a flat byte store. A
  \<open>char\<close> is an 8-bit word, compared as \<open>uchar\<close> where the code casts and as a signed value
  where it does not. A scan whose only bound is the terminating NUL is a
  \<open>partial_function (option)\<close>. \<open>cstr m p xs\<close> says that the NUL-terminated string at \<open>p\<close>
  is \<open>xs\<close>. The system call \<open>read(0, &c, 1)\<close> of \<open>gets\<close> is an argument, the bytes that
  are still to come.
\<close>

type_synonym byte = "8 word"
type_synonym bmem = "addr \<Rightarrow> byte"

section \<open>kernel/string.c\<close>

text \<open>The \<open>rep stosb\<close> of \<open>memset\<close>.\<close>

primrec stosb :: "addr \<Rightarrow> byte \<Rightarrow> nat \<Rightarrow> bmem \<Rightarrow> bmem" where
  "stosb d c 0 m = m"
| "stosb d c (Suc n) m = stosb (d + 1) c n (m(d := c))"

definition memset :: "addr \<Rightarrow> int \<Rightarrow> nat \<Rightarrow> bmem \<Rightarrow> addr \<times> bmem" where
  "memset dst c n m = (dst, stosb dst (word_of_int c) n m)"

primrec memcmp :: "bmem \<Rightarrow> addr \<Rightarrow> addr \<Rightarrow> nat \<Rightarrow> int" where
  "memcmp m s1 s2 0 = 0"
| "memcmp m s1 s2 (Suc n) =
     (if m s1 \<noteq> m s2 then uint (m s1) - uint (m s2) else memcmp m (s1 + 1) (s2 + 1) n)"

primrec copy_down :: "addr \<Rightarrow> addr \<Rightarrow> nat \<Rightarrow> bmem \<Rightarrow> bmem" where
  "copy_down d s 0 m = m"
| "copy_down d s (Suc n) m = copy_down (d - 1) (s - 1) n (m(d - 1 := m (s - 1)))"

primrec copy_up :: "addr \<Rightarrow> addr \<Rightarrow> nat \<Rightarrow> bmem \<Rightarrow> bmem" where
  "copy_up d s 0 m = m"
| "copy_up d s (Suc n) m = copy_up (d + 1) (s + 1) n (m(d := m s))"

definition memmove :: "addr \<Rightarrow> addr \<Rightarrow> nat \<Rightarrow> bmem \<Rightarrow> addr \<times> bmem" where
  "memmove dst src n m =
     (dst, if src < dst \<and> src + n > dst then copy_down (dst + n) (src + n) n m
           else copy_up dst src n m)"

definition memcpy :: "addr \<Rightarrow> addr \<Rightarrow> nat \<Rightarrow> bmem \<Rightarrow> addr \<times> bmem" where
  "memcpy dst src n m = memmove dst src n m"

fun strncmp :: "bmem \<Rightarrow> addr \<Rightarrow> addr \<Rightarrow> nat \<Rightarrow> int" where
  "strncmp m p q 0 = 0"
| "strncmp m p q (Suc n) =
     (if m p \<noteq> 0 \<and> m p = m q then strncmp m (p + 1) (q + 1) n
      else uint (m p) - uint (m q))"

fun strncpy_loop :: "addr \<Rightarrow> addr \<Rightarrow> nat \<Rightarrow> bmem \<Rightarrow> bmem" where
  "strncpy_loop s t 0 m = m"
| "strncpy_loop s t (Suc n) m =
     (if m t \<noteq> 0 then strncpy_loop (s + 1) (t + 1) n (m(s := m t))
      else stosb (s + 1) 0 n (m(s := m t)))"

definition strncpy :: "addr \<Rightarrow> addr \<Rightarrow> int \<Rightarrow> bmem \<Rightarrow> addr \<times> bmem" where
  "strncpy s t n m = (s, strncpy_loop s t (nat n) m)"

text \<open>
  \<open>while(--n > 0 && (*s++ = *t++) != 0); *s = 0\<close>: after copying a NUL the pointer has
  moved on, so the last store is one past it.
\<close>

fun safestrcpy_loop :: "addr \<Rightarrow> addr \<Rightarrow> nat \<Rightarrow> bmem \<Rightarrow> bmem" where
  "safestrcpy_loop s t 0 m = m(s := 0)"
| "safestrcpy_loop s t (Suc k) m =
     (if m t \<noteq> 0 then safestrcpy_loop (s + 1) (t + 1) k (m(s := m t))
      else (m(s := m t))(s + 1 := 0))"

definition safestrcpy :: "addr \<Rightarrow> addr \<Rightarrow> int \<Rightarrow> bmem \<Rightarrow> addr \<times> bmem" where
  "safestrcpy s t n m = (s, if n \<le> 0 then m else safestrcpy_loop s t (nat (n - 1)) m)"

partial_function (option) strlen_loop :: "bmem \<Rightarrow> addr \<Rightarrow> int \<Rightarrow> int option" where
  "strlen_loop m s n = (if m (padd s n) = 0 then Some n else strlen_loop m s (n + 1))"

definition strlen :: "bmem \<Rightarrow> addr \<Rightarrow> int option" where
  "strlen m s = strlen_loop m s 0"

section \<open>user/ulib.c\<close>

partial_function (option) strcpy_loop :: "addr \<Rightarrow> addr \<Rightarrow> bmem \<Rightarrow> bmem option" where
  "strcpy_loop s t m =
     (if m t \<noteq> 0 then strcpy_loop (s + 1) (t + 1) (m(s := m t)) else Some (m(s := m t)))"

definition strcpy :: "addr \<Rightarrow> addr \<Rightarrow> bmem \<Rightarrow> (addr \<times> bmem) option" where
  "strcpy s t m = map_option (\<lambda>m'. (s, m')) (strcpy_loop s t m)"

partial_function (option) strcmp :: "bmem \<Rightarrow> addr \<Rightarrow> addr \<Rightarrow> int option" where
  "strcmp m p q =
     (if m p \<noteq> 0 \<and> m p = m q then strcmp m (p + 1) (q + 1)
      else Some (uint (m p) - uint (m q)))"

partial_function (option) strchr :: "bmem \<Rightarrow> addr \<Rightarrow> byte \<Rightarrow> addr option" where
  "strchr m s c =
     (if m s = 0 then Some 0 else if m s = c then Some s else strchr m (s + 1) c)"

definition is_digit :: "byte \<Rightarrow> bool" where
  "is_digit c \<longleftrightarrow> 48 \<le> sint c \<and> sint c \<le> 57"

partial_function (option) atoi_loop :: "bmem \<Rightarrow> addr \<Rightarrow> int \<Rightarrow> int option" where
  "atoi_loop m s n =
     (if is_digit (m s) then atoi_loop m (s + 1) (n * 10 + sint (m s) - 48) else Some n)"

definition atoi :: "bmem \<Rightarrow> addr \<Rightarrow> int option" where
  "atoi m s = atoi_loop m s 0"

text \<open>The user-level \<open>memmove\<close> always copies upwards.\<close>

definition umemmove :: "addr \<Rightarrow> addr \<Rightarrow> int \<Rightarrow> bmem \<Rightarrow> addr \<times> bmem" where
  "umemmove dst src n m = (dst, copy_up dst src (nat n) m)"

text \<open>The bytes stored by \<open>gets\<close>, the final index and the input left.\<close>

fun gets_loop :: "addr \<Rightarrow> int \<Rightarrow> nat \<Rightarrow> byte list \<Rightarrow> bmem \<Rightarrow> nat \<times> byte list \<times> bmem" where
  "gets_loop buf mx i [] m = (i, [], m)"
| "gets_loop buf mx i (c # inp) m =
     (if int i + 1 < mx then
        let m1 = m(buf + i := c) in
        if c = 10 \<or> c = 13 then (i + 1, inp, m1) else gets_loop buf mx (i + 1) inp m1
      else (i, c # inp, m))"

definition gets :: "addr \<Rightarrow> int \<Rightarrow> byte list \<Rightarrow> bmem \<Rightarrow> byte list \<times> bmem" where
  "gets buf mx inp m = (let (i, rest, m1) = gets_loop buf mx 0 inp m in (rest, m1(buf + i := 0)))"

section \<open>Strings in the store\<close>

declare fun_upd_apply [simp del] fun_upd_same [simp] fun_upd_other [simp]

primrec holds :: "bmem \<Rightarrow> addr \<Rightarrow> byte list \<Rightarrow> bool" where
  "holds m p [] \<longleftrightarrow> True"
| "holds m p (x # xs) \<longleftrightarrow> m p = x \<and> holds m (p + 1) xs"

definition cstr :: "bmem \<Rightarrow> addr \<Rightarrow> byte list \<Rightarrow> bool" where
  "cstr m p xs \<longleftrightarrow> holds m p (xs @ [0]) \<and> 0 \<notin> set xs"

lemma cstr_simps [simp]:
  "cstr m p [] \<longleftrightarrow> m p = 0"
  "cstr m p (x # xs) \<longleftrightarrow> m p = x \<and> x \<noteq> 0 \<and> cstr m (p + 1) xs"
  by (auto simp: cstr_def)

lemma holds_frame: "(\<And>a. p \<le> a \<Longrightarrow> a < p + length xs \<Longrightarrow> m' a = m a) \<Longrightarrow> holds m' p xs = holds m p xs"
proof (induction xs arbitrary: p)
  case Nil
  then show ?case by simp
next
  case (Cons x xs)
  have "holds m' (p + 1) xs = holds m (p + 1) xs" by (rule Cons.IH) (simp add: Cons.prems)
  with Cons.prems [of p] show ?case by simp
qed

lemma cstr_frame: "(\<And>a. p \<le> a \<Longrightarrow> a \<le> p + length xs \<Longrightarrow> m' a = m a) \<Longrightarrow> cstr m' p xs = cstr m p xs"
  unfolding cstr_def by (subst holds_frame [where m = m]) auto

lemma stosb_eq: "stosb d c n m = (\<lambda>a. if d \<le> a \<and> a < d + n then c else m a)"
  by (induction n arbitrary: d m) (auto simp: fun_eq_iff fun_upd_apply)

lemma copy_up_eq:
  "d \<le> s \<or> s + n \<le> d \<Longrightarrow>
   copy_up d s n m = (\<lambda>a. if d \<le> a \<and> a < d + n then m (s + (a - d)) else m a)"
proof (induction n arbitrary: d s m)
  case 0
  then show ?case by (auto simp: fun_eq_iff)
next
  case (Suc n)
  from Suc.prems have "d + 1 \<le> s + 1 \<or> s + 1 + n \<le> d + 1" by auto
  note ih = Suc.IH [OF this, of "m(d := m s)"]
  show ?case
  proof
    fix a
    consider "a < d" | "a = d" | "d < a" "a < d + Suc n" | "d + Suc n \<le> a" by linarith
    then show "copy_up d s (Suc n) m a = (if d \<le> a \<and> a < d + Suc n then m (s + (a - d)) else m a)"
    proof cases
      case 3
      then have "s + 1 + (a - (d + 1)) = s + (a - d)" "s + (a - d) \<noteq> d" using Suc.prems by auto
      with 3 ih show ?thesis by simp
    qed (use ih in auto)
  qed
qed

lemma copy_down_eq:
  "s \<le> d \<Longrightarrow> n \<le> s \<Longrightarrow>
   copy_down d s n m = (\<lambda>a. if d - n \<le> a \<and> a < d then m (s - n + (a - (d - n))) else m a)"
proof (induction n arbitrary: d s m)
  case 0
  then show ?case by (auto simp: fun_eq_iff)
next
  case (Suc n)
  from Suc.prems have "s - 1 \<le> d - 1" "n \<le> s - 1" by auto
  note ih = Suc.IH [OF this, of "m(d - 1 := m (s - 1))"]
  show ?case
  proof
    fix a
    consider "a < d - Suc n" | "a = d - 1" | "d - Suc n \<le> a" "a < d - 1" | "d \<le> a" by linarith
    then show "copy_down d s (Suc n) m a =
        (if d - Suc n \<le> a \<and> a < d then m (s - Suc n + (a - (d - Suc n))) else m a)"
    proof cases
      case 3
      then have "s - 1 - n + (a - (d - 1 - n)) = s - Suc n + (a - (d - Suc n))"
        "s - Suc n + (a - (d - Suc n)) \<noteq> d - 1" using Suc.prems by auto
      with 3 ih show ?thesis by simp
    qed (use ih Suc.prems in auto)
  qed
qed

lemma strncmp_lists:
  "cstr m p xs \<Longrightarrow> cstr m q ys \<Longrightarrow> strncmp m p q n = 0 \<longleftrightarrow> take n xs = take n ys"
proof (induction n arbitrary: p q xs ys)
  case 0
  then show ?case by simp
next
  case (Suc n)
  then show ?case
    by (cases xs; cases ys) (auto simp: unsigned_eq_0_iff dest: unsigned_word_eqI)
qed

lemma strcpy_frame_step:
  assumes "cstr m t xs" "t + length xs < s \<or> s + length xs < t"
  shows "\<exists>m'. strcpy_loop s t m = Some m' \<and> cstr m' s xs \<and>
    (\<forall>a. a < s \<or> s + length xs < a \<longrightarrow> m' a = m a)"
  using assms
proof (induction xs arbitrary: s t m)
  case Nil
  then show ?case by (subst strcpy_loop.simps) auto
next
  case (Cons x xs)
  let ?m = "m(s := m t)"
  have x: "m t = x" "x \<noteq> 0" "cstr m (t + 1) xs" using Cons.prems(1) by auto
  have "cstr ?m (t + 1) xs = cstr m (t + 1) xs"
    by (rule cstr_frame) (use Cons.prems(2) in auto)
  with x(3) have c: "cstr ?m (t + 1) xs" by blast
  have "t + 1 + length xs < s + 1 \<or> s + 1 + length xs < t + 1" using Cons.prems(2) by auto
  from Cons.IH [OF c this] obtain m' where
    m': "strcpy_loop (s + 1) (t + 1) ?m = Some m'" "cstr m' (s + 1) xs"
      "\<forall>a. a < s + 1 \<or> s + 1 + length xs < a \<longrightarrow> m' a = ?m a" by blast
  have "strcpy_loop s t m = Some m'" using x m'(1) by (subst strcpy_loop.simps) simp
  moreover have "m' s = x" using m'(3) x by simp
  ultimately show ?case using m' x by (intro exI [of _ m']) auto
qed

lemma safestrcpy_loop_spec:
  assumes "cstr m t xs" "t + length xs < s \<or> s + k < t"
  shows "cstr (safestrcpy_loop s t k m) s (take k xs) \<and>
    (\<forall>a. a < s \<or> s + k < a \<longrightarrow> safestrcpy_loop s t k m a = m a)"
  using assms
proof (induction k arbitrary: s t m xs)
  case 0
  then show ?case by auto
next
  case (Suc k)
  show ?case
  proof (cases xs)
    case Nil
    with Suc.prems show ?thesis by auto
  next
    case (Cons x ys)
    let ?m = "m(s := m t)"
    have x: "m t = x" "x \<noteq> 0" "cstr m (t + 1) ys" using Suc.prems(1) Cons by auto
    have d: "t + 1 + length ys < s + 1 \<or> s + 1 + k < t + 1" using Suc.prems(2) Cons by auto
    have "cstr ?m (t + 1) ys = cstr m (t + 1) ys"
      if "t + length xs < s" by (rule cstr_frame) (use that Cons in auto)
    moreover have "cstr ?m (t + 1) ys = cstr m (t + 1) ys"
      if "s + Suc k < t" by (rule cstr_frame) (use that in auto)
    ultimately have "cstr ?m (t + 1) ys" using x(3) Suc.prems(2) by blast
    from Suc.IH [OF this d] x Cons show ?thesis by auto
  qed
qed

lemma strlen_loop_spec:
  "cstr m (s + n) xs \<Longrightarrow> strlen_loop m s (int n) = Some (int n + int (length xs))"
proof (induction xs arbitrary: n)
  case Nil
  then show ?case by (subst strlen_loop.simps) simp
next
  case (Cons x xs)
  have "strlen_loop m s (int (Suc n)) = Some (int (Suc n) + int (length xs))"
    by (rule Cons.IH) (use Cons.prems in simp)
  with Cons.prems show ?case by (subst strlen_loop.simps) (simp add: add.commute)
qed

section \<open>Properties\<close>

text \<open>The kernel's \<open>memmove\<close> copies the old contents of the source range to the target
  range and touches nothing else, whichever way the two ranges overlap.\<close>

lemma memmove_copies:
  "memmove dst src n m =
     (dst, \<lambda>a. if dst \<le> a \<and> a < dst + n then m (src + (a - dst)) else m a)"
proof (cases "src < dst \<and> src + n > dst")
  case True
  then have "copy_down (dst + n) (src + n) n m =
      (\<lambda>a. if dst \<le> a \<and> a < dst + n then m (src + (a - dst)) else m a)"
    by (subst copy_down_eq) auto
  with True show ?thesis by (simp add: memmove_def)
next
  case False
  then have "dst \<le> src \<or> src + n \<le> dst" by auto
  from copy_up_eq [OF this] False show ?thesis by (auto simp: memmove_def)
qed

text \<open>\<open>strncmp\<close> on two NUL-terminated strings is zero exactly when they agree on their first
  \<open>n\<close> characters, where the end of a string counts as a difference (the test on file names in
  \<open>namecmp\<close>).\<close>

lemma strncmp_zero_iff:
  assumes "cstr m p xs" "cstr m q ys"
  shows "strncmp m p q n = 0 \<longleftrightarrow> take n xs = take n ys"
  using strncmp_lists [OF assms] .

definition sample_text :: bmem where
  "sample_text = (\<lambda>_. 0)(10 := 97, 11 := 98, 12 := 99, 20 := 97, 21 := 98)"

lemma strncmp_zero_iff_example:
  "strncmp sample_text 10 20 2 = 0 \<longleftrightarrow> take 2 [97, 98, 99 :: byte] = take 2 [97, 98]"
  by (rule strncmp_zero_iff) (simp_all add: sample_text_def)

text \<open>\<open>safestrcpy\<close> into a buffer of \<open>n > 0\<close> bytes that does not overlap the source leaves a
  NUL-terminated string there, the source cut to \<open>n - 1\<close> characters, and writes no byte outside
  the buffer.\<close>

lemma safestrcpy_truncates:
  assumes "cstr m t xs" "t + length xs < s \<or> s + nat n \<le> t" "0 < n"
  shows "cstr (snd (safestrcpy s t n m)) s (take (nat (n - 1)) xs) \<and>
    (\<forall>a. a < s \<or> s + nat n \<le> a \<longrightarrow> snd (safestrcpy s t n m) a = m a)"
proof -
  have "t + length xs < s \<or> s + nat (n - 1) < t" using assms(2,3) by auto
  from safestrcpy_loop_spec [OF assms(1) this] assms(3) show ?thesis
    by (auto simp: safestrcpy_def)
qed

lemma safestrcpy_truncates_example:
  "cstr (snd (safestrcpy 30 10 3 sample_text)) 30 (take (nat (3 - 1)) [97, 98, 99]) \<and>
    snd (safestrcpy 30 10 3 sample_text) 33 = sample_text 33"
proof -
  have "cstr (snd (safestrcpy 30 10 3 sample_text)) 30 (take (nat (3 - 1)) [97, 98, 99]) \<and>
    (\<forall>a. a < 30 \<or> 30 + nat 3 \<le> a \<longrightarrow> snd (safestrcpy 30 10 3 sample_text) a = sample_text a)"
    by (rule safestrcpy_truncates) (simp_all add: sample_text_def)
  then show ?thesis by simp
qed

end
