(* ===== verification/Pipe.thy ===== *)
theory Pipe
  imports Fifo "HOL-Library.Word"
begin

text \<open>
  Pipes (kernel/pipe.c): a 512-byte ring indexed by two free-running 32-bit counters. A call is
  the code between acquiring and giving up \<open>p->lock\<close>: \<open>pipewrite\<close> and \<open>piperead\<close> run until
  they return or sleep, and a sleeping writer is resumed with the bytes it has left. The third
  component of a result lists the channels woken. \<open>kfree\<close> of a fully closed pipe is the flag
  that \<open>pipeclose\<close> returns.
\<close>

definition PIPESIZE :: nat where "PIPESIZE = 512"

record pipe =
  data :: "nat \<Rightarrow> 8 word"
  nread :: "32 word"
  nwrite :: "32 word"
  readopen :: bool
  writeopen :: bool

datatype pchan = NRead | NWrite

datatype 'a pres = PRet 'a | PSleep pchan

definition pfull :: "pipe \<Rightarrow> bool" where
  "pfull p \<longleftrightarrow> nwrite p = nread p + of_nat PIPESIZE"

definition pput :: "8 word \<Rightarrow> pipe \<Rightarrow> pipe" where
  "pput b p = p\<lparr>data := (data p)(unat (nwrite p mod of_nat PIPESIZE) := b), nwrite := nwrite p + 1\<rparr>"

definition pget :: "pipe \<Rightarrow> 8 word \<times> pipe" where
  "pget p = (data p (unat (nread p mod of_nat PIPESIZE)), p\<lparr>nread := nread p + 1\<rparr>)"

definition pinit :: pipe where
  "pinit = \<lparr>data = (\<lambda>_. 0), nread = 0, nwrite = 0, readopen = True, writeopen = True\<rparr>"

definition pipeclose :: "bool \<Rightarrow> pipe \<Rightarrow> pipe \<times> pchan list \<times> bool" where
  "pipeclose writable p =
     (let (p1, w) = (if writable then (p\<lparr>writeopen := False\<rparr>, [NRead])
                     else (p\<lparr>readopen := False\<rparr>, [NWrite]))
      in (p1, w, \<not> readopen p1 \<and> \<not> writeopen p1))"

text \<open>
  The write loop: \<open>rest\<close> is \<open>addr[i..n-1]\<close>. Returns the outcome, the bytes still to be
  written, the pipe and the wake-ups.
\<close>

fun pipewrite_loop :: "bool \<Rightarrow> int \<Rightarrow> 8 word list \<Rightarrow> pipe \<Rightarrow>
    int pres \<times> 8 word list \<times> pipe \<times> pchan list" where
  "pipewrite_loop killed n [] p = (PRet n, [], p, [NRead])"
| "pipewrite_loop killed n (b # rest) p =
     (if pfull p then
        if \<not> readopen p \<or> killed then (PRet (- 1), b # rest, p, [])
        else (PSleep NWrite, b # rest, p, [NRead])
      else pipewrite_loop killed n rest (pput b p))"

definition pipewrite :: "bool \<Rightarrow> (nat \<Rightarrow> 8 word) \<Rightarrow> int \<Rightarrow> pipe \<Rightarrow>
    int pres \<times> 8 word list \<times> pipe \<times> pchan list" where
  "pipewrite killed addr n p = pipewrite_loop killed n (map addr [0..<nat n]) p"

primrec piperead_copy :: "nat \<Rightarrow> pipe \<Rightarrow> 8 word list \<times> pipe" where
  "piperead_copy 0 p = ([], p)"
| "piperead_copy (Suc k) p =
     (if nread p = nwrite p then ([], p)
      else let (b, p1) = pget p; (bs, p2) = piperead_copy k p1 in (b # bs, p2))"

text \<open>The bytes stored at \<open>addr\<close> are returned; the C return value is their number.\<close>

definition piperead :: "bool \<Rightarrow> int \<Rightarrow> pipe \<Rightarrow> int pres \<times> 8 word list \<times> pipe \<times> pchan list" where
  "piperead killed n p =
     (if nread p = nwrite p \<and> writeopen p then
        if killed then (PRet (- 1), [], p, []) else (PSleep NRead, [], p, [])
      else let (bs, p1) = piperead_copy (nat n) p
           in (PRet (int (length bs)), bs, p1, [NWrite]))"

section \<open>The ring as a bounded queue\<close>

definition pcount :: "pipe \<Rightarrow> nat" where "pcount p = unat (nwrite p - nread p)"

definition pcontents :: "pipe \<Rightarrow> 8 word list" where
  "pcontents p = map (\<lambda>k. data p (unat ((nread p + of_nat k) mod of_nat PIPESIZE))) [0..<pcount p]"

definition pipe_ok :: "pipe \<Rightarrow> bool" where "pipe_ok p \<longleftrightarrow> pcount p \<le> PIPESIZE"

definition pput_opt :: "8 word \<Rightarrow> pipe \<Rightarrow> pipe option" where
  "pput_opt b p = (if pfull p then None else Some (pput b p))"

definition pget_opt :: "pipe \<Rightarrow> (8 word \<times> pipe) option" where
  "pget_opt p = (if nread p = nwrite p then None else Some (pget p))"

lemma unat_512: "unat (of_nat PIPESIZE :: 32 word) = 512"
  by (simp add: PIPESIZE_def)

lemma ring_index: "unat ((w :: 32 word) mod of_nat PIPESIZE) = unat w mod 512"
  by (simp add: unat_mod_distrib unat_512)

lemma ring_index_add: "unat ((w + of_nat k :: 32 word) mod of_nat PIPESIZE) = (unat w + k) mod 512"
proof -
  have "unat (w + of_nat k) = (unat w + k) mod 2 ^ 32"
    by (simp add: unat_word_ariths(1) unat_of_nat mod_add_right_eq)
  then show ?thesis unfolding ring_index by (simp add: mod_mod_cancel)
qed

lemma pcontents_alt: "pcontents p = map (\<lambda>k. data p ((unat (nread p) + k) mod 512)) [0..<pcount p]"
  by (simp add: pcontents_def ring_index_add)

lemma length_pcontents [simp]: "length (pcontents p) = pcount p"
  by (simp add: pcontents_def)

lemma pfull_iff: "pfull p \<longleftrightarrow> pcount p = PIPESIZE"
proof -
  have "pfull p \<longleftrightarrow> nwrite p - nread p = of_nat PIPESIZE"
    by (auto simp: pfull_def algebra_simps)
  also have "\<dots> \<longleftrightarrow> pcount p = PIPESIZE"
    unfolding pcount_def by (metis unat_512 PIPESIZE_def unsigned_word_eqI)
  finally show ?thesis .
qed

lemma pempty_iff: "nread p = nwrite p \<longleftrightarrow> pcontents p = []"
proof -
  have "pcontents p = [] \<longleftrightarrow> pcount p = 0" by (metis length_0_conv length_pcontents)
  then show ?thesis by (auto simp: pcount_def unat_eq_0)
qed

lemma pput_contents:
  assumes "pcount p < PIPESIZE"
  shows "pcount (pput b p) = pcount p + 1" "pcontents (pput b p) = pcontents p @ [b]"
proof -
  have lt: "pcount p < 512" using assms by (simp add: PIPESIZE_def)
  have e: "nwrite (pput b p) - nread (pput b p) = (nwrite p - nread p) + 1"
    by (simp add: pput_def)
  show c: "pcount (pput b p) = pcount p + 1"
    unfolding pcount_def e using lt by (simp add: pcount_def unat_word_ariths(1))
  have w: "unat (nwrite p) mod 512 = (unat (nread p) + pcount p) mod 512"
    using ring_index_add [of "nread p" "pcount p"] ring_index [of "nwrite p"]
    by (simp add: pcount_def)
  have "(unat (nread p) + k) mod 512 \<noteq> (unat (nread p) + pcount p) mod 512" if "k < pcount p" for k
    using that lt by (intro mod_add_distinct) auto
  then have "map (\<lambda>k. data (pput b p) ((unat (nread p) + k) mod 512)) [0..<pcount p] = pcontents p"
    unfolding pcontents_alt by (auto simp: pput_def ring_index w)
  then show "pcontents (pput b p) = pcontents p @ [b]"
    unfolding pcontents_alt [of "pput b p"] c using w
    by (simp add: pput_def ring_index)
qed

lemma pget_contents:
  assumes "pcontents p = x # xs"
  shows "fst (pget p) = x" "pcontents (snd (pget p)) = xs" "pcount p = Suc (pcount (snd (pget p)))"
proof -
  have c: "pcount p = Suc (length xs)" using assms by (metis length_Cons length_pcontents)
  have ne: "unat (nwrite p - nread p) = Suc (length xs)" using c by (simp add: pcount_def)
  have e: "nwrite (snd (pget p)) - nread (snd (pget p)) = (nwrite p - nread p) - 1"
    by (simp add: pget_def)
  have c': "pcount (snd (pget p)) = length xs"
    unfolding pcount_def e using ne by (subst unat_minus_one) auto
  with c show "pcount p = Suc (pcount (snd (pget p)))" by simp
  have u: "[0..<Suc (length xs)] = 0 # map Suc [0..<length xs]"
    by (simp add: upt_conv_Cons map_Suc_upt del: upt_Suc)
  from assms have "x = data p (unat (nread p) mod 512)"
    and xs: "xs = map (\<lambda>k. data p ((unat (nread p) + Suc k) mod 512)) [0..<length xs]"
    unfolding pcontents_alt c u by (auto simp: comp_def)
  then show "fst (pget p) = x" by (simp add: pget_def ring_index)
  have "(unat (nread p + 1) + k) mod 512 = (unat (nread p) + Suc k) mod 512" for k
    using ring_index_add [of "nread p + 1" k] ring_index_add [of "nread p" "Suc k"]
    by (simp add: add.assoc)
  with xs show "pcontents (snd (pget p)) = xs" unfolding pcontents_alt c' by (simp add: pget_def)
qed

interpretation pfifo: bounded_fifo pput_opt pget_opt pcontents pipe_ok PIPESIZE
proof unfold_locales
  fix s x assume "pipe_ok s" "length (pcontents s) < PIPESIZE"
  then show "\<exists>s'. pput_opt x s = Some s' \<and> pipe_ok s' \<and> pcontents s' = pcontents s @ [x]"
    using pput_contents [of s x] by (simp add: pput_opt_def pfull_iff pipe_ok_def)
next
  fix s x xs assume "pipe_ok s" "pcontents s = x # xs"
  then show "\<exists>s'. pget_opt s = Some (x, s') \<and> pipe_ok s' \<and> pcontents s' = xs"
    using pget_contents [of s x xs] pempty_iff [of s]
    by (cases "pget s") (auto simp: pget_opt_def pipe_ok_def)
qed (auto simp: pipe_ok_def pput_opt_def pget_opt_def pfull_iff pempty_iff)

section \<open>The calls as batches of queue operations\<close>

lemma pput_opt_simps [simp]:
  "pfull p \<Longrightarrow> pput_opt b p = None" "\<not> pfull p \<Longrightarrow> pput_opt b p = Some (pput b p)"
  "readopen (pput b p) = readopen p"
  by (simp_all add: pput_opt_def pput_def)

lemma pget_opt_simps [simp]:
  "nread p = nwrite p \<Longrightarrow> pget_opt p = None" "nread p \<noteq> nwrite p \<Longrightarrow> pget_opt p = Some (pget p)"
  by (simp_all add: pget_opt_def)

lemma pipewrite_loop_put_some:
  "\<exists>out w. pipewrite_loop killed n bs p = (out, fst (pfifo.put_some bs p), snd (pfifo.put_some bs p), w) \<and>
     (fst (pfifo.put_some bs p) = [] \<longrightarrow> out = PRet n \<and> w = [NRead]) \<and>
     (fst (pfifo.put_some bs p) \<noteq> [] \<longrightarrow>
        out = (if \<not> readopen p \<or> killed then PRet (- 1) else PSleep NWrite))"
  by (induction killed n bs p rule: pipewrite_loop.induct)
     auto

lemma piperead_copy_get_upto: "piperead_copy k p = pfifo.get_upto k p"
  by (induction k arbitrary: p) (auto simp: Let_def split: prod.splits)

lemma piperead_copy_spec:
  assumes "pipe_ok p"
  shows "\<exists>p'. piperead_copy k p = (take k (pcontents p), p') \<and> pipe_ok p' \<and>
    pcontents p' = drop k (pcontents p)"
  using pfifo.get_upto_spec [OF assms, of k] by (simp add: piperead_copy_get_upto)

section \<open>Properties\<close>

text \<open>C22: A pipe write puts as many bytes as the ring has room for, in order, behind the bytes
  already there. It returns \<open>n\<close> and wakes the readers when that is all of them; otherwise the
  ring is full and it sleeps with the rest, or returns -1 when the read end is closed or the
  process was killed. The 32-bit counters may wrap at any point.\<close>

theorem pipewrite_appends:
  assumes "pipe_ok p"
  shows "\<exists>out rest p' w. pipewrite killed addr n p = (out, rest, p', w) \<and> pipe_ok p' \<and>
    rest = drop (PIPESIZE - length (pcontents p)) (map addr [0..<nat n]) \<and>
    pcontents p' = pcontents p @ take (PIPESIZE - length (pcontents p)) (map addr [0..<nat n]) \<and>
    (if rest = [] then out = PRet n \<and> w = [NRead]
     else length (pcontents p') = PIPESIZE \<and>
       out = (if \<not> readopen p \<or> killed then PRet (- 1) else PSleep NWrite))"
proof -
  let ?bs = "map addr [0..<nat n]"
  from pfifo.put_some_spec [OF assms, of ?bs] obtain p' where
    p': "pfifo.put_some ?bs p = (drop (PIPESIZE - length (pcontents p)) ?bs, p')" "pipe_ok p'"
      "pcontents p' = pcontents p @ take (PIPESIZE - length (pcontents p)) ?bs" by blast
  define r where "r = drop (PIPESIZE - length (pcontents p)) ?bs"
  have len: "length (pcontents p') = PIPESIZE" if "r \<noteq> []"
    using that assms arg_cong [OF p'(3), of length] by (simp add: r_def pipe_ok_def min_def)
  from pipewrite_loop_put_some [of killed n ?bs p] obtain out w where
    run: "pipewrite killed addr n p = (out, r, p', w)"
    and out: "r = [] \<Longrightarrow> out = PRet n \<and> w = [NRead]"
      "r \<noteq> [] \<Longrightarrow> out = (if \<not> readopen p \<or> killed then PRet (- 1) else PSleep NWrite)"
    unfolding p'(1) pipewrite_def r_def [symmetric] fst_conv snd_conv by blast
  have "if r = [] then out = PRet n \<and> w = [NRead]
     else length (pcontents p') = PIPESIZE \<and>
       out = (if \<not> readopen p \<or> killed then PRet (- 1) else PSleep NWrite)"
    using len out by presburger
  with run p'(2,3) r_def show ?thesis by blast
qed

theorem pipewrite_appends_witness:
  "\<exists>out rest p' w. pipewrite False (\<lambda>i. of_nat i) 600 pinit = (out, rest, p', w) \<and> pipe_ok p' \<and>
    rest = drop (PIPESIZE - length (pcontents pinit)) (map of_nat [0..<nat 600]) \<and>
    pcontents p' = pcontents pinit @
      take (PIPESIZE - length (pcontents pinit)) (map of_nat [0..<nat 600]) \<and>
    (if rest = [] then out = PRet 600 \<and> w = [NRead]
     else length (pcontents p') = PIPESIZE \<and>
       out = (if \<not> readopen pinit \<or> False then PRet (- 1) else PSleep NWrite))"
  by (rule pipewrite_appends) (simp add: pipe_ok_def pcount_def pinit_def)

text \<open>C25: A pipe read delivers the oldest bytes of the ring, at most \<open>n\<close>, and leaves the others.
  It never blocks when there is data or when the write end is closed (then an empty ring gives
  0 bytes, end of file); on an empty ring with a writer it sleeps, or fails if killed.\<close>

theorem piperead_takes:
  assumes "pipe_ok p"
  shows "piperead killed n p =
      (if pcontents p = [] \<and> writeopen p
       then (if killed then (PRet (- 1), [], p, []) else (PSleep NRead, [], p, []))
       else (PRet (int (length (take (nat n) (pcontents p)))), take (nat n) (pcontents p),
             snd (piperead_copy (nat n) p), [NWrite])) \<and>
    pipe_ok (snd (piperead_copy (nat n) p)) \<and>
    pcontents (snd (piperead_copy (nat n) p)) = drop (nat n) (pcontents p)"
  using piperead_copy_spec [OF assms, of "nat n"]
  by (auto simp: piperead_def pempty_iff Let_def)

theorem piperead_takes_witness:
  "piperead False 10 pinit =
      (if pcontents pinit = [] \<and> writeopen pinit
       then (if False then (PRet (- 1), [], pinit, []) else (PSleep NRead, [], pinit, []))
       else (PRet (int (length (take (nat 10) (pcontents pinit)))), take (nat 10) (pcontents pinit),
             snd (piperead_copy (nat 10) pinit), [NWrite])) \<and>
    pipe_ok (snd (piperead_copy (nat 10) pinit)) \<and>
    pcontents (snd (piperead_copy (nat 10) pinit)) = drop (nat 10) (pcontents pinit)"
  by (rule piperead_takes) (simp add: pipe_ok_def pcount_def pinit_def)

end
