(* ===== verification/ProcBase.thy ===== *)
theory ProcBase
  imports Prelude "HOL-Library.Word"
begin

text \<open>
  The process table shared by the kernels (kernel/proc.h, kernel/proc.c). A slot is an index
  into \<open>ptable.proc\<close>, a pointer to a \<open>struct proc\<close> is \<open>Some\<close> slot or \<open>None\<close> for null.
  \<open>proc_tab\<close> carries the fields every kernel has and each kernel extends it with its own.

  \<open>kst\<close> is the state the code of proc.c works on: the table, \<open>initproc\<close>, \<open>nextpid\<close>, whether
  \<open>ptable.lock\<close> is held, the other spinlocks held, and \<open>ext\<close>, the state of the rest of the
  kernel. What proc.c calls there (page allocator, virtual memory, files, inodes) is a record
  \<open>kops\<close> of functions on that state and is an argument of every operation that uses it. An
  operation is what one CPU does between taking and giving up \<open>ptable.lock\<close>; when it gives up
  the CPU in \<open>sched\<close>, the lock passes to the scheduler, and the model leaves it free.
\<close>

type_synonym slot = nat

datatype procstate = UNUSED | EMBRYO | SLEEPING | RUNNABLE | RUNNING | ZOMBIE

text \<open>Sleep channels: null, a \<open>struct proc\<close>, or the address of another object.\<close>

datatype chan = CNull | CProc slot | CObj addr

record trapframe =
  tf_eax :: "32 word"
  tf_eip :: "32 word"
  tf_esp :: "32 word"
  tf_rest :: "nat \<Rightarrow> 32 word"

record proc_tab =
  sz :: "32 word"
  pgdir :: addr
  kstack :: addr
  pst :: procstate
  pid :: int
  parent :: "slot option"
  tf :: trapframe
  ctx_eip :: addr
  chan :: chan
  killed :: bool
  ofile :: "addr list"
  cwd :: addr
  pname :: "char list"

record ('p, 'e) kst =
  procs :: "'p list"
  initproc :: "slot option"
  nextpid :: int
  plocked :: bool
  olocks :: "addr set"
  ext :: 'e

record 'e kops =
  op_kalloc :: "'e \<Rightarrow> addr \<times> 'e"
  op_kfree :: "addr \<Rightarrow> 'e \<Rightarrow> kerror + 'e"
  op_setupkvm :: "'e \<Rightarrow> addr \<times> 'e"
  op_inituvm :: "addr \<Rightarrow> 'e \<Rightarrow> kerror + 'e"
  op_copyuvm :: "addr \<Rightarrow> 32 word \<Rightarrow> 'e \<Rightarrow> addr \<times> 'e"
  op_allocuvm :: "addr \<Rightarrow> 32 word \<Rightarrow> 32 word \<Rightarrow> 'e \<Rightarrow> 32 word \<times> 'e"
  op_deallocuvm :: "addr \<Rightarrow> 32 word \<Rightarrow> 32 word \<Rightarrow> 'e \<Rightarrow> 32 word \<times> 'e"
  op_freevm :: "addr \<Rightarrow> 'e \<Rightarrow> kerror + 'e"
  op_store :: "addr \<Rightarrow> 32 word \<Rightarrow> 32 word \<Rightarrow> 'e \<Rightarrow> 'e"
  op_fetch_add :: "addr \<Rightarrow> 32 word \<Rightarrow> 'e \<Rightarrow> 32 word \<times> 'e"
  op_filedup :: "addr \<Rightarrow> 'e \<Rightarrow> kerror + 'e"
  op_fileclose :: "addr \<Rightarrow> 'e \<Rightarrow> kerror + 'e"
  op_idup :: "addr \<Rightarrow> 'e \<Rightarrow> 'e"
  op_iput :: "addr \<Rightarrow> 'e \<Rightarrow> kerror + 'e"
  op_namei :: "'e \<Rightarrow> addr \<times> 'e"
  forkret_addr :: addr

definition NPROC :: nat where "NPROC = 64"

text \<open>What a call does: it returns a value, or the process gave up the CPU inside it.\<close>

datatype 'r out = Ret 'r | Blocked

section \<open>Access to the table\<close>

definition at :: "('p, 'e, 'z) kst_scheme \<Rightarrow> slot \<Rightarrow> 'p" where "at s i = procs s ! i"

definition upd :: "slot \<Rightarrow> ('p \<Rightarrow> 'p) \<Rightarrow> ('p, 'e, 'z) kst_scheme \<Rightarrow> ('p, 'e, 'z) kst_scheme" where
  "upd i f s = s\<lparr>procs := (procs s)[i := f (procs s ! i)]\<rparr>"

definition find_slot :: "('p \<Rightarrow> bool) \<Rightarrow> 'p list \<Rightarrow> slot option" where
  "find_slot P ps = find (\<lambda>i. P (ps ! i)) [0..<length ps]"

definition withE :: "('e \<Rightarrow> kerror + 'e) \<Rightarrow> ('p, 'e, 'z) kst_scheme \<Rightarrow> kerror + ('p, 'e, 'z) kst_scheme" where
  "withE f s = bindE (f (ext s)) (\<lambda>e. Inr (s\<lparr>ext := e\<rparr>))"

definition pacquire :: "('p, 'e, 'z) kst_scheme \<Rightarrow> kerror + ('p, 'e, 'z) kst_scheme" where
  "pacquire s = (if plocked s then Inl (Panic ''acquire'') else Inr (s\<lparr>plocked := True\<rparr>))"

definition prelease :: "('p, 'e, 'z) kst_scheme \<Rightarrow> kerror + ('p, 'e, 'z) kst_scheme" where
  "prelease s = (if plocked s then Inr (s\<lparr>plocked := False\<rparr>) else Inl (Panic ''release''))"

lemma upd_simps [simp]:
  "procs (upd i f s) = (procs s)[i := f (procs s ! i)]"
  "initproc (upd i f s) = initproc s" "nextpid (upd i f s) = nextpid s"
  "plocked (upd i f s) = plocked s" "olocks (upd i f s) = olocks s" "ext (upd i f s) = ext s"
  by (simp_all add: upd_def)

lemma upd_fields [simp]:
  "upd i f (s\<lparr>plocked := b\<rparr>) = (upd i f s)\<lparr>plocked := b\<rparr>"
  "upd i f (s\<lparr>ext := e\<rparr>) = (upd i f s)\<lparr>ext := e\<rparr>"
  "upd i f (s\<lparr>nextpid := n\<rparr>) = (upd i f s)\<lparr>nextpid := n\<rparr>"
  "upd i f (s\<lparr>olocks := l\<rparr>) = (upd i f s)\<lparr>olocks := l\<rparr>"
  "upd i f (s\<lparr>initproc := q\<rparr>) = (upd i f s)\<lparr>initproc := q\<rparr>"
  by (simp_all add: upd_def)

lemma at_fields [simp]:
  "at (s\<lparr>plocked := b\<rparr>) j = at s j" "at (s\<lparr>ext := e\<rparr>) j = at s j"
  "at (s\<lparr>nextpid := n\<rparr>) j = at s j" "at (s\<lparr>olocks := l\<rparr>) j = at s j"
  "at (s\<lparr>initproc := q\<rparr>) j = at s j"
  by (simp_all add: at_def)

lemma at_upd [simp]:
  "at (upd i f s) j = (if i = j \<and> i < length (procs s) then f (at s i) else at s j)"
  by (cases "i = j") (auto simp: at_def list_update_beyond not_less)

lemma find_slot_Some:
  "find_slot P ps = Some i \<longleftrightarrow> i < length ps \<and> P (ps ! i) \<and> (\<forall>j < i. \<not> P (ps ! j))"
  by (auto simp: find_slot_def find_Some_iff)

lemma find_slot_None: "find_slot P ps = None \<longleftrightarrow> (\<forall>p \<in> set ps. \<not> P p)"
  by (fastforce simp: find_slot_def find_None_iff in_set_conv_nth)

section \<open>Allocation of a slot, channels, signals\<close>

text \<open>\<open>allocproc\<close>; \<open>pid\<close> and \<open>kstack\<close> of a slot it gives back stay as they are.\<close>

definition allocproc ::
  "'e kops \<Rightarrow> ('a proc_tab_scheme, 'e, 'z) kst_scheme \<Rightarrow> kerror + slot option \<times> ('a proc_tab_scheme, 'e, 'z) kst_scheme" where
  "allocproc K s = bindE (pacquire s) (\<lambda>s1.
     case find_slot (\<lambda>p. pst p = UNUSED) (procs s1) of
       None \<Rightarrow> bindE (prelease s1) (\<lambda>s2. Inr (None, s2))
     | Some i \<Rightarrow>
         bindE (prelease (upd i (\<lambda>p. p\<lparr>pst := EMBRYO, pid := nextpid s1\<rparr>)
                           (s1\<lparr>nextpid := s32 (nextpid s1 + 1)\<rparr>))) (\<lambda>s2.
         let (a, e) = op_kalloc K (ext s2); s3 = s2\<lparr>ext := e\<rparr> in
         if a = 0 then Inr (None, upd i (\<lambda>p. p\<lparr>kstack := 0, pst := UNUSED\<rparr>) s3)
         else Inr (Some i, upd i (\<lambda>p. p\<lparr>kstack := a, ctx_eip := forkret_addr K\<rparr>) s3)))"

definition wake_on :: "chan \<Rightarrow> 'a proc_tab_scheme \<Rightarrow> 'a proc_tab_scheme" where
  "wake_on c p = (if pst p = SLEEPING \<and> chan p = c then p\<lparr>pst := RUNNABLE\<rparr> else p)"

definition wakeup1 :: "chan \<Rightarrow> ('a proc_tab_scheme, 'e, 'z) kst_scheme \<Rightarrow> ('a proc_tab_scheme, 'e, 'z) kst_scheme" where
  "wakeup1 c s = s\<lparr>procs := map (wake_on c) (procs s)\<rparr>"

definition wakeup :: "chan \<Rightarrow> ('a proc_tab_scheme, 'e, 'z) kst_scheme \<Rightarrow> kerror + ('a proc_tab_scheme, 'e, 'z) kst_scheme" where
  "wakeup c s = bindE (pacquire s) (\<lambda>s1. prelease (wakeup1 c s1))"

definition sched :: "slot \<Rightarrow> ('a proc_tab_scheme, 'e, 'z) kst_scheme \<Rightarrow> kerror + ('a proc_tab_scheme, 'e, 'z) kst_scheme" where
  "sched me s =
     (if \<not> plocked s then Inl (Panic ''sched ptable.lock'')
      else if pst (at s me) = RUNNING then Inl (Panic ''sched running'')
      else Inr (s\<lparr>plocked := False\<rparr>))"

definition yield :: "slot \<Rightarrow> ('a proc_tab_scheme, 'e, 'z) kst_scheme \<Rightarrow> kerror + ('a proc_tab_scheme, 'e, 'z) kst_scheme" where
  "yield me s = bindE (pacquire s) (\<lambda>s1. sched me (upd me (\<lambda>p. p\<lparr>pst := RUNNABLE\<rparr>) s1))"

datatype lockref = LNull | LPtable | LOther addr

definition sleep ::
  "slot option \<Rightarrow> chan \<Rightarrow> lockref \<Rightarrow> ('a proc_tab_scheme, 'e, 'z) kst_scheme \<Rightarrow> kerror + ('a proc_tab_scheme, 'e, 'z) kst_scheme" where
  "sleep cur c lk s =
     (case cur of None \<Rightarrow> Inl (Panic ''sleep'')
      | Some me \<Rightarrow>
        if lk = LNull then Inl (Panic ''sleep without lk'')
        else bindE (case lk of LOther a \<Rightarrow>
                      bindE (pacquire s) (\<lambda>s1. Inr (s1\<lparr>olocks := olocks s1 - {a}\<rparr>))
                    | _ \<Rightarrow> Inr s)
               (\<lambda>s1. sched me (upd me (\<lambda>p. p\<lparr>chan := c, pst := SLEEPING\<rparr>) s1)))"

text \<open>What \<open>sleep\<close> does when it is switched back to.\<close>

definition sleep_resume ::
  "slot \<Rightarrow> lockref \<Rightarrow> ('a proc_tab_scheme, 'e, 'z) kst_scheme \<Rightarrow> kerror + ('a proc_tab_scheme, 'e, 'z) kst_scheme" where
  "sleep_resume me lk s =
     (let s1 = upd me (\<lambda>p. p\<lparr>chan := CNull\<rparr>) (s\<lparr>plocked := True\<rparr>)
      in case lk of LOther a \<Rightarrow> bindE (prelease s1) (\<lambda>s2. Inr (s2\<lparr>olocks := insert a (olocks s2)\<rparr>))
         | _ \<Rightarrow> Inr s1)"

definition kill ::
  "int \<Rightarrow> ('a proc_tab_scheme, 'e, 'z) kst_scheme \<Rightarrow> kerror + int \<times> ('a proc_tab_scheme, 'e, 'z) kst_scheme" where
  "kill n s = bindE (pacquire s) (\<lambda>s1.
     case find_slot (\<lambda>p. pid p = n) (procs s1) of
       None \<Rightarrow> bindE (prelease s1) (\<lambda>s2. Inr (- 1, s2))
     | Some i \<Rightarrow>
         bindE (prelease (upd i (\<lambda>p. if pst p = SLEEPING then p\<lparr>killed := True, pst := RUNNABLE\<rparr>
                                     else p\<lparr>killed := True\<rparr>) s1)) (\<lambda>s2. Inr (0, s2)))"

section \<open>Sample services\<close>

text \<open>Services for the concrete instances: a page counter, everything else succeeds.\<close>

definition ops0 :: "nat kops" where
  "ops0 = \<lparr>op_kalloc = (\<lambda>e. (4096 * (e + 1), e + 1)), op_kfree = (\<lambda>_ e. Inr e),
     op_setupkvm = (\<lambda>e. (4096 * (e + 1), e + 1)), op_inituvm = (\<lambda>_ e. Inr e),
     op_copyuvm = (\<lambda>_ _ e. (4096 * (e + 1), e + 1)), op_allocuvm = (\<lambda>_ _ n e. if n < 8192 then (n, e) else (0, e)),
     op_deallocuvm = (\<lambda>_ _ n e. (n, e)), op_freevm = (\<lambda>_ e. Inr e), op_store = (\<lambda>_ _ _ e. e),
     op_fetch_add = (\<lambda>_ _ e. (0, e)), op_filedup = (\<lambda>_ e. Inr e), op_fileclose = (\<lambda>_ e. Inr e),
     op_idup = (\<lambda>_ e. e), op_iput = (\<lambda>_ e. Inr e), op_namei = (\<lambda>e. (1, e)), forkret_addr = 100\<rparr>"

end
