(* ===== verification/Proc.thy ===== *)
theory Proc
  imports ProcBase
begin

text \<open>
  Processes and kernel threads of p4/xv6/kernel/proc.c. A thread is a slot with \<open>isThread\<close>
  whose \<open>parent\<close> is the process it belongs to. \<open>wait\<close>, \<open>proc_join\<close> and the thread
  reaping in \<open>exit\<close> are given as one pass of their loop with the lock held; \<open>Blocked\<close> is the
  \<open>sleep\<close> at its end, after which the same pass is run again.
\<close>

record tproc = proc_tab +
  isThread :: bool

type_synonym 'e pst4 = "(tproc, 'e) kst"

text \<open>The name field holds 16 bytes, the last of them the terminator.\<close>

definition copy_name :: "char list \<Rightarrow> char list" where "copy_name n = take 15 n"

definition init_fill :: "'e kops \<Rightarrow> slot \<Rightarrow> 'e pst4 \<Rightarrow> kerror + 'e pst4" where
  "init_fill K p s =
     (let s2 = s\<lparr>initproc := Some p\<rparr>; (pg, e) = op_setupkvm K (ext s2)
      in if pg = 0 then Inl (Panic ''userinit: out of memory?'')
         else bindE (op_inituvm K pg e) (\<lambda>e1.
              let (cw, e2) = op_namei K e1
              in prelease (upd p (\<lambda>q. q\<lparr>pgdir := pg, sz := 4096,
                   tf := \<lparr>tf_eax = 0, tf_eip = 0, tf_esp = 4096, tf_rest = (\<lambda>_. 0)\<rparr>,
                   pname := copy_name ''initcode'', cwd := cw, pst := RUNNABLE\<rparr>)
                   (s2\<lparr>ext := e2\<rparr>))))"

definition userinit :: "'e kops \<Rightarrow> 'e pst4 \<Rightarrow> kerror + 'e pst4" where
  "userinit K s = bindE (allocproc K s) (\<lambda>(po, s1). bindE (pacquire s1) (\<lambda>s2.
     case po of None \<Rightarrow> Inl (Panic ''null dereference'') | Some p \<Rightarrow> init_fill K p s2))"

text \<open>
  \<open>growproc\<close>: the failing branches return with \<open>ptable.lock\<close> still held.
\<close>

definition shares_size :: "slot \<Rightarrow> 'e pst4 \<Rightarrow> slot \<Rightarrow> bool" where
  "shares_size me s p \<longleftrightarrow>
     (parent (at s p) = Some me \<and> isThread (at s p)) \<or>
     (parent (at s me) = Some p \<and> isThread (at s me)) \<or>
     (isThread (at s p) \<and> parent (at s p) = parent (at s me))"

definition set_sizes :: "slot \<Rightarrow> 32 word \<Rightarrow> 'e pst4 \<Rightarrow> 'e pst4" where
  "set_sizes me n s = s\<lparr>procs := map (\<lambda>i. if shares_size me s i then (procs s ! i)\<lparr>sz := n\<rparr>
                                         else procs s ! i) [0..<length (procs s)]\<rparr>"

definition growproc :: "'e kops \<Rightarrow> slot \<Rightarrow> int \<Rightarrow> 'e pst4 \<Rightarrow> kerror + int \<times> 'e pst4" where
  "growproc K me n s = bindE (pacquire s) (\<lambda>s1.
     let old = sz (at s1 me); pg = pgdir (at s1 me);
         (new, e) = (if n > 0 then op_allocuvm K pg old (old + word_of_int n) (ext s1)
                     else if n < 0 then op_deallocuvm K pg old (old + word_of_int n) (ext s1)
                     else (old, ext s1));
         s2 = s1\<lparr>ext := e\<rparr>
     in if n \<noteq> 0 \<and> new = 0 then Inr (- 1, s2)
        else bindE (prelease (set_sizes me new (upd me (\<lambda>p. p\<lparr>sz := new\<rparr>) s2)))
               (\<lambda>s3. Inr (0, s3)))"

text \<open>The \<open>filedup\<close> loop of \<open>fork\<close> and \<open>proc_clone\<close>: \<open>np\<close>'s table entry by entry.\<close>

fun dup_files :: "'e kops \<Rightarrow> addr list \<Rightarrow> addr list \<Rightarrow> 'e \<Rightarrow> kerror + addr list \<times> 'e" where
  "dup_files K (f # fs) (g # gs) e =
     (if f \<noteq> 0 then bindE (op_filedup K f e) (\<lambda>e1.
        bindE (dup_files K fs gs e1) (\<lambda>(hs, e2). Inr (f # hs, e2)))
      else bindE (dup_files K fs gs e) (\<lambda>(hs, e2). Inr (g # hs, e2)))"
| "dup_files K _ gs e = Inr (gs, e)"

text \<open>\<open>fork\<close> once the slot \<open>np\<close> is allocated.\<close>

definition fork_fill :: "'e kops \<Rightarrow> slot \<Rightarrow> slot \<Rightarrow> 'e pst4 \<Rightarrow> kerror + int \<times> 'e pst4" where
  "fork_fill K me np s1 =
     (let (pg, e) = op_copyuvm K (pgdir (at s1 me)) (sz (at s1 me)) (ext s1); s2 = s1\<lparr>ext := e\<rparr>
      in if pg = 0 then
           bindE (withE (op_kfree K (kstack (at s2 np))) s2) (\<lambda>s3.
             Inr (- 1, upd np (\<lambda>p. p\<lparr>pgdir := 0, kstack := 0, pst := UNUSED\<rparr>) s3))
         else
           bindE (dup_files K (ofile (at s2 me)) (ofile (at s2 np)) (ext s2)) (\<lambda>(fs, e1).
           let me_p = at s2 me; e2 = op_idup K (cwd me_p) e1
           in Inr (pid (at s2 np),
                upd np (\<lambda>p. p\<lparr>pgdir := pg, sz := sz me_p, parent := Some me,
                  tf := (tf me_p)\<lparr>tf_eax := 0\<rparr>, isThread := False, ofile := fs,
                  cwd := cwd me_p, pst := RUNNABLE, pname := copy_name (pname me_p)\<rparr>)
                  (s2\<lparr>ext := e2\<rparr>))))"

definition fork :: "'e kops \<Rightarrow> slot \<Rightarrow> 'e pst4 \<Rightarrow> kerror + int \<times> 'e pst4" where
  "fork K me s =
     (if isThread (at s me) then Inr (- 1, s)
      else bindE (allocproc K s) (\<lambda>(npo, s1).
        case npo of None \<Rightarrow> Inr (- 1, s1) | Some np \<Rightarrow> fork_fill K me np s1))"

text \<open>
  \<open>proc_clone\<close>. The stack check subtracts unsigned 32-bit values, so a \<open>stack\<close> above \<open>sz\<close>
  wraps and passes.
\<close>

definition stack_ok :: "32 word \<Rightarrow> 32 word \<Rightarrow> bool" where
  "stack_ok size' stack \<longleftrightarrow> \<not> (stack = 0 \<or> stack mod 4096 \<noteq> 0 \<or> size' - stack < 4096)"

definition clone_fill :: "'e kops \<Rightarrow> slot \<Rightarrow> 32 word \<Rightarrow> 32 word \<Rightarrow> 32 word \<Rightarrow>
    slot \<Rightarrow> 'e pst4 \<Rightarrow> kerror + int \<times> 'e pst4" where
  "clone_fill K me fnc arg stack np s1 =
     bindE (dup_files K (ofile (at s1 me)) (ofile (at s1 np)) (ext s1)) (\<lambda>(fs, e1).
     let me_p = at s1 me; e2 = op_idup K (cwd me_p) e1;
         sp = stack + 4096 - 4; e3 = op_store K (pgdir me_p) sp arg e2;
         sp' = sp - 4; e4 = op_store K (pgdir me_p) sp' 0xffffffff e3
     in Inr (pid (at s1 np),
          upd np (\<lambda>p. p\<lparr>parent := (if isThread me_p then parent me_p else Some me),
            sz := sz me_p, tf := (tf me_p)\<lparr>tf_eip := fnc, tf_eax := 0, tf_esp := sp'\<rparr>,
            pgdir := pgdir me_p, isThread := True, ofile := fs, cwd := cwd me_p,
            pname := copy_name (pname me_p), pst := RUNNABLE\<rparr>) (s1\<lparr>ext := e4\<rparr>)))"

definition proc_clone ::
  "'e kops \<Rightarrow> slot \<Rightarrow> 32 word \<Rightarrow> 32 word \<Rightarrow> 32 word \<Rightarrow> 'e pst4 \<Rightarrow> kerror + int \<times> 'e pst4" where
  "proc_clone K me fnc arg stack s =
     (if \<not> stack_ok (sz (at s me)) stack then Inr (- 1, s)
      else bindE (allocproc K s) (\<lambda>(npo, s1).
        case npo of None \<Rightarrow> Inr (- 1, s1) | Some np \<Rightarrow> clone_fill K me fnc arg stack np s1))"

section \<open>Waiting and exiting\<close>

text \<open>The slot of a reaped zombie; \<open>wait\<close> also frees its address space.\<close>

definition clear_slot :: "tproc \<Rightarrow> tproc" where
  "clear_slot p = p\<lparr>kstack := 0, pst := UNUSED, pid := 0, parent := None,
     pname := [], killed := False\<rparr>"

definition reap :: "'e kops \<Rightarrow> bool \<Rightarrow> slot \<Rightarrow> 'e pst4 \<Rightarrow> kerror + int \<times> 'e pst4" where
  "reap K vm i s =
     bindE (withE (op_kfree K (kstack (at s i))) s) (\<lambda>s1.
     bindE (if vm then withE (op_freevm K (pgdir (at s i))) s1 else Inr s1) (\<lambda>s2.
     bindE (prelease (upd i clear_slot s2)) (\<lambda>s3. Inr (pid (at s i), s3))))"

definition is_kid :: "slot \<Rightarrow> tproc \<Rightarrow> bool" where
  "is_kid me p \<longleftrightarrow> parent p = Some me \<and> \<not> isThread p"

definition wait_pass :: "'e kops \<Rightarrow> slot \<Rightarrow> 'e pst4 \<Rightarrow> kerror + int out \<times> 'e pst4" where
  "wait_pass K me s =
     (case find_slot (\<lambda>p. is_kid me p \<and> pst p = ZOMBIE) (procs s) of
        Some i \<Rightarrow> bindE (reap K True i s) (\<lambda>(r, s1). Inr (Ret r, s1))
      | None \<Rightarrow>
        if \<not> list_ex (is_kid me) (procs s) \<or> killed (at s me)
        then bindE (prelease s) (\<lambda>s1. Inr (Ret (- 1), s1))
        else bindE (sleep (Some me) (CProc me) LPtable s) (\<lambda>s1. Inr (Blocked, s1)))"

definition wait :: "'e kops \<Rightarrow> slot \<Rightarrow> 'e pst4 \<Rightarrow> kerror + int out \<times> 'e pst4" where
  "wait K me s =
     (if isThread (at s me) then Inr (Ret (- 1), s)
      else bindE (pacquire s) (wait_pass K me))"

definition joinable :: "slot \<Rightarrow> 'e pst4 \<Rightarrow> int \<Rightarrow> tproc \<Rightarrow> bool" where
  "joinable me s n p \<longleftrightarrow> isThread p \<and>
     (parent p = Some me \<or> (parent p = parent (at s me) \<and> isThread (at s me))) \<and>
     \<not> (pid p \<noteq> n \<and> n \<noteq> - 1)"

definition join_pass :: "'e kops \<Rightarrow> slot \<Rightarrow> int \<Rightarrow> 'e pst4 \<Rightarrow> kerror + int out \<times> 'e pst4" where
  "join_pass K me n s =
     (case find_slot (\<lambda>p. joinable me s n p \<and> pst p = ZOMBIE) (procs s) of
        Some i \<Rightarrow> bindE (reap K False i s) (\<lambda>(r, s1). Inr (Ret r, s1))
      | None \<Rightarrow>
        if \<not> list_ex (joinable me s n) (procs s) \<or> killed (at s me)
        then bindE (prelease s) (\<lambda>s1. Inr (Ret (- 1), s1))
        else bindE (sleep (Some me) (CProc me) LPtable s) (\<lambda>s1. Inr (Blocked, s1)))"

definition proc_join :: "'e kops \<Rightarrow> slot \<Rightarrow> int \<Rightarrow> 'e pst4 \<Rightarrow> kerror + int out \<times> 'e pst4" where
  "proc_join K me n s = bindE (pacquire s) (join_pass K me n)"

text \<open>\<open>exit\<close>: the files and the directory, before \<open>ptable.lock\<close> is taken.\<close>

fun close_files :: "'e kops \<Rightarrow> addr list \<Rightarrow> 'e \<Rightarrow> kerror + 'e" where
  "close_files K [] e = Inr e"
| "close_files K (f # fs) e =
     (if f \<noteq> 0 then bindE (op_fileclose K f e) (close_files K fs) else close_files K fs e)"

definition exit_release :: "'e kops \<Rightarrow> slot \<Rightarrow> 'e pst4 \<Rightarrow> kerror + 'e pst4" where
  "exit_release K me s =
     (if initproc s = Some me then Inl (Panic ''init exiting'')
      else bindE (withE (close_files K (ofile (at s me))) s) (\<lambda>s1.
           bindE (withE (op_iput K (cwd (at s me))) s1) (\<lambda>s2.
           pacquire (upd me (\<lambda>p. p\<lparr>ofile := map (\<lambda>_. 0) (ofile p), cwd := 0\<rparr>) s2))))"

text \<open>The loop body at slot \<open>i\<close> up to the thread test, then from the sibling test on.\<close>

definition exit_adopt :: "slot \<Rightarrow> slot \<Rightarrow> 'e pst4 \<Rightarrow> 'e pst4" where
  "exit_adopt me i s =
     (if is_kid me (at s i) then
        let s1 = upd i (\<lambda>p. p\<lparr>parent := initproc s\<rparr>) s
        in if pst (at s1 i) = ZOMBIE
           then wakeup1 (case initproc s1 of None \<Rightarrow> CNull | Some j \<Rightarrow> CProc j) s1 else s1
      else s)"

definition exit_sibling :: "slot \<Rightarrow> slot \<Rightarrow> 'e pst4 \<Rightarrow> 'e pst4" where
  "exit_sibling me i s =
     (if isThread (at s i) \<and> parent (at s i) = parent (at s me) then wakeup1 (CProc i) s else s)"

text \<open>
  The scan from slot \<open>i\<close>, lock held; \<open>n\<close> slots are left. A sleep in the \<open>proc_join\<close> of slot
  \<open>i\<close> stops it with \<open>Some (i, pid)\<close>; it goes on with \<open>exit_resume\<close>. \<open>None\<close> means the scan is
  complete.
\<close>

fun exit_scan :: "'e kops \<Rightarrow> slot \<Rightarrow> slot \<Rightarrow> nat \<Rightarrow> 'e pst4 \<Rightarrow>
    kerror + (slot \<times> int) option \<times> 'e pst4" where
  "exit_scan K me i 0 s = Inr (None, s)"
| "exit_scan K me i (Suc n) s =
     (let s1 = exit_adopt me i s in
      if isThread (at s1 i) \<and> parent (at s1 i) = Some me then
        bindE (prelease s1) (\<lambda>s2.
        bindE (kill (pid (at s2 i)) s2) (\<lambda>(_, s3).
        bindE (proc_join K me (pid (at s3 i)) s3) (\<lambda>(r, s4).
        case r of Blocked \<Rightarrow> Inr (Some (i, pid (at s3 i)), s4)
        | Ret _ \<Rightarrow> bindE (pacquire s4) (\<lambda>s5. exit_scan K me (i + 1) n (exit_sibling me i s5)))))
      else exit_scan K me (i + 1) n (exit_sibling me i s1))"

definition exit_finish :: "slot \<Rightarrow> 'e pst4 \<Rightarrow> kerror + 'e pst4" where
  "exit_finish me s =
     sched me (upd me (\<lambda>p. p\<lparr>pst := ZOMBIE\<rparr>)
       (wakeup1 (case parent (at s me) of None \<Rightarrow> CNull | Some j \<Rightarrow> CProc j) s))"

definition exit_tail :: "slot \<Rightarrow> kerror + (slot \<times> int) option \<times> 'e pst4 \<Rightarrow>
    kerror + (slot \<times> int) option \<times> 'e pst4" where
  "exit_tail me r = bindE r (\<lambda>(b, s). case b of
      Some x \<Rightarrow> Inr (Some x, s)
    | None \<Rightarrow> bindE (exit_finish me s) (\<lambda>s1. Inr (None, s1)))"

definition exit_proc :: "'e kops \<Rightarrow> slot \<Rightarrow> 'e pst4 \<Rightarrow> kerror + (slot \<times> int) option \<times> 'e pst4" where
  "exit_proc K me s = bindE (exit_release K me s) (\<lambda>s1.
     exit_tail me (exit_scan K me 0 (length (procs s1)) s1))"

text \<open>A blocked exit is switched back to inside \<open>proc_join\<close>.\<close>

definition exit_resume :: "'e kops \<Rightarrow> slot \<Rightarrow> slot \<times> int \<Rightarrow> 'e pst4 \<Rightarrow>
    kerror + (slot \<times> int) option \<times> 'e pst4" where
  "exit_resume K me = (\<lambda>(i, n) s.
     bindE (sleep_resume me LPtable s) (\<lambda>s1.
     bindE (join_pass K me n s1) (\<lambda>(r, s2).
     case r of Blocked \<Rightarrow> Inr (Some (i, n), s2)
     | Ret _ \<Rightarrow> bindE (pacquire s2) (\<lambda>s3.
         exit_tail me (exit_scan K me (i + 1) (length (procs s3) - (i + 1)) (exit_sibling me i s3))))))"

section \<open>Wake-up by pid, sleeping on a ticket lock\<close>

definition proc_wakeup :: "int \<Rightarrow> 'e pst4 \<Rightarrow> kerror + 'e pst4" where
  "proc_wakeup n s = bindE (pacquire s) (\<lambda>s1.
     prelease (s1\<lparr>procs := map (\<lambda>p. if pst p = SLEEPING \<and> pid p = n then p\<lparr>pst := RUNNABLE\<rparr> else p)
                               (procs s1)\<rparr>))"

text \<open>
  \<open>ticket_sleep\<close> of the caller \<open>me\<close>: \<open>lock\<close> is the address of the lock, \<open>turn\<close> that of its
  \<open>turn\<close> word, which \<open>lock_release\<close> increments.
\<close>

definition ticket_sleep :: "'e kops \<Rightarrow> slot \<Rightarrow> int \<Rightarrow> addr \<Rightarrow> 'e pst4 \<Rightarrow> kerror + unit out \<times> 'e pst4" where
  "ticket_sleep K me n turn s = bindE (pacquire s) (\<lambda>s1.
     case find_slot (\<lambda>p. pid p = n) (procs s1) of
       None \<Rightarrow> bindE (prelease s1) (\<lambda>s2. Inr (Ret (), s2))
     | Some i \<Rightarrow>
         let (_, e) = op_fetch_add K turn 1 (ext s1);
             s2 = upd i (\<lambda>p. p\<lparr>pst := SLEEPING\<rparr>) (s1\<lparr>ext := e\<rparr>)
         in bindE (sched me s2) (\<lambda>s3. Inr (Blocked, s3)))"

section \<open>The scheduler\<close>

text \<open>
  One pass of \<open>scheduler\<close> over the table. \<open>run\<close> is everything that happens from the switch to
  process \<open>i\<close> until it switches back. The pass returns the slots it ran, in order.
\<close>

definition dispatch :: "slot \<Rightarrow> ('a proc_tab_scheme, 'e, 'z) kst_scheme \<Rightarrow> ('a proc_tab_scheme, 'e, 'z) kst_scheme" where
  "dispatch i s = upd i (\<lambda>p. p\<lparr>pst := RUNNING\<rparr>) s"

fun sched_pass :: "(slot \<Rightarrow> ('a proc_tab_scheme, 'e, 'z) kst_scheme \<Rightarrow> ('a proc_tab_scheme, 'e, 'z) kst_scheme) \<Rightarrow>
    slot \<Rightarrow> nat \<Rightarrow> ('a proc_tab_scheme, 'e, 'z) kst_scheme \<Rightarrow> slot list \<times> ('a proc_tab_scheme, 'e, 'z) kst_scheme" where
  "sched_pass run i 0 s = ([], s)"
| "sched_pass run i (Suc n) s =
     (if pst (at s i) \<noteq> RUNNABLE then sched_pass run (i + 1) n s
      else let (is, s1) = sched_pass run (i + 1) n (run i (dispatch i s)) in (i # is, s1))"

definition scheduler_pass :: "(slot \<Rightarrow> ('a proc_tab_scheme, 'e, 'z) kst_scheme \<Rightarrow> ('a proc_tab_scheme, 'e, 'z) kst_scheme) \<Rightarrow>
    ('a proc_tab_scheme, 'e, 'z) kst_scheme \<Rightarrow> kerror + slot list \<times> ('a proc_tab_scheme, 'e, 'z) kst_scheme" where
  "scheduler_pass run s = bindE (pacquire s) (\<lambda>s1.
     let (is, s2) = sched_pass run 0 (length (procs s1)) s1
     in bindE (prelease s2) (\<lambda>s3. Inr (is, s3)))"

end
