(* ===== verification/ProcProps.thy ===== *)
theory ProcProps
  imports Proc
begin

text \<open>
  Properties of the process table of p4: uniqueness of process ids along every sequence of
  operations, what \<open>wait\<close>, \<open>exit\<close>, \<open>kill\<close>, \<open>proc_clone\<close> and \<open>growproc\<close> do on each
  branch, and the order in which the scheduler runs processes.
\<close>

section \<open>Successful runs of the small operations\<close>

lemma pacquire_Inr [step_simps]:
  "pacquire s = Inr s' \<longleftrightarrow> \<not> plocked s \<and> s' = s\<lparr>plocked := True\<rparr>"
  by (auto simp: pacquire_def)

lemma prelease_Inr [step_simps]:
  "prelease s = Inr s' \<longleftrightarrow> plocked s \<and> s' = s\<lparr>plocked := False\<rparr>"
  by (auto simp: prelease_def)

lemma withE_Inr [step_simps]:
  "withE f s = Inr s' \<longleftrightarrow> (\<exists>e. f (ext s) = Inr e \<and> s' = s\<lparr>ext := e\<rparr>)"
  by (auto simp: withE_def bindE_Inr_iff)

lemma sched_Inr [step_simps]:
  "sched me s = Inr s' \<longleftrightarrow> plocked s \<and> pst (at s me) \<noteq> RUNNING \<and> s' = s\<lparr>plocked := False\<rparr>"
  by (auto simp: sched_def)

lemma sleep_self_Inr [step_simps]:
  "sleep (Some me) c LPtable s = Inr s' \<longleftrightarrow>
     plocked s \<and> pst (at (upd me (\<lambda>p. p\<lparr>chan := c, pst := SLEEPING\<rparr>) s) me) \<noteq> RUNNING \<and>
     s' = upd me (\<lambda>p. p\<lparr>chan := c, pst := SLEEPING\<rparr>) s\<lparr>plocked := False\<rparr>"
  by (simp add: sleep_def sched_Inr)

lemmas run_simps = step_simps bindE_Inr_iff

section \<open>Process ids\<close>

text \<open>
  What an operation other than \<open>allocproc\<close> may do to a slot: keep the pid without making the
  slot used, or clear the slot.
\<close>

definition slot_step :: "'a proc_tab_scheme \<Rightarrow> 'a proc_tab_scheme \<Rightarrow> bool" where
  "slot_step p q \<longleftrightarrow> (pid q = pid p \<and> (pst p = UNUSED \<longrightarrow> pst q = UNUSED)) \<or>
                     (pid q = 0 \<and> pst q = UNUSED)"

definition tab_frame :: "('a proc_tab_scheme, 'e, 'z) kst_scheme \<Rightarrow> ('a proc_tab_scheme, 'e, 'z) kst_scheme \<Rightarrow> bool" where
  "tab_frame s s' \<longleftrightarrow> nextpid s' = nextpid s \<and> list_all2 slot_step (procs s) (procs s')"

lemma slot_step_refl [simp]: "slot_step p p"
  by (simp add: slot_step_def)

lemma slot_step_trans: "slot_step p q \<Longrightarrow> slot_step q r \<Longrightarrow> slot_step p r"
  by (auto simp: slot_step_def)

lemma tab_frame_refl [simp]: "tab_frame s s"
  by (simp add: tab_frame_def list_all2_refl)

lemma tab_frame_trans [trans]: "tab_frame a b \<Longrightarrow> tab_frame b c \<Longrightarrow> tab_frame a c"
  unfolding tab_frame_def using list_all2_trans [of slot_step slot_step slot_step] slot_step_trans
  by (metis (no_types, lifting))

lemma tab_frame_upd [simp]:
  assumes "tab_frame s t" "slot_step (at t i) (f (at t i))"
  shows "tab_frame s (upd i f t)"
proof -
  have "tab_frame t (upd i f t)"
    using assms(2) by (auto simp: tab_frame_def list_all2_conv_all_nth nth_upd at_def)
  with assms(1) show ?thesis by (rule tab_frame_trans)
qed

lemma tab_frame_fields [simp]:
  "tab_frame s (t\<lparr>plocked := b\<rparr>) = tab_frame s t" "tab_frame s (t\<lparr>ext := e\<rparr>) = tab_frame s t"
  "tab_frame (t\<lparr>plocked := b\<rparr>) s = tab_frame t s" "tab_frame (t\<lparr>ext := e\<rparr>) s = tab_frame t s"
  "tab_frame s (t\<lparr>olocks := l\<rparr>) = tab_frame s t" "tab_frame s (t\<lparr>initproc := p\<rparr>) = tab_frame s t"
  by (simp_all add: tab_frame_def)

lemma tab_frame_nextpid [simp]:
  "nextpid s = nextpid t \<Longrightarrow> tab_frame (s\<lparr>nextpid := n\<rparr>) (t\<lparr>nextpid := n\<rparr>) = tab_frame s t"
  by (simp add: tab_frame_def)

lemma tab_frame_map:
  "(\<And>p. slot_step p (f p)) \<Longrightarrow> tab_frame s (s\<lparr>procs := map f (procs s)\<rparr>)"
  by (simp add: tab_frame_def list_all2_conv_all_nth)

lemma tab_frame_length: "tab_frame s s' \<Longrightarrow> length (procs s') = length (procs s)"
  by (auto simp: tab_frame_def dest: list_all2_lengthD)

definition pid_inv :: "('a proc_tab_scheme, 'e, 'z) kst_scheme \<Rightarrow> bool" where
  "pid_inv s \<longleftrightarrow> 0 < nextpid s \<and>
     (\<forall>i < length (procs s). 0 \<le> pid (at s i) \<and> pid (at s i) < nextpid s \<and>
        (pst (at s i) \<noteq> UNUSED \<longrightarrow> pid (at s i) \<noteq> 0)) \<and>
     (\<forall>i < length (procs s). \<forall>j < length (procs s).
        pid (at s i) = pid (at s j) \<and> pid (at s i) \<noteq> 0 \<longrightarrow> i = j)"

lemma pid_inv_frame:
  assumes "pid_inv s" "tab_frame s s'"
  shows "pid_inv s'"
proof -
  have n: "nextpid s' = nextpid s" "length (procs s') = length (procs s)"
    using assms(2) tab_frame_length by (auto simp: tab_frame_def)
  have st: "slot_step (at s i) (at s' i)" if "i < length (procs s)" for i
    using assms(2) that by (auto simp: tab_frame_def at_def list_all2_conv_all_nth)
  have one: "0 \<le> pid (at s' i) \<and> pid (at s' i) < nextpid s \<and>
      (pst (at s' i) \<noteq> UNUSED \<longrightarrow> pid (at s' i) \<noteq> 0)" if "i < length (procs s)" for i
    using st [OF that] assms(1) that by (auto simp: pid_inv_def slot_step_def)
  have two: "i = j" if "i < length (procs s)" "j < length (procs s)"
      "pid (at s' i) = pid (at s' j)" "pid (at s' i) \<noteq> 0" for i j
  proof -
    have "pid (at s' i) = pid (at s i)" "pid (at s' j) = pid (at s j)"
      using st [OF that(1)] st [OF that(2)] that by (auto simp: slot_step_def)
    with that assms(1) show ?thesis unfolding pid_inv_def by metis
  qed
  show ?thesis unfolding pid_inv_def n using assms(1) one two by (auto simp: pid_inv_def)
qed

lemma pid_inv_alloc:
  assumes "pid_inv s" "nextpid s < 2 ^ 31 - 1" "i < length (procs s)"
  shows "pid_inv (upd i (\<lambda>p. p\<lparr>pst := EMBRYO, pid := nextpid s\<rparr>) (s\<lparr>nextpid := s32 (nextpid s + 1)\<rparr>))"
proof -
  have n: "s32 (nextpid s + 1) = nextpid s + 1"
    using assms(1,2) by (intro s32_id) (auto simp: pid_inv_def)
  from assms(1) have p: "0 < nextpid s"
    "\<And>j. j < length (procs s) \<Longrightarrow> 0 \<le> pid (at s j) \<and> pid (at s j) < nextpid s \<and>
        (pst (at s j) \<noteq> UNUSED \<longrightarrow> pid (at s j) \<noteq> 0)"
    "\<And>j k. j < length (procs s) \<Longrightarrow> k < length (procs s) \<Longrightarrow>
        pid (at s j) = pid (at s k) \<Longrightarrow> pid (at s j) \<noteq> 0 \<Longrightarrow> j = k"
    by (auto simp: pid_inv_def)
  have one: "0 \<le> pid (at s j) \<and> pid (at s j) < nextpid s + 1 \<and>
      (pst (at s j) \<noteq> UNUSED \<longrightarrow> pid (at s j) \<noteq> 0)" "pid (at s j) \<noteq> nextpid s"
    if "j < length (procs s)" for j using p(2) [OF that] by auto
  show ?thesis
    unfolding pid_inv_def n using p(1) one p(3) assms(3) by (auto dest: not_sym)
qed

lemma allocproc_pids:
  assumes "allocproc K s = Inr (r, s')" "pid_inv s" "nextpid s < 2 ^ 31 - 1"
  shows "pid_inv s'"
proof (cases "find_slot (\<lambda>p. pst p = UNUSED) (procs s)")
  case None
  with assms(1) have "tab_frame s s'" by (auto simp: allocproc_def run_simps)
  with assms(2) show ?thesis by (rule pid_inv_frame)
next
  case (Some i)
  then have i: "i < length (procs s)" by (simp add: find_slot_Some)
  let ?s = "upd i (\<lambda>p. p\<lparr>pst := EMBRYO, pid := nextpid s\<rparr>) (s\<lparr>nextpid := s32 (nextpid s + 1)\<rparr>)"
  have "tab_frame ?s s'"
    using assms(1) Some i by (auto simp: allocproc_def run_simps Let_def slot_step_def
        split: prod.splits if_splits)
  with pid_inv_alloc [OF assms(2,3) i] show ?thesis by (rule pid_inv_frame)
qed

lemma allocproc_slot:
  assumes "allocproc K s = Inr (Some np, s')"
  shows "np < length (procs s) \<and> length (procs s') = length (procs s) \<and> pst (at s' np) = EMBRYO \<and>
    pid (at s' np) = nextpid s \<and> (\<forall>i. i \<noteq> np \<longrightarrow> at s' i = at s i) \<and> pst (at s np) = UNUSED \<and>
    \<not> plocked s \<and> \<not> plocked s' \<and> initproc s' = initproc s \<and> ofile (at s' np) = ofile (at s np)"
  using assms by (auto simp: allocproc_def run_simps Let_def find_slot_Some at_def [symmetric]
      split: option.splits prod.splits if_splits)

section \<open>The other operations keep the frame\<close>

lemma wakeup1_simps [simp]:
  "nextpid (wakeup1 c s) = nextpid s" "plocked (wakeup1 c s) = plocked s"
  "initproc (wakeup1 c s) = initproc s" "length (procs (wakeup1 c s)) = length (procs s)"
  "ext (wakeup1 c s) = ext s" "olocks (wakeup1 c s) = olocks s"
  by (simp_all add: wakeup1_def)

lemma at_wakeup1: "i < length (procs s) \<Longrightarrow> at (wakeup1 c s) i = wake_on c (at s i)"
  by (simp add: wakeup1_def at_def)

lemma wake_on_simps [simp]:
  "pid (wake_on c p) = pid p" "parent (wake_on c p) = parent p"
  "pst (wake_on c p) = (if pst p = SLEEPING \<and> chan p = c then RUNNABLE else pst p)"
  "killed (wake_on c p) = killed p" "chan (wake_on c p) = chan p"
  "isThread (wake_on c q) = isThread q"
  by (simp_all add: wake_on_def)

lemma slot_step_wake [simp]: "slot_step p (wake_on c p)"
  by (simp add: slot_step_def)

lemma tab_frame_wakeup1 [simp]: "tab_frame s t \<Longrightarrow> tab_frame s (wakeup1 c t)"
  using tab_frame_map [of "wake_on c" t] tab_frame_trans unfolding wakeup1_def by fastforce

lemma kill_frame: "kill n s = Inr (r, s') \<Longrightarrow> tab_frame s s'"
  by (auto simp: kill_def run_simps slot_step_def split: option.splits)

lemma kill_fields:
  assumes "kill n s = Inr (r, s')"
  shows "length (procs s') = length (procs s) \<and> initproc s' = initproc s \<and> \<not> plocked s' \<and> \<not> plocked s \<and>
    parent (at s' i) = parent (at s i) \<and> pid (at s' i) = pid (at s i) \<and>
    isThread (at s' i) = isThread (at s i) \<and> (pst (at s i) = RUNNING \<longrightarrow> pst (at s' i) = RUNNING)"
  using assms by (auto simp: kill_def run_simps split: option.splits if_splits)

lemma growproc_frame: "growproc K me n s = Inr (r, s') \<Longrightarrow> tab_frame s s'"
  by (auto simp: growproc_def run_simps Let_def set_sizes_def tab_frame_def slot_step_def
      list_all2_conv_all_nth nth_upd split: prod.splits if_splits)

lemma slot_step_clear [simp]: "slot_step p (clear_slot p)"
  by (simp add: slot_step_def clear_slot_def)

lemma reap_frame: "reap K vm i s = Inr (r, s') \<Longrightarrow> tab_frame s s'"
  by (auto simp: reap_def run_simps split: if_splits)

lemma wait_pass_frame:
  "wait_pass K me s = Inr (r, s') \<Longrightarrow> pst (at s me) \<noteq> UNUSED \<Longrightarrow> tab_frame s s'"
  by (auto simp: wait_pass_def run_simps slot_step_def dest!: reap_frame split: option.splits if_splits)

lemma join_pass_frame:
  "join_pass K me n s = Inr (r, s') \<Longrightarrow> pst (at s me) \<noteq> UNUSED \<Longrightarrow> tab_frame s s'"
  by (auto simp: join_pass_def run_simps slot_step_def dest!: reap_frame split: option.splits if_splits)

lemma proc_wakeup_frame: "proc_wakeup n s = Inr s' \<Longrightarrow> tab_frame s s'"
  by (auto simp: proc_wakeup_def run_simps tab_frame_def list_all2_conv_all_nth slot_step_def)

lemma ticket_sleep_frame:
  assumes "ticket_sleep K me n turn s = Inr (r, s')" "pid_inv s" "n \<noteq> 0"
    "\<And>i. i < length (procs s) \<Longrightarrow> pid (at s i) = n \<Longrightarrow> pst (at s i) \<noteq> UNUSED"
  shows "tab_frame s s'"
  using assms by (auto simp: ticket_sleep_def run_simps Let_def slot_step_def find_slot_Some
      at_def [symmetric] split: option.splits prod.splits)

section \<open>What the scan of \<open>exit\<close> changes\<close>

text \<open>
  \<open>exit_frame me s s'\<close>: the caller keeps its parent; other slots keep parent and kind, except
  that a child process may have gone to \<open>initproc\<close> and a thread may have been reaped.
\<close>

definition kin :: "slot \<Rightarrow> slot option \<Rightarrow> tproc \<Rightarrow> tproc \<Rightarrow> bool" where
  "kin me ini p q \<longleftrightarrow> isThread q = isThread p \<and>
     (parent q = parent p \<or> isThread p \<and> parent q = None \<or> is_kid me p \<and> parent q = ini)"

definition exit_frame :: "slot \<Rightarrow> 'e pst4 \<Rightarrow> 'e pst4 \<Rightarrow> bool" where
  "exit_frame me s s' \<longleftrightarrow> length (procs s') = length (procs s) \<and> initproc s' = initproc s \<and>
     (\<forall>i < length (procs s). kin me (initproc s) (at s i) (at s' i) \<and>
        (i = me \<longrightarrow> parent (at s' i) = parent (at s i)))"

lemma kin_refl [simp]: "kin me ini p p"
  by (simp add: kin_def)

lemma kin_trans: "kin me ini p q \<Longrightarrow> kin me ini q r \<Longrightarrow> kin me ini p r"
  by (auto simp: kin_def is_kid_def)

lemma exit_frame_refl [simp]: "exit_frame me s s"
  by (simp add: exit_frame_def)

lemma exit_frame_trans [trans]:
  assumes "exit_frame me a b" "exit_frame me b c"
  shows "exit_frame me a c"
  using assms kin_trans unfolding exit_frame_def by (metis (no_types, lifting))

lemma exit_frame_fields [simp]:
  "exit_frame me s (t\<lparr>plocked := b\<rparr>) = exit_frame me s t"
  "exit_frame me s (t\<lparr>ext := e\<rparr>) = exit_frame me s t"
  "exit_frame me (s\<lparr>plocked := b\<rparr>) t = exit_frame me s t"
  "exit_frame me (s\<lparr>ext := e\<rparr>) t = exit_frame me s t"
  by (simp_all add: exit_frame_def)

lemma at_wakeup1_sel [simp]:
  assumes "i < length (procs s)"
  shows "parent (at (wakeup1 c s) i) = parent (at s i)" "pid (at (wakeup1 c s) i) = pid (at s i)"
    "pst (at s i) = RUNNING \<Longrightarrow> pst (at (wakeup1 c s) i) = RUNNING"
  using assms by (simp_all add: at_wakeup1)

lemma kin_wakeup1 [simp]: "i < length (procs s) \<Longrightarrow> kin me ini (at s i) (at (wakeup1 c s) i)"
  by (simp add: at_wakeup1 kin_def)

lemma exit_frame_wakeup1 [simp]: "exit_frame me s (wakeup1 c s)"
  by (simp add: exit_frame_def)

lemma exit_frame_upd:
  "(i < length (procs s) \<Longrightarrow> kin me (initproc s) (at s i) (f (at s i)) \<and>
     (i = me \<longrightarrow> parent (f (at s i)) = parent (at s i))) \<Longrightarrow> exit_frame me s (upd i f s)"
  by (auto simp: exit_frame_def)

lemma exit_adopt_frames:
  assumes "parent (at s me) \<noteq> Some me"
  shows "exit_frame me s (exit_adopt me i s)" "tab_frame s (exit_adopt me i s)"
    "plocked (exit_adopt me i s) = plocked s"
proof -
  let ?s = "upd i (\<lambda>p. p\<lparr>parent := initproc s\<rparr>) s"
  have "exit_frame me s ?s" if "is_kid me (at s i)"
    by (rule exit_frame_upd) (use that assms in \<open>auto simp: kin_def is_kid_def\<close>)
  then show "exit_frame me s (exit_adopt me i s)"
    by (cases "is_kid me (at s i)")
       (auto simp: exit_adopt_def Let_def intro: exit_frame_trans [OF _ exit_frame_wakeup1])
  show "tab_frame s (exit_adopt me i s)" "plocked (exit_adopt me i s) = plocked s"
    by (auto simp: exit_adopt_def Let_def slot_step_def)
qed

lemma exit_adopt_kid:
  "initproc s \<noteq> Some me \<Longrightarrow> i < length (procs s) \<Longrightarrow> \<not> is_kid me (at (exit_adopt me i s) i)"
  by (auto simp: exit_adopt_def Let_def is_kid_def at_wakeup1)

lemma exit_adopt_run: "pst (at s me) = RUNNING \<Longrightarrow> me < length (procs s) \<Longrightarrow>
    pst (at (exit_adopt me i s) me) = RUNNING"
  by (auto simp: exit_adopt_def Let_def)

lemma exit_sibling_frames:
  "exit_frame me s (exit_sibling me i s)" "tab_frame s (exit_sibling me i s)"
  "plocked (exit_sibling me i s) = plocked s"
  "me < length (procs s) \<Longrightarrow> pst (at s me) = RUNNING \<Longrightarrow> pst (at (exit_sibling me i s) me) = RUNNING"
  by (auto simp: exit_sibling_def)

lemma kill_exit_frame: "kill n s = Inr (r, s') \<Longrightarrow> exit_frame me s s'"
  using kill_fields [of n s r s'] by (auto simp: exit_frame_def kin_def)

lemma join_pass_exit_frame:
  assumes "join_pass K me n s = Inr (r, s')" "pst (at s me) = RUNNING"
  shows "exit_frame me s s'" "r \<noteq> Blocked \<Longrightarrow> pst (at s' me) = RUNNING \<and> \<not> plocked s'"
proof -
  have clear: "exit_frame me s (upd i clear_slot s)" if "isThread (at s i)" "pst (at s i) = ZOMBIE" for i
    by (rule exit_frame_upd) (use that assms(2) in \<open>auto simp: kin_def clear_slot_def\<close>)
  have susp: "exit_frame me s (upd me (\<lambda>p. p\<lparr>chan := CProc me, pst := SLEEPING\<rparr>) s)"
    by (rule exit_frame_upd) (simp add: kin_def)
  show "exit_frame me s s'"
    using assms(1) susp clear
    by (auto simp: join_pass_def reap_def run_simps find_slot_Some joinable_def at_def [symmetric]
        split: option.splits if_splits)
  show "pst (at s' me) = RUNNING \<and> \<not> plocked s'" if "r \<noteq> Blocked"
    using assms that
    by (auto simp: join_pass_def reap_def run_simps find_slot_Some joinable_def at_def [symmetric]
        split: option.splits if_splits)
qed

lemma not_kid_frame:
  "exit_frame me s s' \<Longrightarrow> initproc s \<noteq> Some me \<Longrightarrow> j < length (procs s) \<Longrightarrow>
   \<not> is_kid me (at s j) \<Longrightarrow> \<not> is_kid me (at s' j)"
  by (auto simp: exit_frame_def kin_def is_kid_def)

definition exit_ok :: "slot \<Rightarrow> 'e pst4 \<Rightarrow> bool" where
  "exit_ok me s \<longleftrightarrow> me < length (procs s) \<and> pst (at s me) = RUNNING \<and>
     parent (at s me) \<noteq> Some me \<and> initproc s \<noteq> Some me \<and> plocked s"

lemma exit_ok_frame:
  "exit_ok me s \<Longrightarrow> exit_frame me s s' \<Longrightarrow> pst (at s' me) = RUNNING \<Longrightarrow> plocked s' \<Longrightarrow> exit_ok me s'"
  by (auto simp: exit_ok_def exit_frame_def)

text \<open>One step of the scan, reaping or not, keeps the frames and settles slot \<open>i\<close>.\<close>

definition scan_step :: "slot \<Rightarrow> slot \<Rightarrow> 'e pst4 \<Rightarrow> 'e pst4 \<Rightarrow> bool" where
  "scan_step me i s s' \<longleftrightarrow> exit_frame me s s' \<and> tab_frame s s' \<and> exit_ok me s' \<and>
     (i < length (procs s) \<longrightarrow> \<not> is_kid me (at s' i))"

lemma scan_sibling:
  assumes "exit_ok me s" "exit_frame me s0 s" "tab_frame s0 s" "\<not> is_kid me (at s i)"
    "i < length (procs s)"
  shows "scan_step me i s0 (exit_sibling me i s)"
proof -
  have "me < length (procs s)" "pst (at s me) = RUNNING" "plocked s"
    using assms(1) by (simp_all add: exit_ok_def)
  then have "exit_ok me (exit_sibling me i s)"
    by (intro exit_ok_frame [OF assms(1) exit_sibling_frames(1)]) (simp_all add: exit_sibling_frames)
  moreover have "\<not> is_kid me (at (exit_sibling me i s) i)"
    using not_kid_frame [OF exit_sibling_frames(1) _ assms(5,4)] assms(1) by (simp add: exit_ok_def)
  ultimately show ?thesis
    using exit_frame_trans [OF assms(2) exit_sibling_frames(1)]
      tab_frame_trans [OF assms(3) exit_sibling_frames(2)] by (simp add: scan_step_def)
qed

lemma scan_adopt:
  assumes "exit_ok me s" "i < length (procs s)"
  shows "exit_ok me (exit_adopt me i s)" "exit_frame me s (exit_adopt me i s)"
    "tab_frame s (exit_adopt me i s)" "\<not> is_kid me (at (exit_adopt me i s) i)"
    "length (procs (exit_adopt me i s)) = length (procs s)"
proof -
  have p: "parent (at s me) \<noteq> Some me" using assms(1) by (simp add: exit_ok_def)
  note f = exit_adopt_frames [OF p, of i]
  show "exit_frame me s (exit_adopt me i s)" "tab_frame s (exit_adopt me i s)" by (rule f)+
  show "length (procs (exit_adopt me i s)) = length (procs s)" by (rule tab_frame_length [OF f(2)])
  show "exit_ok me (exit_adopt me i s)"
    using assms(1) f(3)
    by (intro exit_ok_frame [OF assms(1) f(1)]) (simp_all add: exit_ok_def exit_adopt_run)
  show "\<not> is_kid me (at (exit_adopt me i s) i)"
    using assms by (simp add: exit_ok_def exit_adopt_kid)
qed

lemma scan_join:
  assumes "kill n s1 = Inr (r1, s3)" "proc_join K me m s3 = Inr (r, s4)"
    "pst (at s1 me) = RUNNING"
  shows "exit_frame me s1 s4" "tab_frame s1 s4"
    "r \<noteq> Blocked \<Longrightarrow> pst (at s4 me) = RUNNING \<and> \<not> plocked s4"
proof -
  note k = kill_fields [OF assms(1)]
  have run: "pst (at s3 me) = RUNNING" using k assms(3) by blast
  from assms(2) have j: "join_pass K me m (s3\<lparr>plocked := True\<rparr>) = Inr (r, s4)"
    by (auto simp: proc_join_def run_simps)
  note jf = join_pass_exit_frame [OF j]
  have "exit_frame me s3 s4" using jf(1) run by simp
  with kill_exit_frame [OF assms(1)] show "exit_frame me s1 s4" by (rule exit_frame_trans)
  have "tab_frame s3 s4" using join_pass_frame [OF j] run by simp
  with kill_frame [OF assms(1)] show "tab_frame s1 s4" by (rule tab_frame_trans)
  show "pst (at s4 me) = RUNNING \<and> \<not> plocked s4" if "r \<noteq> Blocked" using jf(2) run that by simp
qed

lemma exit_scan_spec:
  assumes "exit_scan K me i n s = Inr (b, s')" "i + n = length (procs s)" "exit_ok me s"
  shows "exit_frame me s s' \<and> tab_frame s s' \<and>
    (b = None \<longrightarrow> exit_ok me s' \<and> (\<forall>j. i \<le> j \<and> j < length (procs s) \<longrightarrow> \<not> is_kid me (at s' j)))"
  using assms
proof (induction n arbitrary: i s)
  case 0
  then show ?case by auto
next
  case (Suc n)
  let ?s1 = "exit_adopt me i s"
  have i: "i < length (procs s)" using Suc.prems(2) by simp
  note a = scan_adopt [OF Suc.prems(3) i]
  have cont: ?case if st: "scan_step me i s t" and t: "exit_scan K me (i + 1) n t = Inr (b, s')" for t
  proof -
    have st': "exit_frame me s t" "tab_frame s t" "exit_ok me t" "\<not> is_kid me (at t i)"
      using st i by (simp_all add: scan_step_def)
    have len: "length (procs t) = length (procs s)" by (rule tab_frame_length [OF st'(2)])
    from Suc.IH [OF t _ st'(3)] Suc.prems(2) len have
      ih: "exit_frame me t s'" "tab_frame t s'" "b = None \<Longrightarrow> exit_ok me s'"
        "\<And>j. b = None \<Longrightarrow> i + 1 \<le> j \<Longrightarrow> j < length (procs s) \<Longrightarrow> \<not> is_kid me (at s' j)" by auto
    have "\<not> is_kid me (at s' i)"
      using not_kid_frame [OF ih(1)] st'(3,4) i len by (simp add: exit_ok_def)
    then have "\<not> is_kid me (at s' j)" if "b = None" "i \<le> j" "j < length (procs s)" for j
      using ih(4) [OF that(1) _ that(3)] that(2) by (cases "i = j") auto
    then show ?thesis
      using exit_frame_trans [OF st'(1) ih(1)] tab_frame_trans [OF st'(2) ih(2)] ih(3) by blast
  qed
  show ?case
  proof (cases "isThread (at ?s1 i) \<and> parent (at ?s1 i) = Some me")
    case False
    have "scan_step me i s (exit_sibling me i ?s1)"
      using scan_sibling [OF a(1-4)] a(5) i by simp
    moreover have "exit_scan K me (i + 1) n (exit_sibling me i ?s1) = Inr (b, s')"
      using Suc.prems(1) False by (simp add: Let_def)
    ultimately show ?thesis by (rule cont)
  next
    case True
    from Suc.prems(1) True obtain s2 r1 s3 r s4 where
      s2: "prelease ?s1 = Inr s2" and s3: "kill (pid (at s2 i)) s2 = Inr (r1, s3)"
      and s4: "proc_join K me (pid (at s3 i)) s3 = Inr (r, s4)"
      and rest: "(case r of Blocked \<Rightarrow> Inr (Some (i, pid (at s3 i)), s4)
        | Ret _ \<Rightarrow> bindE (pacquire s4) (\<lambda>s5. exit_scan K me (i + 1) n (exit_sibling me i s5))) = Inr (b, s')"
      by (auto simp: Let_def bindE_Inr_iff)
    have s2': "s2 = ?s1\<lparr>plocked := False\<rparr>" using s2 by (simp add: run_simps)
    have run: "pst (at s2 me) = RUNNING" using a(1) s2' by (simp add: exit_ok_def)
    note j = scan_join [OF s3 s4 run]
    have f: "exit_frame me ?s1 s4" "tab_frame ?s1 s4" using j(1,2) s2' by simp_all
    note f' = exit_frame_trans [OF a(2) f(1)] tab_frame_trans [OF a(3) f(2)]
    show ?thesis
    proof (cases r)
      case Blocked
      with rest f' show ?thesis by auto
    next
      case (Ret v)
      let ?s5 = "s4\<lparr>plocked := True\<rparr>"
      from Ret rest have t: "exit_scan K me (i + 1) n (exit_sibling me i ?s5) = Inr (b, s')"
        by (auto simp: run_simps)
      have ok: "exit_ok me ?s5" using exit_ok_frame [OF a(1), of ?s5] f(1) j(3) Ret by simp
      have nk: "\<not> is_kid me (at ?s5 i)"
        using not_kid_frame [OF f(1) _ _ a(4)] a(1,5) i by (simp add: exit_ok_def)
      have len: "i < length (procs ?s5)" using tab_frame_length [OF f'(2)] i by simp
      have "exit_frame me s ?s5" "tab_frame s ?s5" using f' by simp_all
      from scan_sibling [OF ok this nk len] t show ?thesis by (rule cont)
    qed
  qed
qed

end
