(* ===== verification/ProcSpec.thy ===== *)
theory ProcSpec
  imports ProcProps
begin

text \<open>
  The contract of p4/xv6/kernel/proc.c. \<open>pstep K\<close> is one operation of a running process (or
  the scheduler) on the table; \<open>preach K\<close> are the tables reached from an empty one while pids
  do not overflow.
\<close>

section \<open>Steps\<close>

definition table0 :: "'e \<Rightarrow> 'e pst4" where
  "table0 e = \<lparr>procs = replicate NPROC \<lparr>sz = 0, pgdir = 0, kstack = 0, pst = UNUSED, pid = 0,
       parent = None, tf = \<lparr>tf_eax = 0, tf_eip = 0, tf_esp = 0, tf_rest = (\<lambda>_. 0)\<rparr>, ctx_eip = 0,
       chan = CNull, killed = False, ofile = replicate 16 0, cwd = 0, pname = [], isThread = False\<rparr>,
     initproc = None, nextpid = 1, plocked = False, olocks = {}, ext = e\<rparr>"

definition runs :: "slot \<Rightarrow> ('a proc_tab_scheme, 'e) kst \<Rightarrow> bool" where
  "runs me s \<longleftrightarrow> me < length (procs s) \<and> pst (at s me) = RUNNING"

inductive pstep :: "'e kops \<Rightarrow> 'e pst4 \<Rightarrow> 'e pst4 \<Rightarrow> bool" for K where
  st_init: "userinit K s = Inr s' \<Longrightarrow> pstep K s s'"
| st_fork: "runs me s \<Longrightarrow> fork K me s = Inr (r, s') \<Longrightarrow> pstep K s s'"
| st_clone: "runs me s \<Longrightarrow> proc_clone K me f a k s = Inr (r, s') \<Longrightarrow> pstep K s s'"
| st_grow: "runs me s \<Longrightarrow> growproc K me n s = Inr (r, s') \<Longrightarrow> pstep K s s'"
| st_exit: "runs me s \<Longrightarrow> parent (at s me) \<noteq> Some me \<Longrightarrow> exit_proc K me s = Inr (b, s') \<Longrightarrow> pstep K s s'"
| st_wait: "runs me s \<Longrightarrow> wait K me s = Inr (o', s') \<Longrightarrow> pstep K s s'"
| st_join: "runs me s \<Longrightarrow> proc_join K me n s = Inr (o', s') \<Longrightarrow> pstep K s s'"
| st_kill: "kill n s = Inr (r, s') \<Longrightarrow> pstep K s s'"
| st_wakeup: "wakeup c s = Inr s' \<Longrightarrow> pstep K s s'"
| st_wake_pid: "proc_wakeup n s = Inr s' \<Longrightarrow> pstep K s s'"
| st_yield: "runs me s \<Longrightarrow> yield me s = Inr s' \<Longrightarrow> pstep K s s'"
| st_sleep: "runs me s \<Longrightarrow> sleep (Some me) c (LOther l) s = Inr s' \<Longrightarrow> pstep K s s'"
| st_run: "pst (at s i) = RUNNABLE \<Longrightarrow> pstep K s (dispatch i s)"

inductive_cases pstep_cases: "pstep K s s'"

inductive preach :: "'e kops \<Rightarrow> 'e pst4 \<Rightarrow> bool" for K where
  pr_init: "preach K (table0 e)"
| pr_step: "preach K s \<Longrightarrow> nextpid s < 2 ^ 31 - 1 \<Longrightarrow> pstep K s s' \<Longrightarrow> preach K s'"

section \<open>Each operation keeps the pids\<close>

lemma alloc_then_pids:
  assumes "bindE (allocproc K s) (\<lambda>(npo, s1). case npo of None \<Rightarrow> Inr (- 1, s1) | Some np \<Rightarrow> F np s1) =
      Inr (r :: int, s')"
    "\<And>np s1. F np s1 = Inr (r, s') \<Longrightarrow> pst (at s1 np) \<noteq> UNUSED \<Longrightarrow> tab_frame s1 s'"
    "pid_inv s" "nextpid s < 2 ^ 31 - 1"
  shows "pid_inv s'"
proof -
  from assms(1) obtain npo s1 where a: "allocproc K s = Inr (npo, s1)"
    and rest: "(case npo of None \<Rightarrow> Inr (- 1, s1) | Some np \<Rightarrow> F np s1) = Inr (r, s')"
    by (auto simp: bindE_Inr_iff)
  have inv: "pid_inv s1" by (rule allocproc_pids [OF a assms(3,4)])
  show ?thesis
  proof (cases npo)
    case None
    with rest inv show ?thesis by simp
  next
    case (Some np)
    with a allocproc_slot have "pst (at s1 np) \<noteq> UNUSED" by fastforce
    with Some rest assms(2) have "tab_frame s1 s'" by simp
    with inv show ?thesis by (rule pid_inv_frame)
  qed
qed

lemma fork_pids:
  assumes "fork K me s = Inr (r, s')" "pid_inv s" "nextpid s < 2 ^ 31 - 1"
  shows "pid_inv s'"
proof (cases "isThread (at s me)")
  case True
  with assms show ?thesis by (simp add: fork_def)
next
  case False
  with assms(1) show ?thesis unfolding fork_def
    by (intro alloc_then_pids [OF _ _ assms(2,3), of K "fork_fill K me" r s'])
       (auto simp: fork_fill_def run_simps Let_def slot_step_def split: prod.splits if_splits)
qed

lemma proc_clone_pids:
  assumes "proc_clone K me f a k s = Inr (r, s')" "pid_inv s" "nextpid s < 2 ^ 31 - 1"
  shows "pid_inv s'"
proof (cases "stack_ok (sz (at s me)) k")
  case False
  with assms show ?thesis by (simp add: proc_clone_def)
next
  case True
  with assms(1) show ?thesis unfolding proc_clone_def
    by (intro alloc_then_pids [OF _ _ assms(2,3), of K "clone_fill K me f a k" r s'])
       (auto simp: clone_fill_def run_simps Let_def slot_step_def split: prod.splits if_splits)
qed

lemma userinit_pids:
  assumes "userinit K s = Inr s'" "pid_inv s" "nextpid s < 2 ^ 31 - 1"
  shows "pid_inv s'"
proof -
  from assms(1) obtain po s1 where a: "allocproc K s = Inr (po, s1)"
    and po: "(case po of None \<Rightarrow> Inl (Panic ''null dereference'')
              | Some p \<Rightarrow> init_fill K p (s1\<lparr>plocked := True\<rparr>)) = Inr s'"
    by (auto simp: userinit_def run_simps)
  then obtain p where p: "po = Some p" "init_fill K p (s1\<lparr>plocked := True\<rparr>) = Inr s'"
    by (cases po) auto
  then have "pst (at s1 p) \<noteq> UNUSED" using a allocproc_slot by fastforce
  with p(2) have "tab_frame s1 s'"
    by (auto simp: init_fill_def run_simps Let_def case_prod_beta slot_step_def split: if_splits)
  with allocproc_pids [OF a assms(2,3)] show ?thesis by (rule pid_inv_frame)
qed

lemma exit_release_spec:
  assumes "exit_release K me s = Inr s1"
  shows "tab_frame s s1" "plocked s1" "initproc s1 = initproc s" "initproc s \<noteq> Some me"
    "parent (at s1 i) = parent (at s i)" "pst (at s1 i) = pst (at s i)"
    "isThread (at s1 i) = isThread (at s i)" "pid (at s1 i) = pid (at s i)"
  using assms by (auto simp: exit_release_def run_simps slot_step_def split: if_splits)

lemma exit_ok_start:
  "exit_release K me s = Inr s1 \<Longrightarrow> runs me s \<Longrightarrow> parent (at s me) \<noteq> Some me \<Longrightarrow> exit_ok me s1"
  using exit_release_spec(1-4) [of K me s s1] exit_release_spec(5,6) [of K me s s1 me]
    tab_frame_length [of s s1]
  by (simp add: exit_ok_def runs_def)

lemma exit_proc_frame:
  assumes "runs me s" "parent (at s me) \<noteq> Some me" "exit_proc K me s = Inr (b, s')"
  shows "tab_frame s s'"
proof -
  from assms(3) obtain s1 where s1: "exit_release K me s = Inr s1"
    "exit_tail me (exit_scan K me 0 (length (procs s1)) s1) = Inr (b, s')"
    by (auto simp: exit_proc_def bindE_Inr_iff)
  from s1(2) obtain b2 s2 where s2: "exit_scan K me 0 (length (procs s1)) s1 = Inr (b2, s2)"
    and t: "b2 \<noteq> None \<longrightarrow> s' = s2" "b2 = None \<longrightarrow> exit_finish me s2 = Inr s'"
    by (cases "exit_scan K me 0 (length (procs s1)) s1")
       (auto simp: exit_tail_def bindE_Inr_iff split: option.splits)
  note sc = exit_scan_spec [OF s2 _ exit_ok_start [OF s1(1) assms(1,2)]]
  have "tab_frame s s2"
    using tab_frame_trans [OF exit_release_spec(1) [OF s1(1)]] sc by simp
  moreover have "tab_frame s2 s'"
  proof (cases "b2 = None")
    case True
    with sc have "exit_ok me s2" by simp
    with True t show ?thesis
      by (auto simp: exit_finish_def run_simps exit_ok_def slot_step_def)
  qed (use t in auto)
  ultimately show ?thesis by (rule tab_frame_trans)
qed

lemma pstep_pids:
  assumes "pstep K s s'" "pid_inv s" "nextpid s < 2 ^ 31 - 1"
  shows "pid_inv s'"
  using assms(1)
proof (cases rule: pstep.cases)
  case st_init
  with assms userinit_pids show ?thesis by blast
next
  case (st_fork me r)
  with assms fork_pids show ?thesis by blast
next
  case (st_clone me f a k r)
  with assms proc_clone_pids show ?thesis by blast
next
  case (st_grow me n r)
  with growproc_frame pid_inv_frame assms(2) show ?thesis by blast
next
  case (st_exit me b)
  with exit_proc_frame pid_inv_frame assms(2) show ?thesis by blast
next
  case (st_wait me o')
  have "tab_frame s s'"
    using st_wait by (auto simp: wait_def run_simps runs_def dest!: wait_pass_frame split: if_splits)
  with assms(2) show ?thesis by (rule pid_inv_frame)
next
  case (st_join me n o')
  have "tab_frame s s'"
    using st_join by (auto simp: proc_join_def run_simps runs_def dest!: join_pass_frame)
  with assms(2) show ?thesis by (rule pid_inv_frame)
next
  case (st_kill n r)
  with kill_frame pid_inv_frame assms(2) show ?thesis by blast
next
  case (st_wakeup c)
  then have "tab_frame s s'" by (auto simp: wakeup_def run_simps)
  with assms(2) show ?thesis by (rule pid_inv_frame)
next
  case (st_wake_pid n)
  with proc_wakeup_frame pid_inv_frame assms(2) show ?thesis by blast
next
  case (st_yield me)
  then have "tab_frame s s'" by (auto simp: yield_def run_simps runs_def slot_step_def)
  with assms(2) show ?thesis by (rule pid_inv_frame)
next
  case (st_sleep me c l)
  then have "tab_frame s s'" by (auto simp: sleep_def run_simps runs_def slot_step_def)
  with assms(2) show ?thesis by (rule pid_inv_frame)
next
  case (st_run i)
  then have "tab_frame s s'" by (auto simp: dispatch_def slot_step_def)
  with assms(2) show ?thesis by (rule pid_inv_frame)
qed

lemma pid_inv_table0: "pid_inv (table0 e)"
  by (auto simp: pid_inv_def table0_def at_def)

lemma preach_pids: "preach K s \<Longrightarrow> pid_inv s"
proof (induction rule: preach.induct)
  case (pr_init e)
  show ?case by (rule pid_inv_table0)
next
  case (pr_step s s')
  from pstep_pids [OF pr_step.hyps(3) pr_step.IH pr_step.hyps(2)] show ?case .
qed

section \<open>A sample table\<close>

definition proc0 :: tproc where
  "proc0 = \<lparr>sz = 4096, pgdir = 8192, kstack = 4096, pst = RUNNING, pid = 1, parent = None,
     tf = \<lparr>tf_eax = 0, tf_eip = 0, tf_esp = 4096, tf_rest = (\<lambda>_. 0)\<rparr>, ctx_eip = 100,
     chan = CNull, killed = False, ofile = [5, 0], cwd = 1, pname = ''initcode'', isThread = False\<rparr>"

text \<open>Init sleeping in \<open>wait\<close>, its running child with a zombie child of its own, a free slot.\<close>

definition table1 :: "nat pst4" where
  "table1 = \<lparr>procs = [proc0\<lparr>pst := SLEEPING, chan := CProc 0\<rparr>, proc0\<lparr>pid := 2, parent := Some 0\<rparr>,
       proc0\<lparr>pid := 3, parent := Some 1, pst := ZOMBIE\<rparr>, proc0\<lparr>pid := 0, pst := UNUSED\<rparr>],
     initproc = Some 0, nextpid = 4, plocked = False, olocks = {}, ext = 0\<rparr>"

lemma upt4: "[0..<4] = [0, Suc 0, 2, 3 :: nat]"
  by (simp add: upt_rec)

lemma find_slot_code:
  "find_slot P [] = None"
  "find_slot P (x # xs) = (if P x then Some 0 else map_option Suc (find_slot P xs))"
proof -
  show "find_slot P [] = None" by (simp add: find_slot_def)
  have "find_slot P (x # xs) = find (\<lambda>i. P ((x # xs) ! i)) (0 # map Suc [0..<length xs])"
    by (simp add: find_slot_def upt_conv_Cons map_Suc_upt del: upt_Suc)
  also have "\<dots> = (if P x then Some 0 else map_option Suc (find_slot P xs))"
    by (simp add: find_slot_def find_map_comp)
  finally show "find_slot P (x # xs) = (if P x then Some 0 else map_option Suc (find_slot P xs))" .
qed

section \<open>Properties\<close>



text \<open>C26: \<open>wait\<close> with a zombie child. It returns the pid of the child process in the lowest such
  slot, frees its kernel stack and address space, clears the slot for reuse and changes no other
  slot; threads are never reaped by it.\<close>

theorem wait_reaps_first_zombie:
  assumes "\<not> isThread (at s me)" "\<not> plocked s" "i < length (procs s)"
    "is_kid me (at s i)" "pst (at s i) = ZOMBIE"
    "\<forall>j < i. \<not> (is_kid me (at s j) \<and> pst (at s j) = ZOMBIE)"
    "op_kfree K (kstack (at s i)) (ext s) = Inr e1" "op_freevm K (pgdir (at s i)) e1 = Inr e2"
  shows "wait K me s = Inr (Ret (pid (at s i)), upd i clear_slot (s\<lparr>ext := e2\<rparr>)) \<and>
    pst (at (upd i clear_slot (s\<lparr>ext := e2\<rparr>)) i) = UNUSED \<and>
    (\<forall>j. j \<noteq> i \<longrightarrow> at (upd i clear_slot (s\<lparr>ext := e2\<rparr>)) j = at s j)"
proof -
  have "find_slot (\<lambda>p. is_kid me p \<and> pst p = ZOMBIE) (procs s) = Some i"
    using assms(3-6) by (auto simp: find_slot_Some at_def)
  then show ?thesis
    using assms by (simp add: wait_def wait_pass_def reap_def pacquire_def prelease_def withE_def
        clear_slot_def at_def upd_def)
qed

theorem wait_reaps_first_zombie_witness:
  "wait ops0 1 table1 = Inr (Ret 3, upd 2 clear_slot table1) \<and>
    at (upd 2 clear_slot table1) 0 = at table1 0"
proof -
  have "wait ops0 1 table1 = Inr (Ret (pid (at table1 2)), upd 2 clear_slot (table1\<lparr>ext := 0\<rparr>)) \<and>
    pst (at (upd 2 clear_slot (table1\<lparr>ext := 0\<rparr>)) 2) = UNUSED \<and>
    (\<forall>j. j \<noteq> 2 \<longrightarrow> at (upd 2 clear_slot (table1\<lparr>ext := 0\<rparr>)) j = at table1 j)"
    by (rule wait_reaps_first_zombie)
       (auto simp: table1_def ops0_def proc0_def at_def is_kid_def less_2_cases_iff)
  then show ?thesis by (simp add: table1_def at_def proc0_def)
qed

text \<open>\<open>wait\<close> goes to sleep only when it must: the caller has a child, no child is a zombie, the
  caller is not killed. Then it sleeps on its own slot's channel with the lock given up.\<close>

lemma wait_blocks_only_without_zombie:
  assumes "wait K me s = Inr (Blocked, s')" "me < length (procs s)"
  shows "(\<exists>k < length (procs s). is_kid me (at s k)) \<and>
    (\<forall>k < length (procs s). is_kid me (at s k) \<longrightarrow> pst (at s k) \<noteq> ZOMBIE) \<and>
    \<not> killed (at s me) \<and> pst (at s' me) = SLEEPING \<and> chan (at s' me) = CProc me \<and> \<not> plocked s'"
proof -
  from assms(1) have w: "wait_pass K me (s\<lparr>plocked := True\<rparr>) = Inr (Blocked, s')"
    by (auto simp: wait_def run_simps split: if_splits)
  then have n: "find_slot (\<lambda>p. is_kid me p \<and> pst p = ZOMBIE) (procs s) = None"
    by (auto simp: wait_pass_def run_simps split: option.splits)
  with w have k: "list_ex (is_kid me) (procs s)" "\<not> killed (at s me)"
    and s': "s' = (upd me (\<lambda>p. p\<lparr>chan := CProc me, pst := SLEEPING\<rparr>) s)\<lparr>plocked := False\<rparr>"
    by (auto simp: wait_pass_def run_simps split: if_splits)
  have z: "pst (at s k) \<noteq> ZOMBIE" if "k < length (procs s)" "is_kid me (at s k)" for k
    using n that nth_mem unfolding find_slot_None at_def by blast
  from k(1) obtain j where "j < length (procs s)" "is_kid me (at s j)"
    by (auto simp: list_ex_iff in_set_conv_nth at_def)
  with z k(2) s' assms(2) show ?thesis by auto
qed

lemma wait_blocks_only_without_zombie_example:
  "\<exists>s'. wait ops0 1 (upd 2 (\<lambda>p. p\<lparr>pst := RUNNABLE\<rparr>) table1) = Inr (Blocked, s') \<and>
    pst (at s' 1) = SLEEPING \<and> chan (at s' 1) = CProc 1 \<and> \<not> plocked s'"
proof -
  let ?t = "upd 2 (\<lambda>p. p\<lparr>pst := RUNNABLE\<rparr>) table1"
  have len: "1 < length (procs ?t)" by (simp add: table1_def)
  have "\<exists>s'. wait ops0 1 ?t = Inr (Blocked, s')"
    by (simp add: wait_def wait_pass_def sleep_def sched_def pacquire_def table1_def proc0_def at_def
        upd_def is_kid_def find_slot_code)
  then obtain s' where "wait ops0 1 ?t = Inr (Blocked, s')" ..
  with wait_blocks_only_without_zombie [OF this len] show ?thesis by blast
qed




text \<open>\<open>proc_clone\<close>. A successful call takes a free slot and makes it a runnable thread in the
  caller's address space that starts at \<open>fnc\<close> with the argument and a fake return address on the
  given stack page; the thread belongs to the caller's process even when the caller is itself a
  thread, and no other slot changes.\<close>

lemma proc_clone_makes_thread:
  assumes "proc_clone K me fnc arg stack s = Inr (r, s')" "r \<noteq> - 1" "pst (at s me) = RUNNING"
  shows "\<exists>np e. np < length (procs s) \<and> pst (at s np) = UNUSED \<and> pst (at s' np) = RUNNABLE \<and>
    pid (at s' np) = r \<and> r = nextpid s \<and> isThread (at s' np) \<and>
    parent (at s' np) = (if isThread (at s me) then parent (at s me) else Some me) \<and>
    pgdir (at s' np) = pgdir (at s me) \<and> sz (at s' np) = sz (at s me) \<and>
    tf_eip (tf (at s' np)) = fnc \<and> tf_eax (tf (at s' np)) = 0 \<and>
    tf_esp (tf (at s' np)) = stack + 4088 \<and>
    ext s' = op_store K (pgdir (at s me)) (stack + 4088) 0xffffffff
               (op_store K (pgdir (at s me)) (stack + 4092) arg e) \<and>
    (\<forall>i. i \<noteq> np \<longrightarrow> at s' i = at s i)"
proof -
  from assms(1,2) obtain npo s1 where a: "allocproc K s = Inr (npo, s1)"
    and rest: "(case npo of None \<Rightarrow> Inr (- 1, s1) | Some np \<Rightarrow> clone_fill K me fnc arg stack np s1) = Inr (r, s')"
    by (auto simp: proc_clone_def bindE_Inr_iff split: if_splits)
  with assms(2) obtain np where np: "npo = Some np" "clone_fill K me fnc arg stack np s1 = Inr (r, s')"
    by (cases npo) auto
  from a np(1) have sl: "np < length (procs s)" "length (procs s1) = length (procs s)"
    "pst (at s np) = UNUSED" "pid (at s1 np) = nextpid s" "\<And>i. i \<noteq> np \<Longrightarrow> at s1 i = at s i"
    using allocproc_slot [of K s np s1] by auto
  have "me \<noteq> np" using sl(3) assms(3) by auto
  then have me: "at s1 me = at s me" using sl(5) by simp
  from np(2) obtain fs e1 where d: "dup_files K (ofile (at s1 me)) (ofile (at s1 np)) (ext s1) = Inr (fs, e1)"
    by (auto simp: clone_fill_def bindE_Inr_iff)
  have w: "(stack :: 32 word) + 4096 - 4 = stack + 4092" "stack + 4096 - 4 - 4 = stack + 4088" by simp_all
  show ?thesis
    by (rule exI [of _ np], rule exI [of _ "op_idup K (cwd (at s me)) e1"])
       (use np(2) d sl me in \<open>auto simp: clone_fill_def Let_def add.commute\<close>)
qed

lemma proc_clone_makes_thread_example:
  "\<exists>s'. proc_clone ops0 1 40 7 0x10000 (upd 1 (\<lambda>p. p\<lparr>sz := 0x20000\<rparr>) table1) = Inr (4, s') \<and>
     isThread (at s' 3) \<and> tf_esp (tf (at s' 3)) = 0x10000 + 4088"
proof -
  let ?t = "upd 1 (\<lambda>p. p\<lparr>sz := 0x20000\<rparr>) table1"
  have "\<exists>s'. proc_clone ops0 1 40 7 0x10000 ?t = Inr (4, s')"
    by (simp add: proc_clone_def stack_ok_def allocproc_def clone_fill_def pacquire_def
        prelease_def table1_def proc0_def at_def upd_def find_slot_code ops0_def Let_def)
  then obtain s' where s': "proc_clone ops0 1 40 7 0x10000 ?t = Inr (4, s')" ..
  have r: "(4 :: int) \<noteq> - 1" "pst (at ?t 1) = RUNNING"
    by (simp_all add: table1_def proc0_def at_def upd_def)
  from proc_clone_makes_thread [OF s' r] obtain np where
    np: "np < length (procs ?t)" "pst (at ?t np) = UNUSED" "isThread (at s' np)"
      "tf_esp (tf (at s' np)) = 0x10000 + 4088" by blast
  have "length (procs ?t) = 4" "pst (at ?t 0) \<noteq> UNUSED" "pst (at ?t 1) \<noteq> UNUSED" "pst (at ?t 2) \<noteq> UNUSED"
    by (simp_all add: table1_def proc0_def at_def upd_def)
  then have "np \<noteq> 0" "np \<noteq> 1" "np \<noteq> 2" "np < 4" using np(1,2) by metis+
  then have "np = 3" by linarith
  with np s' show ?thesis by blast
qed


text \<open>\<open>growproc\<close>. On success the new size is stored in the caller and in every slot that the
  scan takes for one of its thread group, all other slots keep their size, and the lock is free
  again; a failed growth returns -1 with \<open>ptable.lock\<close> still held, so that the next acquisition
  on that CPU panics.\<close>

lemma growproc_outcome:
  assumes "growproc K me n s = Inr (r, s')" "me < length (procs s)"
  shows "(r = 0 \<and> \<not> plocked s' \<and>
      (\<exists>new. (n = 0 \<longrightarrow> new = sz (at s me)) \<and>
        (\<forall>i < length (procs s). at s' i =
           (if i = me \<or> shares_size me s i then (at s i)\<lparr>sz := new\<rparr> else at s i)))) \<or>
    (r = - 1 \<and> procs s' = procs s \<and> plocked s' \<and> pacquire s' = Inl (Panic ''acquire''))"
proof -
  let ?pg = "pgdir (at s me)" and ?old = "sz (at s me)"
  obtain new e where ne: "(if n > 0 then op_allocuvm K ?pg ?old (?old + word_of_int n) (ext s)
       else if n < 0 then op_deallocuvm K ?pg ?old (?old + word_of_int n) (ext s)
       else (?old, ext s)) = (new, e)" by fastforce
  have sh: "shares_size me (upd me (\<lambda>p. p\<lparr>sz := new\<rparr>) (s\<lparr>plocked := True, ext := e\<rparr>)) = shares_size me s"
    by (auto simp: shares_size_def fun_eq_iff)
  show ?thesis
  proof (cases "n \<noteq> 0 \<and> new = 0")
    case True
    then have "growproc K me n s = bindE (pacquire s) (\<lambda>s1. Inr (- 1, s1\<lparr>ext := e\<rparr>))"
      using ne by (auto simp: growproc_def bindE_def pacquire_def Let_def)
    with assms(1) have "r = - 1" "s' = s\<lparr>plocked := True, ext := e\<rparr>" by (auto simp: run_simps)
    then show ?thesis by (simp add: pacquire_def)
  next
    case False
    then have "growproc K me n s = bindE (pacquire s) (\<lambda>s1.
        bindE (prelease (set_sizes me new (upd me (\<lambda>p. p\<lparr>sz := new\<rparr>) (s1\<lparr>ext := e\<rparr>)))) (\<lambda>s3. Inr (0, s3)))"
      using ne by (auto simp: growproc_def bindE_def pacquire_def Let_def)
    with assms(1) have r: "r = 0" and
      s': "s' = (set_sizes me new (upd me (\<lambda>p. p\<lparr>sz := new\<rparr>) (s\<lparr>plocked := True, ext := e\<rparr>)))\<lparr>plocked := False\<rparr>"
      by (auto simp: run_simps)
    have "at s' i = (if i = me \<or> shares_size me s i then (at s i)\<lparr>sz := new\<rparr> else at s i)"
      if "i < length (procs s)" for i
      using that assms(2) sh unfolding s' by (auto simp: set_sizes_def at_def nth_upd)
    moreover have "n = 0 \<longrightarrow> new = sz (at s me)" using ne by auto
    ultimately show ?thesis using r s' by auto
  qed
qed

lemma growproc_outcome_example:
  "\<exists>s'. growproc ops0 1 8192 table1 = Inr (- 1, s') \<and> procs s' = procs table1 \<and> plocked s' \<and>
     pacquire s' = Inl (Panic ''acquire'')"
proof -
  have "\<exists>s'. growproc ops0 1 8192 table1 = Inr (- 1, s')"
    by (simp add: growproc_def pacquire_def table1_def proc0_def at_def ops0_def Let_def)
  then obtain s' where s': "growproc ops0 1 8192 table1 = Inr (- 1, s')" ..
  have "1 < length (procs table1)" by (simp add: table1_def)
  from growproc_outcome [OF s' this] s' show ?thesis by auto
qed

text \<open>\<open>kill(0)\<close> is not rejected. If the first slot with pid 0 is also the first free slot, it
  succeeds and marks that slot, and the next \<open>fork\<close> that succeeds returns a child that is killed
  from the start.\<close>

lemma kill_zero_kills_next_child:
  assumes "\<not> plocked s" "find_slot (\<lambda>p. pid p = 0) (procs s) = Some i"
    "find_slot (\<lambda>p. pst p = UNUSED) (procs s) = Some i"
  shows "\<exists>s1. kill 0 s = Inr (0, s1) \<and>
    (\<forall>K me r s2. fork K me s1 = Inr (r, s2) \<and> r \<noteq> - 1 \<longrightarrow>
       pst (at s2 i) = RUNNABLE \<and> pid (at s2 i) = r \<and> killed (at s2 i))"
proof -
  have i: "i < length (procs s)" "pst (at s i) = UNUSED" "\<forall>j < i. pst (procs s ! j) \<noteq> UNUSED"
    using assms(3) by (simp_all add: find_slot_Some at_def)
  let ?s1 = "upd i (\<lambda>p. p\<lparr>killed := True\<rparr>) s"
  have "kill 0 s = Inr (0, upd i (\<lambda>p. if pst p = SLEEPING then p\<lparr>killed := True, pst := RUNNABLE\<rparr>
      else p\<lparr>killed := True\<rparr>) s\<lparr>plocked := False\<rparr>)"
    using assms(1,2) by (simp add: kill_def pacquire_def prelease_def)
  also have "\<dots> = Inr (0, ?s1)"
    using i(2) assms(1) by (simp add: upd_def at_def)
  finally have k: "kill 0 s = Inr (0, ?s1)" .
  have fs: "find_slot (\<lambda>p. pst p = UNUSED) (procs ?s1) = Some i"
    using i by (auto simp: find_slot_Some nth_list_update at_def)
  have "pst (at s2 i) = RUNNABLE \<and> pid (at s2 i) = r \<and> killed (at s2 i)"
    if f: "fork K me ?s1 = Inr (r, s2)" "r \<noteq> - 1" for K me r s2
  proof -
    from f obtain npo t where a: "allocproc K ?s1 = Inr (npo, t)"
      and rest: "(case npo of None \<Rightarrow> Inr (- 1, t) | Some np \<Rightarrow> fork_fill K me np t) = Inr (r, s2)"
      by (auto simp: fork_def bindE_Inr_iff split: if_splits)
    with f(2) obtain np where np: "npo = Some np" "fork_fill K me np t = Inr (r, s2)"
      by (cases npo) auto
    from a np(1) fs have t: "np = i" "killed (at t i)" "length (procs t) = length (procs s)"
      using i(1) by (auto simp: allocproc_def run_simps Let_def split: prod.splits if_splits)
    with np(2) f(2) i(1) show ?thesis
      by (auto simp: fork_fill_def run_simps Let_def split: prod.splits if_splits)
  qed
  with k show ?thesis by blast
qed

lemma kill_zero_kills_next_child_example:
  "\<exists>s1. kill 0 table1 = Inr (0, s1) \<and>
    (\<forall>K me r s2. fork K me s1 = Inr (r, s2) \<and> r \<noteq> - 1 \<longrightarrow>
       pst (at s2 3) = RUNNABLE \<and> pid (at s2 3) = r \<and> killed (at s2 3))"
  by (rule kill_zero_kills_next_child)
     (simp_all add: table1_def proc0_def find_slot_code numeral_3_eq_3)

text \<open>Round robin. One pass of the p4 scheduler runs slots in increasing order, each at most
  once, and runs every process that is runnable when the pass starts, provided the processes run
  before it do not take it out of the runnable state: no runnable process waits longer than one
  pass.\<close>

lemma sched_pass_fair:
  assumes "sched_pass run i n s = (is, s')" "i \<le> j" "j < i + n"
    "length (procs s) = len" "j < len" "pst (at s j) = RUNNABLE"
    "\<And>k t. k < j \<Longrightarrow> length (procs t) = len \<Longrightarrow> pst (at t j) = RUNNABLE \<Longrightarrow>
       pst (at (run k t) j) = RUNNABLE \<and> length (procs (run k t)) = len"
  shows "j \<in> set is \<and> sorted_wrt (<) is \<and> set is \<subseteq> {i..<i + n}"
proof -
  have order: "sorted_wrt (<) is \<and> set is \<subseteq> {i..<i + n}"
    using assms(1)
  proof (induction n arbitrary: i s "is")
    case (Suc n)
    show ?case
    proof (cases "pst (at s i) = RUNNABLE")
      case False
      with Suc.prems have "sched_pass run (i + 1) n s = (is, s')" by simp
      from Suc.IH [OF this] show ?thesis by auto
    next
      case True
      with Suc.prems obtain js where
        js: "sched_pass run (i + 1) n (run i (dispatch i s)) = (js, s')" "is = i # js"
        by (auto simp: Let_def split: prod.splits)
      from Suc.IH [OF js(1)] js(2) show ?thesis by auto
    qed
  qed simp
  have "j \<in> set is"
    using assms
  proof (induction n arbitrary: i s "is")
    case 0
    then show ?case by simp
  next
    case (Suc n)
    show ?case
    proof (cases "pst (at s i) = RUNNABLE")
      case False
      with Suc.prems(1) have r: "sched_pass run (i + 1) n s = (is, s')" by simp
      have "i \<noteq> j" using False Suc.prems(6) by auto
      then show ?thesis using Suc.IH [OF r] Suc.prems by simp
    next
      case True
      with Suc.prems(1) obtain js where
        js: "sched_pass run (i + 1) n (run i (dispatch i s)) = (js, s')" "is = i # js"
        by (auto simp: Let_def split: prod.splits)
      show ?thesis
      proof (cases "i = j")
        case False
        then have lt: "i < j" using Suc.prems(2) by simp
        have d: "length (procs (dispatch i s)) = len" "pst (at (dispatch i s) j) = RUNNABLE"
          using Suc.prems(4,6) False by (simp_all add: dispatch_def)
        from Suc.prems(7) [OF lt d] have
          "pst (at (run i (dispatch i s)) j) = RUNNABLE" "length (procs (run i (dispatch i s))) = len"
          by simp_all
        from Suc.IH [OF js(1) _ _ this(2) _ this(1)] Suc.prems lt have "j \<in> set js" by simp
        with js(2) show ?thesis by simp
      qed (use js in simp)
    qed
  qed
  with order show ?thesis by blast
qed

lemma sched_pass_fair_example:
  "\<exists>is s'. sched_pass (\<lambda>i. upd i (\<lambda>p. p\<lparr>pst := SLEEPING\<rparr>)) 0 4 (wakeup1 (CProc 0) table1) = (is, s') \<and>
     0 \<in> set is \<and> sorted_wrt (<) is \<and> set is \<subseteq> {0..<0 + 4}"
proof -
  obtain js s' where r:
    "sched_pass (\<lambda>i. upd i (\<lambda>p. p\<lparr>pst := SLEEPING\<rparr>)) 0 4 (wakeup1 (CProc 0) table1) = (js, s')"
    by fastforce
  have "0 \<in> set js \<and> sorted_wrt (<) js \<and> set js \<subseteq> {0..<0 + 4}"
    by (rule sched_pass_fair [OF r, where len = 4])
       (simp_all add: table1_def proc0_def wakeup1_def wake_on_def at_def)
  with r show ?thesis by blast
qed

end
