(* ===== verification/Stride.thy ===== *)
theory Stride
  imports ProcBase
begin

text \<open>
  The stride scheduler of p2/stride/xv6/kernel/proc.c. A slot carries the code's
  \<open>strideData\<close>; \<open>passVal\<close> and \<open>globalMinPassVal\<close> are \<open>unsigned long\<close>, 32-bit words.
  \<open>allocproc\<close>, \<open>sched\<close>, \<open>yield\<close>, \<open>sleep\<close> and \<open>kill\<close> are the shared ones of \<open>ProcBase\<close>
  (the two kernels have the same text there); the operations below differ from p4's.
\<close>

definition STRIDE :: int where "STRIDE = 15000"
definition MAX_INT :: "32 word" where "MAX_INT = 0x07FFFFFF"
definition INIT_TICKET_VAL :: int where "INIT_TICKET_VAL = 10"

record sproc = proc_tab +
  strideVal :: int
  passVal :: "32 word"
  numTickets :: int
  n_schedule :: int

record 'e sst = "(sproc, 'e) kst" +
  globalMinPassVal :: "32 word"

definition init_fill_st :: "'e kops \<Rightarrow> slot \<Rightarrow> 'e sst \<Rightarrow> kerror + 'e sst" where
  "init_fill_st K p s =
     (let s2 = s\<lparr>initproc := Some p\<rparr>; (pg, e) = op_setupkvm K (ext s2)
      in if pg = 0 then Inl (Panic ''userinit: out of memory?'')
         else bindE (op_inituvm K pg e) (\<lambda>e1.
              let (cw, e2) = op_namei K e1
              in prelease (upd p (\<lambda>q. q\<lparr>pgdir := pg, sz := 4096,
                   tf := \<lparr>tf_eax = 0, tf_eip = 0, tf_esp = 4096, tf_rest = (\<lambda>_. 0)\<rparr>,
                   pname := ''initcode'', cwd := cw, pst := RUNNABLE,
                   numTickets := INIT_TICKET_VAL, n_schedule := 0\<rparr>)
                   (s2\<lparr>ext := e2\<rparr>))))"

definition userinit_st :: "'e kops \<Rightarrow> 'e sst \<Rightarrow> kerror + 'e sst" where
  "userinit_st K s = bindE (allocproc K s) (\<lambda>(po, s1). bindE (pacquire s1) (\<lambda>s2.
     case po of None \<Rightarrow> Inl (Panic ''null dereference'') | Some p \<Rightarrow> init_fill_st K p s2))"

definition growproc_st :: "'e kops \<Rightarrow> slot \<Rightarrow> int \<Rightarrow> 'e sst \<Rightarrow> int \<times> 'e sst" where
  "growproc_st K me n s =
     (let old = sz (at s me); pg = pgdir (at s me);
          (new, e) = (if n > 0 then op_allocuvm K pg old (old + word_of_int n) (ext s)
                      else if n < 0 then op_deallocuvm K pg old (old + word_of_int n) (ext s)
                      else (old, ext s));
          s1 = s\<lparr>ext := e\<rparr>
      in if n \<noteq> 0 \<and> new = 0 then (- 1, s1) else (0, upd me (\<lambda>p. p\<lparr>sz := new\<rparr>) s1))"

fun dup_files_st :: "'e kops \<Rightarrow> addr list \<Rightarrow> addr list \<Rightarrow> 'e \<Rightarrow> kerror + addr list \<times> 'e" where
  "dup_files_st K (f # fs) (g # gs) e =
     (if f \<noteq> 0 then bindE (op_filedup K f e) (\<lambda>e1.
        bindE (dup_files_st K fs gs e1) (\<lambda>(hs, e2). Inr (f # hs, e2)))
      else bindE (dup_files_st K fs gs e) (\<lambda>(hs, e2). Inr (g # hs, e2)))"
| "dup_files_st K _ gs e = Inr (gs, e)"

definition fork_fill_st :: "'e kops \<Rightarrow> slot \<Rightarrow> slot \<Rightarrow> 'e sst \<Rightarrow> kerror + int \<times> 'e sst" where
  "fork_fill_st K me np s1 =
     (let (pg, e) = op_copyuvm K (pgdir (at s1 me)) (sz (at s1 me)) (ext s1); s2 = s1\<lparr>ext := e\<rparr>
      in if pg = 0 then
           bindE (withE (op_kfree K (kstack (at s2 np))) s2) (\<lambda>s3.
             Inr (- 1, upd np (\<lambda>p. p\<lparr>pgdir := 0, kstack := 0, pst := UNUSED\<rparr>) s3))
         else
           bindE (dup_files_st K (ofile (at s2 me)) (ofile (at s2 np)) (ext s2)) (\<lambda>(fs, e1).
           let me_p = at s2 me; e2 = op_idup K (cwd me_p) e1
           in Inr (pid (at s2 np),
                upd np (\<lambda>p. p\<lparr>pgdir := pg, sz := sz me_p, parent := Some me,
                  tf := (tf me_p)\<lparr>tf_eax := 0\<rparr>, ofile := fs, cwd := cwd me_p, pst := RUNNABLE,
                  pname := take 15 (pname me_p), numTickets := INIT_TICKET_VAL,
                  strideVal := STRIDE div INIT_TICKET_VAL, passVal := globalMinPassVal s2,
                  n_schedule := 0\<rparr>)
                  (s2\<lparr>ext := e2\<rparr>))))"

definition fork_st :: "'e kops \<Rightarrow> slot \<Rightarrow> 'e sst \<Rightarrow> kerror + int \<times> 'e sst" where
  "fork_st K me s = bindE (allocproc K s) (\<lambda>(npo, s1).
     case npo of None \<Rightarrow> Inr (- 1, s1) | Some np \<Rightarrow> fork_fill_st K me np s1)"

section \<open>Wake-up, wait and exit\<close>

definition wake_on_st :: "32 word \<Rightarrow> chan \<Rightarrow> sproc \<Rightarrow> sproc" where
  "wake_on_st g c p =
     (if pst p = SLEEPING \<and> chan p = c then p\<lparr>pst := RUNNABLE, passVal := g\<rparr> else p)"

definition wakeup1_st :: "chan \<Rightarrow> 'e sst \<Rightarrow> 'e sst" where
  "wakeup1_st c s = s\<lparr>procs := map (wake_on_st (globalMinPassVal s) c) (procs s)\<rparr>"

definition wakeup_st :: "chan \<Rightarrow> 'e sst \<Rightarrow> kerror + 'e sst" where
  "wakeup_st c s = bindE (pacquire s) (\<lambda>s1. prelease (wakeup1_st c s1))"

definition clear_slot_st :: "sproc \<Rightarrow> sproc" where
  "clear_slot_st p = p\<lparr>kstack := 0, pst := UNUSED, pid := 0, parent := None,
     pname := [], killed := False\<rparr>"

definition reap_st :: "'e kops \<Rightarrow> slot \<Rightarrow> 'e sst \<Rightarrow> kerror + int \<times> 'e sst" where
  "reap_st K i s =
     bindE (withE (op_kfree K (kstack (at s i))) s) (\<lambda>s1.
     bindE (withE (op_freevm K (pgdir (at s i))) s1) (\<lambda>s2.
     bindE (prelease (upd i clear_slot_st s2)) (\<lambda>s3. Inr (pid (at s i), s3))))"

definition wait_pass_st :: "'e kops \<Rightarrow> slot \<Rightarrow> 'e sst \<Rightarrow> kerror + int out \<times> 'e sst" where
  "wait_pass_st K me s =
     (case find_slot (\<lambda>p. parent p = Some me \<and> pst p = ZOMBIE) (procs s) of
        Some i \<Rightarrow> bindE (reap_st K i s) (\<lambda>(r, s1). Inr (Ret r, s1))
      | None \<Rightarrow>
        if \<not> list_ex (\<lambda>p. parent p = Some me) (procs s) \<or> killed (at s me)
        then bindE (prelease s) (\<lambda>s1. Inr (Ret (- 1), s1))
        else bindE (sleep (Some me) (CProc me) LPtable s) (\<lambda>s1. Inr (Blocked, s1)))"

definition wait_st :: "'e kops \<Rightarrow> slot \<Rightarrow> 'e sst \<Rightarrow> kerror + int out \<times> 'e sst" where
  "wait_st K me s = bindE (pacquire s) (wait_pass_st K me)"

fun close_files_st :: "'e kops \<Rightarrow> addr list \<Rightarrow> 'e \<Rightarrow> kerror + 'e" where
  "close_files_st K [] e = Inr e"
| "close_files_st K (f # fs) e =
     (if f \<noteq> 0 then bindE (op_fileclose K f e) (close_files_st K fs) else close_files_st K fs e)"

definition to_chan :: "slot option \<Rightarrow> chan" where
  "to_chan q = (case q of None \<Rightarrow> CNull | Some j \<Rightarrow> CProc j)"

fun adopt_st :: "slot \<Rightarrow> slot \<Rightarrow> nat \<Rightarrow> 'e sst \<Rightarrow> 'e sst" where
  "adopt_st me i 0 s = s"
| "adopt_st me i (Suc n) s =
     (if parent (at s i) = Some me then
        let s1 = upd i (\<lambda>p. p\<lparr>parent := initproc s\<rparr>) s
        in adopt_st me (i + 1) n
             (if pst (at s1 i) = ZOMBIE then wakeup1_st (to_chan (initproc s1)) s1 else s1)
      else adopt_st me (i + 1) n s)"

definition exit_st :: "'e kops \<Rightarrow> slot \<Rightarrow> 'e sst \<Rightarrow> kerror + 'e sst" where
  "exit_st K me s =
     (if initproc s = Some me then Inl (Panic ''init exiting'')
      else bindE (withE (close_files_st K (ofile (at s me))) s) (\<lambda>s1.
           bindE (withE (op_iput K (cwd (at s me))) s1) (\<lambda>s2.
           bindE (pacquire (upd me (\<lambda>p. p\<lparr>ofile := map (\<lambda>_. 0) (ofile p), cwd := 0\<rparr>) s2)) (\<lambda>s3.
           let s4 = wakeup1_st (to_chan (parent (at s3 me))) s3;
               s5 = adopt_st me 0 (length (procs s4)) s4
           in sched me (upd me (\<lambda>p. p\<lparr>pst := ZOMBIE\<rparr>) s5)))))"

section \<open>The scheduler\<close>

text \<open>
  The search for the smallest pass: \<open>m\<close> is \<open>minPass\<close>, the \<open>long\<close> -1 being the word of all
  ones, compared as unsigned with \<open>passVal\<close>.
\<close>

fun pick_loop :: "slot \<Rightarrow> sproc list \<Rightarrow> slot \<Rightarrow> 32 word \<Rightarrow> slot \<times> 32 word" where
  "pick_loop i [] s m = (s, m)"
| "pick_loop i (p # ps) s m =
     (if pst p \<noteq> RUNNABLE then pick_loop (i + 1) ps s m
      else if m = - 1 \<or> passVal p < m then pick_loop (i + 1) ps i (passVal p)
      else pick_loop (i + 1) ps s m)"

definition pick_st :: "sproc list \<Rightarrow> (slot \<times> 32 word) option" where
  "pick_st ps = (let (s, m) = pick_loop 0 ps 0 (- 1) in if m \<noteq> - 1 then Some (s, m) else None)"

definition dispatch_st :: "slot \<Rightarrow> 32 word \<Rightarrow> 'e sst \<Rightarrow> 'e sst" where
  "dispatch_st i m s = upd i (\<lambda>p. p\<lparr>pst := RUNNING, n_schedule := n_schedule p + 1,
     passVal := passVal p + word_of_int (strideVal p)\<rparr>) (s\<lparr>globalMinPassVal := m\<rparr>)"

text \<open>One iteration of \<open>scheduler\<close> up to the switch; \<open>None\<close> when nothing was chosen.\<close>

definition schedule_st :: "'e sst \<Rightarrow> slot option \<times> 'e sst" where
  "schedule_st s = (case pick_st (procs s) of None \<Rightarrow> (None, s)
     | Some (i, m) \<Rightarrow> (Some i, dispatch_st i m s))"

section \<open>The system calls\<close>

definition proc_settickets :: "int \<Rightarrow> slot option \<Rightarrow> 'e sst \<Rightarrow> kerror + int \<times> 'e sst" where
  "proc_settickets tickets po s =
     (case po of
        Some p \<Rightarrow>
          if (10 \<le> tickets \<and> tickets \<le> 150) \<and> tickets mod 10 = 0 then
            bindE (pacquire s) (\<lambda>s1.
            bindE (prelease (upd p (\<lambda>q. q\<lparr>numTickets := tickets, strideVal := STRIDE div tickets\<rparr>) s1))
              (\<lambda>s2. Inr (0, s2)))
          else Inr (- 1, s)
      | None \<Rightarrow> Inr (- 1, s))"

record pstat =
  ps_inuse :: bool
  ps_pid :: int
  ps_name :: "char list"
  ps_tickets :: int
  ps_pass :: int
  ps_stride :: int
  ps_n_schedule :: int

definition pinfo_entry :: "sproc \<Rightarrow> pstat \<Rightarrow> pstat" where
  "pinfo_entry p q =
     (if pst p = UNUSED then q\<lparr>ps_inuse := False\<rparr>
      else \<lparr>ps_inuse = True, ps_pid = pid p, ps_name = take 15 (pname p), ps_tickets = numTickets p,
            ps_pass = (if passVal p < MAX_INT \<and> sint (passVal p) \<ge> 0 then uint (passVal p)
                       else uint MAX_INT),
            ps_stride = strideVal p, ps_n_schedule = n_schedule p\<rparr>)"

definition proc_getpinfo :: "pstat list \<Rightarrow> 'e sst \<Rightarrow> kerror + pstat list \<times> 'e sst" where
  "proc_getpinfo buf s = bindE (pacquire s) (\<lambda>s1.
     bindE (prelease s1) (\<lambda>s2. Inr (map2 pinfo_entry (procs s1) buf, s2)))"

end
