(* ===== verification/Locks.thy ===== *)
theory Locks
  imports Prelude "HOL-Library.Word"
begin

text \<open>
  The ticket lock of p4/xv6/user/locklib.c and the condition variables of
  p4/xv6/user/cvarlib.c. A thread takes a ticket with one atomic fetch-and-add, spins until
  \<open>turn\<close> shows it, and releases by one atomic add to \<open>turn\<close>; these three are the steps of the
  system of \<open>N\<close> threads. \<open>int\<close> counters wrap, so they are 32-bit words.
\<close>

record lock_t =
  ticket :: "32 word"
  turn :: "32 word"

definition lock_init :: "lock_t \<Rightarrow> lock_t" where
  "lock_init l = l\<lparr>ticket := 0, turn := 0\<rparr>"

text \<open>\<open>lock; xaddl\<close>: the old value and the new contents of the word.\<close>

definition FetchAndAdd :: "32 word \<Rightarrow> 32 word \<Rightarrow> 32 word \<times> 32 word" where
  "FetchAndAdd v incr = (v, v + incr)"

definition take_ticket :: "lock_t \<Rightarrow> 32 word \<times> lock_t" where
  "take_ticket l = (let (my, v) = FetchAndAdd (ticket l) 1 in (my, l\<lparr>ticket := v\<rparr>))"

text \<open>The loop condition of \<open>lock_acquire\<close>.\<close>

definition spin_again :: "32 word \<Rightarrow> lock_t \<Rightarrow> bool" where
  "spin_again my l \<longleftrightarrow> turn l \<noteq> my"

definition lock_release :: "lock_t \<Rightarrow> lock_t" where
  "lock_release l = l\<lparr>turn := snd (FetchAndAdd (turn l) 1)\<rparr>"

section \<open>The system of threads\<close>

datatype tstate = Idle | Spin "32 word" | Crit

record lsys =
  lk :: lock_t
  thr :: "nat \<Rightarrow> tstate"

inductive lstep :: "nat \<Rightarrow> lsys \<Rightarrow> lsys \<Rightarrow> bool" for N where
  ls_take: "t < N \<Longrightarrow> thr s t = Idle \<Longrightarrow> take_ticket (lk s) = (my, l) \<Longrightarrow>
     lstep N s (s\<lparr>lk := l, thr := (thr s)(t := Spin my)\<rparr>)"
| ls_spin: "thr s t = Spin my \<Longrightarrow> spin_again my (lk s) \<Longrightarrow> lstep N s s"
| ls_enter: "thr s t = Spin my \<Longrightarrow> \<not> spin_again my (lk s) \<Longrightarrow>
     lstep N s (s\<lparr>thr := (thr s)(t := Crit)\<rparr>)"
| ls_release: "thr s t = Crit \<Longrightarrow>
     lstep N s (s\<lparr>lk := lock_release (lk s), thr := (thr s)(t := Idle)\<rparr>)"

inductive lreach :: "nat \<Rightarrow> lsys \<Rightarrow> bool" for N where
  lr_init: "lreach N \<lparr>lk = lock_init l, thr = (\<lambda>_. Idle)\<rparr>"
| lr_step: "lreach N s \<Longrightarrow> lstep N s s' \<Longrightarrow> lreach N s'"

inductive_cases lstep_cases: "lstep N s s'"

text \<open>The queue of threads that hold a ticket, oldest first.\<close>

definition lk_inv :: "nat \<Rightarrow> lsys \<Rightarrow> nat list \<Rightarrow> bool" where
  "lk_inv N s q \<longleftrightarrow> distinct q \<and> set q \<subseteq> {..<N} \<and>
     ticket (lk s) = turn (lk s) + of_nat (length q) \<and>
     (\<forall>t. thr s t = Idle \<longleftrightarrow> t \<notin> set q) \<and>
     (\<forall>k < length q. thr s (q ! k) = Spin (turn (lk s) + of_nat k) \<or> k = 0 \<and> thr s (q ! 0) = Crit)"

lemma lk_inv_length: "lk_inv N s q \<Longrightarrow> length q \<le> N"
  unfolding lk_inv_def using card_mono [of "{..<N}" "set q"] distinct_card [of q] by simp

lemma of_nat_small_eq_0: "k < 2 ^ 32 \<Longrightarrow> (of_nat k :: 32 word) = 0 \<longleftrightarrow> k = 0"
  by (cases "k = 0") (auto simp: word_of_nat_eq_0_iff dest: dvd_imp_le)

lemma lk_inv_head:
  assumes "lk_inv N s q" "N < 2 ^ 32"
  shows "thr s t = Crit \<Longrightarrow> q \<noteq> [] \<and> t = hd q"
    "thr s t = Spin m \<Longrightarrow> (\<not> spin_again m (lk s)) = (q \<noteq> [] \<and> t = hd q)"
proof -
  have pos: "\<exists>k < length q. t = q ! k" if "thr s t \<noteq> Idle"
    using assms(1) that by (auto simp: lk_inv_def in_set_conv_nth)
  have small: "k < 2 ^ 32" if "k < length q" for k
    using that lk_inv_length [OF assms(1)] assms(2) by linarith
  show "q \<noteq> [] \<and> t = hd q" if "thr s t = Crit"
  proof -
    from pos that obtain k where k: "k < length q" "t = q ! k" by auto
    with assms(1) that have "k = 0" by (auto simp: lk_inv_def)
    with k show ?thesis by (cases q) auto
  qed
  show "(\<not> spin_again m (lk s)) = (q \<noteq> [] \<and> t = hd q)" if "thr s t = Spin m"
  proof -
    from pos that obtain k where k: "k < length q" "t = q ! k" by auto
    with assms(1) that have m: "m = turn (lk s) + of_nat k" by (auto simp: lk_inv_def)
    have "(\<not> spin_again m (lk s)) = ((of_nat k :: 32 word) = 0)"
      unfolding m spin_again_def by (metis add.right_neutral add_left_cancel)
    also have "\<dots> = (k = 0)" by (rule of_nat_small_eq_0 [OF small [OF k(1)]])
    also have "\<dots> = (q \<noteq> [] \<and> t = hd q)"
      using k assms(1) by (cases q) (auto simp: lk_inv_def nth_Cons' split: if_splits)
    finally show ?thesis .
  qed
qed

text \<open>The abstract lock: a queue that grows at the back and shrinks at the front.\<close>

definition queue_step :: "nat list \<Rightarrow> nat list \<Rightarrow> bool" where
  "queue_step q q' \<longleftrightarrow> q' = q \<or> (\<exists>t. t \<notin> set q \<and> q' = q @ [t]) \<or> (q \<noteq> [] \<and> q' = tl q)"

lemma lstep_queue:
  assumes "lk_inv N s q" "N < 2 ^ 32" "lstep N s s'"
  shows "\<exists>q'. lk_inv N s' q' \<and> queue_step q q'"
  using assms(3)
proof (cases rule: lstep.cases)
  case (ls_take t my l)
  then have my: "my = turn (lk s) + of_nat (length q)" "ticket l = ticket (lk s) + 1" "turn l = turn (lk s)"
    using assms(1) by (auto simp: take_ticket_def FetchAndAdd_def lk_inv_def)
  have t: "t \<notin> set q" using assms(1) ls_take by (auto simp: lk_inv_def)
  then have "q ! k \<noteq> t" if "k < length q" for k using that by auto
  then have "lk_inv N s' (q @ [t])"
    using assms(1) ls_take my t unfolding lk_inv_def
    by (auto simp: nth_append less_Suc_eq fun_upd_apply)
  with t show ?thesis by (auto simp: queue_step_def)
next
  case (ls_spin t my)
  with assms(1) show ?thesis by (auto simp: queue_step_def)
next
  case (ls_enter t my)
  then have h: "q \<noteq> []" "t = hd q" using lk_inv_head(2) [OF assms(1,2)] by auto
  then have "q ! k = t \<longleftrightarrow> k = 0" if "k < length q" for k
    using assms(1) that by (auto simp: lk_inv_def hd_conv_nth nth_eq_iff_index_eq)
  with ls_enter h have "lk_inv N s' q"
    using assms(1) unfolding lk_inv_def by (auto simp: hd_conv_nth fun_upd_apply)
  then show ?thesis by (auto simp: queue_step_def)
next
  case (ls_release t)
  then have h: "q \<noteq> []" "t = hd q" using lk_inv_head(1) [OF assms(1,2)] by auto
  then obtain qs where q: "q = t # qs" by (cases q) auto
  have sp: "thr s (qs ! k) = Spin (turn (lk s) + of_nat (Suc k))" if "k < length qs" for k
    using assms(1) that q unfolding lk_inv_def by fastforce
  have "qs ! k \<noteq> t" if "k < length qs" for k using assms(1) that q by (auto simp: lk_inv_def)
  with sp have "lk_inv N s' qs"
    using assms(1) q ls_release unfolding lk_inv_def
    by (auto simp: lock_release_def FetchAndAdd_def fun_upd_apply algebra_simps)
  with q show ?thesis by (auto simp: queue_step_def)
qed

lemma lreach_queue: "lreach N s \<Longrightarrow> N < 2 ^ 32 \<Longrightarrow> \<exists>q. lk_inv N s q"
proof (induction rule: lreach.induct)
  case (lr_init l)
  have "lk_inv N \<lparr>lk = lock_init l, thr = \<lambda>_. Idle\<rparr> []" by (simp add: lk_inv_def lock_init_def)
  then show ?case ..
next
  case (lr_step s s')
  with lstep_queue show ?case by blast
qed

section \<open>Condition variables\<close>

definition CVAR_QUEUE_SIZE :: int where "CVAR_QUEUE_SIZE = 64"

record cond_t =
  cv_head :: int
  cv_tail :: int
  cv_isinit :: bool
  cv_queue :: "int list"

definition cv_init :: "cond_t \<Rightarrow> cond_t" where
  "cv_init c = c\<lparr>cv_head := 0, cv_tail := 0, cv_isinit := True\<rparr>"

text \<open>
  \<open>cv_wait\<close> of the thread \<open>me\<close> up to its system calls: \<open>None\<close> is the error return on a full
  queue, \<open>Some c\<close> the queue it leaves before \<open>ticket_sleep\<close> and \<open>lock_acquire\<close>.
\<close>

definition cv_wait :: "int \<Rightarrow> cond_t \<Rightarrow> cond_t option" where
  "cv_wait me c0 =
     (let c = (if \<not> cv_isinit c0 then cv_init c0 else c0)
      in if cv_tail c \<ge> CVAR_QUEUE_SIZE \<or> cv_tail c + 1 = cv_head c then None
         else Some (c\<lparr>cv_queue := (cv_queue c)[nat (cv_tail c) := me],
                      cv_tail := (cv_tail c + 1) mod CVAR_QUEUE_SIZE\<rparr>))"

text \<open>\<open>cv_signal\<close>: the pid it wakes, if any.\<close>

definition cv_signal :: "cond_t \<Rightarrow> int option \<times> cond_t" where
  "cv_signal c0 =
     (let c = (if \<not> cv_isinit c0 then cv_init c0 else c0)
      in if cv_head c = cv_tail c then (None, c)
         else (Some (cv_queue c ! nat (cv_head c)),
               c\<lparr>cv_queue := (cv_queue c)[nat (cv_head c) := - 1],
                 cv_head := (cv_head c + 1) mod CVAR_QUEUE_SIZE\<rparr>))"

text \<open>\<open>cv_rep c ws\<close>: the ring holds the waiters \<open>ws\<close>, oldest first.\<close>

definition cv_rep :: "cond_t \<Rightarrow> int list \<Rightarrow> bool" where
  "cv_rep c ws \<longleftrightarrow> cv_isinit c \<and> 0 \<le> cv_head c \<and> cv_head c < 64 \<and> 0 \<le> cv_tail c \<and>
     length (cv_queue c) = 64 \<and> length ws < 64 \<and>
     nat (cv_tail c) = (nat (cv_head c) + length ws) mod 64 \<and>
     (\<forall>k < length ws. cv_queue c ! ((nat (cv_head c) + k) mod 64) = ws ! k)"

lemma cv_rep_tail: "cv_rep c ws \<Longrightarrow> cv_tail c = int ((nat (cv_head c) + length ws) mod 64)"
  by (auto simp: cv_rep_def)

lemma cv_full_iff:
  assumes "cv_rep c ws"
  shows "cv_tail c + 1 = cv_head c \<longleftrightarrow> length ws = 63 \<and> cv_head c \<noteq> 0"
proof -
  obtain h where h: "cv_head c = int h" "h < 64"
    using assms by (metis cv_rep_def nat_less_numeral_power_cancel_iff nonneg_int_cases of_nat_less_numeral_iff)
  have n: "length ws < 64" using assms by (simp add: cv_rep_def)
  have "cv_tail c = int ((h + length ws) mod 64)" using cv_rep_tail [OF assms] h by simp
  moreover have "(h + length ws) mod 64 = (if h + length ws < 64 then h + length ws else h + length ws - 64)"
    using h(2) n by (simp add: mod_if)
  ultimately show ?thesis using h n by auto
qed

lemma cv_wait_rep:
  assumes rep: "cv_rep c ws" and room: "length ws < 63 \<or> cv_head c = 0"
  shows "\<exists>c'. cv_wait me c = Some c' \<and>
    (if length ws < 63 then cv_rep c' (ws @ [me]) else cv_rep c' [])"
proof -
  let ?h = "nat (cv_head c)" and ?t = "nat (cv_tail c)" and ?n = "length ws"
  let ?c = "c\<lparr>cv_queue := (cv_queue c)[?t := me], cv_tail := (cv_tail c + 1) mod 64\<rparr>"
  have r: "cv_isinit c" "0 \<le> cv_head c" "cv_head c < 64" "0 \<le> cv_tail c" "length (cv_queue c) = 64"
    "?n < 64" "?t = (?h + ?n) mod 64"
    "\<And>k. k < ?n \<Longrightarrow> cv_queue c ! ((?h + k) mod 64) = ws ! k"
    using rep by (auto simp: cv_rep_def)
  have t64: "?t < 64" using r(7) by simp
  then have "cv_tail c < 64" by linarith
  then have run: "cv_wait me c = Some ?c"
    using r(1) room cv_full_iff [OF rep] by (auto simp: cv_wait_def CVAR_QUEUE_SIZE_def Let_def)
  have tl: "nat ((cv_tail c + 1) mod 64) = (?h + Suc ?n) mod 64"
  proof -
    have "nat ((cv_tail c + 1) mod 64) = (?t + 1) mod 64"
      using r(4) by (simp add: nat_mod_distrib nat_add_distrib)
    with r(7) show ?thesis by (simp add: mod_simps)
  qed
  have old: "(cv_queue c)[?t := me] ! ((?h + k) mod 64) = ws ! k" if "k < ?n" for k
  proof -
    have "(?h + k) mod 64 \<noteq> ?t" unfolding r(7) by (rule mod_add_distinct) (use that r(6) in auto)
    with r(8) [OF that] show ?thesis by simp
  qed
  have new: "(cv_queue c)[?t := me] ! ((?h + ?n) mod 64) = me" using r(5,7) t64 by simp
  show ?thesis
  proof (cases "?n < 63")
    case True
    have "cv_rep ?c (ws @ [me])"
      using r True tl old new by (auto simp: cv_rep_def nth_append less_Suc_eq)
    with run True show ?thesis by auto
  next
    case False
    then have "?n = 63" "cv_head c = 0" using r(6) room by auto
    with r tl have "cv_rep ?c []" by (simp add: cv_rep_def)
    with run False show ?thesis by auto
  qed
qed

lemma cv_signal_rep:
  assumes rep: "cv_rep c (w # ws)"
  shows "\<exists>c'. cv_signal c = (Some w, c') \<and> cv_rep c' ws"
proof -
  let ?h = "nat (cv_head c)" and ?n = "length (w # ws)"
  let ?c = "c\<lparr>cv_queue := (cv_queue c)[?h := - 1], cv_head := (cv_head c + 1) mod 64\<rparr>"
  have r: "cv_isinit c" "0 \<le> cv_head c" "cv_head c < 64" "0 \<le> cv_tail c" "length (cv_queue c) = 64"
    "?n < 64" "nat (cv_tail c) = (?h + ?n) mod 64"
    "\<And>k. k < ?n \<Longrightarrow> cv_queue c ! ((?h + k) mod 64) = (w # ws) ! k"
    using rep by (auto simp: cv_rep_def)
  have h64: "?h < 64" using r(2,3) by linarith
  have "(?h + ?n) mod 64 \<noteq> (?h + 0) mod 64" by (rule not_sym [OF mod_add_distinct]) (use r(6) in auto)
  then have ne: "cv_head c \<noteq> cv_tail c" using r(7) h64 by auto
  have w: "cv_queue c ! ?h = w" using r(8) [of 0] h64 by simp
  have run: "cv_signal c = (Some w, ?c)" using r(1) ne w by (simp add: cv_signal_def CVAR_QUEUE_SIZE_def Let_def)
  have hd': "nat ((cv_head c + 1) mod 64) = (?h + 1) mod 64"
    using r(2) by (simp add: nat_mod_distrib nat_add_distrib)
  have "(cv_queue c)[?h := - 1] ! (((?h + 1) mod 64 + k) mod 64) = ws ! k" if "k < length ws" for k
  proof -
    have e: "((?h + 1) mod 64 + k) mod 64 = (?h + Suc k) mod 64" by (simp add: mod_simps)
    have "(?h + Suc k) mod 64 \<noteq> (?h + 0) mod 64"
      by (rule not_sym [OF mod_add_distinct]) (use that r(6) in auto)
    then have "(?h + Suc k) mod 64 \<noteq> ?h" using h64 by simp
    then show ?thesis unfolding e using r(8) [of "Suc k"] that by simp
  qed
  moreover have "nat (cv_tail c) = ((?h + 1) mod 64 + length ws) mod 64" using r(7) by (simp add: mod_simps)
  ultimately have "cv_rep ?c ws" using r hd' unfolding cv_rep_def by simp
  with run show ?thesis by blast
qed

section \<open>Properties\<close>

text \<open>C17: The ticket lock is a queue. With \<open>N < 2^32\<close> threads, in every state reachable by any
  interleaving of their atomic steps, the threads holding tickets form a queue in the order they
  took them; only its head can be or get into the critical section (mutual exclusion, first come
  first served, across wrap-around of the counters), and its head is always in it or able to
  enter (no deadlock).\<close>

theorem ticket_lock_queue:
  assumes "lreach N s" "N < 2 ^ 32"
  shows "\<exists>q. distinct q \<and> ticket (lk s) = turn (lk s) + of_nat (length q) \<and>
    (\<forall>t. thr s t = Idle \<longleftrightarrow> t \<notin> set q) \<and>
    (\<forall>t. thr s t = Crit \<longrightarrow> q \<noteq> [] \<and> t = hd q) \<and>
    (\<forall>t m. thr s t = Spin m \<longrightarrow> (\<not> spin_again m (lk s) \<longleftrightarrow> t = hd q)) \<and>
    (\<forall>s'. lstep N s s' \<longrightarrow> (\<exists>q'. lk_inv N s' q' \<and> queue_step q q'))"
proof -
  from lreach_queue [OF assms] obtain q where q: "lk_inv N s q" by blast
  have ne: "q \<noteq> []" if "thr s t = Spin m" for t m using q that by (auto simp: lk_inv_def)
  have A: "\<forall>t. thr s t = Crit \<longrightarrow> q \<noteq> [] \<and> t = hd q"
    using lk_inv_head(1) [OF q assms(2)] by simp
  have B: "\<forall>t m. thr s t = Spin m \<longrightarrow> (\<not> spin_again m (lk s) \<longleftrightarrow> t = hd q)"
    using lk_inv_head(2) [OF q assms(2)] ne by simp
  have C: "\<forall>s'. lstep N s s' \<longrightarrow> (\<exists>q'. lk_inv N s' q' \<and> queue_step q q')"
    using lstep_queue [OF q assms(2)] by simp
  have D: "distinct q \<and> ticket (lk s) = turn (lk s) + of_nat (length q) \<and> (\<forall>t. thr s t = Idle \<longleftrightarrow> t \<notin> set q)"
    using q by (simp add: lk_inv_def)
  show ?thesis by (rule exI [of _ q]) (intro conjI A B C D [THEN conjunct1]
      D [THEN conjunct2, THEN conjunct1] D [THEN conjunct2, THEN conjunct2])
qed

theorem ticket_lock_queue_witness:
  "\<exists>s q. lreach 2 s \<and> thr s 1 = Crit \<and> distinct q \<and> ticket (lk s) = turn (lk s) + of_nat (length q) \<and>
    hd q = (1 :: nat)"
proof -
  let ?l0 = "\<lparr>ticket = 5, turn = 9\<rparr>"
  let ?s0 = "\<lparr>lk = lock_init ?l0, thr = (\<lambda>_. Idle)\<rparr>"
  let ?s1 = "?s0\<lparr>lk := \<lparr>ticket = 1, turn = 0\<rparr>, thr := (thr ?s0)(1 := Spin 0)\<rparr>"
  let ?s2 = "?s1\<lparr>thr := (thr ?s1)(1 := Crit)\<rparr>"
  have "lstep 2 ?s0 ?s1"
    by (rule ls_take) (simp_all add: take_ticket_def FetchAndAdd_def lock_init_def)
  moreover have "lstep 2 ?s1 ?s2" by (rule ls_enter) (simp_all add: spin_again_def)
  ultimately have r: "lreach 2 ?s2" using lr_init lr_step by blast
  have "thr ?s2 1 = Crit" by simp
  with r obtain s where s: "lreach 2 s" "thr s 1 = Crit" by blast
  have n: "2 < (2 :: nat) ^ 32" by simp
  obtain q where q: "distinct q" "ticket (lk s) = turn (lk s) + of_nat (length q)"
    "\<forall>t. thr s t = Crit \<longrightarrow> q \<noteq> [] \<and> t = hd q"
    using ticket_lock_queue [OF s(1) n] by (elim exE conjE) (rule that)
  from q(3) s(2) have "hd q = 1" by (metis (no_types))
  with s q(1,2) show ?thesis by blast
qed

text \<open>C27: Condition variables wake in order. While fewer than 63 threads wait, \<open>cv_wait\<close> puts the
  caller behind the other waiters, and \<open>cv_signal\<close> wakes the longest waiting one and keeps the
  rest in order.\<close>

theorem cv_wait_signal_fifo:
  assumes "cv_rep c ws" "length ws < 63"
  shows "\<exists>c1. cv_wait me c = Some c1 \<and> cv_rep c1 (ws @ [me]) \<and>
    (\<exists>c2. cv_signal c1 = (Some (hd (ws @ [me])), c2) \<and> cv_rep c2 (tl (ws @ [me])))"
proof -
  from cv_wait_rep [OF assms(1), of me] assms(2) obtain c1 where
    c1: "cv_wait me c = Some c1" "cv_rep c1 (ws @ [me])" by auto
  then have "cv_rep c1 (hd (ws @ [me]) # tl (ws @ [me]))" by simp
  from cv_signal_rep [OF this] c1 show ?thesis by blast
qed

definition cv_empty :: cond_t where
  "cv_empty = \<lparr>cv_head = 0, cv_tail = 0, cv_isinit = True, cv_queue = replicate 64 0\<rparr>"

lemma cv_empty_rep: "cv_rep cv_empty []"
  by (simp add: cv_rep_def cv_empty_def)

theorem cv_wait_signal_fifo_witness:
  "\<exists>c1. cv_wait 7 cv_empty = Some c1 \<and> cv_rep c1 ([] @ [7]) \<and>
    (\<exists>c2. cv_signal c1 = (Some (hd ([] @ [7])), c2) \<and> cv_rep c2 (tl ([] @ [7])))"
  by (rule cv_wait_signal_fifo [OF cv_empty_rep]) simp

text \<open>The full test of \<open>cv_wait\<close> misses the wrap-around. With 63 waiters and the head at
  index 0 the 64th caller is accepted, the indices become equal, the queue counts as empty and
  the next \<open>cv_signal\<close> wakes nobody: all 64 waiters are lost. With the head elsewhere the 64th
  caller gets the error return.\<close>

lemma cv_wait_overflow:
  assumes "cv_rep c ws" "length ws = 63"
  shows "if cv_head c = 0 then \<exists>c1 c2. cv_wait me c = Some c1 \<and> cv_rep c1 [] \<and> cv_signal c1 = (None, c2)
    else cv_wait me c = None"
proof (cases "cv_head c = 0")
  case True
  with cv_wait_rep [OF assms(1), of me] assms(2) obtain c1 where
    c1: "cv_wait me c = Some c1" "cv_rep c1 []" by auto
  then have "cv_head c1 = cv_tail c1" by (auto simp: cv_rep_def)
  with c1(2) have "cv_signal c1 = (None, c1)" by (simp add: cv_signal_def cv_rep_def Let_def)
  with True c1 show ?thesis by auto
next
  case False
  with cv_full_iff [OF assms(1)] assms show ?thesis by (simp add: cv_wait_def cv_rep_def Let_def)
qed

definition cv_63 :: cond_t where
  "cv_63 = \<lparr>cv_head = 0, cv_tail = 63, cv_isinit = True, cv_queue = replicate 64 9\<rparr>"

lemma cv_wait_overflow_example:
  "\<exists>c1 c2. cv_wait 5 cv_63 = Some c1 \<and> cv_rep c1 [] \<and> cv_signal c1 = (None, c2)"
proof -
  have "cv_rep cv_63 (replicate 63 9)" by (simp add: cv_rep_def cv_63_def)
  from cv_wait_overflow [OF this] show ?thesis by (simp add: cv_63_def)
qed

end
