(* ===== verification/ThreadLib.thy ===== *)
theory ThreadLib
  imports Prelude "HOL-Library.Word"
begin

text \<open>
  The user thread library p4/xv6/user/threadlib.c. \<open>malloc\<close> and \<open>free\<close> (user/umalloc.c) and the
  system calls \<open>clone\<close> and \<open>join\<close> enter with their results: \<open>thread_create\<close> takes the
  address \<open>malloc\<close> returned and the function from stack to pid that \<open>clone\<close> is, \<open>thread_join\<close>
  the pid \<open>join\<close> returned; the region given to \<open>free\<close> is part of its result.
\<close>

record pidMemPair =
  isFree :: bool
  tpid :: int
  memRegion :: "32 word"

definition PID_MEM_TABLE_SIZE :: nat where "PID_MEM_TABLE_SIZE = 64"

text \<open>The initialiser \<open>{ { 1, -1, 0 } }\<close>: C fills the other 63 entries with zeros.\<close>

definition pidMemTable :: "pidMemPair list" where
  "pidMemTable = \<lparr>isFree = True, tpid = - 1, memRegion = 0\<rparr> #
     replicate (PID_MEM_TABLE_SIZE - 1) \<lparr>isFree = False, tpid = 0, memRegion = 0\<rparr>"

definition align_stack :: "32 word \<Rightarrow> 32 word" where
  "align_stack stackPage = stackPage + (4096 - stackPage mod 4096)"

fun table_add :: "int \<Rightarrow> 32 word \<Rightarrow> pidMemPair list \<Rightarrow> pidMemPair list" where
  "table_add p r [] = []"
| "table_add p r (x # xs) =
     (if isFree x then \<lparr>isFree = False, tpid = p, memRegion = r\<rparr> # xs else x # table_add p r xs)"

definition thread_create :: "32 word \<Rightarrow> (32 word \<Rightarrow> int) \<Rightarrow> pidMemPair list \<Rightarrow> int \<times> pidMemPair list" where
  "thread_create stackPage clone tbl =
     (let alignedStack = align_stack stackPage
      in if stackPage = 0 then (- 1, tbl)
         else let p = clone alignedStack
              in (p, if p \<noteq> - 1 then table_add p stackPage tbl else tbl))"

fun table_remove :: "int \<Rightarrow> pidMemPair list \<Rightarrow> 32 word option \<times> pidMemPair list" where
  "table_remove p [] = (None, [])"
| "table_remove p (x # xs) =
     (if isFree x \<or> tpid x \<noteq> p then let (r, ys) = table_remove p xs in (r, x # ys)
      else (Some (memRegion x), \<lparr>isFree = True, tpid = - 1, memRegion = 0\<rparr> # xs))"

definition thread_join :: "int \<Rightarrow> pidMemPair list \<Rightarrow> int \<times> 32 word option \<times> pidMemPair list" where
  "thread_join joinRet tbl =
     (let (r, tbl') = (if joinRet \<noteq> - 1 then table_remove joinRet tbl else (None, tbl))
      in (if joinRet > 0 then joinRet else - 1, r, tbl'))"

section \<open>Properties\<close>

lemma table_remove_absent:
  "(\<forall>x \<in> set xs. isFree x \<or> tpid x \<noteq> p) \<Longrightarrow> table_remove p xs = (None, xs)"
  by (induction xs) auto

lemma table_remove_add:
  assumes "\<forall>x \<in> set xs. isFree x \<or> tpid x \<noteq> p" "\<exists>x \<in> set xs. isFree x"
  shows "\<exists>ys. table_remove p (table_add p r xs) = (Some r, ys) \<and> length ys = length xs \<and>
    map isFree ys = map isFree xs \<and> filter (\<lambda>x. \<not> isFree x) ys = filter (\<lambda>x. \<not> isFree x) xs"
  using assms
proof (induction xs)
  case Nil
  then show ?case by simp
next
  case (Cons a xs)
  show ?case
  proof (cases "isFree a")
    case False
    with Cons obtain ys where "table_remove p (table_add p r xs) = (Some r, ys)" "length ys = length xs"
      "map isFree ys = map isFree xs" "filter (\<lambda>x. \<not> isFree x) ys = filter (\<lambda>x. \<not> isFree x) xs" by auto
    with False Cons.prems show ?thesis by simp
  qed simp
qed

text \<open>The stack handed to \<open>clone\<close> is page aligned and its page lies inside the two pages
  that \<open>malloc\<close> returned, wherever they start.\<close>

lemma align_stack_inside:
  assumes "uint p + 8192 \<le> 2 ^ 32"
  shows "align_stack p mod 4096 = 0 \<and> uint p < uint (align_stack p) \<and>
    uint (align_stack p) + 4096 \<le> uint p + 8192"
proof -
  have m: "uint (p mod 4096) = uint p mod 4096" by (simp add: uint_mod)
  have r: "0 \<le> uint p mod 4096" "uint p mod 4096 < 4096" by simp_all
  have "uint (4096 - p mod 4096) = uint (4096 :: 32 word) - uint (p mod 4096)"
    using uint_sub_lem [of "p mod 4096" "4096 :: 32 word"] m r by simp
  then have d: "uint (4096 - p mod 4096) = 4096 - uint p mod 4096" using m by simp
  have "uint p + uint (4096 - p mod 4096) < 2 ^ 32" unfolding d using assms r by simp
  then have u: "uint (align_stack p) = uint p + (4096 - uint p mod 4096)"
    unfolding align_stack_def d [symmetric] using uint_add_lem [of p "4096 - p mod 4096"] by simp
  have "x + (4096 - b) = 4096 * (a + 1)" if "a * 4096 + b = x" for a b x :: int
    using that by simp
  from this [OF div_mult_mod_eq]
  have "uint p + (4096 - uint p mod 4096) = 4096 * (uint p div 4096 + 1)" .
  then have "(uint p + (4096 - uint p mod 4096)) mod 4096 = 0" by (simp only: mod_mult_self1_is_0)
  then have "uint (align_stack p mod 4096) = 0" by (simp add: uint_mod u)
  then have "align_stack p mod 4096 = 0" by (simp add: unsigned_eq_0_iff)
  with u r show ?thesis by simp
qed

text \<open>Stacks are freed. If the table has a free entry, a created thread's region is the one
  that \<open>thread_join\<close> frees when \<open>join\<close> returns its pid, and the entries of all other threads
  survive both calls.\<close>

lemma create_then_join_frees:
  assumes "page \<noteq> 0" "clone (align_stack page) = p" "0 < p"
    "\<forall>x \<in> set tbl. isFree x \<or> tpid x \<noteq> p" "\<exists>x \<in> set tbl. isFree x"
  shows "\<exists>tbl1 tbl2. thread_create page clone tbl = (p, tbl1) \<and>
    thread_join p tbl1 = (p, Some page, tbl2) \<and>
    filter (\<lambda>x. \<not> isFree x) tbl2 = filter (\<lambda>x. \<not> isFree x) tbl"
  using table_remove_add [OF assms(4,5), of page] assms(1-3)
  by (auto simp: thread_create_def thread_join_def Let_def)

text \<open>Only one thread at a time is recorded. The static initialiser marks just the first of
  the 64 entries free, so while one thread is recorded the stack of any further thread is not,
  and joining that thread frees nothing.\<close>

lemma second_thread_not_recorded:
  assumes "page1 \<noteq> 0" "page2 \<noteq> 0" "0 < p1" "0 < p2" "p1 \<noteq> p2"
  shows "\<exists>tbl1. thread_create page1 (\<lambda>_. p1) pidMemTable = (p1, tbl1) \<and>
    thread_create page2 (\<lambda>_. p2) tbl1 = (p2, tbl1) \<and> thread_join p2 tbl1 = (p2, None, tbl1)"
proof -
  have full: "table_add p r (replicate n x) = replicate n x" if "\<not> isFree x" for p r n x
    using that by (induction n) auto
  let ?t = "table_add p1 page1 pidMemTable"
  have "table_add p2 page2 ?t = ?t" by (simp add: pidMemTable_def full)
  moreover have "table_remove p2 ?t = (None, ?t)"
    using assms(4,5) by (intro table_remove_absent) (auto simp: pidMemTable_def)
  ultimately show ?thesis using assms by (auto simp: thread_create_def thread_join_def Let_def)
qed

lemma second_thread_not_recorded_example:
  "\<exists>tbl1. thread_create 5000 (\<lambda>_. 4) pidMemTable = (4, tbl1) \<and>
    thread_create 20000 (\<lambda>_. 5) tbl1 = (5, tbl1) \<and> thread_join 5 tbl1 = (5, None, tbl1)"
  by (rule second_thread_not_recorded) simp_all

end
