(* ===== verification/Fs.thy ===== *)
theory Fs
  imports Prelude BlockDev "HOL-Library.Word"
begin

text \<open>
  The file system of kernel/fs.c on a block device of bytes. The buffer cache (\<open>Bio\<close>) is
  transparent here: \<open>bread\<close> sees the last \<open>bwrite\<close>. An \<open>inode *\<close> is an index into \<open>icache\<close>.
  The result of an operation is an error or a value with the new state; \<open>FPanic\<close> is the kernel's
  \<open>panic\<close>, \<open>FSleep\<close> a process that goes to sleep on a busy inode and does not return here.
  \<open>uint\<close> values are naturals, reduced modulo \<open>2^32\<close> where the code's sums can wrap.
\<close>

section \<open>Blocks of bytes\<close>

type_synonym block = "nat \<Rightarrow> 8 word"

definition BSIZE :: nat where "BSIZE = 512"
definition BPB :: nat where "BPB = BSIZE * 8"
definition IPB :: nat where "IPB = 8"
definition NDIRECT :: nat where "NDIRECT = 12"
definition NINDIRECT :: nat where "NINDIRECT = BSIZE div 4"
definition MAXFILE :: nat where "MAXFILE = NDIRECT + NINDIRECT"
definition DIRSIZ :: nat where "DIRSIZ = 14"
definition NINODE :: nat where "NINODE = 50"
definition T_DIR :: int where "T_DIR = 1"
definition T_DEV :: int where "T_DEV = 3"
definition NDEV :: int where "NDEV = 10"

definition IBLOCK :: "nat \<Rightarrow> nat" where "IBLOCK i = i div IPB + 2"

definition BBLOCK :: "nat \<Rightarrow> nat \<Rightarrow> nat" where "BBLOCK b ninodes = b div BPB + ninodes div IPB + 3"

definition get16 :: "block \<Rightarrow> nat \<Rightarrow> nat" where
  "get16 b i = unat (b i) + 256 * unat (b (i + 1))"

definition get32 :: "block \<Rightarrow> nat \<Rightarrow> nat" where
  "get32 b i = get16 b i + 65536 * get16 b (i + 2)"

definition put16 :: "nat \<Rightarrow> nat \<Rightarrow> block \<Rightarrow> block" where
  "put16 i v b = b(i := of_nat v, i + 1 := of_nat (v div 256))"

definition put32 :: "nat \<Rightarrow> nat \<Rightarrow> block \<Rightarrow> block" where
  "put32 i v b = put16 (i + 2) (v div 65536) (put16 i v b)"

text \<open>A \<open>short\<close> field.\<close>

definition get_short :: "block \<Rightarrow> nat \<Rightarrow> int" where
  "get_short b i = (let v = int (get16 b i) in if v < 2 ^ 15 then v else v - 2 ^ 16)"

definition put_short :: "nat \<Rightarrow> int \<Rightarrow> block \<Rightarrow> block" where
  "put_short i v b = put16 i (nat (v mod 2 ^ 16)) b"

definition uadd :: "nat \<Rightarrow> nat \<Rightarrow> nat" where "uadd a b = (a + b) mod 2 ^ 32"

definition usub :: "nat \<Rightarrow> nat \<Rightarrow> nat" where "usub a b = (a + 2 ^ 32 - b) mod 2 ^ 32"

record superblock =
  sb_size :: nat
  sb_nblocks :: nat
  sb_ninodes :: nat

record inode =
  i_dev :: nat
  i_num :: nat
  i_ref :: int
  i_busy :: bool
  i_valid :: bool
  i_type :: int
  i_major :: int
  i_minor :: int
  i_nlink :: int
  i_size :: nat
  i_addrs :: "nat list"

record fsst =
  disk :: "nat \<Rightarrow> nat \<Rightarrow> block"
  icache :: "inode list"

datatype ferror = FPanic string | FSleep

definition bread :: "nat \<Rightarrow> nat \<Rightarrow> fsst \<Rightarrow> block" where "bread dev b s = disk s dev b"

definition bwrite :: "nat \<Rightarrow> nat \<Rightarrow> block \<Rightarrow> fsst \<Rightarrow> fsst" where
  "bwrite dev b v s = s\<lparr>disk := (disk s)(dev := (disk s dev)(b := v))\<rparr>"

text \<open>The disk of bytes is a block device, as is the buffer cache in \<open>BioProps\<close>.\<close>

interpretation fs_dev: block_device "\<lambda>_. True" "\<lambda>_ _ _. True" disk "\<lambda>d k s. Some (bread d k s, s)"
  "\<lambda>d k v s. Some (bwrite d k v s)"
  by unfold_locales (auto simp: bread_def bwrite_def)

definition ino :: "fsst \<Rightarrow> nat \<Rightarrow> inode" where "ino s i = icache s ! i"

definition iupd :: "nat \<Rightarrow> (inode \<Rightarrow> inode) \<Rightarrow> fsst \<Rightarrow> fsst" where
  "iupd i f s = s\<lparr>icache := (icache s)[i := f (icache s ! i)]\<rparr>"

section \<open>The block allocator\<close>

definition readsb :: "nat \<Rightarrow> fsst \<Rightarrow> superblock" where
  "readsb dev s = (let b = bread dev 1 s
     in \<lparr>sb_size = get32 b 0, sb_nblocks = get32 b 4, sb_ninodes = get32 b 8\<rparr>)"

definition bzero :: "nat \<Rightarrow> nat \<Rightarrow> fsst \<Rightarrow> fsst" where
  "bzero dev bno s = bwrite dev bno (\<lambda>i. if i < BSIZE then 0 else bread dev bno s i) s"

definition bit_of :: "block \<Rightarrow> nat \<Rightarrow> bool" where
  "bit_of b bi = bit (b (bi div 8)) (bi mod 8)"

definition with_bit :: "bool \<Rightarrow> nat \<Rightarrow> block \<Rightarrow> block" where
  "with_bit v bi b = b(bi div 8 := (if v then set_bit (bi mod 8) (b (bi div 8))
                                    else unset_bit (bi mod 8) (b (bi div 8))))"

text \<open>The inner loop of \<open>balloc\<close> over one bitmap block, then the outer loop from block \<open>b\<close>.\<close>

definition first_clear :: "block \<Rightarrow> nat option" where
  "first_clear blk = find (\<lambda>bi. \<not> bit_of blk bi) [0..<BPB]"

function balloc_loop :: "nat \<Rightarrow> superblock \<Rightarrow> nat \<Rightarrow> fsst \<Rightarrow> ferror + nat \<times> fsst" where
  "balloc_loop dev sb b s =
     (if b < sb_size sb then
        let blk = bread dev (BBLOCK b (sb_ninodes sb)) s in
        case first_clear blk of
          Some bi \<Rightarrow> Inr (b + bi, bwrite dev (BBLOCK b (sb_ninodes sb)) (with_bit True bi blk) s)
        | None \<Rightarrow> balloc_loop dev sb (b + BPB) s
      else Inl (FPanic ''balloc: out of blocks''))"
  by pat_completeness auto
termination
  by (relation "measure (\<lambda>(dev, sb, b, s). sb_size sb - b)") (auto simp: BPB_def BSIZE_def)

declare balloc_loop.simps [simp del]

definition balloc :: "nat \<Rightarrow> fsst \<Rightarrow> ferror + nat \<times> fsst" where
  "balloc dev s = balloc_loop dev (readsb dev s) 0 s"

definition bfree :: "nat \<Rightarrow> nat \<Rightarrow> fsst \<Rightarrow> ferror + fsst" where
  "bfree dev b s0 =
     (let s = bzero dev b s0; sb = readsb dev s; bm = BBLOCK b (sb_ninodes sb);
          blk = bread dev bm s; bi = b mod BPB
      in if \<not> bit_of blk bi then Inl (FPanic ''freeing free block'')
         else Inr (bwrite dev bm (with_bit False bi blk) s))"

section \<open>Inodes on disk and in the cache\<close>

definition dinode_off :: "nat \<Rightarrow> nat" where "dinode_off inum = (inum mod IPB) * 64"

definition put_addrs :: "nat \<Rightarrow> nat list \<Rightarrow> block \<Rightarrow> block" where
  "put_addrs i xs b = fold (\<lambda>k. put32 (i + 4 * k) (xs ! k)) [0..<length xs] b"

definition iupdate :: "nat \<Rightarrow> fsst \<Rightarrow> fsst" where
  "iupdate i s =
     (let ip = ino s i; bn = IBLOCK (i_num ip); d = dinode_off (i_num ip)
      in bwrite (i_dev ip) bn
           (put_addrs (d + 12) (i_addrs ip) (put32 (d + 8) (i_size ip)
             (put_short (d + 6) (i_nlink ip) (put_short (d + 4) (i_minor ip)
               (put_short (d + 2) (i_major ip) (put_short d (i_type ip)
                 (bread (i_dev ip) bn s))))))) s)"

text \<open>The scan of \<open>iget\<close>: a cached entry, or the first empty slot.\<close>

fun iget_scan :: "nat \<Rightarrow> nat \<Rightarrow> nat \<Rightarrow> inode list \<Rightarrow> nat option \<Rightarrow> bool \<times> nat option" where
  "iget_scan dev inum k [] emp = (False, emp)"
| "iget_scan dev inum k (ip # ips) emp =
     (if i_ref ip > 0 \<and> i_dev ip = dev \<and> i_num ip = inum then (True, Some k)
      else iget_scan dev inum (k + 1) ips (if emp = None \<and> i_ref ip = 0 then Some k else emp))"

definition iget :: "nat \<Rightarrow> nat \<Rightarrow> fsst \<Rightarrow> ferror + nat \<times> fsst" where
  "iget dev inum s =
     (case iget_scan dev inum 0 (icache s) None of
        (True, Some k) \<Rightarrow> Inr (k, iupd k (\<lambda>ip. ip\<lparr>i_ref := i_ref ip + 1\<rparr>) s)
      | (_, None) \<Rightarrow> Inl (FPanic ''iget: no inodes'')
      | (False, Some k) \<Rightarrow>
          Inr (k, iupd k (\<lambda>ip. ip\<lparr>i_dev := dev, i_num := inum, i_ref := 1,
                                  i_busy := False, i_valid := False\<rparr>) s))"

function ialloc_loop :: "nat \<Rightarrow> int \<Rightarrow> nat \<Rightarrow> nat \<Rightarrow> fsst \<Rightarrow> ferror + nat \<times> fsst" where
  "ialloc_loop dev ty ninodes inum s =
     (if inum < ninodes then
        let bn = IBLOCK inum; blk = bread dev bn s; d = dinode_off inum in
        if get_short blk d = 0 then
          iget dev inum (bwrite dev bn (put_short d ty
            (\<lambda>i. if d \<le> i \<and> i < d + 64 then 0 else blk i)) s)
        else ialloc_loop dev ty ninodes (inum + 1) s
      else Inl (FPanic ''ialloc: no inodes''))"
  by pat_completeness auto
termination
  by (relation "measure (\<lambda>(dev, ty, n, i, s). n - i)") auto

declare ialloc_loop.simps [simp del]

definition ialloc :: "nat \<Rightarrow> int \<Rightarrow> fsst \<Rightarrow> ferror + nat \<times> fsst" where
  "ialloc dev ty s = ialloc_loop dev ty (sb_ninodes (readsb dev s)) 1 s"

definition idup :: "nat \<Rightarrow> fsst \<Rightarrow> nat \<times> fsst" where
  "idup i s = (i, iupd i (\<lambda>ip. ip\<lparr>i_ref := i_ref ip + 1\<rparr>) s)"

definition load_inode :: "block \<Rightarrow> inode \<Rightarrow> inode" where
  "load_inode blk ip =
     (let d = dinode_off (i_num ip)
      in ip\<lparr>i_type := get_short blk d, i_major := get_short blk (d + 2),
            i_minor := get_short blk (d + 4), i_nlink := get_short blk (d + 6),
            i_size := get32 blk (d + 8),
            i_addrs := map (\<lambda>k. get32 blk (d + 12 + 4 * k)) [0..<NDIRECT + 1], i_valid := True\<rparr>)"

definition ilock :: "nat option \<Rightarrow> fsst \<Rightarrow> ferror + fsst" where
  "ilock io s =
     (case io of None \<Rightarrow> Inl (FPanic ''ilock'')
      | Some i \<Rightarrow>
        if i_ref (ino s i) < 1 then Inl (FPanic ''ilock'')
        else if i_busy (ino s i) then Inl FSleep
        else
          let s1 = iupd i (\<lambda>ip. ip\<lparr>i_busy := True\<rparr>) s; ip = ino s1 i in
          if i_valid ip then Inr s1
          else
            let s2 = iupd i (load_inode (bread (i_dev ip) (IBLOCK (i_num ip)) s1)) s1
            in if i_type (ino s2 i) = 0 then Inl (FPanic ''ilock: no type'') else Inr s2)"

definition iunlock :: "nat option \<Rightarrow> fsst \<Rightarrow> ferror + fsst" where
  "iunlock io s =
     (case io of None \<Rightarrow> Inl (FPanic ''iunlock'')
      | Some i \<Rightarrow>
        if \<not> i_busy (ino s i) \<or> i_ref (ino s i) < 1 then Inl (FPanic ''iunlock'')
        else Inr (iupd i (\<lambda>ip. ip\<lparr>i_busy := False\<rparr>) s))"

section \<open>Inode contents\<close>

definition bmap :: "nat \<Rightarrow> nat \<Rightarrow> fsst \<Rightarrow> ferror + nat \<times> fsst" where
  "bmap i bn s =
     (let ip = ino s i; dev = i_dev ip in
      if bn < NDIRECT then
        if i_addrs ip ! bn = 0 then
          bindE (balloc dev s) (\<lambda>(a, s1). Inr (a, iupd i (\<lambda>q. q\<lparr>i_addrs := (i_addrs q)[bn := a]\<rparr>) s1))
        else Inr (i_addrs ip ! bn, s)
      else if bn - NDIRECT < NINDIRECT then
        bindE (if i_addrs ip ! NDIRECT = 0 then
                 bindE (balloc dev s) (\<lambda>(a, s1).
                   Inr (a, iupd i (\<lambda>q. q\<lparr>i_addrs := (i_addrs q)[NDIRECT := a]\<rparr>) s1))
               else Inr (i_addrs ip ! NDIRECT, s)) (\<lambda>(ind, s1).
        let blk = bread dev ind s1; k = 4 * (bn - NDIRECT) in
        if get32 blk k = 0 then
          bindE (balloc dev s1) (\<lambda>(a, s2). Inr (a, bwrite dev ind (put32 k a blk) s2))
        else Inr (get32 blk k, s1))
      else Inl (FPanic ''bmap: out of range''))"

fun free_direct :: "nat \<Rightarrow> nat \<Rightarrow> nat \<Rightarrow> fsst \<Rightarrow> ferror + fsst" where
  "free_direct i k 0 s = Inr s"
| "free_direct i k (Suc n) s =
     (let ip = ino s i in
      if i_addrs ip ! k \<noteq> 0 then
        bindE (bfree (i_dev ip) (i_addrs ip ! k) s) (\<lambda>s1.
          free_direct i (k + 1) n (iupd i (\<lambda>q. q\<lparr>i_addrs := (i_addrs q)[k := 0]\<rparr>) s1))
      else free_direct i (k + 1) n s)"

fun free_list :: "nat \<Rightarrow> nat list \<Rightarrow> fsst \<Rightarrow> ferror + fsst" where
  "free_list dev [] s = Inr s"
| "free_list dev (a # as) s =
     (if a \<noteq> 0 then bindE (bfree dev a s) (free_list dev as) else free_list dev as s)"

definition itrunc :: "nat \<Rightarrow> fsst \<Rightarrow> ferror + fsst" where
  "itrunc i s =
     bindE (free_direct i 0 NDIRECT s) (\<lambda>s1.
     let ip = ino s1 i; ind = i_addrs ip ! NDIRECT in
     bindE (if ind \<noteq> 0 then
              bindE (free_list (i_dev ip) (map (\<lambda>j. get32 (bread (i_dev ip) ind s1) (4 * j)) [0..<NINDIRECT]) s1)
                (\<lambda>s2. bindE (bfree (i_dev ip) ind s2) (\<lambda>s3.
                   Inr (iupd i (\<lambda>q. q\<lparr>i_addrs := (i_addrs q)[NDIRECT := 0]\<rparr>) s3)))
            else Inr s1)
       (\<lambda>s4. Inr (iupdate i (iupd i (\<lambda>q. q\<lparr>i_size := 0\<rparr>) s4))))"

definition iput :: "nat \<Rightarrow> fsst \<Rightarrow> ferror + fsst" where
  "iput i s =
     bindE (if i_ref (ino s i) = 1 \<and> i_valid (ino s i) \<and> i_nlink (ino s i) = 0 then
              if i_busy (ino s i) then Inl (FPanic ''iput busy'')
              else bindE (itrunc i (iupd i (\<lambda>q. q\<lparr>i_busy := True\<rparr>) s)) (\<lambda>s1.
                     let s2 = iupdate i (iupd i (\<lambda>q. q\<lparr>i_type := 0\<rparr>) s1)
                     in Inr (iupd i (\<lambda>q. q\<lparr>i_busy := False, i_valid := False\<rparr>) s2))
            else Inr s)
       (\<lambda>s3. Inr (iupd i (\<lambda>q. q\<lparr>i_ref := i_ref q - 1\<rparr>) s3))"

definition iunlockput :: "nat \<Rightarrow> fsst \<Rightarrow> ferror + fsst" where
  "iunlockput i s = bindE (iunlock (Some i) s) (iput i)"

record stat =
  st_dev :: nat
  st_ino :: nat
  st_type :: int
  st_nlink :: int
  st_size :: nat

definition stati :: "nat \<Rightarrow> fsst \<Rightarrow> stat" where
  "stati i s = (let ip = ino s i in \<lparr>st_dev = i_dev ip, st_ino = i_num ip, st_type = i_type ip,
     st_nlink = i_nlink ip, st_size = i_size ip\<rparr>)"

text \<open>
  The device switch is an argument: for a major number the driver's read or write function, if
  there is one.
\<close>

record devsw =
  dv_read :: "int \<Rightarrow> (nat \<Rightarrow> int \<times> 8 word list) option"
  dv_write :: "int \<Rightarrow> (8 word list \<Rightarrow> nat \<Rightarrow> int) option"

lemma chunk_less:
  "tot < n \<Longrightarrow> n - (tot + min (n - tot) (BSIZE - off mod BSIZE)) < n - tot"
  by (simp add: BSIZE_def)

function readi_loop :: "nat \<Rightarrow> nat \<Rightarrow> nat \<Rightarrow> nat \<Rightarrow> fsst \<Rightarrow> ferror + 8 word list \<times> fsst" where
  "readi_loop i tot off n s =
     (if tot < n then
        let m = min (n - tot) (BSIZE - off mod BSIZE) in
        bindE (bmap i (off div BSIZE) s) (\<lambda>(a, s1).
        bindE (readi_loop i (tot + m) (off + m) n s1) (\<lambda>(bs, s2).
        Inr (map (\<lambda>k. bread (i_dev (ino s1 i)) a s1 (off mod BSIZE + k)) [0..<m] @ bs, s2)))
      else Inr ([], s))"
  by pat_completeness auto
termination
  by (relation "measure (\<lambda>(i, tot, off, n, s). n - tot)")
     (use chunk_less in simp_all)

declare readi_loop.simps [simp del]

definition readi :: "devsw \<Rightarrow> nat \<Rightarrow> nat \<Rightarrow> nat \<Rightarrow> fsst \<Rightarrow> ferror + (int \<times> 8 word list) \<times> fsst" where
  "readi D i off n s =
     (let ip = ino s i in
      if i_type ip = T_DEV then
        if i_major ip < 0 \<or> i_major ip \<ge> NDEV then Inr ((- 1, []), s)
        else case dv_read D (i_major ip) of None \<Rightarrow> Inr ((- 1, []), s) | Some f \<Rightarrow> Inr (f n, s)
      else if off > i_size ip \<or> uadd off n < off then Inr ((- 1, []), s)
      else
        let n' = (if uadd off n > i_size ip then usub (i_size ip) off else n)
        in bindE (readi_loop i 0 off n' s) (\<lambda>(bs, s1). Inr ((s32 (int n'), bs), s1)))"

text \<open>Overwriting a block from byte \<open>o'\<close> on.\<close>

definition blit :: "nat \<Rightarrow> 8 word list \<Rightarrow> block \<Rightarrow> block" where
  "blit o' xs b = (\<lambda>k. if o' \<le> k \<and> k < o' + length xs then xs ! (k - o') else b k)"

function writei_loop :: "nat \<Rightarrow> 8 word list \<Rightarrow> nat \<Rightarrow> nat \<Rightarrow> nat \<Rightarrow> fsst \<Rightarrow> ferror + nat \<times> fsst" where
  "writei_loop i src tot off n s =
     (if tot < n then
        let m = min (n - tot) (BSIZE - off mod BSIZE) in
        bindE (bmap i (off div BSIZE) s) (\<lambda>(a, s1).
        let dev = i_dev (ino s1 i)
        in writei_loop i src (tot + m) (off + m) n
             (bwrite dev a (blit (off mod BSIZE) (take m (drop tot src)) (bread dev a s1)) s1))
      else Inr (off, s))"
  by pat_completeness auto
termination
  by (relation "measure (\<lambda>(i, src, tot, off, n, s). n - tot)")
     (use chunk_less in simp_all)

declare writei_loop.simps [simp del]

definition writei :: "devsw \<Rightarrow> nat \<Rightarrow> 8 word list \<Rightarrow> nat \<Rightarrow> nat \<Rightarrow> fsst \<Rightarrow> ferror + int \<times> fsst" where
  "writei D i src off n s =
     (let ip = ino s i in
      if i_type ip = T_DEV then
        if i_major ip < 0 \<or> i_major ip \<ge> NDEV then Inr (- 1, s)
        else case dv_write D (i_major ip) of None \<Rightarrow> Inr (- 1, s) | Some f \<Rightarrow> Inr (f src n, s)
      else if off > i_size ip \<or> uadd off n < off then Inr (- 1, s)
      else
        let n' = (if uadd off n > MAXFILE * BSIZE then usub (MAXFILE * BSIZE) off else n)
        in bindE (writei_loop i src 0 off n' s) (\<lambda>(off', s1).
           Inr (s32 (int n'), if n' > 0 \<and> off' > i_size (ino s1 i)
                        then iupdate i (iupd i (\<lambda>q. q\<lparr>i_size := off'\<rparr>) s1) else s1)))"

section \<open>Directories\<close>

text \<open>\<open>strncmp\<close> on strings given by their characters, a missing character being the NUL.\<close>

fun lstrncmp :: "8 word list \<Rightarrow> 8 word list \<Rightarrow> nat \<Rightarrow> int" where
  "lstrncmp p q 0 = 0"
| "lstrncmp p q (Suc n) =
     (let a = (case p of [] \<Rightarrow> 0 | x # _ \<Rightarrow> x); b = (case q of [] \<Rightarrow> 0 | x # _ \<Rightarrow> x)
      in if a \<noteq> 0 \<and> a = b then lstrncmp (tl p) (tl q) n else uint a - uint b)"

definition namecmp :: "8 word list \<Rightarrow> 8 word list \<Rightarrow> int" where
  "namecmp s t = lstrncmp s t DIRSIZ"

definition de_inum :: "block \<Rightarrow> nat \<Rightarrow> nat" where "de_inum blk e = get16 blk (16 * e)"

definition de_name :: "block \<Rightarrow> nat \<Rightarrow> 8 word list" where
  "de_name blk e = map (\<lambda>k. blk (16 * e + 2 + k)) [0..<DIRSIZ]"

text \<open>The entries of one directory block, 32 of them.\<close>

definition scan_block :: "8 word list \<Rightarrow> block \<Rightarrow> nat option" where
  "scan_block name blk =
     find (\<lambda>e. de_inum blk e \<noteq> 0 \<and> namecmp name (de_name blk e) = 0) [0..<BSIZE div 16]"

text \<open>The loop over the blocks; \<open>len\<close> is \<open>dp->size\<close>, which no \<open>bmap\<close> changes.\<close>

function dirlookup_loop ::
  "nat \<Rightarrow> 8 word list \<Rightarrow> nat \<Rightarrow> nat \<Rightarrow> fsst \<Rightarrow> ferror + (nat \<times> nat) option \<times> fsst" where
  "dirlookup_loop dp name len off s =
     (if off < len then
        bindE (bmap dp (off div BSIZE) s) (\<lambda>(a, s1).
        let blk = bread (i_dev (ino s1 dp)) a s1 in
        case scan_block name blk of
          Some e \<Rightarrow> bindE (iget (i_dev (ino s1 dp)) (de_inum blk e) s1)
                      (\<lambda>(j, s2). Inr (Some (j, off + 16 * e), s2))
        | None \<Rightarrow> dirlookup_loop dp name len (off + BSIZE) s1)
      else Inr (None, s))"
  by pat_completeness auto
termination
  by (relation "measure (\<lambda>(dp, name, len, off, s). len - off)") (auto simp: BSIZE_def)

declare dirlookup_loop.simps [simp del]

definition dirlookup :: "nat \<Rightarrow> 8 word list \<Rightarrow> fsst \<Rightarrow> ferror + (nat \<times> nat) option \<times> fsst" where
  "dirlookup dp name s =
     (if i_type (ino s dp) \<noteq> T_DIR then Inl (FPanic ''dirlookup not DIR'')
      else dirlookup_loop dp name (i_size (ino s dp)) 0 s)"

text \<open>The offset of the first empty entry, or the end of the directory.\<close>

function dirlink_find :: "devsw \<Rightarrow> nat \<Rightarrow> nat \<Rightarrow> nat \<Rightarrow> fsst \<Rightarrow> ferror + nat \<times> fsst" where
  "dirlink_find D dp len off s =
     (if off < len then
        bindE (readi D dp off 16 s) (\<lambda>((r, bs), s1).
        if r \<noteq> 16 then Inl (FPanic ''dirlink read'')
        else if get16 (\<lambda>k. bs ! k) 0 = 0 then Inr (off, s1)
        else dirlink_find D dp len (off + 16) s1)
      else Inr (off, s))"
  by pat_completeness auto
termination
  by (relation "measure (\<lambda>(D, dp, len, off, s). len - off)") auto

declare dirlink_find.simps [simp del]

text \<open>The bytes of a \<open>struct dirent\<close>: the inode number and the name padded with zeros.\<close>

definition dirent_bytes :: "nat \<Rightarrow> 8 word list \<Rightarrow> 8 word list" where
  "dirent_bytes inum name =
     [of_nat inum, of_nat (inum div 256)] @ take DIRSIZ name @ replicate (DIRSIZ - length name) 0"

definition dirlink :: "devsw \<Rightarrow> nat \<Rightarrow> 8 word list \<Rightarrow> nat \<Rightarrow> fsst \<Rightarrow> ferror + int \<times> fsst" where
  "dirlink D dp name inum s =
     bindE (dirlookup dp name s) (\<lambda>(r, s1).
     case r of
       Some (j, _) \<Rightarrow> bindE (iput j s1) (\<lambda>s2. Inr (- 1, s2))
     | None \<Rightarrow>
         bindE (dirlink_find D dp (i_size (ino s1 dp)) 0 s1) (\<lambda>(off, s2).
         bindE (writei D dp (dirent_bytes inum name) off 16 s2) (\<lambda>(w, s3).
         if w \<noteq> 16 then Inl (FPanic ''dirlink'') else Inr (0, s3))))"

section \<open>Paths\<close>

text \<open>A path is its characters up to the NUL; 47 is the slash.\<close>

definition skipelem :: "8 word list \<Rightarrow> (8 word list \<times> 8 word list) option" where
  "skipelem path =
     (let p = dropWhile (\<lambda>c. c = 47) path in
      if p = [] then None
      else Some (take DIRSIZ (takeWhile (\<lambda>c. c \<noteq> 47) p),
                 dropWhile (\<lambda>c. c = 47) (dropWhile (\<lambda>c. c \<noteq> 47) p)))"

lemma skipelem_shorter: "skipelem path = Some (name, rest) \<Longrightarrow> length rest < length path"
proof -
  assume a: "skipelem path = Some (name, rest)"
  let ?p = "dropWhile (\<lambda>c. c = 47) path"
  from a have ne: "?p \<noteq> []" and r: "rest = dropWhile (\<lambda>c. c = 47) (dropWhile (\<lambda>c. c \<noteq> 47) ?p)"
    by (auto simp: skipelem_def Let_def split: if_splits)
  obtain c cs where p: "?p = c # cs" using ne by (cases ?p) auto
  then have "c \<noteq> 47" using hd_dropWhile [OF ne] by simp
  then have "dropWhile (\<lambda>c. c \<noteq> 47) ?p = dropWhile (\<lambda>c. c \<noteq> 47) cs" using p by simp
  then have "length rest \<le> length cs"
    using r by (metis le_trans length_dropWhile_le)
  moreover have "length ?p \<le> length path" by (rule length_dropWhile_le)
  ultimately show ?thesis using p by simp
qed

text \<open>The loop of \<open>namex\<close> with \<open>ip\<close> reached; the result is the inode and the last element.\<close>

function namex_loop :: "bool \<Rightarrow> 8 word list \<Rightarrow> nat \<Rightarrow> fsst \<Rightarrow>
    ferror + (nat \<times> 8 word list) option \<times> fsst" where
  "namex_loop nameiparent path ip s =
     (case skipelem path of
        None \<Rightarrow> if nameiparent then bindE (iput ip s) (\<lambda>s1. Inr (None, s1)) else Inr (Some (ip, []), s)
      | Some (name, rest) \<Rightarrow>
        bindE (ilock (Some ip) s) (\<lambda>s1.
        if i_type (ino s1 ip) \<noteq> T_DIR then bindE (iunlockput ip s1) (\<lambda>s2. Inr (None, s2))
        else if nameiparent \<and> rest = [] then
          bindE (iunlock (Some ip) s1) (\<lambda>s2. Inr (Some (ip, name), s2))
        else bindE (dirlookup ip name s1) (\<lambda>(r, s2).
          bindE (iunlockput ip s2) (\<lambda>s3.
          case r of None \<Rightarrow> Inr (None, s3)
          | Some (nxt, _) \<Rightarrow> namex_loop nameiparent rest nxt s3))))"
  by pat_completeness auto
termination
  by (relation "measure (\<lambda>(np, path, ip, s). length path)") (auto dest: skipelem_shorter)

declare namex_loop.simps [simp del]

definition namex :: "nat \<Rightarrow> 8 word list \<Rightarrow> bool \<Rightarrow> fsst \<Rightarrow> ferror + (nat \<times> 8 word list) option \<times> fsst" where
  "namex cwd path nameiparent s =
     bindE (if path \<noteq> [] \<and> hd path = 47 then iget 1 1 s else Inr (idup cwd s))
       (\<lambda>(ip, s1). namex_loop nameiparent path ip s1)"

definition namei :: "nat \<Rightarrow> 8 word list \<Rightarrow> fsst \<Rightarrow> ferror + nat option \<times> fsst" where
  "namei cwd path s = bindE (namex cwd path False s) (\<lambda>(r, s1). Inr (map_option fst r, s1))"

definition nameiparent :: "nat \<Rightarrow> 8 word list \<Rightarrow> fsst \<Rightarrow> ferror + (nat \<times> 8 word list) option \<times> fsst" where
  "nameiparent cwd path s = namex cwd path True s"

end
