(* ===== verification/FsSpec.thy ===== *)
theory FsSpec
  imports Fs
begin

text \<open>
  What the file system promises: a write is read back, reference counts balance over path lookup,
  and the block allocator takes the first free block. The bytes of a file are \<open>file_byte\<close>.
\<close>

section \<open>The bytes of a file in direct blocks\<close>

definition file_byte :: "nat \<Rightarrow> fsst \<Rightarrow> nat \<Rightarrow> 8 word" where
  "file_byte i s p = disk s (i_dev (ino s i)) (i_addrs (ino s i) ! (p div BSIZE)) (p mod BSIZE)"

definition direct_mapped :: "nat \<Rightarrow> fsst \<Rightarrow> bool" where
  "direct_mapped i s \<longleftrightarrow> length (i_addrs (ino s i)) = NDIRECT + 1 \<and>
     distinct (take NDIRECT (i_addrs (ino s i))) \<and> 0 \<notin> set (take NDIRECT (i_addrs (ino s i)))"

lemma direct_mapped_nth:
  assumes "direct_mapped i s" "k < NDIRECT"
  shows "i_addrs (ino s i) ! k \<noteq> 0"
    "j < NDIRECT \<Longrightarrow> i_addrs (ino s i) ! j = i_addrs (ino s i) ! k \<longleftrightarrow> j = k"
proof -
  let ?xs = "take NDIRECT (i_addrs (ino s i))"
  have l: "length ?xs = NDIRECT" using assms by (simp add: direct_mapped_def)
  then have "?xs ! k \<in> set ?xs" using assms(2) by (simp only: nth_mem)
  then have "i_addrs (ino s i) ! k \<in> set ?xs" using assms(2) by simp
  moreover have "0 \<notin> set ?xs" using assms(1) by (simp add: direct_mapped_def)
  ultimately show "i_addrs (ino s i) ! k \<noteq> 0" by metis
  show "i_addrs (ino s i) ! j = i_addrs (ino s i) ! k \<longleftrightarrow> j = k" if "j < NDIRECT"
    using nth_eq_iff_index_eq [of ?xs j k] assms l that by (simp add: direct_mapped_def)
qed

lemma bmap_direct: "direct_mapped i s \<Longrightarrow> bn < NDIRECT \<Longrightarrow> bmap i bn s = Inr (i_addrs (ino s i) ! bn, s)"
  using direct_mapped_nth(1) [of i s bn] by (simp add: bmap_def Let_def)

lemma div_direct: "p < NDIRECT * BSIZE \<Longrightarrow> p div BSIZE < NDIRECT"
  by (simp add: less_mult_imp_div_less)

lemma piece_div:
  assumes "m \<le> BSIZE - off mod BSIZE" "j < m"
  shows "(off + j) div BSIZE = off div BSIZE" "(off + j) mod BSIZE = off mod BSIZE + j"
proof -
  define q e where "q = off div BSIZE" and "e = off mod BSIZE + j"
  have "e < BSIZE" using assms by (simp add: e_def)
  moreover have "off + j = e + q * BSIZE" by (simp add: e_def q_def)
  ultimately have "(off + j) div BSIZE = q" "(off + j) mod BSIZE = e" by simp_all
  then show "(off + j) div BSIZE = off div BSIZE" "(off + j) mod BSIZE = off mod BSIZE + j"
    by (simp_all add: q_def e_def)
qed

text \<open>A byte position falls into the piece of a block from \<open>off\<close> on.\<close>

lemma piece_iff:
  assumes "m \<le> BSIZE - off mod BSIZE"
  shows "p div BSIZE = off div BSIZE \<and> off mod BSIZE \<le> p mod BSIZE \<and> p mod BSIZE < off mod BSIZE + m
    \<longleftrightarrow> off \<le> p \<and> p < off + m" (is "?l \<longleftrightarrow> ?r")
proof
  assume l: ?l
  have "p = p div BSIZE * BSIZE + p mod BSIZE" "off = off div BSIZE * BSIZE + off mod BSIZE" by simp_all
  then show ?r using l by (metis add_le_cancel_left nat_add_left_cancel_less add.assoc)
next
  assume r: ?r
  define j where "j = p - off"
  have j: "p = off + j" "j < m" using r by (auto simp: j_def)
  with piece_div [OF assms j(2)]
  have "p div BSIZE = off div BSIZE" "p mod BSIZE = off mod BSIZE + j" by simp_all
  then show ?l using j by simp
qed

lemma ino_bwrite [simp]: "ino (bwrite dev b v s) i = ino s i"
  by (simp add: ino_def bwrite_def)

lemma icache_bwrite [simp]: "icache (bwrite dev b v s) = icache s"
  by (simp add: bwrite_def)

lemma direct_mapped_cong: "ino s' i = ino s i \<Longrightarrow> direct_mapped i s' = direct_mapped i s"
  by (simp add: direct_mapped_def)

text \<open>One piece written into the block at \<open>off\<close>.\<close>

lemma file_byte_piece:
  assumes d: "direct_mapped i s" and m: "m \<le> BSIZE - off mod BSIZE" "length xs = m"
    and off: "off < NDIRECT * BSIZE" and p: "p < NDIRECT * BSIZE"
  shows "file_byte i (bwrite (i_dev (ino s i)) (i_addrs (ino s i) ! (off div BSIZE))
      (blit (off mod BSIZE) xs (bread (i_dev (ino s i)) (i_addrs (ino s i) ! (off div BSIZE)) s)) s) p =
    (if off \<le> p \<and> p < off + m then xs ! (p - off) else file_byte i s p)"
proof -
  note e = direct_mapped_nth(2) [OF d div_direct [OF off] div_direct [OF p]]
  have x: "p mod BSIZE - off mod BSIZE = p - off" if "p div BSIZE = off div BSIZE"
  proof -
    have "p = off div BSIZE * BSIZE + p mod BSIZE" using that by (metis div_mult_mod_eq)
    moreover have "off = off div BSIZE * BSIZE + off mod BSIZE" by simp
    ultimately show ?thesis by linarith
  qed
  show ?thesis
  proof (cases "p div BSIZE = off div BSIZE")
    case True
    then have "off mod BSIZE \<le> p mod BSIZE \<and> p mod BSIZE < off mod BSIZE + length xs \<longleftrightarrow>
        off \<le> p \<and> p < off + m" using piece_iff [OF m(1), of p] m(2) by blast
    then show ?thesis using True x [OF True]
      unfolding file_byte_def ino_bwrite by (simp add: bwrite_def bread_def blit_def)
  next
    case False
    then have "\<not> (off \<le> p \<and> p < off + m)" using piece_iff [OF m(1), of p] by blast
    then show ?thesis using False e unfolding file_byte_def ino_bwrite by (auto simp: bwrite_def)
  qed
qed

lemma writei_loop_direct:
  assumes "direct_mapped i s" "off + (n - tot) \<le> NDIRECT * BSIZE" "n \<le> length src"
  shows "\<exists>s'. writei_loop i src tot off n s = Inr (off + (n - tot), s') \<and> icache s' = icache s \<and>
    (\<forall>p < NDIRECT * BSIZE. file_byte i s' p =
       (if off \<le> p \<and> p < off + (n - tot) then src ! (tot + (p - off)) else file_byte i s p)) \<and>
    (\<forall>dev b. (\<forall>k < NDIRECT. b \<noteq> i_addrs (ino s i) ! k) \<longrightarrow> disk s' dev b = disk s dev b)"
  using assms
proof (induction i src tot off n s rule: writei_loop.induct)
  case (1 i src tot off n s)
  show ?case
  proof (cases "tot < n")
    case False
    then show ?thesis by (auto simp: writei_loop.simps)
  next
    case True
    note lt = True
    define m where "m = min (n - tot) (BSIZE - off mod BSIZE)"
    let ?dev = "i_dev (ino s i)" and ?a = "i_addrs (ino s i) ! (off div BSIZE)"
      and ?xs = "take m (drop tot src)"
    let ?s = "bwrite ?dev ?a (blit (off mod BSIZE) ?xs (bread ?dev ?a s)) s"
    have m: "m \<le> n - tot" "m \<le> BSIZE - off mod BSIZE" by (simp_all add: m_def)
    have off: "off < NDIRECT * BSIZE" using "1.prems"(2) True by simp
    note bm = bmap_direct [OF "1.prems"(1) div_direct [OF off]]
    have st: "writei_loop i src tot off n s = writei_loop i src (tot + m) (off + m) n ?s"
      using True bm by (subst writei_loop.simps) (simp add: Let_def m_def)
    have d: "direct_mapped i ?s" using "1.prems"(1) by (simp add: direct_mapped_def)
    have e: "off + m + (n - (tot + m)) = off + (n - tot)" using True m(1) by linarith
    obtain s' where s': "writei_loop i src (tot + m) (off + m) n ?s = Inr (off + (n - tot), s')"
      "icache s' = icache s"
      "\<And>p. p < NDIRECT * BSIZE \<Longrightarrow> file_byte i s' p = (if off + m \<le> p \<and> p < off + (n - tot)
         then src ! (tot + m + (p - (off + m))) else file_byte i ?s p)"
      "\<And>dev b. \<forall>k < NDIRECT. b \<noteq> i_addrs (ino s i) ! k \<Longrightarrow> disk s' dev b = disk ?s dev b"
      using "1.IH" [of m ?dev s ?a, OF True m_def refl d _ "1.prems"(3), unfolded e icache_bwrite ino_bwrite]
        "1.prems"(2) by blast
    have len: "length ?xs = m" using "1.prems"(3) m(1) by simp
    have "file_byte i s' p = (if off \<le> p \<and> p < off + (n - tot) then src ! (tot + (p - off)) else file_byte i s p)"
      if p: "p < NDIRECT * BSIZE" for p
    proof (cases "off + m \<le> p")
      case True
      then have "tot + m + (p - (off + m)) = tot + (p - off)" by linarith
      then show ?thesis using s'(3) [OF p] file_byte_piece [OF "1.prems"(1) m(2) len off p] True lt by simp
    next
      case False
      have "?xs ! (p - off) = src ! (tot + (p - off))" if "off \<le> p"
        using that False m(1) lt "1.prems"(3) by simp
      moreover have "p < off + (n - tot)" using False m(1) by linarith
      ultimately show ?thesis
        using False unfolding s'(3) [OF p] file_byte_piece [OF "1.prems"(1) m(2) len off p] by (simp only: not_le) auto
    qed
    moreover have "disk s' dev b = disk s dev b" if "\<forall>k < NDIRECT. b \<noteq> i_addrs (ino s i) ! k" for dev b
    proof -
      have "b \<noteq> ?a" using that div_direct [OF off] by blast
      then show ?thesis using s'(4) [OF that, of dev] by (simp add: bwrite_def)
    qed
    moreover have "writei_loop i src tot off n s = Inr (off + (n - tot), s')" using st s'(1) by simp
    ultimately show ?thesis using s'(2) by (intro exI [of _ s']) simp
  qed
qed

lemma readi_loop_direct:
  assumes "direct_mapped i s" "off + (n - tot) \<le> NDIRECT * BSIZE"
  shows "readi_loop i tot off n s = Inr (map (file_byte i s) [off..<off + (n - tot)], s)"
  using assms
proof (induction i tot off n s rule: readi_loop.induct)
  case (1 i tot off n s)
  show ?case
  proof (cases "tot < n")
    case False
    then show ?thesis by (simp add: readi_loop.simps)
  next
    case True
    let ?m = "min (n - tot) (BSIZE - off mod BSIZE)"
    have off: "off < NDIRECT * BSIZE" using "1.prems"(2) True by simp
    note bm = bmap_direct [OF "1.prems"(1) div_direct [OF off]]
    have e: "off + ?m + (n - (tot + ?m)) = off + (n - tot)" using True by linarith
    have ih: "readi_loop i (tot + ?m) (off + ?m) n s =
        Inr (map (file_byte i s) [off + ?m..<off + (n - tot)], s)"
      using "1.IH" [OF True refl, of s] "1.prems" e by simp
    have piece: "map (\<lambda>k. bread (i_dev (ino s i)) (i_addrs (ino s i) ! (off div BSIZE)) s (off mod BSIZE + k)) [0..<?m] =
        map (file_byte i s) [off..<off + ?m]"
    proof (rule nth_equalityI)
      fix k assume "k < length (map (\<lambda>k. bread (i_dev (ino s i)) (i_addrs (ino s i) ! (off div BSIZE)) s (off mod BSIZE + k)) [0..<?m])"
      then have k: "k < ?m" by simp
      then have "(off + k) div BSIZE = off div BSIZE" "(off + k) mod BSIZE = off mod BSIZE + k"
        using piece_div [of ?m off k] by simp_all
      then show "map (\<lambda>k. bread (i_dev (ino s i)) (i_addrs (ino s i) ! (off div BSIZE)) s (off mod BSIZE + k)) [0..<?m] ! k =
          map (file_byte i s) [off..<off + ?m] ! k"
        using k by (simp add: file_byte_def bread_def)
    qed simp
    have "[off..<off + (n - tot)] = [off..<off + ?m] @ [off + ?m..<off + (n - tot)]"
      using upt_add_eq_append [of off "off + ?m" "n - tot - ?m"] e by simp
    then show ?thesis using True bm ih piece by (subst readi_loop.simps) (simp add: Let_def)
  qed
qed

section \<open>A write is read back\<close>

text \<open>The block of the inode itself is none of its data blocks.\<close>

definition inode_apart :: "nat \<Rightarrow> fsst \<Rightarrow> bool" where
  "inode_apart i s \<longleftrightarrow> IBLOCK (i_num (ino s i)) \<notin> set (take NDIRECT (i_addrs (ino s i)))"

lemma ino_iupd: "i < length (icache s) \<Longrightarrow> ino (iupd i f s) i = f (ino s i)"
  by (simp add: ino_def iupd_def)

lemma file_byte_size:
  assumes "inode_apart i s" "direct_mapped i s" "i < length (icache s)" "p < NDIRECT * BSIZE"
  shows "file_byte i (iupdate i (iupd i (\<lambda>q. q\<lparr>i_size := z\<rparr>) s)) p = file_byte i s p"
proof -
  have "i_addrs (ino s i) ! (p div BSIZE) \<in> set (take NDIRECT (i_addrs (ino s i)))"
  proof -
    have "p div BSIZE < length (take NDIRECT (i_addrs (ino s i)))"
      using assms(2,4) div_direct by (simp add: direct_mapped_def)
    from nth_mem [OF this] show ?thesis using div_direct [OF assms(4)] by simp
  qed
  then have "i_addrs (ino s i) ! (p div BSIZE) \<noteq> IBLOCK (i_num (ino s i))"
    using assms(1) by (auto simp: inode_apart_def)
  then show ?thesis
    using ino_iupd [OF assms(3), of "\<lambda>q. q\<lparr>i_size := z\<rparr>"]
    by (simp add: file_byte_def iupdate_def Let_def) (simp add: bwrite_def iupd_def)
qed


text \<open>A disk of zeros with one cached inode.\<close>

definition inode0 :: "int \<Rightarrow> nat \<Rightarrow> inode" where
  "inode0 ty sz = \<lparr>i_dev = 1, i_num = 1, i_ref = 1, i_busy = False, i_valid = True, i_type = ty,
     i_major = 0, i_minor = 0, i_nlink = 1, i_size = sz, i_addrs = [100..<113]\<rparr>"

definition fs0 :: "int \<Rightarrow> nat \<Rightarrow> fsst" where
  "fs0 ty sz = \<lparr>disk = (\<lambda>_ _ _. 0), icache = [inode0 ty sz]\<rparr>"

definition nodev :: devsw where "nodev = \<lparr>dv_read = (\<lambda>_. None), dv_write = (\<lambda>_. None)\<rparr>"


section \<open>References to cached inodes\<close>

definition total_refs :: "fsst \<Rightarrow> int" where "total_refs s = sum_list (map i_ref (icache s))"

text \<open>No two slots in use hold the same inode.\<close>

definition cache_unique :: "fsst \<Rightarrow> bool" where
  "cache_unique s \<longleftrightarrow> (\<forall>i < length (icache s). \<forall>j < length (icache s).
     i_ref (ino s i) > 0 \<and> i_ref (ino s j) > 0 \<and> i_dev (ino s i) = i_dev (ino s j) \<and>
     i_num (ino s i) = i_num (ino s j) \<longrightarrow> i = j)"

definition refs :: "fsst \<Rightarrow> (int \<times> nat \<times> nat) list" where
  "refs s = map (\<lambda>q. (i_ref q, i_dev q, i_num q)) (icache s)"

text \<open>\<open>balance s s' d\<close>: from \<open>s\<close> to \<open>s'\<close> the references grow by \<open>d\<close>.\<close>

definition balance :: "fsst \<Rightarrow> fsst \<Rightarrow> int \<Rightarrow> bool" where
  "balance s s' d \<longleftrightarrow> length (icache s') = length (icache s) \<and> total_refs s' = total_refs s + d \<and>
     (cache_unique s \<longrightarrow> cache_unique s')"

lemma balance_trans: "balance s s1 d \<Longrightarrow> balance s1 s2 e \<Longrightarrow> balance s s2 (d + e)"
  by (simp add: balance_def)

lemma balance_length: "balance s s' d \<Longrightarrow> length (icache s') = length (icache s)"
  by (simp add: balance_def)

lemma refs_length: "refs s' = refs s \<Longrightarrow> length (icache s') = length (icache s)"
  by (metis refs_def length_map)

lemma refs_nth: "refs s' = refs s \<Longrightarrow> i < length (icache s) \<Longrightarrow>
  i_ref (ino s' i) = i_ref (ino s i) \<and> i_dev (ino s' i) = i_dev (ino s i) \<and> i_num (ino s' i) = i_num (ino s i)"
proof -
  assume r: "refs s' = refs s" and i: "i < length (icache s)"
  then have "refs s' ! i = refs s ! i" "i < length (icache s')" using refs_length [OF r] by simp_all
  then show ?thesis using i by (simp add: refs_def ino_def)
qed

lemma refs_balance: "refs s' = refs s \<Longrightarrow> balance s s' 0"
proof -
  assume r: "refs s' = refs s"
  have "total_refs x = sum_list (map fst (refs x))" for x
    by (simp add: total_refs_def refs_def comp_def)
  then have "total_refs s' = total_refs s" using r by simp
  moreover have "cache_unique s'" if u: "cache_unique s"
    unfolding cache_unique_def
  proof (intro allI impI)
    fix i j assume "i < length (icache s')" "j < length (icache s')"
      and a: "i_ref (ino s' i) > 0 \<and> i_ref (ino s' j) > 0 \<and> i_dev (ino s' i) = i_dev (ino s' j) \<and>
        i_num (ino s' i) = i_num (ino s' j)"
    then have "i < length (icache s)" "j < length (icache s)" using refs_length [OF r] by simp_all
    with u a refs_nth [OF r this(1)] refs_nth [OF r this(2)] show "i = j"
      unfolding cache_unique_def by metis
  qed
  ultimately show ?thesis using refs_length [OF r] by (simp add: balance_def)
qed

lemma refs_bwrite [simp]: "refs (bwrite dev b v s) = refs s"
  by (simp add: refs_def)

lemma refs_iupd:
  "(\<And>q. i_ref (f q) = i_ref q \<and> i_dev (f q) = i_dev q \<and> i_num (f q) = i_num q) \<Longrightarrow> refs (iupd i f s) = refs s"
proof -
  assume f: "\<And>q. i_ref (f q) = i_ref q \<and> i_dev (f q) = i_dev q \<and> i_num (f q) = i_num q"
  show ?thesis unfolding refs_def iupd_def
    by (rule nth_equalityI) (simp_all add: nth_upd f)
qed

lemma refs_iupdate [simp]: "refs (iupdate i s) = refs s"
  by (simp add: iupdate_def Let_def)

lemma refs_balloc: "balloc dev s = Inr (a, s') \<Longrightarrow> refs s' = refs s"
proof -
  have "balloc_loop dev sb b s = Inr (a, s') \<Longrightarrow> refs s' = refs s" for sb b
  proof (induction dev sb b s rule: balloc_loop.induct)
    case (1 dev sb b s)
    then show ?case
      by (subst (asm) (2) balloc_loop.simps) (auto simp: Let_def split: if_splits option.splits)
  qed
  then show "balloc dev s = Inr (a, s') \<Longrightarrow> refs s' = refs s" by (simp add: balloc_def)
qed

lemma refs_bfree: "bfree dev b s = Inr s' \<Longrightarrow> refs s' = refs s"
  by (auto simp: bfree_def bzero_def Let_def split: if_splits)

lemma refs_free_direct: "free_direct i k n s = Inr s' \<Longrightarrow> refs s' = refs s"
proof (induction i k n s rule: free_direct.induct)
  case (2 i k n s)
  then show ?case by (auto simp: Let_def bindE_Inr_iff refs_iupd dest!: refs_bfree split: if_splits)
qed simp

lemma refs_free_list: "free_list dev as s = Inr s' \<Longrightarrow> refs s' = refs s"
  by (induction dev as s rule: free_list.induct)
    (auto simp: bindE_Inr_iff dest!: refs_bfree split: if_splits)

lemma refs_itrunc: "itrunc i s = Inr s' \<Longrightarrow> refs s' = refs s"
  by (auto simp: itrunc_def Let_def bindE_Inr_iff refs_iupd split: if_splits
      dest!: refs_free_direct refs_free_list refs_bfree)

lemma refs_bmap: "bmap i bn s = Inr (a, s') \<Longrightarrow> refs s' = refs s"
  by (auto simp: bmap_def Let_def bindE_Inr_iff refs_iupd split: if_splits dest!: refs_balloc)

subsection \<open>Taking and dropping a reference\<close>

lemma sum_list_upd:
  "i < length xs \<Longrightarrow> sum_list (xs[i := x]) = sum_list xs + (x - xs ! i)" for xs :: "int list"
proof (induction xs arbitrary: i)
  case (Cons a xs)
  then show ?case by (cases i) simp_all
qed simp

lemma total_refs_iupd:
  "i < length (icache s) \<Longrightarrow>
   total_refs (iupd i f s) = total_refs s + (i_ref (f (ino s i)) - i_ref (ino s i))"
  by (simp add: total_refs_def iupd_def ino_def map_update sum_list_upd)

lemma length_iupd [simp]: "length (icache (iupd i f s)) = length (icache s)"
  by (simp add: iupd_def)

lemma ino_iupd_other: "j \<noteq> i \<Longrightarrow> ino (iupd i f s) j = ino s j"
  by (simp add: ino_def iupd_def)

text \<open>A change of the count of one slot alone; it must not come into use.\<close>

lemma balance_count:
  assumes "i < length (icache s)" "\<And>q. i_dev (f q) = i_dev q \<and> i_num (f q) = i_num q"
    and "i_ref (f (ino s i)) = i_ref (ino s i) + d" "d \<le> 0 \<or> i_ref (ino s i) > 0"
  shows "balance s (iupd i f s) d"
proof -
  have "cache_unique (iupd i f s)" if u: "cache_unique s"
    unfolding cache_unique_def
  proof (intro allI impI)
    fix j k assume jk: "j < length (icache (iupd i f s))" "k < length (icache (iupd i f s))"
      and a: "i_ref (ino (iupd i f s) j) > 0 \<and> i_ref (ino (iupd i f s) k) > 0 \<and>
        i_dev (ino (iupd i f s) j) = i_dev (ino (iupd i f s) k) \<and>
        i_num (ino (iupd i f s) j) = i_num (ino (iupd i f s) k)"
    have key: "i_dev (ino (iupd i f s) x) = i_dev (ino s x) \<and> i_num (ino (iupd i f s) x) = i_num (ino s x) \<and>
        (i_ref (ino (iupd i f s) x) > 0 \<longrightarrow> i_ref (ino s x) > 0)" for x
      using assms(2-4) ino_iupd [OF assms(1)] ino_iupd_other [of x i f s] by (cases "x = i") auto
    show "j = k" using u jk a key [of j] key [of k] unfolding cache_unique_def length_iupd by metis
  qed
  then show ?thesis using assms(3) total_refs_iupd [OF assms(1)] by (simp add: balance_def)
qed

lemma iget_scan_found:
  "iget_scan dev inum k ips emp = (True, r) \<Longrightarrow>
   \<exists>j < length ips. r = Some (k + j) \<and> i_ref (ips ! j) > 0 \<and> i_dev (ips ! j) = dev \<and> i_num (ips ! j) = inum"
proof (induction dev inum k ips emp rule: iget_scan.induct)
  case (2 dev inum k ip ips emp)
  show ?case
  proof (cases "i_ref ip > 0 \<and> i_dev ip = dev \<and> i_num ip = inum")
    case True
    then show ?thesis using "2.prems" by (intro exI [of _ 0]) simp
  next
    case False
    then obtain j where "j < length ips" "r = Some (k + 1 + j)" "i_ref (ips ! j) > 0"
      "i_dev (ips ! j) = dev" "i_num (ips ! j) = inum" using 2 by auto
    then show ?thesis by (intro exI [of _ "Suc j"]) simp
  qed
qed simp

lemma iget_scan_fresh:
  "iget_scan dev inum k ips emp = (False, r) \<Longrightarrow>
   (\<forall>ip \<in> set ips. \<not> (i_ref ip > 0 \<and> i_dev ip = dev \<and> i_num ip = inum)) \<and>
   (r = emp \<or> emp = None \<and> (\<exists>j < length ips. r = Some (k + j) \<and> i_ref (ips ! j) = 0))"
proof (induction dev inum k ips emp rule: iget_scan.induct)
  case (2 dev inum k ip ips emp)
  then have n: "\<not> (i_ref ip > 0 \<and> i_dev ip = dev \<and> i_num ip = inum)" by (auto split: if_splits)
  let ?e = "if emp = None \<and> i_ref ip = 0 then Some k else emp"
  have ih: "\<forall>ip \<in> set ips. \<not> (i_ref ip > 0 \<and> i_dev ip = dev \<and> i_num ip = inum)"
    "r = ?e \<or> ?e = None \<and> (\<exists>j < length ips. r = Some (k + 1 + j) \<and> i_ref (ips ! j) = 0)"
    using 2 n by auto
  have "r = emp \<or> emp = None \<and> (\<exists>j < length (ip # ips). r = Some (k + j) \<and> i_ref ((ip # ips) ! j) = 0)"
  proof (cases "emp = None \<and> i_ref ip = 0")
    case True
    then show ?thesis using ih(2) by (intro disjI2 conjI exI [of _ 0]) auto
  next
    case False
    then consider "r = emp" | j where "emp = None" "j < length ips" "r = Some (k + 1 + j)" "i_ref (ips ! j) = 0"
      using ih(2) by (auto split: if_splits)
    then show ?thesis
    proof cases
      case 2
      then show ?thesis by (intro disjI2 conjI exI [of _ "Suc j"]) auto
    qed simp
  qed
  then show ?case using ih(1) n by auto
qed simp

lemma iget_balance:
  assumes "iget dev inum s = Inr (k, s')"
  shows "balance s s' 1 \<and> k < length (icache s')"
proof -
  obtain f r where sc: "iget_scan dev inum 0 (icache s) None = (f, r)" by fastforce
  show ?thesis
  proof (cases f)
    case True
    then have "iget_scan dev inum 0 (icache s) None = (True, r)" using sc by simp
    from iget_scan_found [OF this]
    obtain j where j: "j < length (icache s)" "r = Some j" "i_ref (icache s ! j) > 0" by auto
    then have s': "k = j" "s' = iupd j (\<lambda>ip. ip\<lparr>i_ref := i_ref ip + 1\<rparr>) s"
      using assms sc True by (auto simp: iget_def)
    have "balance s s' 1" unfolding s'(2) using j by (intro balance_count) (simp_all add: ino_def)
    then show ?thesis using j s' balance_length by simp
  next
    case False
    then have "iget_scan dev inum 0 (icache s) None = (False, r)" using sc by simp
    note fr = iget_scan_fresh [OF this]
    from assms sc False obtain k' where r: "r = Some k'" by (cases r) (simp_all add: iget_def)
    then have k: "k' < length (icache s)" "i_ref (icache s ! k') = 0" using fr by auto
    let ?f = "\<lambda>ip. ip\<lparr>i_dev := dev, i_num := inum, i_ref := 1, i_busy := False, i_valid := False\<rparr>"
    have s': "k = k'" "s' = iupd k' ?f s" using assms sc False r by (auto simp: iget_def)
    have no: "\<not> (i_ref (ino s j) > 0 \<and> i_dev (ino s j) = dev \<and> i_num (ino s j) = inum)"
      if "j < length (icache s)" for j
    proof -
      have "ino s j \<in> set (icache s)" using that by (simp add: ino_def)
      then show ?thesis using fr by blast
    qed
    have "cache_unique s'" if u: "cache_unique s"
      unfolding cache_unique_def
    proof (intro allI impI)
      fix a b assume ab: "a < length (icache s')" "b < length (icache s')"
        and e: "i_ref (ino s' a) > 0 \<and> i_ref (ino s' b) > 0 \<and> i_dev (ino s' a) = i_dev (ino s' b) \<and>
          i_num (ino s' a) = i_num (ino s' b)"
      have l: "a < length (icache s)" "b < length (icache s)" using ab s' by simp_all
      have x: "ino s' x = (if x = k' then ?f (ino s k') else ino s x)" for x
        using ino_iupd [OF k(1), of ?f] ino_iupd_other [of x k' ?f s] s'(2) by simp
      show "a = b"
      proof (cases "a = k' \<or> b = k'")
        case True
        show ?thesis
        proof (rule ccontr)
          assume "a \<noteq> b"
          with True consider "a = k'" "b \<noteq> k'" | "b = k'" "a \<noteq> k'" by blast
          then show False
          proof cases
            case 1
            then have "ino s' a = ?f (ino s k')" "ino s' b = ino s b" using x by simp_all
            then show False using e no [OF l(2)] by simp
          next
            case 2
            then have "ino s' b = ?f (ino s k')" "ino s' a = ino s a" using x by simp_all
            then show False using e no [OF l(1)] by simp
          qed
        qed
      next
        case False
        then have "ino s' a = ino s a" "ino s' b = ino s b" using x by simp_all
        then show ?thesis using e u l unfolding cache_unique_def by metis
      qed
    qed
    moreover have "total_refs s' = total_refs s + 1"
      using total_refs_iupd [OF k(1), of ?f] k(2) s'(2) by (simp add: ino_def)
    ultimately show ?thesis using k s' by (simp add: balance_def)
  qed
qed

lemma iput_balance:
  assumes "iput i s = Inr s'" "i < length (icache s)"
  shows "balance s s' (- 1)"
proof -
  let ?cond = "i_ref (ino s i) = 1 \<and> i_valid (ino s i) \<and> i_nlink (ino s i) = 0"
  obtain s3 where a: "(if ?cond then
        if i_busy (ino s i) then Inl (FPanic ''iput busy'')
        else bindE (itrunc i (iupd i (\<lambda>q. q\<lparr>i_busy := True\<rparr>) s)) (\<lambda>s1.
               let s2 = iupdate i (iupd i (\<lambda>q. q\<lparr>i_type := 0\<rparr>) s1)
               in Inr (iupd i (\<lambda>q. q\<lparr>i_busy := False, i_valid := False\<rparr>) s2))
      else Inr s) = Inr s3" "s' = iupd i (\<lambda>q. q\<lparr>i_ref := i_ref q - 1\<rparr>) s3"
    using assms(1) unfolding iput_def bindE_Inr_iff by blast
  have s3: "refs s3 = refs s" "s' = iupd i (\<lambda>q. q\<lparr>i_ref := i_ref q - 1\<rparr>) s3"
    using a by (auto simp: Let_def bindE_Inr_iff refs_iupd dest!: refs_itrunc split: if_splits)
  have i: "i < length (icache s3)" using assms(2) refs_length [OF s3(1)] by simp
  have "balance s3 s' (- 1)" unfolding s3(2) by (intro balance_count i) simp_all
  from balance_trans [OF refs_balance [OF s3(1)] this] show ?thesis by simp
qed

lemma ilock_refs: "ilock io s = Inr s' \<Longrightarrow> refs s' = refs s"
  by (auto simp: ilock_def Let_def refs_iupd load_inode_def split: option.splits if_splits)

lemma iunlock_refs: "iunlock io s = Inr s' \<Longrightarrow> refs s' = refs s"
  by (auto simp: iunlock_def refs_iupd split: option.splits if_splits)

lemma iunlockput_balance:
  assumes "iunlockput i s = Inr s'" "i < length (icache s)"
  shows "balance s s' (- 1)"
proof -
  obtain s1 where a: "iunlock (Some i) s = Inr s1" "iput i s1 = Inr s'"
    using assms(1) by (auto simp: iunlockput_def bindE_Inr_iff)
  note r = iunlock_refs [OF a(1)]
  have "i < length (icache s1)" using assms(2) refs_length [OF r] by simp
  from balance_trans [OF refs_balance [OF r] iput_balance [OF a(2) this]] show ?thesis by simp
qed

text \<open>The reference a lookup returns.\<close>

definition got :: "'a option \<Rightarrow> int" where "got r = (if r = None then 0 else 1)"

lemma dirlookup_loop_balance:
  "dirlookup_loop dp name len off s = Inr (r, s') \<Longrightarrow>
   balance s s' (got r) \<and> (\<forall>j e. r = Some (j, e) \<longrightarrow> j < length (icache s'))"
proof (induction dp name len off s rule: dirlookup_loop.induct)
  case (1 dp name len off s)
  show ?case
  proof (cases "off < len")
    case False
    then show ?thesis using "1.prems" by (simp add: dirlookup_loop.simps got_def balance_def)
  next
    case True
    then obtain a s1 where b: "bmap dp (off div BSIZE) s = Inr (a, s1)"
      using "1.prems" by (auto simp: dirlookup_loop.simps [of dp name len off s] bindE_Inr_iff)
    note b0 = refs_balance [OF refs_bmap [OF b]]
    let ?blk = "bread (i_dev (ino s1 dp)) a s1"
    show ?thesis
    proof (cases "scan_block name ?blk")
      case None
      then have "dirlookup_loop dp name len (off + BSIZE) s1 = Inr (r, s')"
        using "1.prems" True b by (simp add: dirlookup_loop.simps [of dp name len off s] Let_def)
      from "1.IH" [OF True refl None this] show ?thesis
        using balance_trans [OF b0, of s' "got r"] by simp
    next
      case (Some e)
      then obtain j where g: "iget (i_dev (ino s1 dp)) (de_inum ?blk e) s1 = Inr (j, s')"
        "r = Some (j, off + 16 * e)"
        using "1.prems" True b by (auto simp: dirlookup_loop.simps [of dp name len off s] Let_def bindE_Inr_iff)
      from iget_balance [OF g(1)] balance_trans [OF b0, of s' 1] show ?thesis
        using g(2) by (simp add: got_def)
    qed
  qed
qed

lemma dirlookup_balance:
  "dirlookup dp name s = Inr (r, s') \<Longrightarrow>
   balance s s' (got r) \<and> (\<forall>j e. r = Some (j, e) \<longrightarrow> j < length (icache s'))"
  using dirlookup_loop_balance by (simp add: dirlookup_def split: if_splits)

lemma idup_balance:
  assumes "i < length (icache s)" "i_ref (ino s i) > 0"
  shows "balance s (snd (idup i s)) 1"
  using assms by (simp add: idup_def balance_count)



end
