(* ===== verification/FsBlocks.thy ===== *)
theory FsBlocks
  imports FsSpec
begin

text \<open>
  The block bitmap of the file system: what \<open>balloc\<close> and \<open>bfree\<close> do to the set of blocks in use.
\<close>

definition block_used :: "nat \<Rightarrow> superblock \<Rightarrow> fsst \<Rightarrow> nat \<Rightarrow> bool" where
  "block_used dev sb s x = bit_of (bread dev (BBLOCK x (sb_ninodes sb)) s) (x mod BPB)"

lemma BPB_pos [simp]: "0 < BPB" by (simp add: BPB_def BSIZE_def)

lemma bit_of_with_bit: "bit_of (with_bit v bi blk) bj = (if bj = bi then v else bit_of blk bj)"
proof -
  have e: "bj div 8 = bi div 8 \<and> bj mod 8 = bi mod 8 \<longleftrightarrow> bj = bi" by (metis div_mult_mod_eq)
  have "bi mod 8 < LENGTH(8)" by simp
  then show ?thesis using e
    by (cases "bj div 8 = bi div 8")
      (auto simp: bit_of_def with_bit_def bit_set_bit_iff bit_unset_bit_iff)
qed

lemma BBLOCK_eq: "BBLOCK x n = BBLOCK y n \<longleftrightarrow> x div BPB = y div BPB"
  by (simp add: BBLOCK_def)

text \<open>Writing one bit of the bitmap.\<close>

lemma block_used_write:
  "block_used dev sb (bwrite dev (BBLOCK b (sb_ninodes sb))
      (with_bit v (b mod BPB) (bread dev (BBLOCK b (sb_ninodes sb)) s)) s) x =
    (if x = b then v else block_used dev sb s x)"
proof (cases "x div BPB = b div BPB")
  case True
  then have "x mod BPB = b mod BPB \<longleftrightarrow> x = b" by (metis div_mult_mod_eq)
  moreover have "BBLOCK x (sb_ninodes sb) = BBLOCK b (sb_ninodes sb)" using True by (simp add: BBLOCK_eq)
  ultimately show ?thesis by (simp add: block_used_def bread_def bwrite_def bit_of_with_bit)
next
  case False
  then have "BBLOCK x (sb_ninodes sb) \<noteq> BBLOCK b (sb_ninodes sb)" "x \<noteq> b" by (auto simp: BBLOCK_eq)
  then show ?thesis by (simp add: block_used_def bread_def bwrite_def)
qed

lemma first_clear_Some:
  "first_clear blk = Some bi \<longleftrightarrow> bi < BPB \<and> \<not> bit_of blk bi \<and> (\<forall>j < bi. bit_of blk j)"
  by (auto simp: first_clear_def find_Some_iff)

lemma first_clear_None: "first_clear blk = None \<longleftrightarrow> (\<forall>j < BPB. bit_of blk j)"
  by (auto simp: first_clear_def find_None_iff)

text \<open>The bits one round looks at.\<close>

lemma block_used_round:
  assumes "BPB dvd b" "j < BPB"
  shows "block_used dev sb s (b + j) = bit_of (bread dev (BBLOCK b (sb_ninodes sb)) s) j"
proof -
  have "(b + j) div BPB = b div BPB" "(b + j) mod BPB = j" using assms by (auto elim!: dvdE)
  moreover then have "BBLOCK (b + j) (sb_ninodes sb) = BBLOCK b (sb_ninodes sb)" by (simp add: BBLOCK_eq)
  ultimately show ?thesis by (simp add: block_used_def)
qed

lemma balloc_loop_Inr:
  "balloc_loop dev sb b s = Inr (a, s') \<Longrightarrow> BPB dvd b \<Longrightarrow>
   b \<le> a \<and> \<not> block_used dev sb s a \<and> (\<forall>x. b \<le> x \<and> x < a \<longrightarrow> block_used dev sb s x) \<and>
   a div BPB \<le> sb_size sb div BPB \<and> s' = bwrite dev (BBLOCK a (sb_ninodes sb))
     (with_bit True (a mod BPB) (bread dev (BBLOCK a (sb_ninodes sb)) s)) s"
proof (induction dev sb b s rule: balloc_loop.induct)
  case (1 dev sb b s)
  let ?blk = "bread dev (BBLOCK b (sb_ninodes sb)) s"
  note r = block_used_round [OF "1.prems"(2), of _ dev sb s]
  have lt: "b < sb_size sb" using "1.prems"(1) by (subst (asm) balloc_loop.simps) (simp split: if_splits)
  show ?case
  proof (cases "first_clear ?blk")
    case None
    then have "balloc_loop dev sb (b + BPB) s = Inr (a, s')"
      using "1.prems"(1) lt by (subst (asm) balloc_loop.simps) (simp add: Let_def)
    then have ih: "b + BPB \<le> a \<and> \<not> block_used dev sb s a \<and>
        (\<forall>x. b + BPB \<le> x \<and> x < a \<longrightarrow> block_used dev sb s x) \<and>
        a div BPB \<le> sb_size sb div BPB \<and> s' = bwrite dev (BBLOCK a (sb_ninodes sb))
          (with_bit True (a mod BPB) (bread dev (BBLOCK a (sb_ninodes sb)) s)) s"
      using "1.IH" [OF lt refl None] "1.prems"(2) by simp
    have "block_used dev sb s x" if "b \<le> x" "x < b + BPB" for x
    proof -
      have "x - b < BPB" using that by simp
      then show ?thesis using r [of "x - b"] None that by (simp add: first_clear_None)
    qed
    then show ?thesis using ih by (metis add_leD1 not_le)
  next
    case (Some bi)
    then have bi: "bi < BPB" "\<not> bit_of ?blk bi" "\<forall>j < bi. bit_of ?blk j" by (simp_all add: first_clear_Some)
    have a: "a = b + bi" "s' = bwrite dev (BBLOCK b (sb_ninodes sb)) (with_bit True bi ?blk) s"
      using "1.prems"(1) lt Some by (subst (asm) balloc_loop.simps, simp add: Let_def)+
    have "(b + bi) div BPB = b div BPB" "(b + bi) mod BPB = bi"
      using "1.prems"(2) bi(1) by (auto elim!: dvdE)
    then have "BBLOCK a (sb_ninodes sb) = BBLOCK b (sb_ninodes sb)" "a mod BPB = bi"
      using a(1) by (simp_all add: BBLOCK_eq)
    moreover have "block_used dev sb s x" if "b \<le> x" "x < a" for x
    proof -
      have "x - b < bi" "x - b < BPB" using that a(1) bi(1) by simp_all
      then show ?thesis using r [of "x - b"] bi(3) that by simp
    qed
    moreover have "\<not> block_used dev sb s a" using r [OF bi(1)] a(1) bi(2) by simp
    moreover have "a div BPB \<le> sb_size sb div BPB"
      using \<open>(b + bi) div BPB = b div BPB\<close> a(1) lt by (simp add: div_le_mono)
    ultimately show ?thesis using a by simp
  qed
qed

lemma readsb_other: "b \<noteq> 1 \<Longrightarrow> readsb dev (bwrite dev b v s) = readsb dev s"
  by (simp add: readsb_def bread_def bwrite_def)

lemma block_used_other:
  "b \<noteq> BBLOCK x (sb_ninodes sb) \<Longrightarrow> block_used dev sb (bwrite dev b v s) x = block_used dev sb s x"
  by (simp add: block_used_def bread_def bwrite_def)

lemma BBLOCK_mono: "x div BPB \<le> y div BPB \<Longrightarrow> BBLOCK x n \<le> BBLOCK y n"
  by (simp add: BBLOCK_def)

text \<open>C20: \<open>balloc\<close> returns the lowest free block and marks exactly that one; freeing it again, when it
  is a data block, zeroes it and brings the bitmap back to what it was. The block lies in the range
  the last bitmap block covers, which is not always the range of the device.\<close>

theorem balloc_bfree:
  assumes a: "balloc dev s = Inr (b, s')"
    and data: "BBLOCK (sb_size (readsb dev s)) (sb_ninodes (readsb dev s)) < b"
  shows "\<not> block_used dev (readsb dev s) s b \<and> (\<forall>x < b. block_used dev (readsb dev s) s x) \<and>
    (\<forall>x. block_used dev (readsb dev s) s' x \<longleftrightarrow> block_used dev (readsb dev s) s x \<or> x = b) \<and>
    b div BPB \<le> sb_size (readsb dev s) div BPB \<and>
    (\<exists>s''. bfree dev b s' = Inr s'' \<and> (\<forall>i < BSIZE. bread dev b s'' i = 0) \<and>
      (\<forall>x \<le> sb_size (readsb dev s). block_used dev (readsb dev s) s'' x = block_used dev (readsb dev s) s x))"
proof -
  define sb where "sb = readsb dev s"
  let ?n = "sb_ninodes sb"
  have l: "\<not> block_used dev sb s b" "\<forall>x < b. block_used dev sb s x" "b div BPB \<le> sb_size sb div BPB"
    "s' = bwrite dev (BBLOCK b ?n) (with_bit True (b mod BPB) (bread dev (BBLOCK b ?n) s)) s"
    using balloc_loop_Inr [of dev sb 0 s b s'] a by (auto simp: balloc_def sb_def)
  have u: "block_used dev sb s' x \<longleftrightarrow> block_used dev sb s x \<or> x = b" for x
    unfolding l(4) block_used_write by (auto simp: l(1))
  have bb: "BBLOCK x ?n \<noteq> b" if "x \<le> sb_size sb \<or> x = b" for x
    using that data l(3) BBLOCK_mono [of x "sb_size sb" ?n] div_le_mono [of x "sb_size sb" BPB]
    by (auto simp: sb_def)
  have one: "b \<noteq> 1" "BBLOCK b ?n \<noteq> 1" using data by (auto simp: BBLOCK_def)
  define z where "z = bzero dev b s'"
  have z: "z = bwrite dev b (\<lambda>i. if i < BSIZE then 0 else bread dev b s' i) s'"
    by (simp add: z_def bzero_def)
  have sbz: "readsb dev z = sb" unfolding z using readsb_other one l(4) by (simp add: sb_def)
  have uz: "block_used dev sb z x = block_used dev sb s' x" if "x \<le> sb_size sb \<or> x = b" for x
    unfolding z using bb [OF that] by (intro block_used_other) auto
  have bit: "bit_of (bread dev (BBLOCK b ?n) z) (b mod BPB)"
    using uz [of b] u [of b] by (simp add: block_used_def)
  let ?s = "bwrite dev (BBLOCK b ?n) (with_bit False (b mod BPB) (bread dev (BBLOCK b ?n) z)) z"
  have f: "bfree dev b s' = Inr ?s"
    using bit sbz by (simp add: bfree_def Let_def z_def [symmetric])
  have "block_used dev sb ?s x = block_used dev sb s x" if "x \<le> sb_size sb" for x
    unfolding block_used_write using uz [of x] u [of x] that l(1) by auto
  moreover have "bread dev b ?s i = 0" if "i < BSIZE" for i
    using bb [of b] that by (simp add: bread_def bwrite_def z)
  ultimately show ?thesis using l u f unfolding sb_def by blast
qed

text \<open>A device of four blocks, all in use: the block returned is past its end.\<close>

definition disk4 :: fsst where
  "disk4 = \<lparr>disk = (\<lambda>dev b i. if b = 1 \<and> i = 0 then 4 else if b = 3 \<and> i = 0 then 0x0F else 0), icache = []\<rparr>"

lemma disk4_sb: "readsb 1 disk4 = \<lparr>sb_size = 4, sb_nblocks = 0, sb_ninodes = 0\<rparr>"
  by (simp add: readsb_def disk4_def bread_def get32_def get16_def Let_def)

lemma disk4_balloc: "\<exists>s'. balloc 1 disk4 = Inr (4, s')"
proof -
  have b: "bread 1 (BBLOCK 0 0) disk4 = (\<lambda>i. if i = 0 then 0x0F else 0)"
    by (simp add: disk4_def bread_def BBLOCK_def fun_eq_iff)
  have c: "first_clear (bread 1 (BBLOCK 0 0) disk4) = Some 4"
  proof -
    have "bit (0x0F :: 8 word) 0" "bit (0x0F :: 8 word) 1" "bit (0x0F :: 8 word) 2" "bit (0x0F :: 8 word) 3"
      "\<not> bit (0x0F :: 8 word) 4" by simp_all
    then have low: "bit (0x0F :: 8 word) j" if "j < 4" for j
      using that by (auto simp: less_Suc_eq numeral_eq_Suc)
    have "bit_of (\<lambda>i. if i = 0 then 0x0F else 0) j" if "j < 4" for j
      using low [OF that] that by (simp add: bit_of_def)
    moreover have "\<not> bit_of (\<lambda>i. if i = 0 then 0x0F else 0) 4" by (simp add: bit_of_def)
    ultimately show ?thesis unfolding first_clear_Some b by (simp add: BPB_def BSIZE_def)
  qed
  then show ?thesis using disk4_sb
    by (simp add: balloc_def balloc_loop.simps [of _ _ 0] Let_def)
qed

theorem balloc_bfree_witness:
  "\<exists>s' s''. balloc 1 disk4 = Inr (4, s') \<and> sb_size (readsb 1 disk4) = 4 \<and> bfree 1 4 s' = Inr s''"
proof -
  obtain s' where a: "balloc 1 disk4 = Inr (4, s')" using disk4_balloc by blast
  have "BBLOCK (sb_size (readsb 1 disk4)) (sb_ninodes (readsb 1 disk4)) < 4"
    unfolding disk4_sb by (simp add: BBLOCK_def BPB_def BSIZE_def)
  from balloc_bfree [OF a this] show ?thesis using a disk4_sb by auto
qed

end
