(* ===== verification/Shell.thy ===== *)
theory Shell
  imports Prelude
begin

text \<open>
  The shell p4/xv6/user/sh.c: its parser, the commands it builds and how it runs them. A command
  line is the list \<open>t\<close> of the characters before the NUL, so the code's \<open>es\<close> is \<open>length t\<close> and
  reading there gives the NUL. A pointer into the line is an index; a token is its start and end.
  \<open>panic\<close> is the error \<open>Syntax\<close>; \<open>malloc\<close> is taken to succeed, as the code takes it.
  The mutually recursive parser functions carry fuel; \<open>parsecmd\<close> gives them enough (C33).
\<close>

section \<open>Characters and tokens\<close>

definition whitespace :: string where
  "whitespace = [CHR '' '', CHR 0x09, CHR 0x0D, CHR 0x0A, CHR 0x0B]"

definition symbols :: string where "symbols = ''<|>&;()''"

function skip_ws :: "string \<Rightarrow> nat \<Rightarrow> nat" where
  "skip_ws t s = (if s < length t \<and> t ! s \<in> set whitespace then skip_ws t (s + 1) else s)"
  by pat_completeness auto
termination by (relation "measure (\<lambda>(t, s). length t - s)") auto

function scan_word :: "string \<Rightarrow> nat \<Rightarrow> nat" where
  "scan_word t s =
     (if s < length t \<and> t ! s \<notin> set whitespace \<and> t ! s \<notin> set symbols then scan_word t (s + 1) else s)"
  by pat_completeness auto
termination by (relation "measure (\<lambda>(t, s). length t - s)") auto

declare skip_ws.simps [simp del] scan_word.simps [simp del]

text \<open>The token's kind, its start and end, and the position after it.\<close>

definition gettoken :: "string \<Rightarrow> nat \<Rightarrow> char \<times> nat \<times> nat \<times> nat" where
  "gettoken t s =
     (let q = skip_ws t s; c = ch t q;
          (ret, e) = (if c = NUL then (c, q)
            else if c \<in> set ''|();&<'' then (c, q + 1)
            else if c = CHR ''>'' then (if ch t (q + 1) = CHR ''>'' then (CHR ''+'', q + 2) else (c, q + 1))
            else (CHR ''a'', scan_word t q))
      in (ret, q, e, skip_ws t e))"

definition peek :: "string \<Rightarrow> nat \<Rightarrow> string \<Rightarrow> bool \<times> nat" where
  "peek t s toks = (let s' = skip_ws t s in (ch t s' \<noteq> NUL \<and> ch t s' \<in> set toks, s'))"

section \<open>Commands\<close>

type_synonym token = "nat \<times> nat"

definition MAXARGS :: nat where "MAXARGS = 10"
definition O_RDONLY :: int where "O_RDONLY = 0"
definition O_WRONLY :: int where "O_WRONLY = 1"
definition O_CREATE :: int where "O_CREATE = 0x200"

datatype cmd =
    Exec "token list"
  | Redir cmd token int int
  | PipeCmd cmd cmd
  | ListCmd cmd cmd
  | Back cmd

text \<open>The constructor functions of the code.\<close>

definition execcmd :: cmd where [simp]: "execcmd = Exec []"

definition redircmd :: "cmd \<Rightarrow> token \<Rightarrow> int \<Rightarrow> int \<Rightarrow> cmd" where
  [simp]: "redircmd subcmd fl mode fd = Redir subcmd fl mode fd"

definition pipecmd :: "cmd \<Rightarrow> cmd \<Rightarrow> cmd" where [simp]: "pipecmd left right = PipeCmd left right"

definition listcmd :: "cmd \<Rightarrow> cmd \<Rightarrow> cmd" where [simp]: "listcmd left right = ListCmd left right"

definition backcmd :: "cmd \<Rightarrow> cmd" where [simp]: "backcmd subcmd = Back subcmd"

datatype serror = Syntax string | NoFuel

text \<open>
  \<open>parseexec\<close> keeps a pointer to the \<open>execcmd\<close> while redirections are wrapped around it:
  an argument goes to the leaf.
\<close>

fun add_arg :: "token \<Rightarrow> cmd \<Rightarrow> cmd" where
  "add_arg k (Exec as) = Exec (as @ [k])"
| "add_arg k (Redir c f m fd) = Redir (add_arg k c) f m fd"
| "add_arg k (PipeCmd a b) = PipeCmd a b"
| "add_arg k (ListCmd a b) = ListCmd a b"
| "add_arg k (Back c) = Back c"

section \<open>Positions only move forward\<close>

lemma skip_ws_ge: "s \<le> skip_ws t s"
  by (induction t s rule: skip_ws.induct) (subst skip_ws.simps, auto)

lemma skip_ws_le: "s \<le> length t \<Longrightarrow> skip_ws t s \<le> length t"
  by (induction t s rule: skip_ws.induct) (subst skip_ws.simps, auto)

lemma skip_ws_stop: "skip_ws t s < length t \<Longrightarrow> t ! skip_ws t s \<notin> set whitespace"
proof (induction t s rule: skip_ws.induct)
  case (1 t s)
  show ?case
  proof (cases "s < length t \<and> t ! s \<in> set whitespace")
    case True
    then have "skip_ws t s = skip_ws t (s + 1)" by (subst skip_ws.simps) simp
    with 1 True show ?thesis by metis
  next
    case False
    then have "skip_ws t s = s" by (subst skip_ws.simps) auto
    with 1 False show ?thesis by metis
  qed
qed

lemma scan_word_ge: "s \<le> scan_word t s"
  by (induction t s rule: scan_word.induct) (subst scan_word.simps, auto)

lemma scan_word_le: "s \<le> length t \<Longrightarrow> scan_word t s \<le> length t"
  by (induction t s rule: scan_word.induct) (subst scan_word.simps, auto)

lemma scan_word_step:
  "s < length t \<Longrightarrow> t ! s \<notin> set whitespace \<Longrightarrow> t ! s \<notin> set symbols \<Longrightarrow>
   scan_word t s = scan_word t (s + 1)"
  by (subst scan_word.simps) simp

lemma scan_word_halt:
  "\<not> (s < length t \<and> t ! s \<notin> set whitespace \<and> t ! s \<notin> set symbols) \<Longrightarrow> scan_word t s = s"
  by (subst scan_word.simps) auto

lemma scan_word_chars:
  "s \<le> i \<Longrightarrow> i < scan_word t s \<Longrightarrow> i < length t \<and> t ! i \<notin> set whitespace \<and> t ! i \<notin> set symbols"
proof (induction t s rule: scan_word.induct)
  case (1 t s)
  show ?case
  proof (cases "s < length t \<and> t ! s \<notin> set whitespace \<and> t ! s \<notin> set symbols")
    case True
    with 1 show ?thesis by (cases "i = s") (auto simp: scan_word_step)
  next
    case False
    with 1 show ?thesis by (simp add: scan_word_halt)
  qed
qed

lemma scan_word_stop:
  "scan_word t s < length t \<Longrightarrow> t ! scan_word t s \<in> set whitespace \<union> set symbols"
proof (induction t s rule: scan_word.induct)
  case (1 t s)
  show ?case
  proof (cases "s < length t \<and> t ! s \<notin> set whitespace \<and> t ! s \<notin> set symbols")
    case True
    with 1 show ?thesis by (auto simp: scan_word_step)
  next
    case False
    with 1 show ?thesis by (auto simp: scan_word_halt)
  qed
qed

text \<open>A token that is not the end of the line consumes at least one character.\<close>

lemma gettoken_progress:
  assumes "gettoken t s = (k, q, e, s')" "k \<noteq> NUL"
  shows "s \<le> q" "q < e" "e \<le> s'" "s < s'" "s < length t" "e \<le> length t" "s' \<le> length t"
proof -
  let ?q = "skip_ws t s"
  have q: "q = ?q" using assms(1) by (simp add: gettoken_def Let_def split: if_splits prod.splits)
  have "ch t ?q \<noteq> NUL"
    using assms by (auto simp: gettoken_def Let_def split: if_splits)
  then have len: "q < length t" using q ch_not_NUL by simp
  have word: "q < scan_word t q" if "ch t q \<notin> set ''|();&<''" "ch t q \<noteq> CHR ''>''"
  proof -
    have "t ! q \<notin> set symbols" using that len by (auto simp: ch_def symbols_def)
    moreover have "t ! q \<notin> set whitespace" using len q skip_ws_stop by simp
    ultimately have "scan_word t q = scan_word t (q + 1)" using len by (simp add: scan_word_step)
    then show ?thesis using scan_word_ge [of "q + 1" t] by simp
  qed
  have e: "q < e \<and> e \<le> length t"
    using assms q len word ch_not_NUL [of t "q + 1"] scan_word_le [of q t]
    by (auto simp: gettoken_def Let_def NUL_def split: if_splits)
  have s': "s' = skip_ws t e"
    using assms(1) by (auto simp: gettoken_def Let_def split: if_splits)
  show "s \<le> q" using q skip_ws_ge by simp
  show "q < e" "e \<le> length t" using e by auto
  show "e \<le> s'" using s' skip_ws_ge by simp
  show "s' \<le> length t" using s' e skip_ws_le by simp
  show "s < s'" using \<open>s \<le> q\<close> e \<open>e \<le> s'\<close> by simp
  show "s < length t" using \<open>s \<le> q\<close> len by simp
qed

lemma gettoken_le: "gettoken t s = (k, q, e, s') \<Longrightarrow> s \<le> s'"
proof (cases "k = NUL")
  case True
  assume a: "gettoken t s = (k, q, e, s')"
  then have "e = skip_ws t s" using True by (auto simp: gettoken_def Let_def NUL_def split: if_splits)
  moreover have "s' = skip_ws t e" using a by (auto simp: gettoken_def Let_def split: if_splits)
  ultimately show ?thesis using skip_ws_ge le_trans by metis
qed (use gettoken_progress(4) less_imp_le in blast)

lemma peek_ge: "peek t s toks = (b, s') \<Longrightarrow> s \<le> s'"
  by (auto simp: peek_def Let_def skip_ws_ge)

text \<open>After a successful \<open>peek\<close> the next token is one of the characters looked for.\<close>

lemma peek_gettoken:
  assumes "peek t s toks = (True, s')" "gettoken t s' = (k, q, e, s'')"
  shows "k \<noteq> NUL" "s < s''" "s'' \<le> length t"
proof -
  have s': "s' = skip_ws t s" "ch t s' \<noteq> NUL" using assms(1) by (auto simp: peek_def Let_def)
  then have "skip_ws t s' = s'"
    by (subst skip_ws.simps) (use skip_ws_stop in auto)
  then show k: "k \<noteq> NUL"
    using assms(2) s'(2) by (auto simp: gettoken_def Let_def NUL_def split: if_splits)
  show "s < s''" using gettoken_progress(4) [OF assms(2) k] skip_ws_ge [of s t] s'(1) by simp
  show "s'' \<le> length t" using gettoken_progress(7) [OF assms(2) k] .
qed


section \<open>The parser\<close>

function parseredirs :: "string \<Rightarrow> cmd \<Rightarrow> nat \<Rightarrow> serror + cmd \<times> nat" where
  "parseredirs t c s0 =
     (case peek t s0 ''<>'' of
        (False, s) \<Rightarrow> Inr (c, s)
      | (True, s) \<Rightarrow>
          (case gettoken t s of (tok, _, _, s1) \<Rightarrow>
           case gettoken t s1 of (tok2, q, e, s2) \<Rightarrow>
             if tok2 \<noteq> CHR ''a'' then Inl (Syntax ''missing file for redirection'')
             else parseredirs t
               (if tok = CHR ''<'' then redircmd c (q, e) O_RDONLY 0
                else if tok = CHR ''>'' then redircmd c (q, e) (O_WRONLY + O_CREATE) 1
                else if tok = CHR ''+'' then redircmd c (q, e) (O_WRONLY + O_CREATE) 1
                else c) s2))"
  by pat_completeness auto
termination
proof (relation "measure (\<lambda>(t, c, s). length t - s)", goal_cases)
  case (2 t c s0 x s k r1 q1 r2 e1 s1 k2 r3 q2 r4 e2 s2)
  then have p: "peek t s0 ''<>'' = (True, s)" and g: "gettoken t s = (k, q1, e1, s1)"
    and g2: "gettoken t s1 = (k2, q2, e2, s2)" by auto
  then have "s0 < s1" "s1 \<le> length t" using peek_gettoken(2,3) [OF p g] by simp_all
  then show ?case using gettoken_le [OF g2] by simp
qed simp

declare parseredirs.simps [simp del]

text \<open>The argument loop of \<open>parseexec\<close>; it ends because it panics at \<open>MAXARGS\<close> arguments.\<close>

function parse_args :: "string \<Rightarrow> nat \<Rightarrow> cmd \<Rightarrow> nat \<Rightarrow> serror + cmd \<times> nat" where
  "parse_args t argc ret s0 =
     (case peek t s0 ''|)&;'' of
        (True, s) \<Rightarrow> Inr (ret, s)
      | (False, s) \<Rightarrow>
          (case gettoken t s of (tok, q, e, s1) \<Rightarrow>
             if tok = NUL then Inr (ret, s1)
             else if tok \<noteq> CHR ''a'' then Inl (Syntax ''syntax'')
             else if argc + 1 \<ge> MAXARGS then Inl (Syntax ''too many args'')
             else bindE (parseredirs t (add_arg (q, e) ret) s1)
                    (\<lambda>(r, s2). parse_args t (argc + 1) r s2)))"
  by pat_completeness auto
termination by (relation "measure (\<lambda>(t, argc, c, s). MAXARGS - argc)") auto

declare parse_args.simps [simp del]

text \<open>The loop of \<open>parseline\<close> over \<open>&\<close>.\<close>

function parse_back :: "string \<Rightarrow> cmd \<Rightarrow> nat \<Rightarrow> cmd \<times> nat" where
  "parse_back t c s0 =
     (case peek t s0 ''&'' of
        (False, s) \<Rightarrow> (c, s)
      | (True, s) \<Rightarrow> (case gettoken t s of (_, _, _, s1) \<Rightarrow> parse_back t (backcmd c) s1))"
  by pat_completeness auto
termination
proof (relation "measure (\<lambda>(t, c, s). length t - s)", goal_cases)
  case (2 t c s0 x s k r1 q r2 e s1)
  then have p: "peek t s0 ''&'' = (True, s)" and g: "gettoken t s = (k, q, e, s1)" by auto
  have "s0 < s1" "s1 \<le> length t" using peek_gettoken(2,3) [OF p g] by simp_all
  then show ?case by simp
qed simp

declare parse_back.simps [simp del]

fun parseline :: "nat \<Rightarrow> string \<Rightarrow> nat \<Rightarrow> serror + cmd \<times> nat"
  and parsepipe :: "nat \<Rightarrow> string \<Rightarrow> nat \<Rightarrow> serror + cmd \<times> nat"
  and parseexec :: "nat \<Rightarrow> string \<Rightarrow> nat \<Rightarrow> serror + cmd \<times> nat"
  and parseblock :: "nat \<Rightarrow> string \<Rightarrow> nat \<Rightarrow> serror + cmd \<times> nat" where
  "parseline 0 t s = Inl NoFuel"
| "parseline (Suc n) t s =
     bindE (parsepipe n t s) (\<lambda>(c0, s1).
       case parse_back t c0 s1 of (c, s2) \<Rightarrow>
       case peek t s2 '';'' of
         (False, s3) \<Rightarrow> Inr (c, s3)
       | (True, s3) \<Rightarrow>
           (case gettoken t s3 of (_, _, _, s4) \<Rightarrow>
              bindE (parseline n t s4) (\<lambda>(d, s5). Inr (listcmd c d, s5))))"
| "parsepipe 0 t s = Inl NoFuel"
| "parsepipe (Suc n) t s =
     bindE (parseexec n t s) (\<lambda>(c, s1).
       case peek t s1 ''|'' of
         (False, s2) \<Rightarrow> Inr (c, s2)
       | (True, s2) \<Rightarrow>
           (case gettoken t s2 of (_, _, _, s3) \<Rightarrow>
              bindE (parsepipe n t s3) (\<lambda>(d, s4). Inr (pipecmd c d, s4))))"
| "parseexec 0 t s = Inl NoFuel"
| "parseexec (Suc n) t s =
     (case peek t s ''('' of
        (True, s1) \<Rightarrow> parseblock n t s1
      | (False, s1) \<Rightarrow>
          bindE (parseredirs t execcmd s1) (\<lambda>(r, s2). parse_args t 0 r s2))"
| "parseblock 0 t s = Inl NoFuel"
| "parseblock (Suc n) t s =
     (case peek t s ''('' of
        (False, s1) \<Rightarrow> Inl (Syntax ''parseblock'')
      | (True, s1) \<Rightarrow>
          (case gettoken t s1 of (_, _, _, s2) \<Rightarrow>
             bindE (parseline n t s2) (\<lambda>(c, s3).
               case peek t s3 '')'' of
                 (False, s4) \<Rightarrow> Inl (Syntax ''syntax - missing )'')
               | (True, s4) \<Rightarrow>
                   (case gettoken t s4 of (_, _, _, s5) \<Rightarrow> parseredirs t c s5))))"

text \<open>The NULs that end the tokens, written into the line.\<close>

fun nulterminate :: "cmd \<Rightarrow> string \<Rightarrow> string" where
  "nulterminate (Exec as) t = fold (\<lambda>(q, e) u. u[e := NUL]) as t"
| "nulterminate (Redir c (q, e) m fd) t = (nulterminate c t)[e := NUL]"
| "nulterminate (PipeCmd a b) t = nulterminate b (nulterminate a t)"
| "nulterminate (ListCmd a b) t = nulterminate b (nulterminate a t)"
| "nulterminate (Back c) t = nulterminate c t"

definition parse_fuel :: "string \<Rightarrow> nat" where "parse_fuel t = 4 * length t + 4"

definition parsecmd :: "string \<Rightarrow> serror + cmd \<times> string" where
  "parsecmd t =
     bindE (parseline (parse_fuel t) t 0) (\<lambda>(c, s0).
       case peek t s0 [] of (_, s) \<Rightarrow>
         if s \<noteq> length t then Inl (Syntax (''leftovers: '' @ drop s t @ [CHR 0x0A] @ ''syntax''))
         else Inr (c, nulterminate c t))"

section \<open>Running a command\<close>

text \<open>
  A process is the list of the system calls it makes, up to its end; \<open>EFork\<close> holds the calls of
  the child, the history it inherits included. What the kernel answers depends on that history and
  is a record of functions: \<open>op_exec\<close> is true when \<open>exec\<close> succeeds and does not return,
  \<open>op_fork\<close> when there is a child.
\<close>

datatype event = EExec "string list" | EOpen string int | EClose int | EDup int | EPipe
  | EFork "event list" | EWait | EChdir string | EPrint string | EExit

record shenv =
  op_exec :: "event list \<Rightarrow> string list \<Rightarrow> bool"
  op_open :: "event list \<Rightarrow> string \<Rightarrow> int \<Rightarrow> int"
  op_pipe :: "event list \<Rightarrow> (int \<times> int) option"
  op_fork :: "event list \<Rightarrow> bool"
  op_chdir :: "event list \<Rightarrow> string \<Rightarrow> int"

text \<open>\<open>panic\<close> prints and ends the process.\<close>

definition sh_panic :: "string \<Rightarrow> event list \<Rightarrow> event list" where
  "sh_panic m h = h @ [EPrint (m @ [CHR 0x0A]), EExit]"

text \<open>\<open>fork1\<close> in the parent: panic, or the child's calls and the rest of the parent's.\<close>

definition fork1 :: "shenv \<Rightarrow> event list \<Rightarrow> event list \<Rightarrow> (event list \<Rightarrow> event list) \<Rightarrow> event list" where
  "fork1 E h child rest = (if op_fork E h then rest (h @ [EFork child]) else sh_panic ''fork'' h)"

fun runcmd :: "shenv \<Rightarrow> string \<Rightarrow> event list \<Rightarrow> cmd \<Rightarrow> event list" where
  "runcmd E u h (Exec as) =
     (if as = [] then h @ [EExit]
      else let argv = map (\<lambda>(q, e). cstr u q) as; h1 = h @ [EExec argv]
           in if op_exec E h argv then h1
              else h1 @ [EPrint (''exec '' @ hd argv @ '' failed'' @ [CHR 0x0A]), EExit])"
| "runcmd E u h (Redir c (q, e) m fd) =
     (let f = cstr u q; h1 = h @ [EClose fd]; h2 = h1 @ [EOpen f m]
      in if op_open E h1 f m < 0 then h2 @ [EPrint (''open '' @ f @ '' failed'' @ [CHR 0x0A]), EExit]
         else runcmd E u h2 c)"
| "runcmd E u h (ListCmd a b) =
     fork1 E h (runcmd E u h a) (\<lambda>h1. runcmd E u (h1 @ [EWait]) b)"
| "runcmd E u h (PipeCmd a b) =
     (let h0 = h @ [EPipe]
      in case op_pipe E h of None \<Rightarrow> sh_panic ''pipe'' h0
         | Some (r, w) \<Rightarrow>
             fork1 E h0 (runcmd E u (h0 @ [EClose 1, EDup w, EClose r, EClose w]) a) (\<lambda>h1.
             fork1 E h1 (runcmd E u (h1 @ [EClose 0, EDup r, EClose r, EClose w]) b) (\<lambda>h2.
             h2 @ [EClose r, EClose w, EWait, EWait, EExit])))"
| "runcmd E u h (Back c) = fork1 E h (runcmd E u h c) (\<lambda>h1. h1 @ [EExit])"

text \<open>The loop of \<open>main\<close>; a line is what \<open>gets\<close> stored, the empty line is the end of the input.\<close>

fun main_loop :: "shenv \<Rightarrow> event list \<Rightarrow> string list \<Rightarrow> event list" where
  "main_loop E h [] = h @ [EPrint ''$ '', EExit]"
| "main_loop E h (buf # bufs) =
     (let h0 = h @ [EPrint ''$ ''] in
      if buf = [] then h0 @ [EExit]
      else if take 3 buf = ''cd '' then
        let d = drop 3 (butlast buf); h1 = h0 @ [EChdir d]
        in main_loop E (if op_chdir E h0 d < 0 then h1 @ [EPrint (''cannot cd '' @ d @ [CHR 0x0A])] else h1) bufs
      else
        fork1 E h0
          (case parsecmd buf of Inr (c, u) \<Rightarrow> runcmd E u h0 c
           | Inl (Syntax m) \<Rightarrow> sh_panic m h0 | Inl NoFuel \<Rightarrow> h0)
          (\<lambda>h1. main_loop E (h1 @ [EWait]) bufs))"

section \<open>The parser returns\<close>

text \<open>One round of each loop, for results that are not errors.\<close>

definition redir_kind :: "int \<Rightarrow> int \<Rightarrow> bool" where
  "redir_kind m fd \<longleftrightarrow> (m = O_RDONLY \<and> fd = 0) \<or> (m = O_WRONLY + O_CREATE \<and> fd = 1)"

lemma redir_token:
  assumes "peek t s0 ''<>'' = (True, s)" "gettoken t s = (k, q, e, s1)"
  shows "k \<in> {CHR ''<'', CHR ''>'', CHR ''+''}"
proof -
  have s: "s = skip_ws t s0" "ch t s \<in> {CHR ''<'', CHR ''>''}" using assms(1)
    by (auto simp: peek_def Let_def)
  then have "skip_ws t s = s"
    by (subst skip_ws.simps) (use skip_ws_stop in auto)
  then show ?thesis using assms(2) s by (auto simp: gettoken_def Let_def NUL_def split: if_splits)
qed

lemma parseredirs_round:
  obtains (stop) s where "peek t s0 ''<>'' = (False, s)" "parseredirs t c s0 = Inr (c, s)"
  | (nofile) "parseredirs t c s0 = Inl (Syntax ''missing file for redirection'')"
  | (more) q e s1 s2 m fd where "s0 < s2" "s2 \<le> length t" "gettoken t s1 = (CHR ''a'', q, e, s2)"
      "redir_kind m fd" "parseredirs t c s0 = parseredirs t (Redir c (q, e) m fd) s2"
proof -
  obtain b s where p: "peek t s0 ''<>'' = (b, s)" by (cases "peek t s0 ''<>''")
  obtain k1 q1 e1 s1 where g1: "gettoken t s = (k1, q1, e1, s1)" by (cases "gettoken t s")
  obtain k2 q2 e2 s2 where g2: "gettoken t s1 = (k2, q2, e2, s2)" by (cases "gettoken t s1")
  show ?thesis
  proof (cases b)
    case False
    then show ?thesis using p that(1) by (simp add: parseredirs.simps)
  next
    case True
    then have p: "peek t s0 ''<>'' = (True, s)" using p by simp
    show ?thesis
    proof (cases "k2 = CHR ''a''")
      case False
      then show ?thesis using p g1 g2 that(2) by (simp add: parseredirs.simps)
    next
      case a: True
      have "s0 < s1" using peek_gettoken(2) [OF p g1] .
      moreover have "s1 < s2" "s2 \<le> length t" using gettoken_progress(4,7) [OF g2] a
        by (simp_all add: NUL_def)
      moreover have "k1 \<in> {CHR ''<'', CHR ''>'', CHR ''+''}" by (rule redir_token [OF p g1])
      then have "\<exists>m fd. redir_kind m fd \<and> parseredirs t c s0 = parseredirs t (Redir c (q2, e2) m fd) s2"
        using p g1 g2 a by (auto simp: parseredirs.simps [of t c s0] redir_kind_def)
      ultimately show ?thesis using that(3) g2 a by (metis less_trans)
    qed
  qed
qed

lemma parseredirs_total: "parseredirs t c s \<noteq> Inl NoFuel"
proof (induction "length t - s" arbitrary: c s rule: less_induct)
  case less
  show ?case
  proof (cases t s c rule: parseredirs_round)
    case (more q e s1 s2 m fd)
    have "length t - s2 < length t - s" using more(1,2) by simp
    from less [OF this] more(5) show ?thesis by simp
  qed simp_all
qed

text \<open>An invariant of the redirection loop that each wrapping keeps holds of its result.\<close>

lemma parseredirs_inv:
  assumes "parseredirs t c s = Inr (c', s')" "P c"
    and "\<And>c s1 q e s2 m fd. P c \<Longrightarrow> gettoken t s1 = (CHR ''a'', q, e, s2) \<Longrightarrow> redir_kind m fd \<Longrightarrow>
           P (Redir c (q, e) m fd)"
  shows "P c' \<and> s \<le> s'"
  using assms(1,2)
proof (induction "length t - s" arbitrary: c s rule: less_induct)
  case less
  show ?case
  proof (cases t s c rule: parseredirs_round)
    case (stop s1)
    then show ?thesis using less.prems peek_ge by auto
  next
    case (more q e s1 s2 m fd)
    have d: "length t - s2 < length t - s" using more(1,2) by simp
    have "P (Redir c (q, e) m fd)" using assms(3) more(3,4) less.prems(2) by blast
    from less.hyps [OF d _ this] less.prems(1) more(1,5) show ?thesis by simp
  qed (use less.prems in simp)
qed

lemma parse_args_round:
  obtains (stop) s' where "parse_args t argc r s0 = Inr (r, s')" "s0 \<le> s'"
  | (bad) m where "parse_args t argc r s0 = Inl (Syntax m)"
  | (more) q e s s1 where "gettoken t s = (CHR ''a'', q, e, s1)" "s0 < s1" "argc + 1 < MAXARGS"
      "parse_args t argc r s0 =
         bindE (parseredirs t (add_arg (q, e) r) s1) (\<lambda>(r, s2). parse_args t (argc + 1) r s2)"
proof -
  obtain b s where p: "peek t s0 ''|)&;'' = (b, s)" by (cases "peek t s0 ''|)&;''")
  obtain k q e s1 where g: "gettoken t s = (k, q, e, s1)" by (cases "gettoken t s")
  have le: "s0 \<le> s" "s \<le> s1" using peek_ge [OF p] gettoken_le [OF g] .
  show ?thesis
  proof (cases "b \<or> k = NUL")
    case True
    then show ?thesis using p g le that(1) [of "if b then s else s1"]
      by (cases b) (simp_all add: parse_args.simps)
  next
    case False
    show ?thesis
    proof (cases "k = CHR ''a'' \<and> argc + 1 < MAXARGS")
      case True
      then show ?thesis using p g le False gettoken_progress(4) [OF g] that(3) [of s q e s1]
        by (simp add: parse_args.simps [of t argc r s0])
    next
      case no: False
      then show ?thesis
        using p g False that(2) [of "if k = CHR ''a'' then ''too many args'' else ''syntax''"]
        by (auto simp: parse_args.simps [of t argc r s0])
    qed
  qed
qed

lemma parse_args_total: "parse_args t argc r s \<noteq> Inl NoFuel"
proof (induction "MAXARGS - argc" arbitrary: argc r s rule: less_induct)
  case less
  show ?case
  proof (cases t argc r s rule: parse_args_round)
    case (more q e s0 s1)
    have d: "MAXARGS - (argc + 1) < MAXARGS - argc" using more(3) by simp
    show ?thesis using more(4) less [OF d] parseredirs_total [of t "add_arg (q, e) r" s1]
      by (cases "parseredirs t (add_arg (q, e) r) s1") auto
  qed simp_all
qed

lemma parse_back_round:
  obtains (stop) s where "parse_back t c s0 = (c, s)" "s0 \<le> s"
  | (more) s2 where "s0 < s2" "s2 \<le> length t" "parse_back t c s0 = parse_back t (Back c) s2"
proof -
  obtain b s where p: "peek t s0 ''&'' = (b, s)" by (cases "peek t s0 ''&''")
  obtain k q e s1 where g: "gettoken t s = (k, q, e, s1)" by (cases "gettoken t s")
  show ?thesis
  proof (cases b)
    case False
    then show ?thesis using that(1) p peek_ge [OF p] by (simp add: parse_back.simps)
  next
    case True
    then have p: "peek t s0 ''&'' = (True, s)" using p by simp
    show ?thesis using that(2) p g peek_gettoken(2,3) [OF p g]
      by (simp add: parse_back.simps [of t c s0])
  qed
qed

lemma parse_back_inv:
  assumes "parse_back t c s = (c', s')" "P c" "\<And>c. P c \<Longrightarrow> P (Back c)"
  shows "P c' \<and> s \<le> s'"
  using assms(1,2)
proof (induction "length t - s" arbitrary: c s rule: less_induct)
  case less
  show ?case
  proof (cases t c s rule: parse_back_round)
    case (more s2)
    have d: "length t - s2 < length t - s" using more(1,2) by simp
    from less.hyps [OF d _ assms(3) [OF less.prems(2)]] less.prems(1) more(1,3) show ?thesis by simp
  qed (use less.prems in simp)
qed

section \<open>Well-formed commands\<close>

text \<open>
  A word: a non-empty token without blanks and symbols, at whose end stands a blank, a symbol or
  the end of the line.
\<close>

definition word_token :: "string \<Rightarrow> token \<Rightarrow> bool" where
  "word_token t k \<longleftrightarrow> (case k of (q, e) \<Rightarrow>
     q < e \<and> e \<le> length t \<and>
     (\<forall>i. q \<le> i \<and> i < e \<longrightarrow> t ! i \<notin> set whitespace \<and> t ! i \<notin> set symbols) \<and>
     (e < length t \<longrightarrow> t ! e \<in> set whitespace \<union> set symbols))"

fun wf_cmd :: "string \<Rightarrow> cmd \<Rightarrow> bool" where
  "wf_cmd t (Exec as) \<longleftrightarrow> length as < MAXARGS \<and> list_all (word_token t) as"
| "wf_cmd t (Redir c k m fd) \<longleftrightarrow> wf_cmd t c \<and> word_token t k \<and> redir_kind m fd"
| "wf_cmd t (PipeCmd a b) \<longleftrightarrow> wf_cmd t a \<and> wf_cmd t b"
| "wf_cmd t (ListCmd a b) \<longleftrightarrow> wf_cmd t a \<and> wf_cmd t b"
| "wf_cmd t (Back c) \<longleftrightarrow> wf_cmd t c"

fun cmd_tokens :: "cmd \<Rightarrow> token set" where
  "cmd_tokens (Exec as) = set as"
| "cmd_tokens (Redir c k m fd) = insert k (cmd_tokens c)"
| "cmd_tokens (PipeCmd a b) = cmd_tokens a \<union> cmd_tokens b"
| "cmd_tokens (ListCmd a b) = cmd_tokens a \<union> cmd_tokens b"
| "cmd_tokens (Back c) = cmd_tokens c"

fun leaf :: "cmd \<Rightarrow> token list option" where
  "leaf (Exec as) = Some as"
| "leaf (Redir c k m fd) = leaf c"
| "leaf (PipeCmd a b) = None"
| "leaf (ListCmd a b) = None"
| "leaf (Back c) = None"

lemma leaf_add_arg: "leaf c = Some as \<Longrightarrow> leaf (add_arg k c) = Some (as @ [k])"
  by (induction c) auto

lemma wf_add_arg:
  "leaf c = Some as \<Longrightarrow> wf_cmd t c \<Longrightarrow> length as + 1 < MAXARGS \<Longrightarrow> word_token t k \<Longrightarrow>
   wf_cmd t (add_arg k c)"
  by (induction c) auto

lemma gettoken_word:
  assumes g: "gettoken t s = (CHR ''a'', q, e, s')"
  shows "word_token t (q, e)"
proof -
  have q: "q < e" "e \<le> length t" using gettoken_progress(2,6) [OF g] by (simp_all add: NUL_def)
  have "e = scan_word t q" using g by (auto simp: gettoken_def Let_def NUL_def split: if_splits)
  then show ?thesis
    unfolding word_token_def using q scan_word_chars [of q _ t] scan_word_stop [of t q] by simp
qed

lemma parseredirs_wf:
  assumes "parseredirs t c s = Inr (c', s')" "wf_cmd t c"
  shows "wf_cmd t c' \<and> leaf c' = leaf c \<and> s \<le> s'"
  using parseredirs_inv [OF assms(1), of "\<lambda>d. wf_cmd t d \<and> leaf d = leaf c"] assms(2) gettoken_word
  by auto

lemma parse_args_wf:
  "parse_args t argc r s = Inr (c, s') \<Longrightarrow> wf_cmd t r \<Longrightarrow> leaf r = Some as \<Longrightarrow> length as = argc \<Longrightarrow>
   wf_cmd t c \<and> s \<le> s'"
proof (induction "MAXARGS - argc" arbitrary: argc r s as rule: less_induct)
  case less
  show ?case
  proof (cases t argc r s rule: parse_args_round)
    case (more q e s0 s1)
    let ?r = "add_arg (q, e) r"
    obtain r2 s2 where a: "parseredirs t ?r s1 = Inr (r2, s2)" "parse_args t (argc + 1) r2 s2 = Inr (c, s')"
      using less.prems(1) more(4) by (auto simp: bindE_Inr_iff)
    have "wf_cmd t ?r" using wf_add_arg less.prems more(1,3) gettoken_word by simp
    note w = parseredirs_wf [OF a(1) this]
    have d: "MAXARGS - (argc + 1) < MAXARGS - argc" using more(3) by simp
    have "leaf r2 = Some (as @ [(q, e)])" using w leaf_add_arg [OF less.prems(3)] by simp
    from less.hyps [OF d a(2) _ this] w less.prems(4) more(2) show ?thesis by simp
  qed (use less.prems in auto)
qed

lemma parse_wf:
  "parseline n t s = Inr (c, s') \<Longrightarrow> wf_cmd t c \<and> s \<le> s'"
  "parsepipe n t s = Inr (c, s') \<Longrightarrow> wf_cmd t c \<and> s \<le> s'"
  "parseexec n t s = Inr (c, s') \<Longrightarrow> wf_cmd t c \<and> s \<le> s'"
  "parseblock n t s = Inr (c, s') \<Longrightarrow> wf_cmd t c \<and> s \<le> s'"
proof (induction n t s and n t s and n t s and n t s arbitrary: c s' and c s' and c s' and c s'
    rule: parseline_parsepipe_parseexec_parseblock.induct)
  case (2 n t s)
  obtain c0 s1 where a: "parsepipe n t s = Inr (c0, s1)"
    using "2.prems" by (auto simp: bindE_Inr_iff)
  obtain c1 s2 where b: "parse_back t c0 s1 = (c1, s2)" by (cases "parse_back t c0 s1")
  have w1: "wf_cmd t c0 \<and> s \<le> s1" using "2.IH"(1) a by blast
  then have w2: "wf_cmd t c1 \<and> s1 \<le> s2" using parse_back_inv [OF b, of "wf_cmd t"] by simp
  obtain f s3 where p: "peek t s2 '';'' = (f, s3)" by (cases "peek t s2 '';''")
  obtain k q e s4 where g: "gettoken t s3 = (k, q, e, s4)" by (cases "gettoken t s3")
  have le: "s2 \<le> s3" "s3 \<le> s4" using peek_ge [OF p] gettoken_le [OF g] .
  show ?case
  proof (cases f)
    case True
    then obtain d s5 where d: "parseline n t s4 = Inr (d, s5)" "c = ListCmd c1 d" "s' = s5"
      using "2.prems" a b p g by (auto simp: bindE_Inr_iff)
    have "wf_cmd t d \<and> s4 \<le> s5"
      using "2.IH"(2) [OF b [symmetric] p [symmetric] _ g [symmetric] refl refl d(1)] a True by simp
    then show ?thesis using d w1 w2 le by simp
  next
    case False
    then show ?thesis using "2.prems" a b p w1 w2 le by simp
  qed
next
  case (4 n t s)
  obtain c0 s1 where a: "parseexec n t s = Inr (c0, s1)"
    using "4.prems" by (auto simp: bindE_Inr_iff)
  have w1: "wf_cmd t c0 \<and> s \<le> s1" using "4.IH"(1) a by blast
  obtain f s3 where p: "peek t s1 ''|'' = (f, s3)" by (cases "peek t s1 ''|''")
  obtain k q e s4 where g: "gettoken t s3 = (k, q, e, s4)" by (cases "gettoken t s3")
  have le: "s1 \<le> s3" "s3 \<le> s4" using peek_ge [OF p] gettoken_le [OF g] .
  show ?case
  proof (cases f)
    case True
    then obtain d s5 where d: "parsepipe n t s4 = Inr (d, s5)" "c = PipeCmd c0 d" "s' = s5"
      using "4.prems" a p g by (auto simp: bindE_Inr_iff)
    have "wf_cmd t d \<and> s4 \<le> s5"
      using "4.IH"(2) [OF p [symmetric] _ g [symmetric] refl refl d(1)] a True by simp
    then show ?thesis using d w1 le by simp
  next
    case False
    then show ?thesis using "4.prems" a p w1 le by simp
  qed
next
  case (6 n t s)
  obtain f s1 where p: "peek t s ''('' = (f, s1)" by (cases "peek t s ''(''")
  have le: "s \<le> s1" by (rule peek_ge [OF p])
  show ?case
  proof (cases f)
    case True
    then have "wf_cmd t c \<and> s1 \<le> s'" using "6.IH" "6.prems" p by simp
    then show ?thesis using le by simp
  next
    case False
    then obtain r s2 where a: "parseredirs t (Exec []) s1 = Inr (r, s2)" "parse_args t 0 r s2 = Inr (c, s')"
      using "6.prems" p by (auto simp: bindE_Inr_iff)
    have "wf_cmd t (Exec [])" by (simp add: MAXARGS_def)
    note w = parseredirs_wf [OF a(1) this]
    then have "wf_cmd t c \<and> s2 \<le> s'" using parse_args_wf [OF a(2)] by simp
    then show ?thesis using w le by simp
  qed
next
  case (8 n t s)
  obtain f s1 where p: "peek t s ''('' = (f, s1)" by (cases "peek t s ''(''")
  obtain k q e s2 where g: "gettoken t s1 = (k, q, e, s2)" by (cases "gettoken t s1")
  have f: "f" using "8.prems" p by (cases f) auto
  then obtain d s3 where a: "parseline n t s2 = Inr (d, s3)" using "8.prems" p g
    by (auto simp: bindE_Inr_iff)
  have w: "wf_cmd t d \<and> s2 \<le> s3"
    using "8.IH" [OF p [symmetric] _ g [symmetric] refl refl a] f by simp
  obtain f2 s4 where p2: "peek t s3 '')'' = (f2, s4)" by (cases "peek t s3 '')''")
  obtain k2 q2 e2 s5 where g2: "gettoken t s4 = (k2, q2, e2, s5)" by (cases "gettoken t s4")
  have "f2" using "8.prems" p g f a p2 by (cases f2) auto
  then have r: "parseredirs t d s5 = Inr (c, s')" using "8.prems" p g f a p2 g2 by simp
  have "wf_cmd t d" using w by simp
  from parseredirs_wf [OF r this] show ?case
    using w peek_ge [OF p] peek_ge [OF p2] gettoken_le [OF g] gettoken_le [OF g2] by simp
qed simp_all

section \<open>Enough fuel\<close>

lemma parse_total:
  "4 * (length t - s) + 4 \<le> n \<Longrightarrow> parseline n t s \<noteq> Inl NoFuel"
  "4 * (length t - s) + 3 \<le> n \<Longrightarrow> parsepipe n t s \<noteq> Inl NoFuel"
  "4 * (length t - s) + 2 \<le> n \<Longrightarrow> parseexec n t s \<noteq> Inl NoFuel"
  "4 * (length t - s) + 1 \<le> n \<Longrightarrow> parseblock n t s \<noteq> Inl NoFuel"
proof (induction n t s and n t s and n t s and n t s
    rule: parseline_parsepipe_parseexec_parseblock.induct)
  case (2 n t s)
  have A: "parsepipe n t s \<noteq> Inl NoFuel" using "2.IH"(1) "2.prems" by simp
  show ?case
  proof (cases "parsepipe n t s")
    case (Inr x)
    then obtain c0 s1 where a: "parsepipe n t s = Inr (c0, s1)" by (cases x) simp
    have s1: "s \<le> s1" using parse_wf(2) [OF a] by simp
    obtain c1 s2 where b: "parse_back t c0 s1 = (c1, s2)" by (cases "parse_back t c0 s1")
    have s2: "s1 \<le> s2" using parse_back_inv [OF b, of "\<lambda>_. True"] by simp
    obtain f s3 where p: "peek t s2 '';'' = (f, s3)" by (cases "peek t s2 '';''")
    obtain k q e s4 where g: "gettoken t s3 = (k, q, e, s4)" by (cases "gettoken t s3")
    show ?thesis
    proof (cases f)
      case True
      then have "peek t s2 '';'' = (True, s3)" using p by simp
      then have "s2 < s4" "s4 \<le> length t" using peek_gettoken(2,3) g by blast+
      then have "4 * (length t - s4) + 4 \<le> n" using s1 s2 "2.prems" by linarith
      then have "parseline n t s4 \<noteq> Inl NoFuel"
        using "2.IH"(2) [OF b [symmetric] p [symmetric] _ g [symmetric] refl refl] True by simp
      then show ?thesis using a b p g True by (cases "parseline n t s4") auto
    qed (use a b p in simp)
  qed (use A in auto)
next
  case (4 n t s)
  have A: "parseexec n t s \<noteq> Inl NoFuel" using "4.IH"(1) "4.prems" by simp
  show ?case
  proof (cases "parseexec n t s")
    case (Inr x)
    then obtain c0 s1 where a: "parseexec n t s = Inr (c0, s1)" by (cases x) simp
    have s1: "s \<le> s1" using parse_wf(3) [OF a] by simp
    obtain f s3 where p: "peek t s1 ''|'' = (f, s3)" by (cases "peek t s1 ''|''")
    obtain k q e s4 where g: "gettoken t s3 = (k, q, e, s4)" by (cases "gettoken t s3")
    show ?thesis
    proof (cases f)
      case True
      then have "peek t s1 ''|'' = (True, s3)" using p by simp
      then have "s1 < s4" "s4 \<le> length t" using peek_gettoken(2,3) g by blast+
      then have "4 * (length t - s4) + 3 \<le> n" using s1 "4.prems" by linarith
      then have "parsepipe n t s4 \<noteq> Inl NoFuel"
        using "4.IH"(2) [OF p [symmetric] _ g [symmetric] refl refl] True by simp
      then show ?thesis using a p g True by (cases "parsepipe n t s4") auto
    qed (use a p in simp)
  qed (use A in auto)
next
  case (6 n t s)
  obtain f s1 where p: "peek t s ''('' = (f, s1)" by (cases "peek t s ''(''")
  have le: "s \<le> s1" by (rule peek_ge [OF p])
  show ?case
  proof (cases f)
    case True
    then show ?thesis using "6.IH" "6.prems" p le by simp
  next
    case False
    show ?thesis
    proof (cases "parseredirs t (Exec []) s1")
      case (Inr x)
      then show ?thesis using p False parse_args_total by (cases x) simp
    qed (use p False parseredirs_total [of t "Exec []" s1] in auto)
  qed
next
  case (8 n t s)
  obtain f s1 where p: "peek t s ''('' = (f, s1)" by (cases "peek t s ''(''")
  obtain k q e s2 where g: "gettoken t s1 = (k, q, e, s2)" by (cases "gettoken t s1")
  show ?case
  proof (cases f)
    case True
    then have "peek t s ''('' = (True, s1)" using p by simp
    then have "s < s2" "s2 \<le> length t" using peek_gettoken(2,3) g by blast+
    then have "4 * (length t - s2) + 4 \<le> n" using "8.prems" by linarith
    then have L: "parseline n t s2 \<noteq> Inl NoFuel"
      using "8.IH" [OF p [symmetric] _ g [symmetric] refl refl] True by simp
    show ?thesis
    proof (cases "parseline n t s2")
      case (Inr x)
      then show ?thesis using p g True parseredirs_total
        by (cases x) (auto split: prod.splits bool.splits)
    qed (use p g True L in auto)
  qed (use p in simp)
qed simp_all

section \<open>Properties\<close>

text \<open>C16: The shell's parser always comes to an end: for every command line it returns a command or
  stops with a syntax error, whatever the nesting of pipes, lists and parentheses. The fuel
  \<open>4 * length t + 4\<close> is never used up.\<close>

theorem parsecmd_terminates: "parsecmd t \<noteq> Inl NoFuel"
proof -
  have "parseline (parse_fuel t) t 0 \<noteq> Inl NoFuel" by (rule parse_total(1)) (simp add: parse_fuel_def)
  then show ?thesis unfolding parsecmd_def
    by (cases "parseline (parse_fuel t) t 0") (auto split: prod.splits)
qed

lemma nulterminate_length [simp]: "length (nulterminate c u) = length u"
proof (induction c u rule: nulterminate.induct)
  case (1 as u)
  show ?case by (induction as arbitrary: u) auto
qed auto

lemma fold_NUL:
  "i < length u \<Longrightarrow>
   fold (\<lambda>(q, e) u. u[e := NUL]) as u ! i = (if i \<in> snd ` set as then NUL else u ! i)"
proof (induction as arbitrary: u)
  case (Cons k as)
  then show ?case by (cases k) (auto simp: nth_list_update)
qed simp

lemma nulterminate_nth:
  "i < length u \<Longrightarrow> nulterminate c u ! i = (if i \<in> snd ` cmd_tokens c then NUL else u ! i)"
proof (induction c u rule: nulterminate.induct)
  case (1 as u)
  then show ?case by (simp add: fold_NUL)
qed (auto simp: nth_upd)

lemma wf_cmd_tokens: "wf_cmd t c \<Longrightarrow> k \<in> cmd_tokens c \<Longrightarrow> word_token t k"
  by (induction c) (auto simp: list_all_iff)

text \<open>The end of a token lies inside no other token, so the NULs cut nothing off.\<close>

lemma nulterminate_cstr:
  assumes w: "wf_cmd t c" and k: "(q, e) \<in> cmd_tokens c" and n: "NUL \<notin> set t"
  shows "cstr (nulterminate c t) q = take (e - q) (drop q t)"
proof -
  let ?u = "nulterminate c t"
  from wf_cmd_tokens [OF w k] have qe: "q < e" "e \<le> length t"
    and word: "\<And>i. q \<le> i \<Longrightarrow> i < e \<Longrightarrow> t ! i \<notin> set whitespace \<and> t ! i \<notin> set symbols"
    by (auto simp: word_token_def)
  have inside: "?u ! i = t ! i" if "q \<le> i" "i < e" for i
  proof -
    have "i \<notin> snd ` cmd_tokens c"
    proof
      assume "i \<in> snd ` cmd_tokens c"
      then obtain q' where "(q', i) \<in> cmd_tokens c" by force
      from wf_cmd_tokens [OF w this] have "i < length t \<longrightarrow> t ! i \<in> set whitespace \<union> set symbols"
        by (simp add: word_token_def)
      then show False using word that qe by auto
    qed
    then show ?thesis using that qe by (simp add: nulterminate_nth)
  qed
  have "takeWhile (\<lambda>c. c \<noteq> NUL) (drop q ?u) = take (e - q) (drop q ?u)"
  proof (rule takeWhile_eq_take_P_nth)
    fix i assume "i < e - q" "i < length (drop q ?u)"
    then show "drop q ?u ! i \<noteq> NUL" using inside [of "q + i"] n qe by (auto simp: in_set_conv_nth)
  next
    assume "e - q < length (drop q ?u)"
    moreover have "e \<in> snd ` cmd_tokens c" using k by force
    ultimately show "\<not> drop q ?u ! (e - q) \<noteq> NUL" using qe by (simp add: nulterminate_nth)
  qed
  also have "\<dots> = take (e - q) (drop q t)"
    using inside qe by (intro nth_equalityI) auto
  finally show ?thesis by (simp add: cstr_def)
qed

text \<open>C5: What the parser returns is well formed: every command has fewer than \<open>MAXARGS\<close>
  arguments, every redirection is one of descriptor 0 for reading or 1 for writing, every argument
  and file name is a word of the line; and after the line has been cut by \<open>nulterminate\<close>, the C
  string at every token is exactly that word.\<close>

theorem parsecmd_well_formed:
  assumes "parsecmd t = Inr (c, u)" "NUL \<notin> set t"
  shows "wf_cmd t c \<and> length u = length t \<and>
    (\<forall>(q, e) \<in> cmd_tokens c. cstr u q = take (e - q) (drop q t))"
proof -
  obtain c0 s s1 f where a: "parseline (parse_fuel t) t 0 = Inr (c0, s)" "peek t s [] = (f, s1)"
    using assms(1) by (cases "parseline (parse_fuel t) t 0", auto simp: parsecmd_def) (metis surj_pair)
  then have p: "parseline (parse_fuel t) t 0 = Inr (c, s)" "u = nulterminate c t"
    using assms(1) by (auto simp: parsecmd_def split: if_splits)
  have "wf_cmd t c" using parse_wf(1) [OF p(1)] by simp
  then show ?thesis using nulterminate_cstr [OF _ _ assms(2)] p(2) by auto
qed

lemma parse_sample:
  "parsecmd ''ls <f|x'' = Inr (PipeCmd (Redir (Exec [(0, 2)]) (4, 5) 0 0) (Exec [(6, 7)]),
     [CHR ''l'', CHR ''s'', NUL, CHR ''<'', CHR ''f'', NUL, CHR ''x''])"
  by code_simp

theorem parsecmd_well_formed_witness:
  "\<exists>c u. parsecmd ''ls <f|x'' = Inr (c, u) \<and> (0, 2) \<in> cmd_tokens c \<and> (4, 5) \<in> cmd_tokens c \<and>
     wf_cmd ''ls <f|x'' c \<and> length u = 7"
  using parsecmd_well_formed [OF parse_sample] parse_sample by (simp add: NUL_def)

end
