(* ===== verification/Mysh.thy ===== *)
theory Mysh
  imports Prelude
begin

text \<open>
  The command line of the shell p2/shell/mysh.c. A line is the list of characters of \<open>buff\<close> up
  to the NUL that \<open>main\<close> writes over the newline; pointers into it are indices. \<open>strtok\<close> is the
  C library's, with its saved position as an argument and a result; it writes NULs into the buffer.
\<close>

section \<open>Splitting with strtok\<close>

definition strspn :: "string \<Rightarrow> nat \<Rightarrow> string \<Rightarrow> nat" where
  "strspn buf i D = length (takeWhile (\<lambda>c. c \<noteq> NUL \<and> c \<in> set D) (drop i buf))"

definition strcspn :: "string \<Rightarrow> nat \<Rightarrow> string \<Rightarrow> nat" where
  "strcspn buf i D = length (takeWhile (\<lambda>c. c \<noteq> NUL \<and> c \<notin> set D) (drop i buf))"

definition strtok :: "string \<Rightarrow> nat \<Rightarrow> nat option \<Rightarrow> string \<Rightarrow> nat option \<times> string \<times> nat" where
  "strtok buf save so D =
     (let s = (case so of None \<Rightarrow> save | Some i \<Rightarrow> i);
          b = s + strspn buf s D; e = b + strcspn buf b D
      in if ch buf b = NUL then (None, buf, b)
         else if ch buf e = NUL then (Some b, buf, e)
         else (Some b, buf[e := NUL], e + 1))"

lemma strtok_length: "strtok buf save so D = (w, buf', save') \<Longrightarrow> length buf' = length buf"
  by (auto simp: strtok_def Let_def split: if_splits)

lemma strtok_advances:
  assumes "strtok buf save so D = (Some w, buf', save')"
  shows "(case so of None \<Rightarrow> save | Some i \<Rightarrow> i) \<le> w" "w < save'" "w < length buf"
proof -
  let ?s = "case so of None \<Rightarrow> save | Some i \<Rightarrow> i"
  have w: "w = ?s + strspn buf ?s D" "ch buf w \<noteq> NUL"
    and s: "w + strcspn buf w D \<le> save'"
    using assms by (auto simp: strtok_def Let_def split: if_splits)
  show len: "w < length buf" using w(2) by (rule ch_not_NUL)
  show "?s \<le> w" using w(1) by simp
  show "w < save'"
  proof (cases "buf ! w \<in> set D")
    case False
    then have "0 < strcspn buf w D" using len w(2)
      by (simp add: strcspn_def Cons_nth_drop_Suc [symmetric] ch_def)
    then show ?thesis using s by simp
  next
    case True
    let ?P = "\<lambda>c. c \<noteq> NUL \<and> c \<in> set D"
    have "\<not> ?P (drop ?s buf ! length (takeWhile ?P (drop ?s buf)))"
      using len w(1) by (intro nth_length_takeWhile) (simp add: strspn_def)
    moreover have "drop ?s buf ! length (takeWhile ?P (drop ?s buf)) = buf ! w"
      using len w(1) by (simp add: strspn_def)
    ultimately show ?thesis using True w(2) len by (simp add: ch_def)
  qed
qed

section \<open>The command list\<close>

datatype commandType = REGULAR_CMD | PIPE_CMD | TEE_CMD | O_REDIR_CMD | A_REDIR_CMD

record command =
  argList :: "string list"
  inputType :: commandType
  outputType :: commandType

definition blanks :: string where "blanks = [CHR '' '', CHR 0x09]"

text \<open>The words of a chunk: \<open>strtok\<close> from \<open>so\<close> first, then from the saved position.\<close>

function words_loop :: "string \<Rightarrow> nat \<Rightarrow> nat option \<Rightarrow> string list \<times> string \<times> nat" where
  "words_loop buf save so =
     (case strtok buf save so blanks of
        (None, buf', save') \<Rightarrow> ([], buf', save')
      | (Some w, buf', save') \<Rightarrow>
          (case words_loop buf' save' None of (ws, b, s) \<Rightarrow> (cstr buf' w # ws, b, s)))"
  by pat_completeness auto
termination
proof (relation "measure (\<lambda>(buf, save, so). length buf - (case so of None \<Rightarrow> save | Some i \<Rightarrow> i))",
    goal_cases)
  case (2 buf save so a b w buf' save')
  then have "strtok buf save so blanks = (Some w, buf', save')" by simp
  from strtok_advances [OF this] strtok_length [OF this] show ?case by (auto split: option.splits)
qed simp

declare words_loop.simps [simp del]

lemma words_loop_length: "words_loop buf save so = (ws, buf', save') \<Longrightarrow> length buf' = length buf"
proof (induction buf save so arbitrary: ws buf' save' rule: words_loop.induct)
  case (1 buf save so)
  obtain wo b1 s1 where t: "strtok buf save so blanks = (wo, b1, s1)" by (cases "strtok buf save so blanks")
  show ?case
  proof (cases wo)
    case None
    then show ?thesis using "1.prems" t strtok_length [OF t] by (simp add: words_loop.simps)
  next
    case (Some w)
    obtain ws2 b2 s2 where r: "words_loop b1 s1 None = (ws2, b2, s2)" by (cases "words_loop b1 s1 None")
    have "length b2 = length b1" using "1.IH" [OF t [symmetric] Some refl r] .
    then show ?thesis using "1.prems" t r Some strtok_length [OF t]
      by (simp add: words_loop.simps [of buf save so])
  qed
qed

text \<open>The variables of \<open>main\<close>: the buffer, \<open>currInput\<close>, \<open>inType\<close>, the list, and strtok's state.\<close>

record mparse =
  mbuf :: string
  mcur :: nat
  mtype :: commandType
  mcmds :: "command list"
  msave :: nat

definition appendToCommandList :: "nat option \<Rightarrow> commandType \<Rightarrow> commandType \<Rightarrow> mparse \<Rightarrow> mparse" where
  "appendToCommandList chunk iType oType m =
     (case words_loop (mbuf m) (msave m) chunk of (ws, b, sv) \<Rightarrow>
        m\<lparr>mbuf := b, mcmds := mcmds m @ [\<lparr>argList = ws, inputType = iType, outputType = oType\<rparr>],
          msave := sv\<rparr>)"

definition badCharNext :: "string \<Rightarrow> nat \<Rightarrow> bool" where
  "badCharNext buf i =
     (let c0 = ch buf i; c1 = ch buf (i + 1); c2 = ch buf (i + 2) in
      if c0 = CHR ''|'' \<or> c0 = CHR ''%'' then
        c1 \<noteq> NUL \<and> (c1 = CHR ''|'' \<or> c1 = CHR ''>'' \<or> c1 = CHR ''%'')
      else if c0 = CHR ''>'' then
        c1 \<noteq> NUL \<and> c2 \<noteq> NUL \<and> (c1 = CHR ''|'' \<or> c2 = CHR ''>'' \<or> c1 = CHR ''%'')
      else False)"

text \<open>The body of a case of the switch: cut off the chunk, append it, go on after the operator.\<close>

definition take_op :: "string \<Rightarrow> commandType \<Rightarrow> nat \<Rightarrow> mparse \<Rightarrow> mparse" where
  "take_op D oT nxt m =
     (case strtok (mbuf m) (msave m) (Some (mcur m)) D of (token, b, sv) \<Rightarrow>
        (appendToCommandList token (mtype m) oT (m\<lparr>mbuf := b, mcur := nxt, msave := sv\<rparr>))\<lparr>mtype := oT\<rparr>)"

lemma append_length [simp]: "length (mbuf (appendToCommandList c i oT m)) = length (mbuf m)"
  using words_loop_length by (auto simp: appendToCommandList_def split: prod.splits)

lemma take_op_length [simp]: "length (mbuf (take_op D oT nxt m)) = length (mbuf m)"
  using strtok_length by (auto simp: take_op_def split: prod.splits)

text \<open>The loop over the characters; the first result is \<open>errorSeen\<close>.\<close>

function scan_line :: "nat \<Rightarrow> mparse \<Rightarrow> bool \<times> mparse" where
  "scan_line i m =
     (let c = ch (mbuf m) i in
      if c = NUL then (False, m)
      else if c = CHR ''|'' then
        if badCharNext (mbuf m) i then (True, m) else scan_line (i + 1) (take_op ''|'' PIPE_CMD (i + 1) m)
      else if c = CHR ''%'' then
        if badCharNext (mbuf m) i then (True, m) else scan_line (i + 1) (take_op ''%'' TEE_CMD (i + 1) m)
      else if c = CHR ''>'' then
        if badCharNext (mbuf m) i then (True, m)
        else if ch (mbuf m) (i + 1) = CHR ''>'' then scan_line (i + 2) (take_op ''>>'' A_REDIR_CMD (i + 2) m)
        else scan_line (i + 1) (take_op ''>'' O_REDIR_CMD (i + 1) m)
      else scan_line (i + 1) m)"
  by pat_completeness auto
termination
  by (relation "measure (\<lambda>(i, m). length (mbuf m) - i)") (auto dest: ch_not_NUL)

declare scan_line.simps [simp del]

text \<open>One line: \<open>errorSeen\<close> and the command list that \<open>main\<close> hands to \<open>execCommands\<close>.\<close>

definition parse_line :: "string \<Rightarrow> bool \<times> command list" where
  "parse_line line =
     (case scan_line 0 \<lparr>mbuf = line, mcur = 0, mtype = REGULAR_CMD, mcmds = [], msave = 0\<rparr> of
        (err, m) \<Rightarrow> (err, mcmds (appendToCommandList (Some (mcur m)) (mtype m) REGULAR_CMD m)))"

section \<open>The reference: words between operators\<close>

definition is_blank :: "char \<Rightarrow> bool" where "is_blank c \<longleftrightarrow> c \<in> set blanks"

function words :: "string \<Rightarrow> string list" where
  "words xs =
     (let ys = dropWhile is_blank xs in
      if ys = [] then []
      else takeWhile (\<lambda>c. \<not> is_blank c) ys # words (dropWhile (\<lambda>c. \<not> is_blank c) ys))"
  by pat_completeness auto
termination
proof (relation "measure length", goal_cases)
  case (2 xs ys)
  obtain y zs where y: "ys = y # zs" using 2(2) by (cases ys) simp_all
  have "\<not> is_blank (hd ys)" using 2(2) unfolding 2(1) by (rule hd_dropWhile)
  then have nb: "\<not> is_blank y" using y by simp
  have "length (dropWhile (\<lambda>c. \<not> is_blank c) ys) \<le> length zs"
    using y nb by (simp add: length_dropWhile_le)
  moreover have "length ys \<le> length xs" using 2 by (simp add: length_dropWhile_le)
  ultimately show ?case using y by simp
qed simp

declare words.simps [simp del]

lemma words_blanks: "\<forall>c \<in> set xs. is_blank c \<Longrightarrow> words xs = []"
  by (subst words.simps) simp

lemma words_step:
  assumes "\<forall>c \<in> set bl. is_blank c" "\<forall>c \<in> set w. \<not> is_blank c" "w \<noteq> []"
    and "rest = [] \<or> is_blank (hd rest)"
  shows "words (bl @ w @ rest) = w # words (tl rest)"
proof -
  obtain c w' where w: "w = c # w'" using assms(3) by (cases w) auto
  have d: "dropWhile is_blank (bl @ w @ rest) = w @ rest"
    using assms(1,2) w by (simp add: dropWhile_append2)
  have "takeWhile (\<lambda>c. \<not> is_blank c) rest = []" "dropWhile (\<lambda>c. \<not> is_blank c) rest = rest"
    using assms(4) by (cases rest; simp)+
  then have "takeWhile (\<lambda>c. \<not> is_blank c) (w @ rest) = w" "dropWhile (\<lambda>c. \<not> is_blank c) (w @ rest) = rest"
    using assms(2) by (simp_all add: takeWhile_append2 dropWhile_append2)
  then have "words (bl @ w @ rest) = w # words rest"
    using d w by (subst words.simps) simp
  also have "words rest = words (tl rest)"
  proof (cases rest)
    case (Cons b r)
    then have "is_blank b" using assms(4) by simp
    then show ?thesis using Cons by (subst (1 2) words.simps) simp
  qed simp
  finally show ?thesis .
qed

lemma split_words:
  obtains (none) "\<forall>c \<in> set xs. is_blank c"
  | (word) bl w rest where "xs = bl @ w @ rest" "\<forall>c \<in> set bl. is_blank c" "\<forall>c \<in> set w. \<not> is_blank c"
      "w \<noteq> []" "rest = [] \<or> is_blank (hd rest)"
proof -
  let ?bl = "takeWhile is_blank xs" and ?ys = "dropWhile is_blank xs"
  let ?w = "takeWhile (\<lambda>c. \<not> is_blank c) ?ys" and ?rest = "dropWhile (\<lambda>c. \<not> is_blank c) ?ys"
  show ?thesis
  proof (cases "?ys = []")
    case True
    then show ?thesis using none by simp
  next
    case False
    then have "\<not> is_blank (hd ?ys)" by (rule hd_dropWhile)
    then have "?w \<noteq> []" using False by (cases ?ys) simp_all
    moreover have "?rest = [] \<or> is_blank (hd ?rest)" using hd_dropWhile by blast
    moreover have "\<forall>c \<in> set ?bl. is_blank c" "\<forall>c \<in> set ?w. \<not> is_blank c"
      by (auto dest: set_takeWhileD)
    moreover have "xs = ?bl @ ?w @ ?rest" by simp
    ultimately show ?thesis using word by blast
  qed
qed

section \<open>strtok on a segment that ends at a NUL\<close>

text \<open>The rest of the buffer after a segment: nothing, or it starts with a NUL.\<close>

definition nul_head :: "string \<Rightarrow> bool" where "nul_head suf \<longleftrightarrow> suf = [] \<or> hd suf = NUL"

lemma nul_head_ch: "nul_head suf \<Longrightarrow> ch (pre @ suf) (length pre) = NUL"
  by (cases suf) (auto simp: nul_head_def ch_def)

lemma takeWhile_nul_head: "nul_head suf \<Longrightarrow> takeWhile (\<lambda>c. c \<noteq> NUL \<and> P c) suf = []"
  by (cases suf) (auto simp: nul_head_def)

lemma strspn_at:
  assumes "\<forall>c \<in> set xs. c \<noteq> NUL \<and> c \<in> set D" "suf = [] \<or> hd suf = NUL \<or> hd suf \<notin> set D"
  shows "strspn (pre @ xs @ suf) (length pre) D = length xs"
proof -
  have "takeWhile (\<lambda>c. c \<noteq> NUL \<and> c \<in> set D) suf = []" using assms(2) by (cases suf) auto
  then show ?thesis using assms(1) by (simp add: strspn_def takeWhile_append2)
qed

lemma strcspn_at:
  assumes "\<forall>c \<in> set xs. c \<noteq> NUL \<and> c \<notin> set D" "suf = [] \<or> hd suf = NUL \<or> hd suf \<in> set D"
  shows "strcspn (pre @ xs @ suf) (length pre) D = length xs"
proof -
  have "takeWhile (\<lambda>c. c \<noteq> NUL \<and> c \<notin> set D) suf = []" using assms(2) by (cases suf) auto
  then show ?thesis using assms(1) by (simp add: strcspn_def takeWhile_append2)
qed

lemma ch_append [simp]: "ch (pre @ c # suf) (length pre) = c"
  by (simp add: ch_def nth_append)

text \<open>A token between delimiters.\<close>

lemma strtok_token:
  assumes "\<forall>c \<in> set bl. c \<noteq> NUL \<and> c \<in> set D" "\<forall>c \<in> set w. c \<noteq> NUL \<and> c \<notin> set D" "w \<noteq> []"
    and "\<forall>i. so = Some i \<longrightarrow> i = length pre" "so = None \<longrightarrow> save = length pre"
    and "d \<noteq> NUL" "d \<in> set D"
  shows "strtok (pre @ bl @ w @ d # rest) save so D =
     (Some (length (pre @ bl)), pre @ bl @ w @ NUL # rest, length (pre @ bl @ w @ [d]))"
proof -
  obtain c w' where w: "w = c # w'" using assms(3) by (cases w) auto
  have s: "(case so of None \<Rightarrow> save | Some i \<Rightarrow> i) = length pre"
    using assms(4,5) by (cases so) auto
  have 1: "strspn (pre @ bl @ w @ d # rest) (length pre) D = length bl"
    using strspn_at [of bl D "w @ d # rest" pre] assms(1,2) w by simp
  have 2: "strcspn (pre @ bl @ w @ d # rest) (length (pre @ bl)) D = length w"
    using strcspn_at [of w D "d # rest" "pre @ bl"] assms(2,7) by simp
  have 3: "ch (pre @ bl @ w @ d # rest) (length (pre @ bl)) \<noteq> NUL"
    using ch_append [of "pre @ bl" c "w' @ d # rest"] w assms(2) by simp
  have 4: "ch (pre @ bl @ w @ d # rest) (length (pre @ bl @ w)) = d"
    using ch_append [of "pre @ bl @ w" d rest] by simp
  show ?thesis unfolding strtok_def Let_def s
    using 1 2 3 4 assms(6) by (simp add: list_update_append add.assoc)
qed

lemma strtok_last:
  assumes "\<forall>c \<in> set bl. c \<noteq> NUL \<and> c \<in> set D" "\<forall>c \<in> set w. c \<noteq> NUL \<and> c \<notin> set D" "w \<noteq> []"
    and "\<forall>i. so = Some i \<longrightarrow> i = length pre" "so = None \<longrightarrow> save = length pre" "nul_head suf"
  shows "strtok (pre @ bl @ w @ suf) save so D =
     (Some (length (pre @ bl)), pre @ bl @ w @ suf, length (pre @ bl @ w))"
proof -
  obtain c w' where w: "w = c # w'" using assms(3) by (cases w) auto
  have s: "(case so of None \<Rightarrow> save | Some i \<Rightarrow> i) = length pre"
    using assms(4,5) by (cases so) auto
  have 1: "strspn (pre @ bl @ w @ suf) (length pre) D = length bl"
    using strspn_at [of bl D "w @ suf" pre] assms(1,2) w by simp
  have 2: "strcspn (pre @ bl @ w @ suf) (length (pre @ bl)) D = length w"
    using strcspn_at [of w D suf "pre @ bl"] assms(2,6) by (auto simp: nul_head_def)
  have 3: "ch (pre @ bl @ w @ suf) (length (pre @ bl)) \<noteq> NUL"
    using ch_append [of "pre @ bl" c "w' @ suf"] w assms(2) by simp
  have 4: "ch (pre @ bl @ w @ suf) (length (pre @ bl @ w)) = NUL"
    using nul_head_ch [OF assms(6), of "pre @ bl @ w"] by simp
  show ?thesis unfolding strtok_def Let_def s using 1 2 3 4 by (simp add: add.assoc)
qed

lemma strtok_none:
  assumes "\<forall>c \<in> set bl. c \<noteq> NUL \<and> c \<in> set D"
    and "\<forall>i. so = Some i \<longrightarrow> i = length pre" "so = None \<longrightarrow> save = length pre" "nul_head suf"
  shows "strtok (pre @ bl @ suf) save so D = (None, pre @ bl @ suf, length (pre @ bl))"
proof -
  have s: "(case so of None \<Rightarrow> save | Some i \<Rightarrow> i) = length pre"
    using assms(2,3) by (cases so) auto
  have 1: "strspn (pre @ bl @ suf) (length pre) D = length bl"
    using strspn_at [of bl D suf pre] assms(1,4) by (auto simp: nul_head_def)
  have 2: "ch (pre @ bl @ suf) (length (pre @ bl)) = NUL"
    using nul_head_ch [OF assms(4), of "pre @ bl"] by simp
  show ?thesis unfolding strtok_def Let_def s using 1 2 by simp
qed

text \<open>The words of a segment, wherever it stands; what is before and behind it stays.\<close>

lemma cstr_at: "NUL \<notin> set w \<Longrightarrow> nul_head suf \<Longrightarrow> cstr (pre @ w @ suf) (length pre) = w"
proof -
  assume w: "NUL \<notin> set w" and s: "nul_head suf"
  have "takeWhile (\<lambda>c. c \<noteq> NUL) (w @ suf) = w @ takeWhile (\<lambda>c. c \<noteq> NUL) suf"
    using w by (intro takeWhile_append2) auto
  moreover have "takeWhile (\<lambda>c. c \<noteq> NUL) suf = []" using s by (cases suf) (auto simp: nul_head_def)
  ultimately show ?thesis by (simp add: cstr_def)
qed

lemma words_loop_at:
  assumes "NUL \<notin> set xs" "nul_head suf"
    and "\<forall>i. so = Some i \<longrightarrow> i = length pre" "so = None \<longrightarrow> save = length pre"
  shows "\<exists>xs' sv. words_loop (pre @ xs @ suf) save so = (words xs, pre @ xs' @ suf, sv) \<and>
    length xs' = length xs"
  using assms
proof (induction "length xs" arbitrary: xs pre so save rule: less_induct)
  case less
  show ?case
  proof (cases xs rule: split_words)
    case none
    then have "\<forall>c \<in> set xs. c \<noteq> NUL \<and> c \<in> set blanks" using less.prems(1) by (auto simp: is_blank_def)
    note t = strtok_none [OF this less.prems(3,4,2)]
    show ?thesis using t words_blanks [OF none] by (simp add: words_loop.simps)
  next
    case (word bl w rest)
    have bl: "\<forall>c \<in> set bl. c \<noteq> NUL \<and> c \<in> set blanks" and w: "\<forall>c \<in> set w. c \<noteq> NUL \<and> c \<notin> set blanks"
      using word less.prems(1) by (auto simp: is_blank_def)
    have ws: "words xs = w # words (tl rest)" using words_step word by simp
    have nw: "NUL \<notin> set w" using w by auto
    show ?thesis
    proof (cases rest)
      case Nil
      have t: "strtok (pre @ xs @ suf) save so blanks =
          (Some (length (pre @ bl)), pre @ xs @ suf, length (pre @ xs))"
        using strtok_last [OF bl w word(4) less.prems(3,4,2)] word(1) Nil by simp
      have n: "words_loop (pre @ xs @ suf) (length (pre @ xs)) None = ([], pre @ xs @ suf, length (pre @ xs))"
        using strtok_none [of "[]" blanks None "pre @ xs" "length (pre @ xs)" suf] less.prems(2)
        by (simp add: words_loop.simps)
      have "cstr (pre @ xs @ suf) (length (pre @ bl)) = w"
        using cstr_at [OF nw less.prems(2), of "pre @ bl"] word(1) Nil by simp
      then have "words_loop (pre @ xs @ suf) save so = (words xs, pre @ xs @ suf, length (pre @ xs))"
        using t n ws Nil words_blanks [of "[]"] by (simp add: words_loop.simps [of _ save so])
      then show ?thesis by blast
    next
      case (Cons d r)
      then have d: "d \<noteq> NUL" "d \<in> set blanks" using word less.prems(1) by (auto simp: is_blank_def)
      let ?pre = "pre @ bl @ w @ [NUL]"
      have t: "strtok (pre @ xs @ suf) save so blanks =
          (Some (length (pre @ bl)), ?pre @ r @ suf, length ?pre)"
        using strtok_token [OF bl w word(4) less.prems(3,4) d, of "r @ suf"] word(1) Cons by simp
      have "length r < length xs" "NUL \<notin> set r" using word(1) Cons less.prems(1) by auto
      from less.hyps [OF this less.prems(2), of None ?pre "length ?pre"]
      obtain r' sv where ih: "words_loop (?pre @ r @ suf) (length ?pre) None = (words r, ?pre @ r' @ suf, sv)"
        "length r' = length r" by auto
      have c: "cstr (?pre @ r @ suf) (length (pre @ bl)) = w"
        using cstr_at [OF nw, of "NUL # r @ suf" "pre @ bl"] by (simp add: nul_head_def)
      have "words_loop (pre @ xs @ suf) save so = (words xs, ?pre @ r' @ suf, sv)"
        using t ih c ws Cons by (simp add: words_loop.simps [of _ save so])
      moreover have "?pre @ r' @ suf = pre @ (bl @ w @ [NUL] @ r') @ suf"
        "length (bl @ w @ [NUL] @ r') = length xs" using ih(2) word(1) Cons by simp_all
      ultimately show ?thesis by metis
    qed
  qed
qed

section \<open>A line of segments and operators\<close>

definition plain :: "string \<Rightarrow> bool" where
  "plain xs \<longleftrightarrow> (\<forall>c \<in> set xs. c \<noteq> NUL \<and> c \<noteq> CHR ''|'' \<and> c \<noteq> CHR ''%'' \<and> c \<noteq> CHR ''>'')"

fun op_text :: "commandType \<Rightarrow> string" where
  "op_text REGULAR_CMD = []"
| "op_text PIPE_CMD = ''|''"
| "op_text TEE_CMD = ''%''"
| "op_text O_REDIR_CMD = ''>''"
| "op_text A_REDIR_CMD = ''>>''"

fun render :: "(string \<times> commandType) list \<Rightarrow> string \<Rightarrow> string" where
  "render [] z = z"
| "render ((t, oT) # rest) z = t @ op_text oT @ render rest z"

text \<open>The commands such a line means: each segment with the operators on its two sides.\<close>

fun meaning :: "commandType \<Rightarrow> (string \<times> commandType) list \<Rightarrow> string \<Rightarrow> command list" where
  "meaning iT [] z = [\<lparr>argList = words z, inputType = iT, outputType = REGULAR_CMD\<rparr>]"
| "meaning iT ((t, oT) # rest) z =
     \<lparr>argList = words t, inputType = iT, outputType = oT\<rparr> # meaning oT rest z"

text \<open>
  The lines considered: segments without operators and NULs, not empty before an operator; between
  a \<open>>\<close> and a following \<open>>\<close> or \<open>>>\<close> at least two characters.
\<close>

fun proper :: "commandType \<Rightarrow> (string \<times> commandType) list \<Rightarrow> string \<Rightarrow> bool" where
  "proper iT [] z \<longleftrightarrow> plain z"
| "proper iT ((t, oT) # rest) z \<longleftrightarrow> plain t \<and> t \<noteq> [] \<and> oT \<noteq> REGULAR_CMD \<and>
     (iT = O_REDIR_CMD \<and> (oT = O_REDIR_CMD \<or> oT = A_REDIR_CMD) \<longrightarrow> 2 \<le> length t) \<and>
     proper oT rest z"

definition operators :: string where "operators = ''|%>''"

lemma plain_operators: "plain xs \<Longrightarrow> c \<in> set xs \<Longrightarrow> c \<noteq> NUL \<and> c \<notin> set operators"
  by (auto simp: plain_def operators_def)

lemma ch_shift: "ch (pre @ xs) (length pre + k) = ch xs k"
  by (simp add: ch_def)

lemma ch_Cons: "ch (c # xs) 0 = c" "ch (c # xs) (Suc k) = ch xs k"
  by (simp_all add: ch_def)

lemma ch_plain: "plain xs \<Longrightarrow> ch xs k \<notin> set operators"
  by (auto simp: ch_def plain_def operators_def NUL_def)

lemma render_first: "proper oT segs z \<Longrightarrow> ch (render segs z) 0 \<notin> set operators"
proof (cases segs)
  case (Cons s rest)
  assume p: "proper oT segs z"
  obtain t o2 where s: "s = (t, o2)" by (cases s)
  then obtain c t' where "t = c # t'" "plain t" using p Cons by (cases t) auto
  then show ?thesis using Cons s ch_plain [of t 0] by (simp add: ch_def)
qed (simp add: ch_plain)

lemma render_second: "proper O_REDIR_CMD segs z \<Longrightarrow> ch (render segs z) 1 \<noteq> CHR ''>''"
proof (cases segs)
  case Nil
  assume "proper O_REDIR_CMD segs z"
  then show ?thesis using Nil ch_plain [of z 1] by (auto simp: operators_def)
next
  case (Cons s rest)
  assume p: "proper O_REDIR_CMD segs z"
  obtain t o2 where s: "s = (t, o2)" by (cases s)
  with p Cons have t: "plain t" "t \<noteq> []" "o2 \<noteq> REGULAR_CMD"
    "o2 = O_REDIR_CMD \<or> o2 = A_REDIR_CMD \<longrightarrow> 2 \<le> length t" by auto
  show ?thesis
  proof (cases "2 \<le> length t")
    case True
    then have "ch (render segs z) 1 = t ! 1" "t ! 1 \<in> set t"
      using Cons s by (auto simp: ch_def nth_append)
    then show ?thesis using t(1) by (auto simp: plain_def)
  next
    case False
    then obtain c where c: "t = [c]" using t(2) by (cases t) (auto simp: Suc_le_eq)
    have "o2 = PIPE_CMD \<or> o2 = TEE_CMD" using False t(3,4) by (cases o2) auto
    then show ?thesis using Cons s c by (auto simp: ch_def)
  qed
qed

lemma scan_plain:
  "plain t \<Longrightarrow> mbuf m = pre @ t @ suf \<Longrightarrow> scan_line (length pre) m = scan_line (length (pre @ t)) m"
proof (induction t arbitrary: pre)
  case (Cons c t)
  then have c: "c \<noteq> NUL" "c \<noteq> CHR ''|''" "c \<noteq> CHR ''%''" "c \<noteq> CHR ''>''" by (auto simp: plain_def)
  have "ch (mbuf m) (length pre) = c" using Cons.prems by simp
  then have "scan_line (length pre) m = scan_line (length (pre @ [c])) m"
    using c by (simp add: scan_line.simps [of "length pre"] Let_def)
  also have "\<dots> = scan_line (length ((pre @ [c]) @ t)) m"
    using Cons.prems by (intro Cons.IH) (auto simp: plain_def)
  finally show ?case by simp
qed simp

lemma take_op_at:
  assumes t: "plain t" "t \<noteq> []" and m: "mbuf m = pre @ t @ d # rest" "mcur m = length pre"
    and d: "d \<noteq> NUL" "d \<in> set D" "set D \<subseteq> set operators"
  shows "\<exists>t' sv. take_op D oT nxt m = m\<lparr>mbuf := pre @ t' @ NUL # rest, mcur := nxt, mtype := oT,
      mcmds := mcmds m @ [\<lparr>argList = words t, inputType = mtype m, outputType = oT\<rparr>], msave := sv\<rparr> \<and>
    length t' = length t"
proof -
  have w: "\<forall>c \<in> set t. c \<noteq> NUL \<and> c \<notin> set D" using t(1) d(3) plain_operators by blast
  have s: "strtok (mbuf m) (msave m) (Some (mcur m)) D =
      (Some (length pre), pre @ t @ NUL # rest, length (pre @ t @ [d]))"
    using strtok_token [OF _ w t(2) _ _ d(1,2), of "[]" "Some (length pre)" pre "msave m" rest] m by simp
  have n: "NUL \<notin> set t" using t(1) by (auto simp: plain_def)
  obtain t' sv where l: "words_loop (pre @ t @ NUL # rest) (length (pre @ t @ [d])) (Some (length pre)) =
      (words t, pre @ t' @ NUL # rest, sv)" "length t' = length t"
    using words_loop_at [OF n, of "NUL # rest" "Some (length pre)" pre "length (pre @ t @ [d])"]
    by (auto simp: nul_head_def)
  show ?thesis using s l by (intro exI [of _ t'] exI [of _ sv])
    (simp add: take_op_def appendToCommandList_def)
qed

lemma scan_render:
  assumes "proper iT segs z" "mbuf m = pre @ render segs z" "mcur m = length pre" "mtype m = iT"
  shows "\<exists>m'. scan_line (length pre) m = (False, m') \<and>
    mcmds (appendToCommandList (Some (mcur m')) (mtype m') REGULAR_CMD m') = mcmds m @ meaning iT segs z"
  using assms
proof (induction segs arbitrary: iT m pre)
  case Nil
  then have z: "plain z" "mbuf m = pre @ z @ []" by simp_all
  have "scan_line (length pre) m = scan_line (length (pre @ z)) m" by (rule scan_plain [OF z])
  also have "\<dots> = (False, m)" using z(2) by (simp add: scan_line.simps ch_def)
  finally have s: "scan_line (length pre) m = (False, m)" .
  have n: "NUL \<notin> set z" using z(1) by (auto simp: plain_def)
  obtain z' sv where l: "words_loop (pre @ z @ []) (msave m) (Some (length pre)) =
      (words z, pre @ z' @ [], sv)"
    using words_loop_at [OF n, of "[]" "Some (length pre)" pre "msave m"] by (auto simp: nul_head_def)
  show ?case using s l z(2) Nil.prems(3,4) by (simp add: appendToCommandList_def)
next
  case (Cons s rest)
  obtain t oT where s: "s = (t, oT)" by (cases s)
  let ?r = "render rest z"
  define i where "i = length (pre @ t)"
  have t: "plain t" "t \<noteq> []" "oT \<noteq> REGULAR_CMD" "proper oT rest z" using Cons.prems(1) s by auto
  have buf: "mbuf m = pre @ t @ op_text oT @ ?r" using Cons.prems(2) s by simp
  note first = render_first [OF t(4)]
  have at: "ch (mbuf m) (i + k) = ch (op_text oT @ ?r) k" for k
    using ch_shift [of "pre @ t" "op_text oT @ ?r" k] buf by (simp add: i_def)
  note c = at [of 0] at [of 1] at [of 2] ch_Cons numeral_2_eq_2 first
  have "scan_line (length pre) m = scan_line i m" unfolding i_def by (rule scan_plain [OF t(1) buf])
  also have "\<exists>D nxt d rest'. scan_line i m = scan_line nxt (take_op D oT nxt m) \<and>
      op_text oT = d # rest' \<and> d \<noteq> NUL \<and> d \<in> set D \<and> set D \<subseteq> set operators \<and>
      nxt = i + length (op_text oT)"
  proof (cases oT)
    case PIPE_CMD
    then have "\<not> badCharNext (mbuf m) i" using c
      by (simp add: badCharNext_def Let_def operators_def)
    then show ?thesis using PIPE_CMD c
      by - (rule exI [of _ "''|''"], rule exI [of _ "i + 1"], rule exI [of _ "CHR ''|''"], rule exI [of _ "[]"],
          simp add: scan_line.simps [of i m] Let_def NUL_def operators_def)
  next
    case TEE_CMD
    then have "\<not> badCharNext (mbuf m) i" using c
      by (simp add: badCharNext_def Let_def operators_def)
    then show ?thesis using TEE_CMD c
      by - (rule exI [of _ "''%''"], rule exI [of _ "i + 1"], rule exI [of _ "CHR ''%''"], rule exI [of _ "[]"],
          simp add: scan_line.simps [of i m] Let_def NUL_def operators_def)
  next
    case O_REDIR_CMD
    then have "ch ?r 1 \<noteq> CHR ''>''" using render_second t(4) by simp
    then have "\<not> badCharNext (mbuf m) i" "ch (mbuf m) (i + 1) \<noteq> CHR ''>''"
      using O_REDIR_CMD c
      by (simp_all add: badCharNext_def Let_def operators_def)
    then show ?thesis using O_REDIR_CMD c
      by - (rule exI [of _ "''>''"], rule exI [of _ "i + 1"], rule exI [of _ "CHR ''>''"], rule exI [of _ "[]"],
          simp add: scan_line.simps [of i m] Let_def NUL_def operators_def)
  next
    case A_REDIR_CMD
    then have "\<not> badCharNext (mbuf m) i" using c
      by (simp add: badCharNext_def Let_def operators_def)
    then show ?thesis using A_REDIR_CMD c
      by - (rule exI [of _ "''>>''"], rule exI [of _ "i + 2"], rule exI [of _ "CHR ''>''"], rule exI [of _ "''>''"],
          simp add: scan_line.simps [of i m] Let_def NUL_def operators_def)
  qed (use t(3) in simp)
  finally obtain D nxt d rest' where step: "scan_line (length pre) m = scan_line nxt (take_op D oT nxt m)"
    and op: "op_text oT = d # rest'" "d \<noteq> NUL" "d \<in> set D" "set D \<subseteq> set operators"
    "nxt = i + length (op_text oT)" by blast
  have "mbuf m = pre @ t @ d # (rest' @ ?r)" using buf op(1) by simp
  from take_op_at [OF t(1,2) this Cons.prems(3) op(2,3,4), of oT nxt] obtain t' sv where
    tk: "take_op D oT nxt m = m\<lparr>mbuf := pre @ t' @ NUL # rest' @ ?r, mcur := nxt, mtype := oT,
      mcmds := mcmds m @ [\<lparr>argList = words t, inputType = mtype m, outputType = oT\<rparr>], msave := sv\<rparr>"
    "length t' = length t" by blast
  let ?m = "take_op D oT nxt m" and ?pre = "pre @ t' @ NUL # rest'"
  have "mbuf ?m = ?pre @ ?r" "mcur ?m = length ?pre" "mtype ?m = oT" "nxt = length ?pre"
    using tk op(1,5) by (simp_all add: i_def)
  from Cons.IH [OF t(4) this(1,2,3)] this(4) obtain m' where
    "scan_line nxt ?m = (False, m')"
    "mcmds (appendToCommandList (Some (mcur m')) (mtype m') REGULAR_CMD m') = mcmds ?m @ meaning oT rest z"
    by auto
  then show ?case using step tk s Cons.prems(4) by auto
qed

section \<open>Properties\<close>

text \<open>C15: The in-place parser of \<open>main\<close>, which scans the line once, cuts it with \<open>strtok\<close> and
  appends commands as it meets operators, finds what the line means: for segments separated by
  \<open>|\<close>, \<open>%\<close>, \<open>>\<close> and \<open>>>\<close> it sees no error and builds one command per segment, with the blank
  separated words of that segment as arguments and the operators on its left and right as types.\<close>

theorem parse_line_meaning:
  assumes "proper REGULAR_CMD segs z"
  shows "parse_line (render segs z) = (False, meaning REGULAR_CMD segs z)"
proof -
  let ?m = "\<lparr>mbuf = render segs z, mcur = 0, mtype = REGULAR_CMD, mcmds = [], msave = 0\<rparr>"
  obtain m' where "scan_line 0 ?m = (False, m')"
    "mcmds (appendToCommandList (Some (mcur m')) (mtype m') REGULAR_CMD m') = meaning REGULAR_CMD segs z"
    using scan_render [OF assms, of ?m "[]"] by auto
  then show ?thesis by (simp add: parse_line_def)
qed

theorem parse_line_meaning_witness:
  "parse_line ''ls -l | wc > out'' = (False,
     [\<lparr>argList = [''ls'', ''-l''], inputType = REGULAR_CMD, outputType = PIPE_CMD\<rparr>,
      \<lparr>argList = [''wc''], inputType = PIPE_CMD, outputType = O_REDIR_CMD\<rparr>,
      \<lparr>argList = [''out''], inputType = O_REDIR_CMD, outputType = REGULAR_CMD\<rparr>])"
proof -
  have w: "words ''ls -l '' = [''ls'', ''-l'']" "words '' wc '' = [''wc'']" "words '' out'' = [''out'']"
    by code_simp+
  have p: "proper REGULAR_CMD [(''ls -l '', PIPE_CMD), ('' wc '', O_REDIR_CMD)] '' out''"
    by (simp add: plain_def NUL_def)
  from parse_line_meaning [OF p] w show ?thesis by simp
qed

end
