(* ===== verification/MyshExec.thy ===== *)
theory MyshExec
  imports Mysh
begin

text \<open>
  How p2/shell/mysh.c runs a command list. A process is its table of descriptors, the globals of
  the program and the log of what it did; a forked child is a log inside the parent's log. The
  system calls are those of POSIX on a table: \<open>dup\<close>, \<open>open\<close> and \<open>pipe\<close> take the lowest free
  descriptors. Whether a call fails is decided by an environment, a record of predicates.
\<close>

section \<open>Descriptors\<close>

datatype desc = Std nat | PipeR nat | PipeW nat | FileW string bool

text \<open>
  \<open>MExec\<close> ends a process in a successful \<open>execvp\<close> with its arguments and descriptors, \<open>MExitFail\<close>
  in \<open>exit(EXIT_FAILURE)\<close>; \<open>MShell\<close> ends the log of a child that returns to the main loop.
\<close>

datatype mev = MErr | MFork "mev list" | MExec "string list" "desc option list" | MExitFail | MExit
  | MWait | MChdir string | MTeeFile | MShell

record mproc =
  fdt :: "desc option list"
  npipes :: nat
  gp :: "nat \<times> nat"
  gp2 :: "nat \<times> nat"
  goldOut :: "nat option"
  mlog :: "mev list"

record menv =
  e_fork :: "mproc \<Rightarrow> bool"
  e_exec :: "string list \<Rightarrow> bool"
  e_pipe :: "mproc \<Rightarrow> bool"
  e_open :: "string \<Rightarrow> bool"
  e_chdir :: "string option \<Rightarrow> bool"
  e_home :: "string option"

definition mnote :: "mev \<Rightarrow> mproc \<Rightarrow> mproc" where "mnote e s = s\<lparr>mlog := mlog s @ [e]\<rparr>"

definition alertError :: "mproc \<Rightarrow> mproc" where "alertError s = mnote MErr s"

fun lowest_free :: "'a option list \<Rightarrow> nat option" where
  "lowest_free [] = None"
| "lowest_free (None # xs) = Some 0"
| "lowest_free (Some x # xs) = map_option Suc (lowest_free xs)"

definition fd_close :: "nat \<Rightarrow> mproc \<Rightarrow> mproc" where
  "fd_close fd s = s\<lparr>fdt := (fdt s)[fd := None]\<rparr>"

definition fd_at :: "mproc \<Rightarrow> nat \<Rightarrow> desc option" where
  "fd_at s fd = (if fd < length (fdt s) then fdt s ! fd else None)"

definition fd_dup :: "nat \<Rightarrow> mproc \<Rightarrow> nat option \<times> mproc" where
  "fd_dup fd s =
     (case (fd_at s fd, lowest_free (fdt s)) of
        (Some d, Some i) \<Rightarrow> (Some i, s\<lparr>fdt := (fdt s)[i := Some d]\<rparr>)
      | _ \<Rightarrow> (None, s))"

definition fd_dup2 :: "nat \<Rightarrow> nat \<Rightarrow> mproc \<Rightarrow> mproc" where
  "fd_dup2 a b s = (case fd_at s a of None \<Rightarrow> s | Some d \<Rightarrow> s\<lparr>fdt := (fdt s)[b := Some d]\<rparr>)"

text \<open>\<open>pipe\<close>: the read and the write end, or \<open>None\<close> when it returns -1.\<close>

definition fd_pipe :: "menv \<Rightarrow> mproc \<Rightarrow> (nat \<times> nat) option \<times> mproc" where
  "fd_pipe E s =
     (if \<not> e_pipe E s then (None, s)
      else case lowest_free (fdt s) of None \<Rightarrow> (None, s)
        | Some r \<Rightarrow>
            let t1 = (fdt s)[r := Some (PipeR (npipes s))] in
            case lowest_free t1 of None \<Rightarrow> (None, s)
            | Some w \<Rightarrow> (Some (r, w), s\<lparr>fdt := t1[w := Some (PipeW (npipes s))], npipes := npipes s + 1\<rparr>))"

definition fd_open :: "menv \<Rightarrow> string \<Rightarrow> bool \<Rightarrow> mproc \<Rightarrow> nat option \<times> mproc" where
  "fd_open E f app s =
     (if \<not> e_open E f then (None, s)
      else case lowest_free (fdt s) of None \<Rightarrow> (None, s)
        | Some i \<Rightarrow> (Some i, s\<lparr>fdt := (fdt s)[i := Some (FileW f app)]\<rparr>))"

section \<open>Processes\<close>

text \<open>\<open>fork\<close>: what the child does from its copy, then the parent; an error ends the caller.\<close>

definition fork_do :: "menv \<Rightarrow> (mproc \<Rightarrow> mproc) \<Rightarrow> (mproc \<Rightarrow> mproc) \<Rightarrow> mproc \<Rightarrow> mproc" where
  "fork_do E child parent s =
     (if e_fork E s then parent (mnote (MFork (mlog (child (s\<lparr>mlog := []\<rparr>)))) s) else alertError s)"

text \<open>\<open>execvp\<close> followed by \<open>alertError\<close> and \<open>exit(EXIT_FAILURE)\<close>.\<close>

definition exec_or_exit :: "menv \<Rightarrow> string list \<Rightarrow> mproc \<Rightarrow> mproc" where
  "exec_or_exit E argv s =
     (if e_exec E argv then mnote (MExec argv (fdt s)) s else mnote MExitFail (alertError s))"

definition switchStdout :: "menv \<Rightarrow> string \<Rightarrow> commandType \<Rightarrow> mproc \<Rightarrow> mproc" where
  "switchStdout E newStream write_mode s =
     (if write_mode = O_REDIR_CMD \<or> write_mode = A_REDIR_CMD then
        let (od, s1) = fd_dup 1 s; s2 = s1\<lparr>goldOut := od\<rparr>;
            (nw, s3) = fd_open E newStream (write_mode = A_REDIR_CMD) s2
        in case nw of None \<Rightarrow> alertError s3 | Some n \<Rightarrow> fd_close n (fd_dup2 n 1 s3)
      else alertError s)"

definition revertStdout :: "mproc \<Rightarrow> mproc" where
  "revertStdout s = (case goldOut s of None \<Rightarrow> s | Some f \<Rightarrow> fd_close f (fd_dup2 f 1 s))"

definition close_pair :: "nat \<times> nat \<Rightarrow> mproc \<Rightarrow> mproc" where
  "close_pair q s = fd_close (snd q) (fd_close (fst q) s)"

text \<open>\<open>close(fd); dup(d);\<close>\<close>

definition redirect :: "nat \<Rightarrow> nat \<Rightarrow> mproc \<Rightarrow> mproc" where
  "redirect fd d s = snd (fd_dup d (fd_close fd s))"

section \<open>The executors\<close>

definition execDoublePipeRedir ::
  "menv \<Rightarrow> string list \<Rightarrow> string list \<Rightarrow> string list \<Rightarrow> string \<Rightarrow> commandType \<Rightarrow> mproc \<Rightarrow> mproc" where
  "execDoublePipeRedir E argv argv2 argv3 f mode s =
     (case fd_pipe E s of (None, s1) \<Rightarrow> alertError s1
      | (Some p, s1) \<Rightarrow>
        (case fd_pipe E (s1\<lparr>gp := p\<rparr>) of (None, s2) \<Rightarrow> alertError s2
         | (Some q, s2) \<Rightarrow>
           fork_do E (\<lambda>c. exec_or_exit E argv (close_pair q (close_pair p (redirect 1 (snd p) c))))
             (fork_do E (\<lambda>c. exec_or_exit E argv2 (close_pair q (close_pair p
                               (redirect 1 (snd q) (redirect 0 (fst p) c)))))
               (fork_do E (\<lambda>c. exec_or_exit E argv3 (close_pair q (close_pair p
                                 (switchStdout E f mode (redirect 0 (fst q) c)))))
                 (\<lambda>s3. mnote MWait (mnote MWait (mnote MWait (close_pair q (close_pair p s3)))))))
             (s2\<lparr>gp2 := q\<rparr>)))"

definition execSinglePipeRedir ::
  "menv \<Rightarrow> string list \<Rightarrow> string list \<Rightarrow> string \<Rightarrow> commandType \<Rightarrow> mproc \<Rightarrow> mproc" where
  "execSinglePipeRedir E argv argv2 f mode s =
     (case fd_pipe E s of (None, s1) \<Rightarrow> alertError s1
      | (Some p, s1) \<Rightarrow>
        fork_do E (\<lambda>c. exec_or_exit E argv (close_pair p (redirect 1 (snd p) c)))
          (fork_do E (\<lambda>c. exec_or_exit E argv2 (switchStdout E f mode (close_pair p (redirect 0 (fst p) c))))
            (\<lambda>s2. mnote MWait (mnote MWait (close_pair p s2))))
          (s1\<lparr>gp := p\<rparr>))"

text \<open>
  The right-hand side of \<open>execSinglePipe\<close>; \<open>left\<close> says that \<open>argv\<close> was not NULL. The child of the
  left-hand side has no \<open>exit\<close> after \<open>execvp\<close>: when that fails it goes on here and returns to the
  main loop as a second shell.
\<close>

definition single_pipe_right :: "menv \<Rightarrow> bool \<Rightarrow> string list \<Rightarrow> nat \<times> nat \<Rightarrow> mproc \<Rightarrow> mproc" where
  "single_pipe_right E left argv2 p s =
     fork_do E (\<lambda>c. exec_or_exit E argv2 (close_pair p (redirect 0 (fst p) c)))
       (\<lambda>s2. mnote MWait (if left then mnote MWait (close_pair p s2) else close_pair p s2)) s"

definition execSinglePipe :: "menv \<Rightarrow> string list option \<Rightarrow> string list \<Rightarrow> mproc \<Rightarrow> mproc" where
  "execSinglePipe E argvo argv2 s =
     (case fd_pipe E s of (None, s1) \<Rightarrow> alertError s1
      | (Some p, s1) \<Rightarrow>
        let s2 = s1\<lparr>gp := p\<rparr> in
        case argvo of None \<Rightarrow> single_pipe_right E False argv2 p s2
        | Some argv \<Rightarrow>
            fork_do E
              (\<lambda>c. let c1 = close_pair p (redirect 1 (snd p) c) in
                 if e_exec E argv then mnote (MExec argv (fdt c1)) c1
                 else mnote MShell (single_pipe_right E True argv2 p c1))
              (single_pipe_right E True argv2 p) s2)"

definition execDoublePipe ::
  "menv \<Rightarrow> string list option \<Rightarrow> string list \<Rightarrow> string list \<Rightarrow> mproc \<Rightarrow> mproc" where
  "execDoublePipe E argvo argv2 argv3 s =
     (case fd_pipe E s of (None, s1) \<Rightarrow> alertError s1
      | (Some p, s1) \<Rightarrow>
        (case fd_pipe E (s1\<lparr>gp := p\<rparr>) of (None, s2) \<Rightarrow> alertError s2
         | (Some q, s2) \<Rightarrow>
           let rest =
             fork_do E (\<lambda>c. exec_or_exit E argv2 (close_pair q (close_pair p
                              (redirect 1 (snd q) (redirect 0 (fst p) c)))))
               (fork_do E (\<lambda>c. exec_or_exit E argv3 (close_pair q (close_pair p (redirect 0 (fst q) c))))
                 (\<lambda>s3. let s4 = close_pair q (close_pair p s3)
                   in mnote MWait (mnote MWait (if argvo \<noteq> None then mnote MWait s4 else s4))))
           in case argvo of None \<Rightarrow> rest (s2\<lparr>gp2 := q\<rparr>)
              | Some argv \<Rightarrow>
                  fork_do E (\<lambda>c. exec_or_exit E argv (close_pair q (close_pair p (redirect 1 (snd p) c))))
                    rest (s2\<lparr>gp2 := q\<rparr>)))"

text \<open>
  \<open>checkOutputType\<close> and \<open>execSingleCommand\<close> use the head of a list, its size field and the first
  argument of the second command.
\<close>

definition checkOutputType :: "menv \<Rightarrow> nat \<Rightarrow> command list \<Rightarrow> mproc \<Rightarrow> bool \<times> mproc" where
  "checkOutputType E sz cs s =
     (let m = outputType (hd cs) in
      if m = O_REDIR_CMD \<or> m = A_REDIR_CMD then
        if sz = 2 \<and> argList (cs ! 1) = [] then (True, alertError s)
        else (False, switchStdout E (hd (argList (cs ! 1))) m s)
      else (False, s))"

definition execSingleCommand :: "menv \<Rightarrow> nat \<Rightarrow> command list \<Rightarrow> string list \<Rightarrow> mproc \<Rightarrow> mproc" where
  "execSingleCommand E sz cs argv s =
     (case checkOutputType E sz cs s of
        (True, s1) \<Rightarrow> s1
      | (False, s1) \<Rightarrow>
          fork_do E (exec_or_exit E argv)
            (\<lambda>s2. let s3 = mnote MWait s2; m = outputType (hd cs)
              in if m = O_REDIR_CMD \<or> m = A_REDIR_CMD then revertStdout s3 else s3) s1)"

section \<open>Dispatch on the shape of the list\<close>

definition streq :: "string \<Rightarrow> string \<Rightarrow> nat \<Rightarrow> bool" where
  "streq a b n \<longleftrightarrow> take n a = take n b"

definition is_redir :: "commandType \<Rightarrow> bool" where
  "is_redir m \<longleftrightarrow> m = O_REDIR_CMD \<or> m = A_REDIR_CMD"

definition exec_three :: "menv \<Rightarrow> command list \<Rightarrow> mproc \<Rightarrow> mproc" where
  "exec_three E cs s =
     (let argv = argList (cs ! 0); argv2 = argList (cs ! 1); argv3 = argList (cs ! 2);
          mode = inputType (cs ! 2)
      in if is_redir (outputType (cs ! 0)) then
           let s1 = execSinglePipe E None argv3 (execSingleCommand E 0 cs argv s)
           in if mode = TEE_CMD then mnote MTeeFile s1 else s1
         else if mode = PIPE_CMD then execDoublePipe E (Some argv) argv2 argv3 s
         else if outputType (cs ! 0) = PIPE_CMD then execSinglePipeRedir E argv argv2 (hd argv3) mode s
         else execDoublePipeRedir E argv [''./mytee''] argv2 (hd argv3) mode s)"

definition exec_four :: "menv \<Rightarrow> command list \<Rightarrow> mproc \<Rightarrow> mproc" where
  "exec_four E cs s =
     (let argv = argList (cs ! 0); argv2 = argList (cs ! 1); argv3 = argList (cs ! 2);
          argv4 = argList (cs ! 3)
      in if is_redir (inputType (cs ! 3)) then
           execDoublePipeRedir E argv argv2 argv3 (hd argv4) (inputType (cs ! 3)) s
         else if is_redir (outputType (cs ! 0)) then
           execDoublePipe E None argv3 argv4 (execSingleCommand E 4 cs argv s)
         else if is_redir (outputType (cs ! 1)) then
           execSinglePipe E None argv4
             (execSinglePipeRedir E argv argv2 (hd argv3) (outputType (cs ! 1)) s)
         else s)"

text \<open>The first result says that the shell has ended.\<close>

definition execCommands :: "menv \<Rightarrow> command list \<Rightarrow> mproc \<Rightarrow> bool \<times> mproc" where
  "execCommands E cs s =
     (if \<exists>c \<in> set cs. argList c = [] then (False, alertError s)
      else
        let argv = argList (hd cs) in
        if streq (hd argv) ''exit'' 4 \<and> length cs = 1 \<and> length argv = 1 then (True, mnote MExit s)
        else if streq (hd argv) ''cd'' 2 \<and> length cs = 1 then
          let d = (if length argv > 1 then Some (argv ! 1) else e_home E);
              s1 = (case d of Some x \<Rightarrow> mnote (MChdir x) s | None \<Rightarrow> s)
          in (False, if e_chdir E d then s1 else alertError s1)
        else if length cs = 1 \<or> length cs = 2 \<and> is_redir (outputType (hd cs)) then
          (False, execSingleCommand E (length cs) cs argv s)
        else if length cs = 2 then
          (False, if outputType (hd cs) = PIPE_CMD
                  then execSinglePipe E (Some argv) (argList (cs ! 1)) s
                  else execDoublePipe E (Some argv) [''./mytee''] (argList (cs ! 1)) s)
        else if length cs = 3 then (False, exec_three E cs s)
        else if length cs = 4 then (False, exec_four E cs s)
        else (False, alertError s))"

text \<open>
  The loop of \<open>main\<close> over the lines \<open>getline\<close> returns; the last character of each, the newline, is
  overwritten by the NUL.
\<close>

fun mysh_main :: "menv \<Rightarrow> string list \<Rightarrow> mproc \<Rightarrow> mproc" where
  "mysh_main E [] s = mnote MExit s"
| "mysh_main E (line # ls) s =
     (case parse_line (butlast line) of (errorSeen, cs) \<Rightarrow>
        let s1 = (if errorSeen then alertError s else s) in
        if length cs = 1 \<and> argList (hd cs) = [] \<or> errorSeen then mysh_main E ls s1
        else case execCommands E cs s1 of
            (True, s2) \<Rightarrow> s2
          | (False, s2) \<Rightarrow> mysh_main E ls s2)"

section \<open>mytee\<close>

text \<open>
  p2/shell/mytee.c copies its input by \<open>fgets\<close> with a buffer of \<open>MAX_LENGTH\<close> characters: a piece
  ends after a newline or at 1024 characters. A full piece is written with length \<open>MAX_LENGTH\<close>, its
  NUL included. Both outputs, the file and stdout, get the same bytes; the input has no NULs.
\<close>

definition MAX_LENGTH :: nat where "MAX_LENGTH = 1025"

definition fgets :: "nat \<Rightarrow> string \<Rightarrow> string" where
  "fgets n xs = (let a = takeWhile (\<lambda>c. c \<noteq> CHR 0x0A) xs in take (n - 1) (take (length a + 1) xs))"

function mytee :: "string \<Rightarrow> string" where
  "mytee xs =
     (if xs = [] then []
      else let buff = fgets MAX_LENGTH xs; len = length buff
        in (if len < MAX_LENGTH - 1 then buff else take MAX_LENGTH (buff @ [NUL])) @ mytee (drop len xs))"
  by pat_completeness auto
termination
  by (relation "measure length") (auto simp: fgets_def MAX_LENGTH_def Let_def)

declare mytee.simps [simp del]

section \<open>Properties\<close>

lemma lowest_free_Some:
  "lowest_free xs = Some i \<longleftrightarrow> i < length xs \<and> xs ! i = None \<and> (\<forall>j<i. xs ! j \<noteq> None)"
proof (induction xs arbitrary: i rule: lowest_free.induct)
  case (3 x xs)
  show ?case using 3 by (cases i) (auto simp: less_Suc_eq_0_disj)
qed (auto simp: nth_Cons split: nat.splits)

lemma lowest_free_None: "lowest_free xs = None \<longleftrightarrow> None \<notin> set xs"
  by (induction xs rule: lowest_free.induct) auto

lemma redirect_eq:
  assumes "fd_at s d = Some x" "d \<noteq> fd" "fd < length (fdt s)" "\<forall>j<fd. fdt s ! j \<noteq> None"
  shows "redirect fd d s = s\<lparr>fdt := (fdt s)[fd := Some x]\<rparr>"
proof -
  have "lowest_free ((fdt s)[fd := None]) = Some fd"
    unfolding lowest_free_Some using assms(3,4) by simp
  moreover have "fd_at (fd_close fd s) d = Some x"
    using assms(1,2) by (auto simp: fd_at_def fd_close_def split: if_splits)
  ultimately show ?thesis by (simp add: redirect_def fd_dup_def fd_close_def)
qed

lemma fdt_close_pair [simp]: "fdt (close_pair (r, w) s) = (fdt s)[r := None, w := None]"
  by (simp add: close_pair_def fd_close_def)

lemma mlog_close_pair [simp]: "mlog (close_pair q s) = mlog s"
  by (simp add: close_pair_def fd_close_def)

lemma mlog_redirect [simp]: "mlog (redirect fd d s) = mlog s"
  by (auto simp: redirect_def fd_dup_def fd_close_def split: option.splits)

lemma fdt_mnote [simp]: "fdt (mnote e s) = fdt s" "mlog (mnote e s) = mlog s @ [e]"
  by (simp_all add: mnote_def)

text \<open>A new pipe takes two free descriptors, the lowest ones.\<close>

lemma fd_pipe_eq:
  assumes "fd_pipe E s = (Some (r, w), s')"
  shows "r < length (fdt s)" "w < length (fdt s)" "r \<noteq> w" "fdt s ! r = None" "fdt s ! w = None"
    "s' = s\<lparr>fdt := (fdt s)[r := Some (PipeR (npipes s)), w := Some (PipeW (npipes s))],
            npipes := npipes s + 1\<rparr>"
proof -
  let ?t = "(fdt s)[r := Some (PipeR (npipes s))]"
  from assms have l: "lowest_free (fdt s) = Some r" "lowest_free ?t = Some w"
    and s': "s' = s\<lparr>fdt := ?t[w := Some (PipeW (npipes s))], npipes := npipes s + 1\<rparr>"
    by (auto simp: fd_pipe_def Let_def split: if_splits option.splits)
  from l show "r < length (fdt s)" "fdt s ! r = None" "w < length (fdt s)" unfolding lowest_free_Some by simp_all
  from l show n: "r \<noteq> w" unfolding lowest_free_Some by auto
  with l show "fdt s ! w = None" unfolding lowest_free_Some by simp
  show "s' = s\<lparr>fdt := (fdt s)[r := Some (PipeR (npipes s)), w := Some (PipeW (npipes s))],
            npipes := npipes s + 1\<rparr>" by (rule s')
qed

text \<open>
  Two pipes opened on a table \<open>t\<close>: with the ends installed, and with all of them closed again.
\<close>

definition with_ends :: "nat \<Rightarrow> nat \<times> nat \<Rightarrow> nat \<times> nat \<Rightarrow> desc option list \<Rightarrow> desc option list" where
  "with_ends n p q t = t[fst p := Some (PipeR n), snd p := Some (PipeW n),
     fst q := Some (PipeR (n + 1)), snd q := Some (PipeW (n + 1))]"

definition fresh_ends :: "nat \<times> nat \<Rightarrow> nat \<times> nat \<Rightarrow> desc option list \<Rightarrow> bool" where
  "fresh_ends p q t \<longleftrightarrow> distinct [0, 1, fst p, snd p, fst q, snd q] \<and>
     (\<forall>i \<in> {fst p, snd p, fst q, snd q}. i < length t \<and> t ! i = None)"

lemma two_pipes:
  assumes "fd_pipe E s = (Some p, s1)" "fd_pipe E (s1\<lparr>gp := p\<rparr>) = (Some q, s2)"
    and "1 < length (fdt s)" "fdt s ! 0 \<noteq> None" "fdt s ! 1 \<noteq> None"
  shows "fresh_ends p q (fdt s)" "fdt s2 = with_ends (npipes s) p q (fdt s)" "mlog s2 = mlog s"
proof -
  obtain r w r2 w2 where pq: "p = (r, w)" "q = (r2, w2)" by (cases p, cases q)
  note a = fd_pipe_eq [OF assms(1) [unfolded pq(1)]] and b = fd_pipe_eq [OF assms(2) [unfolded pq(2)]]
  show "fdt s2 = with_ends (npipes s) p q (fdt s)" "mlog s2 = mlog s"
    using a(6) b(6) pq by (simp_all add: with_ends_def)
  have t1: "fdt (s1\<lparr>gp := p\<rparr>) = (fdt s)[r := Some (PipeR (npipes s)), w := Some (PipeW (npipes s))]"
    using a(6) by simp
  have n: "r2 \<noteq> r" "r2 \<noteq> w" "w2 \<noteq> r" "w2 \<noteq> w"
    using a(1-3) b(1,2,4,5) unfolding t1 by (auto simp: nth_list_update split: if_splits)
  have "fdt s ! r2 = None" "fdt s ! w2 = None"
    using n b(4,5) unfolding t1 by simp_all
  moreover have "i \<noteq> 0 \<and> i \<noteq> 1" if "fdt s ! i = None" for i using that assms(4,5) by metis
  ultimately show "fresh_ends p q (fdt s)"
    unfolding fresh_ends_def using a(1-5) b(1-3) n unfolding t1 by (simp add: pq) metis
qed

text \<open>Closing the four ends brings back the table below, except what was redirected.\<close>

lemma close_ends:
  assumes f: "fresh_ends p q t" and s: "fdt s = (with_ends n p q t)[0 := a, 1 := b]" "1 < length t"
  shows "fdt (close_pair q (close_pair p s)) = t[0 := a, 1 := b]"
proof -
  obtain r w r2 w2 where pq: "p = (r, w)" "q = (r2, w2)" by (cases p, cases q)
  show ?thesis unfolding pq fdt_close_pair s(1)
  proof (rule nth_equalityI)
    fix i assume "i < length ((with_ends n (r, w) (r2, w2) t)[0 := a, 1 := b, r := None, w := None, r2 := None, w2 := None])"
    then have i: "i < length t" by (simp add: with_ends_def)
    show "(with_ends n (r, w) (r2, w2) t)[0 := a, 1 := b, r := None, w := None, r2 := None, w2 := None] ! i =
        t[0 := a, 1 := b] ! i"
      using f i s(2) unfolding fresh_ends_def with_ends_def pq by (auto simp: nth_upd)
  qed (simp add: with_ends_def)
qed

lemma with_ends_at:
  assumes "fresh_ends p q t" "1 < length t"
  shows "with_ends n p q t ! 0 = t ! 0" "with_ends n p q t ! 1 = t ! 1"
    "with_ends n p q t ! fst p = Some (PipeR n)" "with_ends n p q t ! snd p = Some (PipeW n)"
    "with_ends n p q t ! fst q = Some (PipeR (n + 1))" "with_ends n p q t ! snd q = Some (PipeW (n + 1))"
    "length (with_ends n p q t) = length t"
  using assms by (auto simp: fresh_ends_def with_ends_def nth_list_update)

lemma wired_children:
  assumes f: "fresh_ends p q t" and s: "fdt c = with_ends n p q t"
    and t: "1 < length t" "t ! 0 \<noteq> None" "t ! 1 \<noteq> None"
  shows "fdt (close_pair q (close_pair p (redirect 1 (snd p) c))) = t[1 := Some (PipeW n)]"
    "fdt (close_pair q (close_pair p (redirect 1 (snd q) (redirect 0 (fst p) c)))) =
      t[0 := Some (PipeR n), 1 := Some (PipeW (n + 1))]"
    "fdt (close_pair q (close_pair p (redirect 0 (fst q) c))) = t[0 := Some (PipeR (n + 1))]"
    "fdt (close_pair q (close_pair p c)) = t"
proof -
  note w = with_ends_at [OF f t(1), of n]
  have len: "0 < length t" using t(1) by linarith
  note fr = f [unfolded fresh_ends_def] len
  have id: "(with_ends n p q t)[0 := t ! 0] = with_ends n p q t"
    "(with_ends n p q t)[1 := t ! 1] = with_ends n p q t"
    using w(1,2) by (metis list_update_id)+
  have at: "fd_at c i = with_ends n p q t ! i" if "i < length t" for i
    using that s w(7) by (simp add: fd_at_def)
  have "redirect 1 (snd p) c = c\<lparr>fdt := (fdt c)[1 := Some (PipeW n)]\<rparr>"
    using fr t w s by (intro redirect_eq) (auto simp: at)
  then show "fdt (close_pair q (close_pair p (redirect 1 (snd p) c))) = t[1 := Some (PipeW n)]"
    using close_ends [OF f _ t(1), of _ n "t ! 0" "Some (PipeW n)"] id(1) s by simp
  have r0: "redirect 0 (fst p) c = c\<lparr>fdt := (fdt c)[0 := Some (PipeR n)]\<rparr>"
    using fr t w s by (intro redirect_eq) (auto simp: at)
  have "redirect 1 (snd q) (redirect 0 (fst p) c) =
      c\<lparr>fdt := (fdt c)[0 := Some (PipeR n), 1 := Some (PipeW (n + 1))]\<rparr>"
    unfolding r0 using fr t w s
    by (subst redirect_eq [of _ _ "PipeW (n + 1)"]) (auto simp: fd_at_def nth_upd less_Suc_eq)
  then show "fdt (close_pair q (close_pair p (redirect 1 (snd q) (redirect 0 (fst p) c)))) =
      t[0 := Some (PipeR n), 1 := Some (PipeW (n + 1))]"
    using close_ends [OF f _ t(1), of _ n "Some (PipeR n)" "Some (PipeW (n + 1))"] s by simp
  have "redirect 0 (fst q) c = c\<lparr>fdt := (fdt c)[0 := Some (PipeR (n + 1))]\<rparr>"
    using fr t w s by (intro redirect_eq) (auto simp: at)
  moreover have "(with_ends n p q t)[0 := Some (PipeR (n + 1)), 1 := t ! 1] =
      (with_ends n p q t)[0 := Some (PipeR (n + 1))]"
    using id(2) by (metis list_update_swap zero_neq_one)
  moreover have "t[0 := x, 1 := t ! 1] = t[0 := x]" for x
    by (metis list_update_id list_update_swap zero_neq_one)
  ultimately show "fdt (close_pair q (close_pair p (redirect 0 (fst q) c))) = t[0 := Some (PipeR (n + 1))]"
    using close_ends [OF f _ t(1), of _ n "Some (PipeR (n + 1))" "t ! 1"] s by simp
  show "fdt (close_pair q (close_pair p c)) = t"
    using close_ends [OF f _ t(1), of c n "t ! 0" "t ! 1"] id s by simp
qed

text \<open>C21: A chain of two pipes is wired as it should be. When the system calls succeed, the three
  programs run with the caller's descriptors except that the first writes to the first pipe, the
  second reads from it and writes to the second pipe, and the third reads from that; no other end
  of a pipe stays open in any of them, so each reader sees the end of its input, and the shell
  waits three times and has its own descriptors back.\<close>

theorem execDoublePipe_wires:
  assumes p: "fd_pipe E s = (Some p, s1)" "fd_pipe E (s1\<lparr>gp := p\<rparr>) = (Some q, s2)"
    and ok: "\<forall>x. e_fork E x" "e_exec E a" "e_exec E b" "e_exec E c"
    and std: "1 < length (fdt s)" "fdt s ! 0 \<noteq> None" "fdt s ! 1 \<noteq> None"
  shows "mlog (execDoublePipe E (Some a) b c s) = mlog s @
      [MFork [MExec a ((fdt s)[1 := Some (PipeW (npipes s))])],
       MFork [MExec b ((fdt s)[0 := Some (PipeR (npipes s)), 1 := Some (PipeW (npipes s + 1))])],
       MFork [MExec c ((fdt s)[0 := Some (PipeR (npipes s + 1))])], MWait, MWait, MWait] \<and>
    fdt (execDoublePipe E (Some a) b c s) = fdt s"
proof -
  note two = two_pipes [OF p std]
  show ?thesis
    using p ok two wired_children [OF two(1) _ std]
    by (simp add: execDoublePipe_def fork_do_def exec_or_exit_def Let_def)
qed

text \<open>An environment in which every call succeeds but \<open>execvp\<close> of the program \<open>nosuch\<close>.\<close>

definition env0 :: menv where
  "env0 = \<lparr>e_fork = (\<lambda>_. True), e_exec = (\<lambda>a. hd a \<noteq> ''nosuch''), e_pipe = (\<lambda>_. True),
     e_open = (\<lambda>_. True), e_chdir = (\<lambda>_. True), e_home = None\<rparr>"

definition proc0 :: mproc where
  "proc0 = \<lparr>fdt = map (\<lambda>i. if i < 3 then Some (Std i) else None) [0..<8], npipes = 0,
     gp = (0, 0), gp2 = (0, 0), goldOut = None, mlog = []\<rparr>"

theorem execDoublePipe_wires_witness:
  "\<exists>s'. execDoublePipe env0 (Some [''a'']) [''b''] [''c''] proc0 = s' \<and> fdt s' = fdt proc0 \<and>
     length (mlog s') = 6"
proof -
  have "\<exists>p s1. fd_pipe env0 proc0 = (Some p, s1) \<and> (\<exists>q s2. fd_pipe env0 (s1\<lparr>gp := p\<rparr>) = (Some q, s2))"
    by (simp add: fd_pipe_def env0_def proc0_def Let_def upt_rec)
  then obtain p s1 q s2 where "fd_pipe env0 proc0 = (Some p, s1)" "fd_pipe env0 (s1\<lparr>gp := p\<rparr>) = (Some q, s2)"
    by blast
  from execDoublePipe_wires [OF this, of "[''a'']" "[''b'']" "[''c'']"]
  show ?thesis by (simp add: env0_def proc0_def upt_rec)
qed

text \<open>When the left program of a pipe cannot be executed, its child does not end: it starts the
  right program a second time and then goes back to the main loop as a second shell, which reads
  the same standard input as the first.\<close>

lemma execSinglePipe_second_shell:
  assumes p: "fd_pipe E s = (Some p, s1)" and ok: "\<forall>x. e_fork E x" and no: "\<not> e_exec E a"
  shows "\<exists>left right. mlog (execSinglePipe E (Some a) b s) = mlog s @ [MFork left, MFork right, MWait, MWait] \<and>
    (\<exists>again. left = [MFork again, MWait, MWait, MShell])"
proof -
  have l: "mlog s1 = mlog s" using p fd_pipe_eq(6) [of E s "fst p" "snd p" s1] by simp
  show ?thesis using p ok no l
    by (simp add: execSinglePipe_def fork_do_def single_pipe_right_def Let_def)
qed

lemma execSinglePipe_second_shell_example:
  "\<exists>left right. mlog (execSinglePipe env0 (Some [''nosuch'']) [''b''] proc0) =
      [MFork left, MFork right, MWait, MWait] \<and> (\<exists>again. left = [MFork again, MWait, MWait, MShell])"
proof -
  have "\<exists>p s1. fd_pipe env0 proc0 = (Some p, s1)"
    by (simp add: fd_pipe_def env0_def proc0_def Let_def upt_rec)
  then obtain p s1 where "fd_pipe env0 proc0 = (Some p, s1)" by blast
  from execSinglePipe_second_shell [OF this, of "[''nosuch'']" "[''b'']"]
  show ?thesis by (simp add: env0_def proc0_def)
qed

end
