(* ===== verification/Grep.thy ===== *)
theory Grep
  imports Prelude
begin

text \<open>
  The pattern matcher of p4/xv6/user/grep.c, its search over a file, and the counting loop of
  wc.c. Strings are lists of characters up to the NUL. \<open>read\<close> takes the next bytes of the input,
  at most as many as a list of sizes allows.
\<close>

section \<open>The matcher\<close>

function matchhere :: "string \<Rightarrow> string \<Rightarrow> bool"
  and matchstar :: "char \<Rightarrow> string \<Rightarrow> string \<Rightarrow> bool" where
  "matchhere re text =
     (case re of
        [] \<Rightarrow> True
      | c # re' \<Rightarrow>
          if re' \<noteq> [] \<and> hd re' = CHR ''*'' then matchstar c (tl re') text
          else if c = CHR ''$'' \<and> re' = [] then text = []
          else (case text of [] \<Rightarrow> False
                | x # text' \<Rightarrow> if c = CHR ''.'' \<or> c = x then matchhere re' text' else False))"
| "matchstar c re text =
     (if matchhere re text then True
      else (case text of [] \<Rightarrow> False
            | x # text' \<Rightarrow> if x = c \<or> c = CHR ''.'' then matchstar c re text' else False))"
  by pat_completeness auto
termination
  by (relation "measures [\<lambda>x. case x of Inl (re, t) \<Rightarrow> 2 * length re | Inr (c, re, t) \<Rightarrow> 2 * length re + 1,
                          \<lambda>x. case x of Inl (re, t) \<Rightarrow> length t | Inr (c, re, t) \<Rightarrow> length t]") auto

declare matchhere.simps [simp del] matchstar.simps [simp del]

text \<open>The loop of \<open>match\<close> over the starting points, the empty rest included.\<close>

fun match_from :: "string \<Rightarrow> string \<Rightarrow> bool" where
  "match_from re [] = matchhere re []"
| "match_from re (x # text) = (if matchhere re (x # text) then True else match_from re text)"

definition match_re :: "string \<Rightarrow> string \<Rightarrow> bool" where
  "match_re re text =
     (if re \<noteq> [] \<and> hd re = CHR ''^'' then matchhere (tl re) text else match_from re text)"

section \<open>The search over a file\<close>

definition newline :: char where "newline = CHR 0x0A"

definition BUFSZ :: nat where "BUFSZ = 1024"

definition strchr_at :: "string \<Rightarrow> nat \<Rightarrow> char \<Rightarrow> nat option" where
  "strchr_at buf p c = map_option (\<lambda>j. p + j) (find (\<lambda>j. cstr buf p ! j = c) [0..<length (cstr buf p)])"

lemma strchr_at_bounds: "strchr_at buf p c = Some q \<Longrightarrow> p \<le> q \<and> q < length buf"
proof -
  assume "strchr_at buf p c = Some q"
  then obtain j where j: "q = p + j" "j < length (cstr buf p)"
    by (auto simp: strchr_at_def find_Some_iff)
  have "length (cstr buf p) \<le> length (drop p buf)" unfolding cstr_def by (rule length_takeWhile_le)
  then show ?thesis using j by simp
qed

text \<open>The lines of the buffer from \<open>p\<close> on: what is written, the last start and the buffer.\<close>

function grep_lines :: "string \<Rightarrow> string \<Rightarrow> nat \<Rightarrow> string \<times> nat \<times> string" where
  "grep_lines pat buf p =
     (case strchr_at buf p newline of
        None \<Rightarrow> ([], p, buf)
      | Some q \<Rightarrow>
          let b1 = buf[q := NUL]; line = cstr b1 p; hit = match_re pat line;
              (out, p', b2) = grep_lines pat (if hit then b1[q := newline] else b1) (q + 1)
          in ((if hit then line @ [newline] else []) @ out, p', b2))"
  by pat_completeness auto
termination
  by (relation "measure (\<lambda>(pat, buf, p). length buf - p)") (auto dest!: strchr_at_bounds)

declare grep_lines.simps [simp del]

definition put_at :: "string \<Rightarrow> nat \<Rightarrow> string \<Rightarrow> string" where
  "put_at buf m xs = take m buf @ xs @ drop (m + length xs) buf"

text \<open>The outer loop; \<open>ks\<close> bounds the reads, \<open>inp\<close> is the rest of the file.\<close>

definition grep_round :: "string \<Rightarrow> string \<Rightarrow> nat \<Rightarrow> string \<Rightarrow> string \<times> nat \<times> string" where
  "grep_round pat piece m buf =
     (let b1 = put_at buf m piece; m1 = m + length piece;
          (out, p, b2) = grep_lines pat b1 0;
          m2 = (if p = 0 then 0 else m1)
      in if m2 > 0 then (out, m2 - p, put_at b2 0 (take (m2 - p) (drop p b2))) else (out, m2, b2))"

primrec grep_loop :: "string \<Rightarrow> nat list \<Rightarrow> string \<Rightarrow> nat \<Rightarrow> string \<Rightarrow> string" where
  "grep_loop pat [] inp m buf = []"
| "grep_loop pat (k # ks) inp m buf =
     (let n = min k (min (BUFSZ - m) (length inp)) in
      if n = 0 then []
      else let (out, m', b') = grep_round pat (take n inp) m buf in out @ grep_loop pat ks (drop n inp) m' b')"

definition grep :: "string \<Rightarrow> nat list \<Rightarrow> string \<Rightarrow> string" where
  "grep pat ks inp = grep_loop pat ks inp 0 (replicate BUFSZ NUL)"

section \<open>wc\<close>

record wcount =
  wc_l :: nat
  wc_w :: nat
  wc_c :: nat
  wc_in :: bool

definition blank :: "char \<Rightarrow> bool" where
  "blank x \<longleftrightarrow> x \<in> {CHR '' '', CHR 0x0D, CHR 0x09, newline, CHR 0x0B}"

definition wc_char :: "char \<Rightarrow> wcount \<Rightarrow> wcount" where
  "wc_char x k =
     (let k1 = k\<lparr>wc_c := wc_c k + 1\<rparr>;
          k2 = (if x = newline then k1\<lparr>wc_l := wc_l k1 + 1\<rparr> else k1)
      in if blank x then k2\<lparr>wc_in := False\<rparr>
         else if \<not> wc_in k2 then k2\<lparr>wc_w := wc_w k2 + 1, wc_in := True\<rparr> else k2)"

text \<open>The buffers that \<open>read\<close> fills one after the other.\<close>

definition wc :: "string list \<Rightarrow> wcount" where
  "wc bufs = fold (\<lambda>b. fold wc_char b) bufs \<lparr>wc_l = 0, wc_w = 0, wc_c = 0, wc_in = False\<rparr>"

text \<open>Splitting the input into buffers does not change the counts: lines are newlines, and words
  are the non-blank characters that open the input or follow a blank.\<close>

definition word_starts :: "string \<Rightarrow> nat" where
  "word_starts xs = length (filter (\<lambda>(p, x). blank p \<and> \<not> blank x) (zip (CHR '' '' # xs) xs))"

lemma blank_simps: "blank newline" "blank (CHR '' '')" by (simp_all add: blank_def)

lemma wc_counts:
  "wc bufs = \<lparr>wc_l = count_list (concat bufs) newline, wc_w = word_starts (concat bufs),
     wc_c = length (concat bufs), wc_in = (concat bufs \<noteq> [] \<and> \<not> blank (last (concat bufs)))\<rparr>"
proof -
  have f: "fold (\<lambda>b. fold wc_char b) bufs = fold wc_char (concat bufs)"
    by (induction bufs) (simp_all add: fun_eq_iff)
  have z: "zip (a # xs @ [x]) (xs @ [x]) = zip (a # xs) xs @ [(last (a # xs), x)]"
    for xs :: string and a x
    by (induction xs arbitrary: a) simp_all
  have "fold wc_char xs \<lparr>wc_l = 0, wc_w = 0, wc_c = 0, wc_in = False\<rparr> =
      \<lparr>wc_l = count_list xs newline, wc_w = word_starts xs, wc_c = length xs,
        wc_in = (xs \<noteq> [] \<and> \<not> blank (last xs))\<rparr>" for xs
  proof (induction xs rule: rev_induct)
    case (snoc x xs)
    then show ?case
      by (cases "xs = []") (simp_all add: wc_char_def Let_def word_starts_def z blank_simps)
  qed (simp add: word_starts_def)
  then show ?thesis by (simp add: wc_def f)
qed

section \<open>What a pattern means\<close>

datatype item = One char | Many char

fun items :: "string \<Rightarrow> item list \<times> bool" where
  "items [] = ([], False)"
| "items [c] = (if c = CHR ''$'' then ([], True) else ([One c], False))"
| "items (c # d # re) =
     (if d = CHR ''*'' then case items re of (is, e) \<Rightarrow> (Many c # is, e)
      else case items (d # re) of (is, e) \<Rightarrow> (One c # is, e))"

definition char_ok :: "char \<Rightarrow> char \<Rightarrow> bool" where "char_ok c x \<longleftrightarrow> c = CHR ''.'' \<or> x = c"

fun fits :: "item \<Rightarrow> string \<Rightarrow> bool" where
  "fits (One c) p \<longleftrightarrow> (\<exists>x. p = [x] \<and> char_ok c x)"
| "fits (Many c) p \<longleftrightarrow> (\<forall>x \<in> set p. char_ok c x)"

text \<open>The text starts with pieces that fit the items, and nothing follows them before a \<open>$\<close>.\<close>

definition accepts :: "item list \<times> bool \<Rightarrow> string \<Rightarrow> bool" where
  "accepts ie text \<longleftrightarrow> (\<exists>ps rest. text = concat ps @ rest \<and> list_all2 fits (fst ie) ps \<and>
     (snd ie \<longrightarrow> rest = []))"

lemma accepts_Nil: "accepts ([], e) text \<longleftrightarrow> (e \<longrightarrow> text = [])"
  by (auto simp: accepts_def)

lemma accepts_One:
  "accepts (One c # is, e) text \<longleftrightarrow> (\<exists>x t. text = x # t \<and> char_ok c x \<and> accepts (is, e) t)"
proof
  assume "accepts (One c # is, e) text"
  then obtain ps rest where p: "text = concat ps @ rest" "list_all2 fits (One c # is) ps" "e \<longrightarrow> rest = []"
    by (auto simp: accepts_def)
  then obtain x ps' where "ps = [x] # ps'" "char_ok c x" "list_all2 fits is ps'"
    by (auto simp: list_all2_Cons1)
  with p show "\<exists>x t. text = x # t \<and> char_ok c x \<and> accepts (is, e) t"
    by (auto simp: accepts_def)
next
  assume "\<exists>x t. text = x # t \<and> char_ok c x \<and> accepts (is, e) t"
  then obtain x ps rest where x: "text = x # concat ps @ rest" "char_ok c x" "list_all2 fits is ps" "e \<longrightarrow> rest = []"
    by (auto simp: accepts_def)
  then show "accepts (One c # is, e) text"
    by (auto simp: accepts_def intro!: exI [of _ "[x] # ps"] exI [of _ rest])
qed

lemma accepts_Many:
  "accepts (Many c # is, e) text \<longleftrightarrow>
   accepts (is, e) text \<or> (\<exists>x t. text = x # t \<and> char_ok c x \<and> accepts (Many c # is, e) t)"
proof
  assume "accepts (Many c # is, e) text"
  then obtain qs rest where q: "text = concat qs @ rest" "list_all2 fits (Many c # is) qs" "e \<longrightarrow> rest = []"
    by (auto simp: accepts_def)
  then obtain p ps where "qs = p # ps" "\<forall>x \<in> set p. char_ok c x" "list_all2 fits is ps"
    by (auto simp: list_all2_Cons1)
  with q have p: "text = p @ concat ps @ rest" "\<forall>x \<in> set p. char_ok c x" "list_all2 fits is ps" "e \<longrightarrow> rest = []"
    by simp_all
  show "accepts (is, e) text \<or> (\<exists>x t. text = x # t \<and> char_ok c x \<and> accepts (Many c # is, e) t)"
  proof (cases p)
    case Nil
    then show ?thesis using p by (auto simp: accepts_def)
  next
    case (Cons x q)
    then have "accepts (Many c # is, e) (q @ concat ps @ rest)"
      using p by (auto simp: accepts_def intro!: exI [of _ "q # ps"] exI [of _ rest])
    then show ?thesis using p Cons by auto
  qed
next
  assume "accepts (is, e) text \<or> (\<exists>x t. text = x # t \<and> char_ok c x \<and> accepts (Many c # is, e) t)"
  then show "accepts (Many c # is, e) text"
  proof
    assume "accepts (is, e) text"
    then obtain ps rest where "text = concat ps @ rest" "list_all2 fits is ps" "e \<longrightarrow> rest = []"
      by (auto simp: accepts_def)
    then show ?thesis by (auto simp: accepts_def intro!: exI [of _ "[] # ps"] exI [of _ rest])
  next
    assume "\<exists>x t. text = x # t \<and> char_ok c x \<and> accepts (Many c # is, e) t"
    then obtain x qs rest where q: "text = x # concat qs @ rest" "char_ok c x"
      "list_all2 fits (Many c # is) qs" "e \<longrightarrow> rest = []"
      by (auto simp: accepts_def)
    then obtain p ps where "qs = p # ps" "\<forall>y \<in> set p. char_ok c y" "list_all2 fits is ps"
      by (auto simp: list_all2_Cons1)
    with q have "text = x # p @ concat ps @ rest" "\<forall>y \<in> set p. char_ok c y" "char_ok c x"
      "list_all2 fits is ps" "e \<longrightarrow> rest = []"
      by simp_all
    then show ?thesis by (auto simp: accepts_def intro!: exI [of _ "(x # p) # ps"] exI [of _ rest])
  qed
qed

lemma matchhere_star: "matchhere (c # CHR ''*'' # re) t = matchstar c re t"
  by (subst matchhere.simps) simp

lemma matchhere_char:
  "d \<noteq> CHR ''*'' \<Longrightarrow> matchhere (c # d # re) t =
     (case t of [] \<Rightarrow> False | x # t' \<Rightarrow> (c = CHR ''.'' \<or> c = x) \<and> matchhere (d # re) t')"
  by (subst matchhere.simps) (auto split: list.split)

lemma matchhere_accepts:
  "matchhere re text \<longleftrightarrow> accepts (items re) text"
  "matchstar c re text \<longleftrightarrow> accepts (Many c # fst (items re), snd (items re)) text"
proof (induction re "text" and c re "text" rule: matchhere_matchstar.induct)
  case (1 re tx)
  show ?case
  proof (cases re rule: items.cases)
    case 1
    then show ?thesis by (simp add: matchhere.simps accepts_Nil)
  next
    case (2 c)
    then show ?thesis using "1.IH"(2) [of c "[]"]
      by (cases tx) (auto simp: matchhere.simps [of "[c]"] matchhere.simps [of "[]"]
        accepts_One accepts_Nil char_ok_def)
  next
    case (3 c d re')
    obtain i e where r: "items re' = (i, e)" by fastforce
    obtain i' e' where r': "items (d # re') = (i', e')" by fastforce
    show ?thesis
    proof (cases "d = CHR ''*''")
      case True
      have "matchstar c re' tx = accepts (Many c # i, e) tx"
        using "1.IH"(1) [OF 3] True r by simp
      then show ?thesis using 3 True r by (simp add: matchhere_star)
    next
      case False
      have "matchhere (d # re') t = accepts (i', e') t" if "tx = x # t" "c = CHR ''.'' \<or> c = x" for x t
        using "1.IH"(2) [OF 3 _ _ that] False r' by simp
      then show ?thesis unfolding 3 using False r'
        by (cases tx) (auto simp: matchhere_char accepts_One char_ok_def)
    qed
  qed
next
  case (2 c re tx)
  obtain i e where r: "items re = (i, e)" by fastforce
  show ?case
  proof (cases tx)
    case Nil
    then show ?thesis using 2(1) r by (simp add: matchstar.simps [of c re "[]"] accepts_Many [of c i e "[]"])
  next
    case (Cons x t)
    have "matchstar c re t = accepts (Many c # i, e) t"
      if "\<not> matchhere re tx" "x = c \<or> c = CHR ''.''"
      using "2.IH"(2) [OF that(1) Cons that(2)] r by simp
    then show ?thesis using "2.IH"(1) r Cons
      by (auto simp: matchstar.simps [of c re "x # t"] accepts_Many [of c i e "x # t"] char_ok_def)
  qed
qed

text \<open>C28: The recursive matcher of grep is the meaning of the pattern. A pattern is a sequence of
  single characters and starred characters, \<open>.\<close> standing for any; \<open>match\<close> says yes exactly when some
  suffix of the line, or the line itself after \<open>^\<close>, splits into pieces that fit the sequence, up to
  the end of the line after \<open>$\<close>. It always returns.\<close>

theorem match_re_meaning:
  "match_re re text \<longleftrightarrow>
    (if re \<noteq> [] \<and> hd re = CHR ''^'' then accepts (items (tl re)) text
     else (\<exists>k \<le> length text. accepts (items re) (drop k text)))"
proof -
  have "match_from re text \<longleftrightarrow> (\<exists>k \<le> length text. accepts (items re) (drop k text))"
  proof (induction "text")
    case Nil
    then show ?case by (simp add: matchhere_accepts)
  next
    case (Cons x tx)
    have "(\<exists>k \<le> length (x # tx). accepts (items re) (drop k (x # tx))) \<longleftrightarrow>
        accepts (items re) (x # tx) \<or> (\<exists>k \<le> length tx. accepts (items re) (drop k tx))"
    proof
      assume "\<exists>k \<le> length (x # tx). accepts (items re) (drop k (x # tx))"
      then obtain k where "k \<le> length (x # tx)" "accepts (items re) (drop k (x # tx))" by blast
      then show "accepts (items re) (x # tx) \<or> (\<exists>k \<le> length tx. accepts (items re) (drop k tx))"
        by (cases k) auto
    next
      assume "accepts (items re) (x # tx) \<or> (\<exists>k \<le> length tx. accepts (items re) (drop k tx))"
      then show "\<exists>k \<le> length (x # tx). accepts (items re) (drop k (x # tx))"
        by (metis Suc_le_mono drop_0 drop_Suc_Cons le0 length_Cons)
    qed
    then show ?case using Cons by (simp add: matchhere_accepts)
  qed
  then show ?thesis by (auto simp only: match_re_def matchhere_accepts split: if_split)
qed

section \<open>What grep prints\<close>

function lines_of :: "string \<Rightarrow> string list" where
  "lines_of xs = (case dropWhile (\<lambda>x. x \<noteq> newline) xs of [] \<Rightarrow> []
     | _ # r \<Rightarrow> takeWhile (\<lambda>x. x \<noteq> newline) xs # lines_of r)"
  by pat_completeness auto
termination
proof (relation "measure length")
  fix xs y r assume "dropWhile (\<lambda>x. x \<noteq> newline) xs = y # r"
  then have "length (y # r) \<le> length xs" by (metis length_dropWhile_le)
  then show "(r, xs) \<in> measure length" by simp
qed simp

declare lines_of.simps [simp del]

lemma takeWhile_cut: "\<forall>x \<in> set l. P x \<Longrightarrow> \<not> P y \<Longrightarrow> takeWhile P (l @ y # r) = l"
  by (induction l) auto

lemma find_append_found: "\<forall>j \<in> set is. \<not> P j \<Longrightarrow> P k \<Longrightarrow> find P (is @ k # js) = Some k"
  by (induction "is") auto

lemma find_upt_takeWhile:
  "find (\<lambda>j. xs ! j = c) [0..<length xs] =
     (if c \<in> set xs then Some (length (takeWhile (\<lambda>x. x \<noteq> c) xs)) else None)"
proof (cases "c \<in> set xs")
  case True
  then obtain l r where x: "xs = l @ c # r" "c \<notin> set l" by (meson split_list_first)
  then have "takeWhile (\<lambda>x. x \<noteq> c) xs = l" by (auto intro!: takeWhile_cut)
  moreover have "xs ! j \<noteq> c" if "j < length l" for j
    using that x by (metis nth_append nth_mem)
  moreover have "[0..<length xs] = [0..<length l] @ length l # [length l + 1..<length xs]"
    using x(1) upt_add_eq_append [of 0 "length l" "length r + 1"]
      upt_conv_Cons [of "length l" "length l + (length r + 1)"] by (simp del: upt_Suc)
  ultimately show ?thesis using x by (simp add: find_append_found)
next
  case False
  then show ?thesis by (auto simp: find_None_iff)
qed

lemma cstr_cut:
  assumes x: "cstr buf p = l @ newline # r" and l: "newline \<notin> set l"
  defines "q \<equiv> p + length l"
  shows "strchr_at buf p newline = Some q" "cstr (buf[q := NUL]) p = l" "cstr (buf[q := v, q := w]) (q + 1) = r"
    "cstr (buf[q := v]) (q + 1) = r" "q < length buf"
proof -
  have "newline \<noteq> NUL" by (simp add: newline_def NUL_def)
  obtain t where d: "drop p buf = l @ newline # r @ t" and t: "t = [] \<or> hd t = NUL"
    using x takeWhile_dropWhile_id [of "\<lambda>y. y \<noteq> NUL" "drop p buf"] hd_dropWhile [of "\<lambda>y. y \<noteq> NUL" "drop p buf"]
    unfolding cstr_def by (metis append_Cons append_assoc)
  have lr: "NUL \<notin> set l" "NUL \<notin> set r" using x unfolding cstr_def
    by (metis (full_types) Un_iff set_append set_takeWhileD list.set_intros(2))+
  have tw: "takeWhile (\<lambda>y. y \<noteq> newline) (l @ newline # r) = l" using l by (intro takeWhile_cut) auto
  show "strchr_at buf p newline = Some q" unfolding strchr_at_def find_upt_takeWhile x tw by (simp add: q_def)
  have "length (drop p buf) > length l" using d by simp
  then have p: "p + length l < length buf" by simp
  then show "q < length buf" by (simp add: q_def)
  have "drop p (buf[q := NUL]) = l @ NUL # r @ t"
    using d by (simp add: q_def drop_update_swap)
  then show "cstr (buf[q := NUL]) p = l" unfolding cstr_def using lr(1) by (simp only:) (rule takeWhile_cut, auto)
  have d1: "drop (q + 1) buf = r @ t"
  proof -
    have "drop (q + 1) buf = drop (length l + 1) (drop p buf)" by (simp add: q_def ac_simps)
    then show ?thesis using d by simp
  qed
  have "takeWhile (\<lambda>y. y \<noteq> NUL) (r @ t) = r" using lr t by (cases t) (auto intro!: takeWhile_cut)
  then show "cstr (buf[q := v, q := w]) (q + 1) = r" "cstr (buf[q := v]) (q + 1) = r"
    unfolding cstr_def using d1 by simp_all
qed

lemma grep_lines_prints:
  "fst (grep_lines pat buf p) = concat (map (\<lambda>l. l @ [newline]) (filter (match_re pat) (lines_of (cstr buf p))))"
proof (induction pat buf p rule: grep_lines.induct)
  case (1 pat buf p)
  show ?case
  proof (cases "newline \<in> set (cstr buf p)")
    case False
    have d: "dropWhile (\<lambda>x. x \<noteq> newline) (cstr buf p) = []"
      unfolding dropWhile_eq_Nil_conv using False by blast
    have "lines_of (cstr buf p) = []" unfolding lines_of.simps [of "cstr buf p"] d by simp
    moreover have "strchr_at buf p newline = None" using False unfolding strchr_at_def find_upt_takeWhile by simp
    ultimately show ?thesis by (simp add: grep_lines.simps [of pat buf p])
  next
    case True
    then obtain l r where x: "cstr buf p = l @ newline # r" "newline \<notin> set l" by (meson split_list_first)
    note c = cstr_cut [OF x]
    define q where "q = p + length l"
    define b where "b = (if match_re pat l then buf[q := NUL, q := newline] else buf[q := NUL])"
    have s: "strchr_at buf p newline = Some q" and ln: "cstr (buf[q := NUL]) p = l" and r: "cstr b (q + 1) = r"
      using c by (simp_all add: q_def b_def)
    have IH: "fst (grep_lines pat b (q + 1)) =
        concat (map (\<lambda>l. l @ [newline]) (filter (match_re pat) (lines_of r)))"
      using "1.IH" [OF s refl refl refl, unfolded ln, folded b_def] by (simp only: r)
    have "dropWhile (\<lambda>x. x \<noteq> newline) l = []" "takeWhile (\<lambda>x. x \<noteq> newline) (l @ newline # r) = l"
      unfolding dropWhile_eq_Nil_conv using x(2) by (blast, intro takeWhile_cut, auto)
    then have "lines_of (l @ newline # r) = l # lines_of r"
      by (subst lines_of.simps) (simp add: dropWhile_append3)
    moreover have "fst (grep_lines pat buf p) =
        (if match_re pat l then l @ [newline] else []) @ fst (grep_lines pat b (q + 1))"
      by (simp add: grep_lines.simps [of pat buf p] s Let_def ln b_def split: prod.split)
    ultimately show ?thesis using IH x(1) by simp
  qed
qed

text \<open>When one read delivers the whole input, which has fewer than 1024 bytes and no NUL, grep
  prints exactly the complete lines that match, in their order, each with its newline; a last line
  without a newline is never printed.\<close>

lemma grep_prints_matches:
  assumes "length inp \<le> k" "length inp < BUFSZ" "NUL \<notin> set inp"
  shows "grep pat (k # ks) inp = concat (map (\<lambda>l. l @ [newline]) (filter (match_re pat) (lines_of inp)))"
proof (cases "inp = []")
  case True
  then show ?thesis by (simp add: grep_def lines_of.simps)
next
  case False
  have eof: "grep_loop pat ks [] m b = []" for m b by (cases ks) simp_all
  let ?b = "put_at (replicate BUFSZ NUL) 0 inp"
  have "cstr ?b 0 = inp"
    using assms by (cases "BUFSZ - length inp") (auto simp: cstr_def put_at_def intro!: takeWhile_cut)
  then have "fst (grep_round pat inp 0 (replicate BUFSZ NUL)) =
      concat (map (\<lambda>l. l @ [newline]) (filter (match_re pat) (lines_of inp)))"
    using grep_lines_prints [of pat ?b 0] by (auto simp: grep_round_def Let_def split: prod.split)
  moreover have "min k (min (BUFSZ - 0) (length inp)) = length inp" using assms by simp
  ultimately show ?thesis using False
    by (cases "grep_round pat inp 0 (replicate BUFSZ NUL)") (simp add: grep_def eof Let_def)
qed

lemma grep_prints_matches_example:
  "grep ''b.'' [9, 9] (''xbc'' @ [newline] @ ''b'' @ [newline] @ ''bb'') = ''xbc'' @ [newline]"
proof -
  have "concat (map (\<lambda>l. l @ [newline]) (filter (match_re ''b.'')
      (lines_of (''xbc'' @ [newline] @ ''b'' @ [newline] @ ''bb'')))) = ''xbc'' @ [newline]"
    by code_simp
  then show ?thesis
    using grep_prints_matches [of "''xbc'' @ [newline] @ ''b'' @ [newline] @ ''bb''" 9 "''b.''" "[9]"]
    by (simp add: BUFSZ_def NUL_def newline_def)
qed

text \<open>When the input comes in two reads, the search runs past the bytes of the second one into what
  the first one left behind: a line of the first read is printed a second time.\<close>

lemma grep_reprints_stale_line:
  "grep ''b'' [6, 2] (''ab'' @ [newline] @ ''bb'' @ [newline] @ ''cc'') =
     ''ab'' @ [newline] @ ''bb'' @ [newline] @ ''bb'' @ [newline]"
  by code_simp

end
