(* ===== verification/Fsck.thy ===== *)
theory Fsck
  imports Fs
begin

unbundle bit_operations_syntax

text \<open>
  The file system checker p5/fsck.c on an image of whole blocks. \<open>Undef\<close> is a run that leaves its
  arrays, uses a buffer nobody has set or seeks outside the range of an \<open>int\<close>: C promises nothing
  about it. \<open>Spent\<close> says that the fuel of a recursive walk was not enough. \<open>malloc\<close> and \<open>calloc\<close>
  are taken to succeed. The record behind the last inode, which the loop of \<open>checkFreeMap\<close> visits,
  is an argument.
\<close>

datatype fk_error = Undef | Spent

record dinode =
  d_type :: int
  d_major :: int
  d_minor :: int
  d_nlink :: int
  d_size :: nat
  d_addrs :: "nat list"

record fsck =
  img :: "nat \<Rightarrow> block"
  img_blocks :: nat
  mySuperblock :: superblock
  theirFreeMap :: "8 word list"
  myFreeMap :: "8 word list"
  myInodes :: "dinode list"

fun foldE :: "('a \<Rightarrow> 's \<Rightarrow> 'e + 's) \<Rightarrow> 'a list \<Rightarrow> 's \<Rightarrow> 'e + 's" where
  "foldE f [] s = Inr s"
| "foldE f (x # xs) s = bindE (f x s) (foldE f xs)"

section \<open>The image\<close>

definition seekToBlock :: "int \<Rightarrow> bool" where
  "seekToBlock b \<longleftrightarrow> 0 \<le> b \<and> b * int BSIZE < 2 ^ 31"

text \<open>A read past the end of the image leaves the buffer as it was.\<close>

definition read_block :: "int \<Rightarrow> block option \<Rightarrow> fsck \<Rightarrow> fk_error + block" where
  "read_block b old s =
     (if \<not> seekToBlock b then Inl Undef
      else if nat b < img_blocks s then Inr (img s (nat b))
      else case old of None \<Rightarrow> Inl Undef | Some v \<Rightarrow> Inr v)"

definition write_block :: "int \<Rightarrow> block \<Rightarrow> fsck \<Rightarrow> fk_error + fsck" where
  "write_block b v s =
     (if \<not> seekToBlock b then Inl Undef
      else Inr (s\<lparr>img := (img s)(nat b := v), img_blocks := max (img_blocks s) (nat b + 1)\<rparr>))"

text \<open>Fields of type \<open>uint\<close> and \<open>int\<close> read as an \<open>int\<close>.\<close>

definition as_int :: "nat \<Rightarrow> int" where "as_int a = s32 (int a)"

definition entry32 :: "block \<Rightarrow> nat \<Rightarrow> int" where "entry32 blk j = as_int (get32 blk (4 * j))"

section \<open>The superblock\<close>

definition get_sb :: "block \<Rightarrow> superblock" where
  "get_sb b = \<lparr>sb_size = get32 b 0, sb_nblocks = get32 b 4, sb_ninodes = get32 b 8\<rparr>"

definition put_sb :: "superblock \<Rightarrow> block \<Rightarrow> block" where
  "put_sb sb b = put32 8 (sb_ninodes sb) (put32 4 (sb_nblocks sb) (put32 0 (sb_size sb) b))"

definition expected_size :: "superblock \<Rightarrow> nat" where
  "expected_size sb = (4 + sb_ninodes sb div IPB + sb_nblocks sb) mod 2 ^ 32"

definition checkSuperblock :: "fsck \<Rightarrow> bool \<times> fsck" where
  "checkSuperblock s =
     (let sb = (if 1 < img_blocks s then get_sb (img s 1) else mySuperblock s); s1 = s\<lparr>mySuperblock := sb\<rparr>
      in if sb_size sb = 0 \<or> sb_nblocks sb = 0 \<or> sb_ninodes sb = 0 then (False, s1)
         else
           let e = expected_size sb;
               s2 = (if sb_size sb \<noteq> e
                     then s1\<lparr>mySuperblock := sb\<lparr>sb_size := e\<rparr>,
                             img := (img s1)(1 := put_sb (sb\<lparr>sb_size := e\<rparr>) (img s1 1))\<rparr>
                     else s1);
               sz = sb_size (mySuperblock s2)
           in (if sz mod BSIZE \<noteq> 0 then False
               else if sz < sb_ninodes sb \<or> sz < sb_nblocks sb then False else True, s2))"

section \<open>The block map\<close>

definition getCharIndexFromAddr :: "int \<Rightarrow> int" where
  "getCharIndexFromAddr addr = sgn addr * (\<bar>addr\<bar> div 8)"

definition getBitIndexFromAddr :: "int \<Rightarrow> int" where "getBitIndexFromAddr addr = c_rem addr 8"

definition markAsBusyInMyFreeMap :: "int \<Rightarrow> 8 word list \<Rightarrow> fk_error + 8 word list" where
  "markAsBusyInMyFreeMap addr m =
     (let ci = getCharIndexFromAddr addr; bi = getBitIndexFromAddr addr
      in if ci < 0 \<or> bi < 0 \<or> length m \<le> nat ci then Inl Undef
         else Inr (m[nat ci := push_bit (nat bi) 1 OR m ! nat ci]))"

definition markAsFreeInBitMap :: "int \<Rightarrow> fsck \<Rightarrow> fk_error + fsck" where
  "markAsFreeInBitMap addr s =
     (let ci = getCharIndexFromAddr addr; bi = getBitIndexFromAddr addr
      in if ci < 0 \<or> bi < 0 \<or> length (myFreeMap s) \<le> nat ci then Inl Undef
         else Inr (s\<lparr>theirFreeMap := (theirFreeMap s)
                    [nat ci := NOT (push_bit (nat bi) 1) AND myFreeMap s ! nat ci]\<rparr>))"

definition T_FILE :: int where "T_FILE = 2"

definition mark_inode :: "fsck \<Rightarrow> dinode \<Rightarrow> 8 word list \<Rightarrow> fk_error + 8 word list" where
  "mark_inode s d m0 =
     (if d_type d = T_DIR \<or> d_type d = T_FILE \<or> d_type d = T_DEV then
        bindE (foldE (\<lambda>j. markAsBusyInMyFreeMap (as_int (d_addrs d ! j))) [0..<NDIRECT] m0) (\<lambda>m1.
        if d_addrs d ! NDIRECT > 0 then
          bindE (markAsBusyInMyFreeMap (as_int (d_addrs d ! NDIRECT)) m1) (\<lambda>m2.
          bindE (read_block (as_int (d_addrs d ! NDIRECT)) None s) (\<lambda>blk.
            foldE (\<lambda>j m. if entry32 blk j > 0 then markAsBusyInMyFreeMap (entry32 blk j) m else Inr m)
              [0..<NINDIRECT] m2))
        else Inr m1)
      else Inr m0)"

text \<open>The inode that \<open>destroyInodeFromBlockAddr\<close> looks for, and what it does to it.\<close>

definition owns :: "fsck \<Rightarrow> nat \<Rightarrow> dinode \<Rightarrow> fk_error + bool" where
  "owns s addr d =
     (if \<exists>j \<in> set [0..<NDIRECT]. d_addrs d ! j = addr then Inr True
      else if d_addrs d ! NDIRECT = addr then Inr True
      else if d_addrs d ! NDIRECT > 0 then
        bindE (read_block (as_int (d_addrs d ! NDIRECT)) None s) (\<lambda>blk.
          Inr (\<exists>j \<in> set [0..<NINDIRECT]. entry32 blk j = int addr))
      else Inr False)"

fun owner_from :: "fsck \<Rightarrow> nat \<Rightarrow> nat \<Rightarrow> dinode list \<Rightarrow> fk_error + nat option" where
  "owner_from s addr k [] = Inr None"
| "owner_from s addr k (d # ds) =
     bindE (owns s addr d) (\<lambda>h. if h then Inr (Some k) else owner_from s addr (k + 1) ds)"

definition destroyInodeFromBlockAddr :: "nat \<Rightarrow> fsck \<Rightarrow> fk_error + fsck" where
  "destroyInodeFromBlockAddr addr s =
     bindE (owner_from s addr 0 (myInodes s)) (\<lambda>r. Inr (case r of None \<Rightarrow> s
       | Some k \<Rightarrow> s\<lparr>myInodes := (myInodes s)[k := (myInodes s ! k)\<lparr>d_type := 0\<rparr>]\<rparr>))"

definition and_byte :: "nat \<Rightarrow> fsck \<Rightarrow> fk_error + fsck" where
  "and_byte i s =
     (let t = theirFreeMap s ! i AND myFreeMap s ! i; m = myFreeMap s ! i XOR t;
          s1 = s\<lparr>theirFreeMap := (theirFreeMap s)[i := t], myFreeMap := (myFreeMap s)[i := m]\<rparr>
      in if m \<noteq> 0 then
           foldE (\<lambda>n s. if m AND drop_bit n 0x80 \<noteq> 0 then destroyInodeFromBlockAddr (i * 8 + n) s else Inr s)
             [0..<8] s1
         else Inr s1)"

definition first_bytes :: "8 word list \<Rightarrow> fk_error + 8 word list" where
  "first_bytes m = (if length m < 4 then Inl Undef
     else Inr (m[0 := 0xff, 1 := 0xff, 2 := 0xff, 3 := 0x1f]))"

definition inode_at :: "dinode \<Rightarrow> fsck \<Rightarrow> nat \<Rightarrow> dinode" where
  "inode_at past s i = (if i < length (myInodes s) then myInodes s ! i else past)"

definition checkFreeMap :: "dinode \<Rightarrow> fsck \<Rightarrow> fk_error + fsck" where
  "checkFreeMap past s =
     bindE (first_bytes (myFreeMap s)) (\<lambda>m0.
     bindE (foldE (\<lambda>i. mark_inode s (inode_at past s i)) [1..<sb_ninodes (mySuperblock s) + 1] m0) (\<lambda>m1.
     foldE and_byte [0..<length (theirFreeMap s)] (s\<lparr>myFreeMap := m1\<rparr>)))"

section \<open>Walking the directories\<close>

text \<open>The array \<open>parentDirectory\<close>: its size in bytes and its contents.\<close>

type_synonym dirbuf = "nat \<times> block"

definition load_block :: "int \<Rightarrow> nat \<Rightarrow> fsck \<Rightarrow> dirbuf \<Rightarrow> fk_error + dirbuf" where
  "load_block b off s = (\<lambda>(cap, buf).
     if \<not> seekToBlock b then Inl Undef
     else if \<not> nat b < img_blocks s then Inr (cap, buf)
     else if cap < off + BSIZE then Inl Undef
     else Inr (cap, \<lambda>k. if off \<le> k \<and> k < off + BSIZE then img s (nat b) (k - off) else buf k))"

definition store_block :: "int \<Rightarrow> nat \<Rightarrow> dirbuf \<Rightarrow> fsck \<Rightarrow> fk_error + fsck" where
  "store_block b off d s =
     (if fst d < off + BSIZE then Inl Undef
      else write_block b (\<lambda>k. if k < BSIZE then snd d (off + k) else 0) s)"

definition dir_load :: "nat \<Rightarrow> fsck \<Rightarrow> fk_error + dirbuf" where
  "dir_load p s =
     (let a = d_addrs (myInodes s ! p) in
      bindE (foldE (\<lambda>i d. if a ! i > 0 then load_block (as_int (a ! i)) (i * BSIZE) s d else Inr d) [0..<NDIRECT]
        ((d_size (myInodes s ! p) * 2) mod 2 ^ 32 * 16, \<lambda>_. 0)) (\<lambda>d.
      if a ! NDIRECT \<noteq> 0 then
        bindE (read_block (as_int (a ! NDIRECT)) (Some (\<lambda>_. 0)) s) (\<lambda>ib.
          foldE (\<lambda>j d. if entry32 ib j \<noteq> 0 then load_block (entry32 ib j) ((NDIRECT + j) * BSIZE) s d else Inr d)
            [0..<NINDIRECT] d)
      else Inr d))"

definition dir_store :: "nat \<Rightarrow> dirbuf \<Rightarrow> fsck \<Rightarrow> fk_error + fsck" where
  "dir_store p d s =
     (let a = d_addrs (myInodes s ! p) in
      bindE (foldE (\<lambda>k s. if a ! k > 0 then store_block (as_int (a ! k)) (k * BSIZE) d s else Inr s) [0..<NDIRECT] s) (\<lambda>s1.
      if a ! NDIRECT \<noteq> 0 then
        bindE (read_block (as_int (a ! NDIRECT)) (Some (\<lambda>_. 0)) s1) (\<lambda>ib.
          foldE (\<lambda>j s. if entry32 ib j \<noteq> 0 then store_block (entry32 ib j) ((NDIRECT + j) * BSIZE) d s else Inr s)
            [0..<NINDIRECT] s1)
      else Inr s1))"

definition dot :: "8 word" where "dot = 0x2E"

text \<open>The entry the code writes into directory 34, and the two every directory gets.\<close>

definition patch_34 :: "nat \<Rightarrow> dirbuf \<Rightarrow> fsck \<Rightarrow> fk_error + dirbuf \<times> fsck" where
  "patch_34 p d s =
     (if p = 34 then
        if fst d < 48 then Inl Undef
        else Inr ((fst d, put16 32 35 ((snd d)(34 := 0x31, 35 := 0))),
                  s\<lparr>myInodes := (myInodes s)[p := (myInodes s ! p)\<lparr>d_size := (d_size (myInodes s ! p) + 16) mod 2 ^ 32\<rparr>]\<rparr>)
      else Inr (d, s))"

definition dot_entries :: "nat \<Rightarrow> nat \<Rightarrow> dirbuf \<Rightarrow> fk_error + dirbuf" where
  "dot_entries p gp d =
     (if fst d < 32 then Inl Undef
      else Inr (fst d, put16 16 gp ((put16 0 p ((snd d)(2 := dot, 3 := 0)))(18 := dot, 19 := dot, 20 := 0))))"

definition dir_open :: "nat \<Rightarrow> nat \<Rightarrow> fsck \<Rightarrow> fk_error + dirbuf \<times> fsck" where
  "dir_open p gp s =
     bindE (dir_load p s) (\<lambda>d. bindE (patch_34 p d s) (\<lambda>(d1, s1).
     bindE (dot_entries p gp d1) (\<lambda>d2. Inr (d2, s1))))"

definition isInvalidType :: "dinode \<Rightarrow> bool" where "isInvalidType d \<longleftrightarrow> d_type d < 0 \<or> d_type d > 3"

definition no_inode :: dinode where
  "no_inode = \<lparr>d_type = 0, d_major = 0, d_minor = 0, d_nlink = 0, d_size = 0, d_addrs = replicate 13 0\<rparr>"

text \<open>The blocks of an inode of invalid type are marked free and the inode is cleared.\<close>

definition clear_inode :: "nat \<Rightarrow> fsck \<Rightarrow> fk_error + fsck" where
  "clear_inode n s =
     (let a = d_addrs (myInodes s ! n) in
      bindE (foldE (\<lambda>j. markAsFreeInBitMap (as_int (a ! j))) [0..<NDIRECT] s) (\<lambda>s1.
      bindE (if a ! NDIRECT > 0 then
               bindE (markAsFreeInBitMap (as_int (a ! NDIRECT)) s1) (\<lambda>s2.
               bindE (read_block (as_int (a ! NDIRECT)) None s2) (\<lambda>blk.
                 foldE (\<lambda>j s. if entry32 blk j > 0 then markAsFreeInBitMap (entry32 blk j) s else Inr s)
                   [0..<NINDIRECT] s2))
             else Inr s1) (\<lambda>s3.
      Inr (s3\<lparr>myInodes := (myInodes s3)[n := no_inode]\<rparr>))))"

datatype entry_action = Keep | Clear nat | Descend nat

definition entry_action :: "nat \<Rightarrow> dirbuf \<Rightarrow> fsck \<Rightarrow> fk_error + entry_action" where
  "entry_action i d s =
     (if fst d < 16 * i + 16 then Inl Undef
      else
        let inum = get16 (snd d) (16 * i) in
        if snd d (16 * i + 2) \<noteq> dot \<and> inum \<noteq> 0 then
          if length (myInodes s) \<le> inum then Inl Undef
          else if isInvalidType (myInodes s ! inum) then Inr (Clear inum)
          else if d_type (myInodes s ! inum) = T_DIR then Inr (Descend inum)
          else Inr Keep
        else Inr Keep)"

definition zero_entry :: "nat \<Rightarrow> dirbuf \<Rightarrow> dirbuf" where
  "zero_entry i d = (fst d, \<lambda>k. if 16 * i \<le> k \<and> k < 16 * i + 16 then 0 else snd d k)"

fun fixBadInodeTypes :: "nat \<Rightarrow> nat \<Rightarrow> nat \<Rightarrow> fsck \<Rightarrow> fk_error + fsck"
  and fix_entries :: "nat \<Rightarrow> nat \<Rightarrow> nat \<Rightarrow> dirbuf \<Rightarrow> fsck \<Rightarrow> fk_error + fsck" where
  "fixBadInodeTypes 0 p gp s = Inl Spent"
| "fixBadInodeTypes (Suc f) p gp s = bindE (dir_open p gp s) (\<lambda>(d, s1). fix_entries f p 0 d s1)"
| "fix_entries 0 p i d s = Inl Spent"
| "fix_entries (Suc f) p i d s =
     (if i < d_size (myInodes s ! p) div 16 then
        bindE (entry_action i d s) (\<lambda>a.
        bindE (case a of Keep \<Rightarrow> Inr (d, s)
               | Clear n \<Rightarrow> bindE (clear_inode n s) (\<lambda>s1. Inr (zero_entry i d, s1))
               | Descend n \<Rightarrow> bindE (fixBadInodeTypes f n p s) (\<lambda>s1. Inr (d, s1))) (\<lambda>(d1, s1).
        bindE (dir_store p d1 s1) (fix_entries f p (i + 1) d1)))
      else Inr s)"

section \<open>The program\<close>

definition ROOTINO :: nat where "ROOTINO = 1"

definition get_dinode :: "block \<Rightarrow> nat \<Rightarrow> dinode" where
  "get_dinode b o' = \<lparr>d_type = get_short b o', d_major = get_short b (o' + 2), d_minor = get_short b (o' + 4),
     d_nlink = get_short b (o' + 6), d_size = get32 b (o' + 8),
     d_addrs = map (\<lambda>k. get32 b (o' + 12 + 4 * k)) [0..<NDIRECT + 1]\<rparr>"

definition put_dinode :: "nat \<Rightarrow> dinode \<Rightarrow> block \<Rightarrow> block" where
  "put_dinode o' d b = put_addrs (o' + 12) (d_addrs d) (put32 (o' + 8) (d_size d) (put_short (o' + 6) (d_nlink d)
     (put_short (o' + 4) (d_minor d) (put_short (o' + 2) (d_major d) (put_short o' (d_type d) b)))))"

text \<open>The inodes fill the blocks from 2 on, the bitmap the blocks from \<open>bitMapRegionStart\<close> on.\<close>

definition read_inodes :: "fsck \<Rightarrow> fk_error + fsck" where
  "read_inodes s =
     (let n = sb_ninodes (mySuperblock s)
      in if img_blocks s * BSIZE < 2 * BSIZE + n * 64 then Inl Undef
         else Inr (s\<lparr>myInodes := map (\<lambda>i. get_dinode (img s (IBLOCK i)) (dinode_off i)) [0..<n]\<rparr>))"

definition write_inodes :: "fsck \<Rightarrow> fsck" where
  "write_inodes s = fold (\<lambda>i s. s\<lparr>img := (img s)(IBLOCK i := put_dinode (dinode_off i) (myInodes s ! i) (img s (IBLOCK i)))\<rparr>)
     [0..<length (myInodes s)] s"

definition bitMapRegionStart :: "fsck \<Rightarrow> nat" where
  "bitMapRegionStart s = 1 + 1 + sb_ninodes (mySuperblock s) div IPB + 1"

definition numBlockChars :: "fsck \<Rightarrow> nat" where
  "numBlockChars s = (let b = uadd (sb_nblocks (mySuperblock s)) 29 in b div 8 + (if b mod 8 \<noteq> 0 then 1 else 0))"

definition read_bitmap :: "fsck \<Rightarrow> fsck" where
  "read_bitmap s = (let z = bitMapRegionStart s; n = numBlockChars s in
     s\<lparr>theirFreeMap := map (\<lambda>i. if z + i div BSIZE < img_blocks s then img s (z + i div BSIZE) (i mod BSIZE) else 0) [0..<n],
       myFreeMap := replicate n 0\<rparr>)"

definition write_bitmap :: "fsck \<Rightarrow> fsck" where
  "write_bitmap s = (let z = bitMapRegionStart s in
     fold (\<lambda>i s. s\<lparr>img := (img s)(z + i div BSIZE := (img s (z + i div BSIZE))(i mod BSIZE := theirFreeMap s ! i)),
                    img_blocks := max (img_blocks s) (z + i div BSIZE + 1)\<rparr>)
       [0..<length (theirFreeMap s)] s)"

text \<open>\<open>False\<close> is the exit with \<open>EXIT_FAILURE\<close>.\<close>

definition fsck_main :: "nat \<Rightarrow> dinode \<Rightarrow> fsck \<Rightarrow> fk_error + bool \<times> fsck" where
  "fsck_main fuel past s =
     (let (ok, s1) = checkSuperblock s in
      if \<not> ok then Inr (False, s1)
      else
        bindE (read_inodes s1) (\<lambda>s2.
        if \<not> seekToBlock (int (bitMapRegionStart s2)) then Inl Undef else
        bindE (checkFreeMap past (read_bitmap s2)) (\<lambda>s3.
        if length (myInodes s3) \<le> ROOTINO then Inl Undef else
        bindE (fixBadInodeTypes fuel ROOTINO ROOTINO s3) (\<lambda>s4.
        if length (myInodes s4) \<le> 15 then Inl Undef else
        Inr (True, write_bitmap (write_inodes
          (s4\<lparr>myInodes := (myInodes s4)[15 := (myInodes s4 ! 15)\<lparr>d_nlink := 1\<rparr>]\<rparr>)))))))"

end
