(* ===== verification/FsckSpec.thy ===== *)
theory FsckSpec
  imports Fsck
begin

text \<open>
  What the checker establishes: the corrected superblock, the bits of the block map that survive,
  the inodes that are given up, and a directory cycle it never leaves.
\<close>

section \<open>Bits of the map\<close>

definition mbit :: "8 word list \<Rightarrow> nat \<Rightarrow> bool" where
  "mbit m b \<longleftrightarrow> bit (m ! (b div 8)) (b mod 8)"

lemma mark_index:
  assumes "0 \<le> a"
  shows "getCharIndexFromAddr a = int (nat a div 8)" "getBitIndexFromAddr a = int (nat a mod 8)"
  using assms by (auto simp: getCharIndexFromAddr_def getBitIndexFromAddr_def c_rem_nonneg zdiv_int zmod_int sgn_if)

lemma mark_bits:
  assumes "0 \<le> a" "nat a < 8 * length m"
  shows "\<exists>m'. markAsBusyInMyFreeMap a m = Inr m' \<and> length m' = length m \<and>
    (\<forall>b < 8 * length m. mbit m' b \<longleftrightarrow> mbit m b \<or> int b = a)"
proof -
  have c: "nat a div 8 < length m" using assms(2) by (simp add: less_mult_imp_div_less mult.commute)
  have "mbit (m[nat a div 8 := push_bit (nat a mod 8) 1 OR m ! (nat a div 8)]) b \<longleftrightarrow> mbit m b \<or> int b = a"
    if "b < 8 * length m" for b
  proof -
    have "b div 8 < length m" using that by (simp add: less_mult_imp_div_less mult.commute)
    moreover have "int b = a \<longleftrightarrow> nat a div 8 = b div 8 \<and> nat a mod 8 = b mod 8"
      using assms(1) by (metis int_nat_eq mod_div_decomp nat_int)
    moreover have "bit (push_bit (nat a mod 8) 1 OR w :: 8 word) (b mod 8) \<longleftrightarrow> bit w (b mod 8) \<or> nat a mod 8 = b mod 8" for w
      by (auto simp: bit_or_iff bit_exp_iff)
    ultimately show ?thesis using c by (auto simp: mbit_def nth_upd)
  qed
  then show ?thesis using c by (simp add: markAsBusyInMyFreeMap_def mark_index [OF assms(1)] Let_def)
qed

lemma foldE_mark:
  assumes "\<forall>j \<in> set xs. c j \<longrightarrow> 0 \<le> a j \<and> nat (a j) < 8 * length m"
  shows "\<exists>m'. foldE (\<lambda>j m. if c j then markAsBusyInMyFreeMap (a j) m else Inr m) xs m = Inr m' \<and>
    length m' = length m \<and> (\<forall>b < 8 * length m. mbit m' b \<longleftrightarrow> mbit m b \<or> (\<exists>j \<in> set xs. c j \<and> int b = a j))"
  using assms
proof (induction xs arbitrary: m)
  case Nil
  then show ?case by simp
next
  case (Cons j xs)
  obtain m1 where m1: "(if c j then markAsBusyInMyFreeMap (a j) m else Inr m) = Inr m1" "length m1 = length m"
    "\<forall>b < 8 * length m. mbit m1 b \<longleftrightarrow> mbit m b \<or> (c j \<and> int b = a j)"
    using mark_bits [of "a j" m] Cons.prems by (cases "c j") auto
  moreover from Cons.IH [of m1] Cons.prems m1(2) obtain m' where
    "foldE (\<lambda>j m. if c j then markAsBusyInMyFreeMap (a j) m else Inr m) xs m1 = Inr m'" "length m' = length m"
    "\<forall>b < 8 * length m. mbit m' b \<longleftrightarrow> mbit m1 b \<or> (\<exists>j \<in> set xs. c j \<and> int b = a j)" by auto
  ultimately show ?case by auto
qed

section \<open>The blocks of an inode\<close>

definition blocks_of :: "fsck \<Rightarrow> dinode \<Rightarrow> int list" where
  "blocks_of s d = map (\<lambda>j. as_int (d_addrs d ! j)) [0..<NDIRECT] @
     (if d_addrs d ! NDIRECT > 0
      then as_int (d_addrs d ! NDIRECT) #
        filter (\<lambda>e. e > 0) (map (entry32 (img s (nat (as_int (d_addrs d ! NDIRECT))))) [0..<NINDIRECT])
      else [])"

definition in_use :: "dinode \<Rightarrow> bool" where
  "in_use d \<longleftrightarrow> d_type d = T_DIR \<or> d_type d = T_FILE \<or> d_type d = T_DEV"

definition ind_ok :: "fsck \<Rightarrow> dinode \<Rightarrow> bool" where
  "ind_ok s d \<longleftrightarrow> (d_addrs d ! NDIRECT > 0 \<longrightarrow>
     seekToBlock (as_int (d_addrs d ! NDIRECT)) \<and> nat (as_int (d_addrs d ! NDIRECT)) < img_blocks s)"

definition in_map :: "nat \<Rightarrow> int \<Rightarrow> bool" where "in_map n a \<longleftrightarrow> 0 \<le> a \<and> nat a < 8 * n"

lemma mark_inode_bits:
  assumes "in_use d \<longrightarrow> ind_ok s d \<and> (\<forall>a \<in> set (blocks_of s d). in_map (length m) a)"
  shows "\<exists>m'. mark_inode s d m = Inr m' \<and> length m' = length m \<and>
    (\<forall>b < 8 * length m. mbit m' b \<longleftrightarrow> mbit m b \<or> (in_use d \<and> int b \<in> set (blocks_of s d)))"
proof (cases "in_use d")
  case False
  then show ?thesis by (simp add: mark_inode_def in_use_def)
next
  case True
  then have u: "ind_ok s d" "\<forall>a \<in> set (blocks_of s d). in_map (length m) a" using assms by auto
  define e where "e = as_int (d_addrs d ! NDIRECT)"
  define blk where "blk = img s (nat e)"
  obtain m1 where m1: "foldE (\<lambda>j. markAsBusyInMyFreeMap (as_int (d_addrs d ! j))) [0..<NDIRECT] m = Inr m1"
    "length m1 = length m"
    "\<forall>b < 8 * length m. mbit m1 b \<longleftrightarrow> mbit m b \<or> (\<exists>j \<in> set [0..<NDIRECT]. int b = as_int (d_addrs d ! j))"
    using foldE_mark [of "[0..<NDIRECT]" "\<lambda>_. True" "\<lambda>j. as_int (d_addrs d ! j)" m] u(2)
    by (auto simp: blocks_of_def in_map_def)
  show ?thesis
  proof (cases "d_addrs d ! NDIRECT > 0")
    case False
    then show ?thesis using True m1 by (auto simp: mark_inode_def in_use_def blocks_of_def)
  next
    case i: True
    have e: "in_map (length m1) e" "\<forall>j < NINDIRECT. entry32 blk j > 0 \<longrightarrow> in_map (length m1) (entry32 blk j)"
      using u(2) i m1(2) by (auto simp: blocks_of_def e_def blk_def)
    then obtain m2 where m2: "markAsBusyInMyFreeMap e m1 = Inr m2" "length m2 = length m"
      "\<forall>b < 8 * length m. mbit m2 b \<longleftrightarrow> mbit m1 b \<or> int b = e"
      using mark_bits [of e m1] m1(2) by (auto simp: in_map_def)
    obtain m3 where m3:
      "foldE (\<lambda>j m. if entry32 blk j > 0 then markAsBusyInMyFreeMap (entry32 blk j) m else Inr m) [0..<NINDIRECT] m2 = Inr m3"
      "length m3 = length m"
      "\<forall>b < 8 * length m. mbit m3 b \<longleftrightarrow> mbit m2 b \<or> (\<exists>j \<in> set [0..<NINDIRECT]. entry32 blk j > 0 \<and> int b = entry32 blk j)"
      using foldE_mark [of "[0..<NINDIRECT]" "\<lambda>j. entry32 blk j > 0" "entry32 blk" m2] e(2) m1(2) m2(2)
      by (auto simp: in_map_def)
    have "read_block e None s = Inr blk" using u(1) i by (simp add: ind_ok_def read_block_def e_def blk_def)
    then have "mark_inode s d m = Inr m3"
      using True i m1(1) m2(1) m3(1) by (simp add: mark_inode_def in_use_def e_def)
    moreover have "mbit m3 b \<longleftrightarrow> mbit m b \<or> int b \<in> set (blocks_of s d)" if "b < 8 * length m" for b
    proof -
      have "set (blocks_of s d) = (\<lambda>j. as_int (d_addrs d ! j)) ` set [0..<NDIRECT] \<union> {e} \<union>
          entry32 blk ` {j \<in> set [0..<NINDIRECT]. entry32 blk j > 0}"
        using i by (auto simp: blocks_of_def e_def blk_def)
      then show ?thesis using that m1(3) m2(3) m3(3) by blast
    qed
    ultimately show ?thesis using m3(2) True by blast
  qed
qed

lemma foldE_mark_inode:
  assumes "\<forall>i \<in> set xs. in_use (g i) \<longrightarrow> ind_ok s (g i) \<and> (\<forall>a \<in> set (blocks_of s (g i)). in_map (length m) a)"
  shows "\<exists>m'. foldE (\<lambda>i. mark_inode s (g i)) xs m = Inr m' \<and> length m' = length m \<and>
    (\<forall>b < 8 * length m. mbit m' b \<longleftrightarrow> mbit m b \<or> (\<exists>i \<in> set xs. in_use (g i) \<and> int b \<in> set (blocks_of s (g i))))"
  using assms
proof (induction xs arbitrary: m)
  case Nil
  then show ?case by simp
next
  case (Cons i xs)
  obtain m1 where m1: "mark_inode s (g i) m = Inr m1" "length m1 = length m"
    "\<forall>b < 8 * length m. mbit m1 b \<longleftrightarrow> mbit m b \<or> (in_use (g i) \<and> int b \<in> set (blocks_of s (g i)))"
    using mark_inode_bits [of "g i" s m] Cons.prems by auto
  moreover from Cons.IH [of m1] Cons.prems m1(2) obtain m' where
    "foldE (\<lambda>i. mark_inode s (g i)) xs m1 = Inr m'" "length m' = length m"
    "\<forall>b < 8 * length m. mbit m' b \<longleftrightarrow> mbit m1 b \<or> (\<exists>i \<in> set xs. in_use (g i) \<and> int b \<in> set (blocks_of s (g i)))"
    by auto
  ultimately show ?case by auto
qed

section \<open>Giving up inodes\<close>

definition has_block :: "fsck \<Rightarrow> nat \<Rightarrow> dinode \<Rightarrow> bool" where
  "has_block s a d \<longleftrightarrow> (\<exists>j < NDIRECT. d_addrs d ! j = a) \<or> d_addrs d ! NDIRECT = a \<or>
     (d_addrs d ! NDIRECT > 0 \<and>
      (\<exists>j < NINDIRECT. entry32 (img s (nat (as_int (d_addrs d ! NDIRECT)))) j = int a))"

definition drop_owner :: "fsck \<Rightarrow> nat \<Rightarrow> dinode list \<Rightarrow> dinode list" where
  "drop_owner s a ds = (case find (\<lambda>k. has_block s a (ds ! k)) [0..<length ds] of None \<Rightarrow> ds
     | Some k \<Rightarrow> ds[k := (ds ! k)\<lparr>d_type := 0\<rparr>])"

definition all_ind :: "fsck \<Rightarrow> dinode list \<Rightarrow> bool" where "all_ind s ds \<longleftrightarrow> (\<forall>d \<in> set ds. ind_ok s d)"

lemma all_ind_addrs: "map d_addrs ds = map d_addrs ds' \<Longrightarrow> all_ind s ds \<longleftrightarrow> all_ind s ds'"
proof -
  assume "map d_addrs ds = map d_addrs ds'"
  then have "d_addrs ` set ds = d_addrs ` set ds'" by (metis list.set_map)
  moreover have "all_ind s es \<longleftrightarrow> (\<forall>a \<in> d_addrs ` set es. ind_ok s (no_inode\<lparr>d_addrs := a\<rparr>))" for es
    by (auto simp: all_ind_def ind_ok_def)
  ultimately show ?thesis by metis
qed

lemma drop_owner_addrs [simp]: "map d_addrs (drop_owner s a ds) = map d_addrs ds"
proof -
  have "map d_addrs (ds[k := (ds ! k)\<lparr>d_type := 0\<rparr>]) = map d_addrs ds" for k
    by (cases "k < length ds") (simp_all add: map_update list_update_same_conv list_update_beyond)
  then show ?thesis by (simp add: drop_owner_def split: option.split)
qed

lemma drop_owner_img: "img s = img s' \<Longrightarrow> drop_owner s = drop_owner s'"
  unfolding drop_owner_def has_block_def by simp

lemma fold_drop_owner_addrs: "map d_addrs (fold (drop_owner s) as ds) = map d_addrs ds"
  by (induction as arbitrary: ds) simp_all

lemma owns_has_block: "ind_ok s d \<Longrightarrow> owns s a d = Inr (has_block s a d)"
  by (auto simp: owns_def has_block_def ind_ok_def read_block_def)

lemma owner_from_find:
  "all_ind s ds \<Longrightarrow>
   owner_from s a k ds = Inr (map_option ((+) k) (find (\<lambda>j. has_block s a (ds ! j)) [0..<length ds]))"
proof (induction ds arbitrary: k)
  case (Cons d ds)
  have "[0..<length (d # ds)] = 0 # map Suc [0..<length ds]"
    by (simp add: map_Suc_upt upt_conv_Cons del: upt_Suc)
  moreover have "owner_from s a (k + 1) ds =
      Inr (map_option ((+) (k + 1)) (find (\<lambda>j. has_block s a (ds ! j)) [0..<length ds]))"
    using Cons by (simp add: all_ind_def)
  moreover have "ind_ok s d" using Cons.prems by (simp add: all_ind_def)
  ultimately show ?case
    by (cases "find (\<lambda>j. has_block s a (ds ! j)) [0..<length ds]")
      (simp_all add: owns_has_block find_map_comp comp_def del: upt_Suc)
qed simp

lemma destroy_drops:
  "all_ind s (myInodes s) \<Longrightarrow>
   destroyInodeFromBlockAddr a s = Inr (s\<lparr>myInodes := drop_owner s a (myInodes s)\<rparr>)"
  by (simp add: destroyInodeFromBlockAddr_def owner_from_find drop_owner_def split: option.split)

lemma foldE_destroy:
  "all_ind s (myInodes s) \<Longrightarrow>
   foldE (\<lambda>n s. if c n then destroyInodeFromBlockAddr (f n) s else Inr s) xs s =
   Inr (s\<lparr>myInodes := fold (drop_owner s) (map f (filter c xs)) (myInodes s)\<rparr>)"
proof (induction xs arbitrary: s)
  case (Cons n xs)
  let ?s = "s\<lparr>myInodes := drop_owner s (f n) (myInodes s)\<rparr>"
  have "all_ind ?s (myInodes ?s)"
    using Cons.prems all_ind_addrs [OF drop_owner_addrs, of s s "f n" "myInodes s"]
    by (simp add: all_ind_def ind_ok_def)
  moreover have "drop_owner ?s = drop_owner s" by (rule drop_owner_img) simp
  ultimately show ?case using Cons by (simp add: destroy_drops)
qed simp

section \<open>The comparison of the maps\<close>

definition mirror :: "nat \<Rightarrow> nat" where "mirror c = 8 * (c div 8) + (7 - c mod 8)"

definition lost :: "8 word list \<Rightarrow> 8 word list \<Rightarrow> nat \<Rightarrow> bool" where
  "lost their mine b \<longleftrightarrow> mbit mine b \<and> \<not> mbit their b"

definition missing_byte :: "8 word list \<Rightarrow> 8 word list \<Rightarrow> nat \<Rightarrow> 8 word" where
  "missing_byte their mine i = mine ! i XOR (their ! i AND mine ! i)"

lemma mirror_simps: "n < 8 \<Longrightarrow> mirror (8 * i + n) = 8 * i + (7 - n)"
  by (simp add: mirror_def)

lemma mirror_divmod: "n < 8 \<Longrightarrow> mirror (8 * i + n) div 8 = i \<and> mirror (8 * i + n) mod 8 = 7 - n"
proof -
  assume n: "n < 8"
  then obtain k where k: "7 - n = k" "k < 8" by simp
  then have "mirror (8 * i + n) = 8 * i + k" using mirror_simps [OF n, of i] by simp
  then show ?thesis using k by simp
qed

lemma mirror_mirror [simp]: "mirror (mirror c) = c"
proof -
  have "c mod 8 < 8" by simp
  then have "mirror (8 * (c div 8) + (7 - c mod 8)) = 8 * (c div 8) + (7 - (7 - c mod 8))"
    by (intro mirror_simps) simp
  also have "\<dots> = c" using \<open>c mod 8 < 8\<close> mult_div_mod_eq [of 8 c] by linarith
  finally show ?thesis unfolding mirror_def [of c] .
qed

lemma test_bit_mirror: "n < 8 \<Longrightarrow> (w AND drop_bit n 0x80 \<noteq> 0) \<longleftrightarrow> bit (w :: 8 word) (7 - n)"
proof -
  assume n: "n < 8"
  have "\<forall>n \<in> {0..<8}. drop_bit n (0x80 :: 8 word) = push_bit (7 - n) 1" by code_simp
  then have "drop_bit n (0x80 :: 8 word) = push_bit (7 - n) 1" using n by simp
  moreover have "(w AND push_bit k 1 \<noteq> 0) \<longleftrightarrow> bit w k" if "k < 8" for k
    by (simp add: and_exp_eq_0_iff_not_bit)
  ultimately show ?thesis using n by simp
qed

lemma and_byte_result:
  assumes "all_ind s (myInodes s)" "i < length (theirFreeMap s)" "i < length (myFreeMap s)"
  shows "and_byte i s = Inr (s\<lparr>theirFreeMap := (theirFreeMap s)[i := theirFreeMap s ! i AND myFreeMap s ! i],
    myFreeMap := (myFreeMap s)[i := missing_byte (theirFreeMap s) (myFreeMap s) i],
    myInodes := fold (drop_owner s) (map (\<lambda>n. 8 * i + n)
      (filter (\<lambda>n. lost (theirFreeMap s) (myFreeMap s) (mirror (8 * i + n))) [0..<8])) (myInodes s)\<rparr>)"
proof -
  let ?m = "missing_byte (theirFreeMap s) (myFreeMap s) i"
  have c: "(?m AND drop_bit n 0x80 \<noteq> 0) \<longleftrightarrow> lost (theirFreeMap s) (myFreeMap s) (mirror (8 * i + n))"
    if "n < 8" for n
    using that assms
    by (auto simp: test_bit_mirror mirror_divmod lost_def mbit_def missing_byte_def bit_xor_iff bit_and_iff)
  let ?s = "s\<lparr>theirFreeMap := (theirFreeMap s)[i := theirFreeMap s ! i AND myFreeMap s ! i],
    myFreeMap := (myFreeMap s)[i := ?m]\<rparr>"
  have d: "drop_owner ?s = drop_owner s" by (rule drop_owner_img) simp
  have fe: "filter (\<lambda>n. ?m AND drop_bit n 0x80 \<noteq> 0) [0..<8] =
      filter (\<lambda>n. lost (theirFreeMap s) (myFreeMap s) (mirror (8 * i + n))) [0..<8]"
    using c by (intro filter_cong) auto
  have "all_ind ?s (myInodes ?s)" using assms(1) by (simp add: all_ind_def ind_ok_def)
  from foldE_destroy [OF this, of "\<lambda>n. ?m AND drop_bit n 0x80 \<noteq> 0" "\<lambda>n. i * 8 + n" "[0..<8]"]
  have f: "foldE (\<lambda>n s. if ?m AND drop_bit n 0x80 \<noteq> 0 then destroyInodeFromBlockAddr (i * 8 + n) s else Inr s)
      [0..<8] ?s = Inr (?s\<lparr>myInodes := fold (drop_owner s) (map (\<lambda>n. 8 * i + n)
      (filter (\<lambda>n. lost (theirFreeMap s) (myFreeMap s) (mirror (8 * i + n))) [0..<8])) (myInodes s)\<rparr>)"
    unfolding d fe by (simp add: mult.commute del: upt_Suc)
  show ?thesis
  proof (cases "?m = 0")
    case False
    then show ?thesis using f by (simp add: and_byte_def missing_byte_def Let_def)
  next
    case True
    then have "filter (\<lambda>n. lost (theirFreeMap s) (myFreeMap s) (mirror (8 * i + n))) [0..<8] = []"
      using c by (auto simp: filter_empty_conv)
    then show ?thesis using True by (simp add: and_byte_def missing_byte_def Let_def)
  qed
qed

lemma filter_eq_upt: "k < n \<Longrightarrow> filter (\<lambda>c. c = k) [0..<n] = [k]"
  by (induction n) (auto simp: less_Suc_eq filter_empty_conv)

lemma foldE_append: "foldE f (xs @ ys) s = bindE (foldE f xs s) (foldE f ys)"
proof (induction xs arbitrary: s)
  case (Cons x xs)
  then show ?case by (cases "f x s") simp_all
qed simp

definition given_up :: "8 word list \<Rightarrow> 8 word list \<Rightarrow> nat \<Rightarrow> nat list" where
  "given_up their mine n = filter (\<lambda>c. lost their mine (mirror c)) [0..<8 * n]"

lemma given_up_Suc:
  "given_up t m (Suc n) = given_up t m n @ map (\<lambda>j. 8 * n + j) (filter (\<lambda>j. lost t m (mirror (8 * n + j))) [0..<8])"
proof -
  have "[0..<8 * Suc n] = [0..<8 * n] @ map (\<lambda>k. 8 * n + k) [0..<8]"
    using upt_add_eq_append [of 0 "8 * n" 8] map_add_upt [of "8 * n" 8] by (simp add: add.commute del: upt_Suc)
  then show ?thesis by (simp add: given_up_def filter_map comp_def del: upt_Suc)
qed

lemma and_bytes_result:
  assumes "all_ind s (myInodes s)" "length (theirFreeMap s) = n" "length (myFreeMap s) = n" "k \<le> n"
  defines "t \<equiv> theirFreeMap s" and "m \<equiv> myFreeMap s"
  shows "foldE and_byte [0..<k] s = Inr (s\<lparr>
    theirFreeMap := map (\<lambda>i. if i < k then t ! i AND m ! i else t ! i) [0..<n],
    myFreeMap := map (\<lambda>i. if i < k then missing_byte t m i else m ! i) [0..<n],
    myInodes := fold (drop_owner s) (given_up t m k) (myInodes s)\<rparr>)"
  using assms(4)
proof (induction k)
  case 0
  have "map (\<lambda>i. t ! i) [0..<n] = t" "map (\<lambda>i. m ! i) [0..<n] = m"
    using assms(2,3) map_nth [of t] map_nth [of m] by (simp_all add: t_def m_def)
  then show ?case by (simp add: given_up_def t_def m_def)
next
  case (Suc k)
  let ?t = "\<lambda>k. map (\<lambda>i. if i < k then t ! i AND m ! i else t ! i) [0..<n]"
  let ?m = "\<lambda>k. map (\<lambda>i. if i < k then missing_byte t m i else m ! i) [0..<n]"
  let ?s = "s\<lparr>theirFreeMap := ?t k, myFreeMap := ?m k, myInodes := fold (drop_owner s) (given_up t m k) (myInodes s)\<rparr>"
  have ai: "all_ind ?s (myInodes ?s)"
    using assms(1) all_ind_addrs [OF fold_drop_owner_addrs, of s s "given_up t m k" "myInodes s"]
    by (simp add: all_ind_def ind_ok_def)
  have l: "lost (?t k) (?m k) (mirror (8 * k + j)) \<longleftrightarrow> lost t m (mirror (8 * k + j))" if "j < 8" for j
    using that Suc.prems by (simp add: lost_def mbit_def mirror_divmod)
  have fe: "filter (\<lambda>j. lost (?t k) (?m k) (mirror (8 * k + j))) [0..<8] =
      filter (\<lambda>j. lost t m (mirror (8 * k + j))) [0..<8]"
    using l by (intro filter_cong) auto
  have u: "(?t k)[k := t ! k AND m ! k] = ?t (Suc k)" "(?m k)[k := missing_byte t m k] = ?m (Suc k)"
    using Suc.prems by (auto intro!: nth_equalityI simp: nth_upd less_Suc_eq)
  have mb: "missing_byte (?t k) (?m k) k = missing_byte t m k" using Suc.prems by (simp add: missing_byte_def)
  have d: "drop_owner ?s = drop_owner s" by (rule drop_owner_img) simp
  have "and_byte k ?s = Inr (s\<lparr>theirFreeMap := ?t (Suc k), myFreeMap := ?m (Suc k),
      myInodes := fold (drop_owner s) (given_up t m (Suc k)) (myInodes s)\<rparr>)"
    using and_byte_result [OF ai, of k] Suc.prems u mb d fe
    by (simp add: given_up_Suc del: upt_Suc)
  then show ?case using Suc by (simp add: foldE_append)
qed

section \<open>The block map after the check\<close>

definition used_block :: "dinode \<Rightarrow> fsck \<Rightarrow> nat \<Rightarrow> bool" where
  "used_block past s b \<longleftrightarrow> b < 29 \<or> (\<exists>i \<in> {1..sb_ninodes (mySuperblock s)}.
     in_use (inode_at past s i) \<and> int b \<in> set (blocks_of s (inode_at past s i)))"

text \<open>What makes the check stay inside its arrays: fresh maps of one size, addresses of the inodes in
  use within the map, and indirect blocks that the image has.\<close>

definition checkable :: "dinode \<Rightarrow> fsck \<Rightarrow> bool" where
  "checkable past s \<longleftrightarrow> 4 \<le> length (theirFreeMap s) \<and>
     myFreeMap s = replicate (length (theirFreeMap s)) 0 \<and> all_ind s (myInodes s) \<and>
     (\<forall>i \<in> set [1..<sb_ninodes (mySuperblock s) + 1]. in_use (inode_at past s i) \<longrightarrow>
       ind_ok s (inode_at past s i) \<and>
       (\<forall>a \<in> set (blocks_of s (inode_at past s i)). in_map (length (theirFreeMap s)) a))"

lemma first_bytes_bits:
  assumes "4 \<le> n"
  shows "\<exists>m0. first_bytes (replicate n 0) = Inr m0 \<and> length m0 = n \<and> (\<forall>b < 8 * n. mbit m0 b \<longleftrightarrow> b < 29)"
proof -
  let ?m = "(replicate n (0 :: 8 word))[0 := 0xff, 1 := 0xff, 2 := 0xff, 3 := 0x1f]"
  have m: "(0xff :: 8 word) = mask 8" "(0x1f :: 8 word) = mask 5" by (simp_all add: mask_eq_exp_minus_1)
  have "mbit ?m b \<longleftrightarrow> b < 29" if "b < 8 * n" for b
  proof -
    define q r where "q = b div 8" and "r = b mod 8"
    then have b: "b = 8 * q + r" "r < 8" by simp_all
    have "mbit ?m b \<longleftrightarrow> bit (?m ! q) r" by (simp add: mbit_def q_def r_def)
    moreover have "?m ! q = (if q < 3 then mask 8 else if q = 3 then mask 5 else 0)"
      using assms that b unfolding m by (auto simp: nth_upd)
    ultimately show ?thesis using b by (auto simp: bit_mask_iff)
  qed
  then show ?thesis using assms by (simp add: first_bytes_def)
qed

lemma checkFreeMap_result:
  assumes "checkable past s"
  defines "n \<equiv> length (theirFreeMap s)"
  obtains m1 where "length m1 = n" "\<forall>b < 8 * n. mbit m1 b \<longleftrightarrow> used_block past s b"
    "checkFreeMap past s = Inr (s\<lparr>theirFreeMap := map (\<lambda>i. theirFreeMap s ! i AND m1 ! i) [0..<n],
       myFreeMap := map (\<lambda>i. missing_byte (theirFreeMap s) m1 i) [0..<n],
       myInodes := fold (drop_owner s) (given_up (theirFreeMap s) m1 n) (myInodes s)\<rparr>)"
proof -
  have c: "4 \<le> n" "myFreeMap s = replicate n 0" "all_ind s (myInodes s)"
    using assms by (auto simp: checkable_def)
  obtain m0 where m0: "first_bytes (myFreeMap s) = Inr m0" "length m0 = n" "\<forall>b < 8 * n. mbit m0 b \<longleftrightarrow> b < 29"
    using first_bytes_bits [OF c(1)] c(2) by auto
  obtain m1 where m1: "foldE (\<lambda>i. mark_inode s (inode_at past s i)) [1..<sb_ninodes (mySuperblock s) + 1] m0 = Inr m1"
    "length m1 = n" "\<forall>b < 8 * n. mbit m1 b \<longleftrightarrow> mbit m0 b \<or> (\<exists>i \<in> set [1..<sb_ninodes (mySuperblock s) + 1].
       in_use (inode_at past s i) \<and> int b \<in> set (blocks_of s (inode_at past s i)))"
    using foldE_mark_inode [of "[1..<sb_ninodes (mySuperblock s) + 1]" "inode_at past s" s m0] m0(2) assms(1)
    by (auto simp: checkable_def n_def)
  let ?s = "s\<lparr>myFreeMap := m1\<rparr>"
  have d: "drop_owner ?s = drop_owner s" by (rule drop_owner_img) simp
  have "all_ind ?s (myInodes ?s)" using c(3) by (simp add: all_ind_def ind_ok_def)
  from and_bytes_result [OF this, of n n] m1(2)
  have "foldE and_byte [0..<n] ?s = Inr (s\<lparr>theirFreeMap := map (\<lambda>i. theirFreeMap s ! i AND m1 ! i) [0..<n],
       myFreeMap := map (\<lambda>i. missing_byte (theirFreeMap s) m1 i) [0..<n],
       myInodes := fold (drop_owner s) (given_up (theirFreeMap s) m1 n) (myInodes s)\<rparr>)"
    by (simp add: n_def d cong: map_cong)
  then have "checkFreeMap past s = Inr (s\<lparr>theirFreeMap := map (\<lambda>i. theirFreeMap s ! i AND m1 ! i) [0..<n],
       myFreeMap := map (\<lambda>i. missing_byte (theirFreeMap s) m1 i) [0..<n],
       myInodes := fold (drop_owner s) (given_up (theirFreeMap s) m1 n) (myInodes s)\<rparr>)"
    using m0(1) m1(1) by (simp add: checkFreeMap_def n_def)
  moreover have "\<forall>b < 8 * n. mbit m1 b \<longleftrightarrow> used_block past s b"
  proof -
    have "set [1..<sb_ninodes (mySuperblock s) + 1] = {1..sb_ninodes (mySuperblock s)}" by auto
    then show ?thesis using m0(3) m1(3) by (simp add: used_block_def)
  qed
  ultimately show ?thesis using that m1(2) by blast
qed


text \<open>C29: A block in use whose bit is clear costs the wrong file its life. The two loops count the
  bits of a byte from different ends, so when block \<open>b\<close> is the only such block, the inode that is
  given up is the first one that refers to the block at the mirrored place in its byte of eight.\<close>

theorem checkFreeMap_drops_mirrored:
  assumes "checkable past s" "b < 8 * length (theirFreeMap s)"
    "{c. c < 8 * length (theirFreeMap s) \<and> used_block past s c \<and> \<not> mbit (theirFreeMap s) c} = {b}"
  shows "\<exists>s'. checkFreeMap past s = Inr s' \<and> myInodes s' = drop_owner s (8 * (b div 8) + (7 - b mod 8)) (myInodes s)"
proof -
  define n where "n = length (theirFreeMap s)"
  obtain m1 where m1: "length m1 = n" "\<forall>b < 8 * n. mbit m1 b \<longleftrightarrow> used_block past s b"
    "checkFreeMap past s = Inr (s\<lparr>theirFreeMap := map (\<lambda>i. theirFreeMap s ! i AND m1 ! i) [0..<n],
       myFreeMap := map (\<lambda>i. missing_byte (theirFreeMap s) m1 i) [0..<n],
       myInodes := fold (drop_owner s) (given_up (theirFreeMap s) m1 n) (myInodes s)\<rparr>)"
    using checkFreeMap_result [OF assms(1)] unfolding n_def by blast
  have r: "mirror c < 8 * n" if "c < 8 * n" for c
  proof -
    have "c div 8 < n" using that by (simp add: less_mult_imp_div_less mult.commute)
    then show ?thesis by (simp add: mirror_def)
  qed
  have "lost (theirFreeMap s) m1 (mirror c) \<longleftrightarrow> c = mirror b" if "c < 8 * n" for c
  proof -
    have "lost (theirFreeMap s) m1 (mirror c) \<longleftrightarrow> mirror c \<in> {b}"
      unfolding assms(3) [symmetric] using r [OF that] m1(2) by (simp add: lost_def n_def)
    then show ?thesis by auto
  qed
  then have "given_up (theirFreeMap s) m1 n = filter (\<lambda>c. c = mirror b) [0..<8 * n]"
    unfolding given_up_def by (intro filter_cong) auto
  also have "\<dots> = [mirror b]"
    using r [of b] assms(2) by (simp add: n_def filter_eq_upt)
  finally show ?thesis using m1(3) by (simp add: mirror_def)
qed

section \<open>The superblock\<close>

lemma get16_put16: "get16 (put16 i v b) i = v mod 65536"
proof -
  have "v mod (256 * 256) = 256 * (v div 256 mod 256) + v mod 256" by (rule mod_mult2_eq)
  then show ?thesis by (simp add: get16_def put16_def unat_of_nat)
qed

lemma get16_put16_other: "i + 1 < j \<or> j + 1 < i \<Longrightarrow> get16 (put16 j v b) i = get16 b i"
  by (auto simp: get16_def put16_def)

lemma get32_put32: "v < 2 ^ 32 \<Longrightarrow> get32 (put32 i v b) i = v"
proof -
  assume "v < 2 ^ 32"
  then have "v div 65536 < 65536" by (simp add: less_mult_imp_div_less)
  then show ?thesis by (simp add: get32_def put32_def get16_put16 get16_put16_other)
qed

lemma get32_put32_other: "i + 3 < j \<or> j + 3 < i \<Longrightarrow> get32 (put32 j v b) i = get32 b i"
  by (auto simp: get32_def put32_def get16_put16_other)

lemma get32_less: "get32 b i < 2 ^ 32"
proof -
  have "get16 b j < 65536" for j
  proof -
    have "unat (w :: 8 word) < 256" for w by (cases w rule: word_nat_cases) (simp add: unat_of_nat)
    from this [of "b j"] this [of "b (j + 1)"]
    show ?thesis by (simp add: get16_def)
  qed
  from this [of i] this [of "i + 2"] show ?thesis by (simp add: get32_def)
qed

lemma get_put_sb:
  "sb_size sb < 2 ^ 32 \<Longrightarrow> sb_nblocks sb < 2 ^ 32 \<Longrightarrow> sb_ninodes sb < 2 ^ 32 \<Longrightarrow> get_sb (put_sb sb b) = sb"
  by (simp add: get_sb_def put_sb_def get32_put32 get32_put32_other)

lemma put_sb_other: "12 \<le> k \<Longrightarrow> put_sb sb b k = b k"
  by (simp add: put_sb_def put32_def put16_def)

definition nonzero_sb :: "superblock \<Rightarrow> bool" where
  "nonzero_sb sb \<longleftrightarrow> sb_size sb \<noteq> 0 \<and> sb_nblocks sb \<noteq> 0 \<and> sb_ninodes sb \<noteq> 0"

text \<open>The superblock. A superblock with a zero field is refused and left alone. Any other gets the
  size that its numbers of inodes and of blocks ask for, on the image and in memory, and nothing else
  of the image changes; it is accepted exactly when that size is a multiple of 512 blocks and no
  smaller than either number. A second check finds nothing to correct.\<close>

lemma checkSuperblock_corrects:
  assumes "1 < img_blocks s" "checkSuperblock s = (ok, s')"
  defines "sb \<equiv> get_sb (img s 1)" and "e \<equiv> expected_size (get_sb (img s 1))"
  shows "(\<not> nonzero_sb sb \<longrightarrow> \<not> ok \<and> img s' = img s) \<and>
    (nonzero_sb sb \<longrightarrow>
      (ok \<longleftrightarrow> e mod 512 = 0 \<and> sb_ninodes sb \<le> e \<and> sb_nblocks sb \<le> e) \<and>
      get_sb (img s' 1) = sb\<lparr>sb_size := e\<rparr> \<and> mySuperblock s' = sb\<lparr>sb_size := e\<rparr> \<and>
      (\<forall>b k. b \<noteq> 1 \<or> 12 \<le> k \<longrightarrow> img s' b k = img s b k)) \<and>
    (ok \<longrightarrow> checkSuperblock s' = (ok, s'))"
proof -
  have l: "sb_size sb < 2 ^ 32" "sb_nblocks sb < 2 ^ 32" "sb_ninodes sb < 2 ^ 32" "e < 2 ^ 32"
    using get32_less by (simp_all add: sb_def get_sb_def e_def expected_size_def)
  have c: "checkSuperblock s = (if nonzero_sb sb then
      (e mod 512 = 0 \<and> sb_ninodes sb \<le> e \<and> sb_nblocks sb \<le> e,
       if sb_size sb = e then s\<lparr>mySuperblock := sb\<rparr>
       else s\<lparr>mySuperblock := sb\<lparr>sb_size := e\<rparr>, img := (img s)(1 := put_sb (sb\<lparr>sb_size := e\<rparr>) (img s 1))\<rparr>)
      else (False, s\<lparr>mySuperblock := sb\<rparr>))"
    using assms(1) by (auto simp: checkSuperblock_def nonzero_sb_def Let_def sb_def e_def BSIZE_def not_less)
  have g: "get_sb (img s' 1) = sb\<lparr>sb_size := e\<rparr> \<and> mySuperblock s' = sb\<lparr>sb_size := e\<rparr> \<and> img_blocks s' = img_blocks s \<and>
      (\<forall>b k. b \<noteq> 1 \<or> 12 \<le> k \<longrightarrow> img s' b k = img s b k)" if "nonzero_sb sb"
    using that c assms(2) l by (auto simp: get_put_sb put_sb_other sb_def split: if_splits)
  have "checkSuperblock s' = (ok, s')" if "ok"
  proof -
    have z: "nonzero_sb sb" "e mod 512 = 0" "sb_ninodes sb \<le> e" "sb_nblocks sb \<le> e"
      using that c assms(2) by (auto split: if_splits)
    have "expected_size (sb\<lparr>sb_size := e\<rparr>) = e" by (simp add: e_def sb_def expected_size_def)
    moreover have "e \<noteq> 0" using z by (auto simp: nonzero_sb_def)
    ultimately show ?thesis using g [OF z(1)] assms(1) z that
      by (simp add: checkSuperblock_def nonzero_sb_def Let_def BSIZE_def)
  qed
  then show ?thesis using c g assms(2) by (auto split: if_splits)
qed

section \<open>A directory cycle\<close>

lemma foldE_skip: "(\<And>x. x \<in> set xs \<Longrightarrow> f x s = Inr s) \<Longrightarrow> foldE f xs s = Inr s"
  by (induction xs) auto

text \<open>Directory \<open>p\<close> has one block, whose third entry, under an ordinary name, is \<open>p\<close> itself.\<close>

definition self_entry :: "nat \<Rightarrow> nat \<Rightarrow> fsck \<Rightarrow> bool" where
  "self_entry p b s \<longleftrightarrow> 0 < p \<and> p \<noteq> 34 \<and> p < length (myInodes s) \<and> d_type (myInodes s ! p) = T_DIR \<and>
     48 \<le> d_size (myInodes s ! p) \<and> d_size (myInodes s ! p) < 2 ^ 31 \<and>
     d_addrs (myInodes s ! p) ! 0 = b \<and> (\<forall>j \<in> set [1..<13]. d_addrs (myInodes s ! p) ! j = 0) \<and>
     0 < b \<and> b < 2 ^ 22 \<and> b < img_blocks s \<and> get16 (img s b) 32 = p \<and> img s b 34 \<noteq> dot"

lemma self_entry_seek:
  assumes "self_entry p b s"
  shows "as_int b = int b" "seekToBlock (int b)" "d_addrs (myInodes s ! p) ! NDIRECT = 0"
    "[0..<NDIRECT] = 0 # [1..<12]"
proof -
  have "\<forall>j \<in> set [1..<13]. d_addrs (myInodes s ! p) ! j = 0"
    using assms unfolding self_entry_def by blast
  from bspec [OF this, of 12] show "d_addrs (myInodes s ! p) ! NDIRECT = 0" by (simp add: NDIRECT_def)
  show "as_int b = int b" "seekToBlock (int b)"
    using assms by (simp_all add: self_entry_def as_int_def s32_def seekToBlock_def BSIZE_def)
  show "[0..<NDIRECT] = 0 # [1..<12]" by (simp add: NDIRECT_def upt_conv_Cons)
qed

lemma self_entry_open:
  assumes "self_entry p b s"
  shows "\<exists>cap buf. dir_open p gp s = Inr ((cap, buf), s) \<and> 1536 \<le> cap \<and> buf 2 = dot \<and> buf 18 = dot \<and>
    get16 buf 32 = p \<and> buf 34 \<noteq> dot"
proof -
  note a = self_entry_seek [OF assms]
  define cap where "cap = (d_size (myInodes s ! p) * 2) mod 2 ^ 32 * 16"
  have cap: "1536 \<le> cap" using assms by (simp add: cap_def self_entry_def)
  let ?buf = "\<lambda>k. if 0 \<le> k \<and> k < 0 + BSIZE then img s b (k - 0) else 0"
  have "foldE (\<lambda>i d. if d_addrs (myInodes s ! p) ! i > 0
      then load_block (as_int (d_addrs (myInodes s ! p) ! i)) (i * BSIZE) s d else Inr d) [0..<NDIRECT] (cap, \<lambda>_. 0) =
      foldE (\<lambda>i d. if d_addrs (myInodes s ! p) ! i > 0
      then load_block (as_int (d_addrs (myInodes s ! p) ! i)) (i * BSIZE) s d else Inr d) [1..<12] (cap, ?buf)"
    unfolding a(4) using assms cap a(1,2) by (simp add: self_entry_def load_block_def BSIZE_def cong: if_cong)
  also have "\<dots> = Inr (cap, ?buf)" by (rule foldE_skip) (use assms in \<open>auto simp: self_entry_def\<close>)
  finally have "dir_load p s = Inr (cap, ?buf)" using a(3) by (simp add: dir_load_def cap_def Let_def)
  then show ?thesis using cap assms
    by (simp add: dir_open_def patch_34_def dot_entries_def self_entry_def get16_def put16_def BSIZE_def)
qed

lemma self_entry_store:
  assumes "self_entry p b s" "512 \<le> cap" "get16 buf 32 = p" "buf 34 \<noteq> dot"
  shows "\<exists>s'. dir_store p (cap, buf) s = Inr s' \<and> self_entry p b s' \<and> myInodes s' = myInodes s"
proof -
  note a = self_entry_seek [OF assms(1)]
  let ?s = "s\<lparr>img := (img s)(b := \<lambda>k. if k < BSIZE then buf (0 + k) else 0), img_blocks := max (img_blocks s) (b + 1)\<rparr>"
  have "foldE (\<lambda>k s'. if d_addrs (myInodes s ! p) ! k > 0
      then store_block (as_int (d_addrs (myInodes s ! p) ! k)) (k * BSIZE) (cap, buf) s' else Inr s') [0..<NDIRECT] s =
      foldE (\<lambda>k s'. if d_addrs (myInodes s ! p) ! k > 0
      then store_block (as_int (d_addrs (myInodes s ! p) ! k)) (k * BSIZE) (cap, buf) s' else Inr s') [1..<12] ?s"
    unfolding a(4) using assms(1,2) a(1,2) by (simp add: self_entry_def store_block_def write_block_def BSIZE_def cong: if_cong)
  also have "\<dots> = Inr ?s" by (rule foldE_skip) (use assms(1) in \<open>auto simp: self_entry_def\<close>)
  finally have "dir_store p (cap, buf) s = Inr ?s" using a(3) by (simp add: dir_store_def Let_def)
  moreover have "self_entry p b ?s" using assms by (simp add: self_entry_def get16_def BSIZE_def)
  ultimately show ?thesis by auto
qed

text \<open>C30: A cycle of directories. The walk has no memory of where it has been: from a directory that
  holds itself under an ordinary name it descends without end, whatever fuel it is given.\<close>

theorem fixBadInodeTypes_cycle:
  assumes "self_entry p b s"
  shows "fixBadInodeTypes fuel p gp s = Inl Spent"
  using assms
proof (induction fuel arbitrary: gp s rule: less_induct)
  case (less fuel)
  show ?case
  proof (cases fuel)
    case (Suc f1)
    obtain cap buf where o: "dir_open p gp s = Inr ((cap, buf), s)" "1536 \<le> cap" "buf 2 = dot" "buf 18 = dot"
      "get16 buf 32 = p" "buf 34 \<noteq> dot"
      using self_entry_open [OF less.prems] by blast
    have walk: "fix_entries f p i (cap, buf) s' = Inl Spent"
      if "self_entry p b s'" "i \<le> 2" "f < fuel" for f i s'
      using that
    proof (induction f arbitrary: i s')
      case (Suc f)
      have sz: "i < d_size (myInodes s' ! p) div 16"
        using Suc.prems(1,2) div_le_mono [of 48 "d_size (myInodes s' ! p)" 16] by (simp add: self_entry_def)
      show ?case
      proof (cases "i = 2")
        case True
        have "entry_action i (cap, buf) s' = Inr (Descend p)"
          using True o Suc.prems(1) by (simp add: entry_action_def Let_def self_entry_def isInvalidType_def T_DIR_def)
        moreover have "fixBadInodeTypes f p p s' = Inl Spent" using less.IH Suc.prems by simp
        ultimately show ?thesis using sz by simp
      next
        case False
        then have "i = 0 \<or> i = 1" using Suc.prems(2) by auto
        then have "entry_action i (cap, buf) s' = Inr Keep" 
          using o o(3) [unfolded numeral_2_eq_2] by (auto simp: entry_action_def Let_def)
        moreover obtain s2 where "dir_store p (cap, buf) s' = Inr s2" "self_entry p b s2"
          using self_entry_store [OF Suc.prems(1), of cap buf] o by auto
        ultimately show ?thesis using sz Suc.IH [of s2 "i + 1"] Suc.prems False by simp
      qed
    qed simp
    then show ?thesis using o(1) Suc less.prems by simp
  qed simp
qed

section \<open>Sample images\<close>

definition file_on :: "nat \<Rightarrow> dinode" where
  "file_on b = no_inode\<lparr>d_type := 2, d_nlink := 1, d_size := 100, d_addrs := b # replicate 12 0\<rparr>"

text \<open>Files on the blocks 40 and 47; the map has lost block 47 and still shows block 41.\<close>

definition sample_fsck :: fsck where
  "sample_fsck = \<lparr>img = (\<lambda>_ _. 0), img_blocks = 64, mySuperblock = \<lparr>sb_size = 64, sb_nblocks = 35, sb_ninodes = 3\<rparr>,
     theirFreeMap = [mask 8, mask 8, mask 8, mask 5, 0, mask 2, 0, 0], myFreeMap = replicate 8 0,
     myInodes = [no_inode, file_on 40, file_on 47]\<rparr>"

lemma addr_file_on:
  "d_addrs (file_on b) ! 0 = b" "0 < j \<Longrightarrow> j < 13 \<Longrightarrow> d_addrs (file_on b) ! j = 0" "d_size (file_on b) = 100"
  by (simp_all add: file_on_def nth_Cons')

lemma blocks_file_on: "b < 2 ^ 31 \<Longrightarrow> set (blocks_of s (file_on b)) = {int b, 0}"
proof -
  assume b: "b < 2 ^ 31"
  have "set [0..<NDIRECT] = insert 0 (set [1..<12])" by (auto simp: NDIRECT_def)
  moreover have "(\<lambda>j. as_int (d_addrs (file_on b) ! j)) ` set [1..<12] = {0}"
    by (force simp: addr_file_on as_int_def s32_def image_iff)
  moreover have "as_int b = int b" using b by (simp add: as_int_def s32_def)
  ultimately show ?thesis by (simp add: blocks_of_def addr_file_on NDIRECT_def [symmetric] del: set_upt)
      (simp add: NDIRECT_def addr_file_on)
qed

lemma sample_inodes:
  "length (theirFreeMap sample_fsck) = 8" "myInodes sample_fsck = [no_inode, file_on 40, file_on 47]"
  "sb_ninodes (mySuperblock sample_fsck) = 3"
  "inode_at no_inode sample_fsck (Suc 0) = file_on 40" "inode_at no_inode sample_fsck 2 = file_on 47"
  "inode_at no_inode sample_fsck 3 = no_inode" "in_use (file_on b)" "\<not> in_use no_inode"
  "ind_ok s (file_on b)" "ind_ok s no_inode"
  by (simp_all add: sample_fsck_def inode_at_def in_use_def file_on_def no_inode_def T_FILE_def T_DIR_def T_DEV_def
    ind_ok_def NDIRECT_def)

lemma upt_13: "[1..<3 + 1] = [1, 2, 3 :: nat]" by (simp add: upt_conv_Cons)

lemma sample_checkable: "checkable no_inode sample_fsck"
  unfolding checkable_def sample_inodes(1-3) upt_13
  by (simp add: sample_inodes blocks_file_on all_ind_def in_map_def) (simp add: sample_fsck_def)

lemma sample_used: "used_block no_inode sample_fsck b \<longleftrightarrow> b < 29 \<or> b = 40 \<or> b = 47"
proof -
  have "{1..3} = {1, 2, 3 :: nat}" by auto
  then show ?thesis by (auto simp: used_block_def sample_inodes blocks_file_on)
qed

lemma sample_bits: "b < 64 \<Longrightarrow> mbit (theirFreeMap sample_fsck) b \<longleftrightarrow> b < 29 \<or> b = 40 \<or> b = 41"
proof -
  assume "b < 64"
  define q r where "q = b div 8" and "r = b mod 8"
  then have b: "b = 8 * q + r" "r < 8" "q < 8" using \<open>b < 64\<close> by auto
  have "mbit (theirFreeMap sample_fsck) b \<longleftrightarrow> bit (theirFreeMap sample_fsck ! q) r"
    by (simp add: mbit_def q_def r_def)
  moreover have "theirFreeMap sample_fsck ! q = (if q < 3 then mask 8 else if q = 3 then mask 5 else if q = 5 then mask 2 else 0)"
    using b(3) by (auto simp: sample_fsck_def less_Suc_eq numeral_eq_Suc)
  ultimately show ?thesis using b by (auto simp: bit_mask_iff)
qed


theorem checkFreeMap_drops_mirrored_witness:
  "\<exists>s'. checkFreeMap no_inode sample_fsck = Inr s' \<and> d_type (myInodes s' ! 1) = 0 \<and> d_type (myInodes s' ! 2) = T_FILE"
proof -
  have l: "{c. c < 8 * length (theirFreeMap sample_fsck) \<and> used_block no_inode sample_fsck c \<and>
      \<not> mbit (theirFreeMap sample_fsck) c} = {47}"
    by (auto simp: sample_inodes sample_used sample_bits)
  have "drop_owner sample_fsck 40 [no_inode, file_on 40, file_on 47] = [no_inode, (file_on 40)\<lparr>d_type := 0\<rparr>, file_on 47]"
    by (auto simp: drop_owner_def has_block_def NDIRECT_def file_on_def no_inode_def nth_Cons' upt_conv_Cons)
  then show ?thesis using checkFreeMap_drops_mirrored [OF sample_checkable _ l]
    by (force simp: sample_inodes file_on_def T_FILE_def)
qed

lemma checkSuperblock_corrects_example:
  "\<exists>s'. checkSuperblock (sample_fsck\<lparr>img := \<lambda>_. put_sb \<lparr>sb_size = 1000, sb_nblocks = 995, sb_ninodes = 200\<rparr> (\<lambda>_. 0)\<rparr>) = (True, s') \<and>
     get_sb (img s' 1) = \<lparr>sb_size = 1024, sb_nblocks = 995, sb_ninodes = 200\<rparr> \<and> checkSuperblock s' = (True, s')"
proof -
  let ?sb = "\<lparr>sb_size = 1000, sb_nblocks = 995, sb_ninodes = 200\<rparr>"
  let ?s = "sample_fsck\<lparr>img := \<lambda>_. put_sb ?sb (\<lambda>_. 0)\<rparr>"
  obtain ok s' where c: "checkSuperblock ?s = (ok, s')" by fastforce
  have "get_sb (img ?s 1) = ?sb" by (simp add: get_put_sb)
  then show ?thesis using checkSuperblock_corrects [OF _ c] c
    by (simp add: nonzero_sb_def expected_size_def IPB_def sample_fsck_def)
qed

theorem fixBadInodeTypes_cycle_witness:
  "fixBadInodeTypes 1000 1 1 (sample_fsck\<lparr>img := \<lambda>_. put16 32 1 (\<lambda>_. 0x61),
     myInodes := [no_inode, (file_on 40)\<lparr>d_type := 1\<rparr>]\<rparr>) = Inl Spent"
proof (rule fixBadInodeTypes_cycle)
  have "put16 32 1 (\<lambda>_. 0x61 :: 8 word) 34 \<noteq> dot" by (simp add: put16_def dot_def)
  then show "self_entry 1 40 (sample_fsck\<lparr>img := \<lambda>_. put16 32 1 (\<lambda>_. 0x61), myInodes := [no_inode, (file_on 40)\<lparr>d_type := 1\<rparr>]\<rparr>)"
    by (auto simp: self_entry_def sample_fsck_def addr_file_on T_DIR_def get16_put16)
qed

end
