(* ===== verification/Vm.thy ===== *)
theory Vm
  imports Kalloc "HOL-Library.Word"
begin

unbundle bit_operations_syntax

text \<open>
  Address spaces, p3/xv6/xv6/kernel/vm.c, with the checks of user addresses in syscall.c, the stack
  growth in trap.c and growproc of proc.c. The kernel maps physical memory one to one, so a
  physical address is a pointer. Physical memory has two views that are never used for one page
  at a time: the 32-bit \<open>words\<close> of page tables and the \<open>pbytes\<close> of user memory; \<open>km\<close> is the page
  allocator. \<open>kend\<close> is the end of the kernel image and \<open>data\<close> the start of its data section.
\<close>

section \<open>Physical memory\<close>

record vm =
  km :: kmem
  words :: "addr \<Rightarrow> nat"
  pbytes :: "addr \<Rightarrow> 8 word"

definition in_page :: "addr \<Rightarrow> addr \<Rightarrow> bool" where "in_page v a \<longleftrightarrow> v \<le> a \<and> a < v + PGSIZE"

text \<open>\<open>memset(v, c, PGSIZE)\<close>: every byte is \<open>c\<close>.\<close>

definition fill_page :: "addr \<Rightarrow> nat \<Rightarrow> vm \<Rightarrow> vm" where
  "fill_page v c s = s\<lparr>words := (\<lambda>a. if in_page v a then c * 0x01010101 else words s a),
     pbytes := (\<lambda>a. if in_page v a then of_nat c else pbytes s a)\<rparr>"

definition vm_kalloc :: "vm \<Rightarrow> addr \<times> vm" where
  "vm_kalloc s = (let (r, k) = kalloc (km s) in (r, s\<lparr>km := k\<rparr>))"

definition vm_kfree :: "addr \<Rightarrow> addr \<Rightarrow> vm \<Rightarrow> kerror + vm" where
  "vm_kfree kend v s = bindE (kfree kend v (km s)) (\<lambda>k. Inr (fill_page v 1 (s\<lparr>km := k\<rparr>)))"

section \<open>Page tables\<close>

definition USERTOP :: nat where "USERTOP = 0xA0000"
definition NPDENTRIES :: nat where "NPDENTRIES = 1024"
definition PTE_P :: nat where "PTE_P = 1"
definition PTE_W :: nat where "PTE_W = 2"
definition PTE_U :: nat where "PTE_U = 4"

definition PDX :: "nat \<Rightarrow> nat" where "PDX va = va div 2 ^ 22 mod 1024"
definition PTX :: "nat \<Rightarrow> nat" where "PTX va = va div 2 ^ 12 mod 1024"
definition PTE_ADDR :: "nat \<Rightarrow> nat" where "PTE_ADDR e = e - e mod 4096"

definition add32 :: "nat \<Rightarrow> nat \<Rightarrow> nat" where "add32 a b = (a + b) mod 2 ^ 32"
definition sub32 :: "nat \<Rightarrow> nat \<Rightarrow> nat" where "sub32 a b = (a + 2 ^ 32 - b) mod 2 ^ 32"

definition set_word :: "addr \<Rightarrow> nat \<Rightarrow> vm \<Rightarrow> vm" where
  "set_word p v s = s\<lparr>words := (words s)(p := v)\<rparr>"

definition walkpgdir :: "addr \<Rightarrow> nat \<Rightarrow> bool \<Rightarrow> vm \<Rightarrow> addr option \<times> vm" where
  "walkpgdir pgdir va create s =
     (let pde = pgdir + 4 * PDX va in
      if words s pde AND PTE_P \<noteq> 0 then (Some (PTE_ADDR (words s pde) + 4 * PTX va), s)
      else if \<not> create then (None, s)
      else
        let (pgtab, s1) = vm_kalloc s in
        if pgtab = 0 then (None, s1)
        else (Some (pgtab + 4 * PTX va),
              set_word pde (pgtab OR PTE_P OR PTE_W OR PTE_U) (fill_page pgtab 0 s1)))"

text \<open>The loop of \<open>mappages\<close> visits \<open>n + 1\<close> pages.\<close>

fun map_loop :: "nat \<Rightarrow> addr \<Rightarrow> nat \<Rightarrow> nat \<Rightarrow> nat \<Rightarrow> vm \<Rightarrow> kerror + int \<times> vm" where
  "map_loop n pgdir a pa perm s =
     (case walkpgdir pgdir a True s of
        (None, s1) \<Rightarrow> Inr (- 1, s1)
      | (Some pte, s1) \<Rightarrow>
          if words s1 pte AND PTE_P \<noteq> 0 then Inl (Panic ''remap'')
          else
            let s2 = set_word pte (pa OR perm OR PTE_P) s1
            in case n of 0 \<Rightarrow> Inr (0, s2)
               | Suc k \<Rightarrow> map_loop k pgdir (add32 a PGSIZE) (add32 pa PGSIZE) perm s2)"

declare map_loop.simps [simp del]

definition mappages :: "addr \<Rightarrow> nat \<Rightarrow> nat \<Rightarrow> nat \<Rightarrow> nat \<Rightarrow> vm \<Rightarrow> kerror + int \<times> vm" where
  "mappages pgdir la sz pa perm s =
     (let a = PGROUNDDOWN la; last = PGROUNDDOWN (sub32 (add32 la sz) 1)
      in map_loop (sub32 last a div PGSIZE) pgdir a pa perm s)"

definition kmap :: "addr \<Rightarrow> (nat \<times> nat \<times> nat) list" where
  "kmap data = [(USERTOP, 0x100000, PTE_W), (0x100000, data, 0), (data, PHYSTOP, PTE_W), (0xFE000000, 0, PTE_W)]"

fun kmap_loop :: "(nat \<times> nat \<times> nat) list \<Rightarrow> addr \<Rightarrow> vm \<Rightarrow> kerror + int \<times> vm" where
  "kmap_loop [] pgdir s = Inr (0, s)"
| "kmap_loop ((p, e, perm) # ks) pgdir s =
     bindE (mappages pgdir p (sub32 e p) p perm s) (\<lambda>(r, s1).
       if r < 0 then Inr (r, s1) else kmap_loop ks pgdir s1)"

definition setupkvm :: "addr \<Rightarrow> vm \<Rightarrow> kerror + addr \<times> vm" where
  "setupkvm data s =
     (let (pgdir, s1) = vm_kalloc s in
      if pgdir = 0 then Inr (0, s1)
      else bindE (kmap_loop (kmap data) pgdir (fill_page pgdir 0 s1)) (\<lambda>(r, s2).
        Inr (if r < 0 then 0 else pgdir, s2)))"

section \<open>User memory\<close>

definition put_bytes :: "addr \<Rightarrow> 8 word list \<Rightarrow> vm \<Rightarrow> vm" where
  "put_bytes p bs s = s\<lparr>pbytes := (\<lambda>a. if p \<le> a \<and> a < p + length bs then bs ! (a - p) else pbytes s a)\<rparr>"

definition copy_page :: "addr \<Rightarrow> addr \<Rightarrow> vm \<Rightarrow> vm" where
  "copy_page dst src s = put_bytes dst (map (\<lambda>k. pbytes s (src + k)) [0..<PGSIZE]) s"

definition inituvm :: "addr \<Rightarrow> 8 word list \<Rightarrow> vm \<Rightarrow> kerror + vm" where
  "inituvm pgdir init s =
     (if length init \<ge> PGSIZE then Inl (Panic ''inituvm: more than a page'')
      else let (mem, s1) = vm_kalloc s in
        bindE (mappages pgdir 0 PGSIZE mem (PTE_W OR PTE_U) (fill_page mem 0 s1)) (\<lambda>(_, s2).
        Inr (put_bytes mem init s2)))"

text \<open>\<open>rd off n\<close> are the bytes that \<open>readi\<close> delivers.\<close>

function load_loop :: "addr \<Rightarrow> nat \<Rightarrow> (nat \<Rightarrow> nat \<Rightarrow> 8 word list) \<Rightarrow> nat \<Rightarrow> nat \<Rightarrow> nat \<Rightarrow> vm \<Rightarrow> kerror + int \<times> vm" where
  "load_loop pgdir va rd off sz i s =
     (if i < sz then
        case walkpgdir pgdir (add32 va i) False s of
          (None, _) \<Rightarrow> Inl (Panic ''loaduvm: address should exist'')
        | (Some pte, _) \<Rightarrow>
            let pa = PTE_ADDR (words s pte); n = (if sz - i < PGSIZE then sz - i else PGSIZE);
                bs = rd (add32 off i) n; s1 = put_bytes pa bs s
            in if length bs \<noteq> n then Inr (- 1, s1) else load_loop pgdir va rd off sz (i + PGSIZE) s1
      else Inr (0, s))"
  by pat_completeness auto
termination by (relation "measure (\<lambda>(pgdir, va, rd, off, sz, i, s). sz - i)") (auto simp: PGSIZE_def)

declare load_loop.simps [simp del]

definition loaduvm :: "addr \<Rightarrow> nat \<Rightarrow> (nat \<Rightarrow> nat \<Rightarrow> 8 word list) \<Rightarrow> nat \<Rightarrow> nat \<Rightarrow> vm \<Rightarrow> kerror + int \<times> vm" where
  "loaduvm pgdir va rd off sz s =
     (if va mod PGSIZE \<noteq> 0 then Inl (Panic ''loaduvm: addr must be page aligned'')
      else load_loop pgdir va rd off sz 0 s)"

function dealloc_loop :: "addr \<Rightarrow> addr \<Rightarrow> nat \<Rightarrow> nat \<Rightarrow> vm \<Rightarrow> kerror + vm" where
  "dealloc_loop kend pgdir a oldsz s =
     (if a < oldsz then
        bindE (case walkpgdir pgdir a False s of
                 (None, _) \<Rightarrow> Inr s
               | (Some pte, _) \<Rightarrow>
                   if words s pte AND PTE_P \<noteq> 0 then
                     if PTE_ADDR (words s pte) = 0 then Inl (Panic ''kfree'')
                     else bindE (vm_kfree kend (PTE_ADDR (words s pte)) s) (\<lambda>s1. Inr (set_word pte 0 s1))
                   else Inr s)
          (dealloc_loop kend pgdir (a + PGSIZE) oldsz)
      else Inr s)"
  by pat_completeness auto
termination by (relation "measure (\<lambda>(kend, pgdir, a, oldsz, s). oldsz - a)") (auto simp: PGSIZE_def)

declare dealloc_loop.simps [simp del]

definition deallocuvm :: "addr \<Rightarrow> addr \<Rightarrow> nat \<Rightarrow> nat \<Rightarrow> vm \<Rightarrow> kerror + nat \<times> vm" where
  "deallocuvm kend pgdir oldsz newsz s =
     (if newsz \<ge> oldsz then Inr (oldsz, s)
      else bindE (dealloc_loop kend pgdir (PGROUNDUP newsz) oldsz s) (\<lambda>s1. Inr (newsz, s1)))"

function alloc_loop :: "addr \<Rightarrow> addr \<Rightarrow> nat \<Rightarrow> nat \<Rightarrow> nat \<Rightarrow> vm \<Rightarrow> kerror + nat \<times> vm" where
  "alloc_loop kend pgdir a oldsz newsz s =
     (if a < newsz then
        let (mem, s1) = vm_kalloc s in
        if mem = 0 then bindE (deallocuvm kend pgdir newsz oldsz s1) (\<lambda>(_, s2). Inr (0, s2))
        else bindE (mappages pgdir a PGSIZE mem (PTE_W OR PTE_U) (fill_page mem 0 s1)) (\<lambda>(_, s2).
          alloc_loop kend pgdir (a + PGSIZE) oldsz newsz s2)
      else Inr (newsz, s))"
  by pat_completeness auto
termination by (relation "measure (\<lambda>(kend, pgdir, a, oldsz, newsz, s). newsz - a)") (auto simp: PGSIZE_def)

declare alloc_loop.simps [simp del]

definition allocuvm :: "addr \<Rightarrow> addr \<Rightarrow> nat \<Rightarrow> nat \<Rightarrow> vm \<Rightarrow> kerror + nat \<times> vm" where
  "allocuvm kend pgdir oldsz newsz s =
     (if newsz > USERTOP then Inr (0, s)
      else if newsz < oldsz then Inr (oldsz, s)
      else alloc_loop kend pgdir (PGROUNDUP oldsz) oldsz newsz s)"

fun free_tables :: "addr \<Rightarrow> addr \<Rightarrow> nat list \<Rightarrow> vm \<Rightarrow> kerror + vm" where
  "free_tables kend pgdir [] s = Inr s"
| "free_tables kend pgdir (i # is) s =
     (if words s (pgdir + 4 * i) AND PTE_P \<noteq> 0
      then bindE (vm_kfree kend (PTE_ADDR (words s (pgdir + 4 * i))) s) (free_tables kend pgdir is)
      else free_tables kend pgdir is s)"

definition freevm :: "addr \<Rightarrow> addr \<Rightarrow> vm \<Rightarrow> kerror + vm" where
  "freevm kend pgdir s =
     (if pgdir = 0 then Inl (Panic ''freevm: no pgdir'')
      else bindE (deallocuvm kend pgdir USERTOP 0 s) (\<lambda>(_, s1).
        bindE (free_tables kend pgdir [0..<NPDENTRIES] s1) (vm_kfree kend pgdir)))"

text \<open>One of the two loops of \<open>copyuvm\<close>, over the pages from \<open>i\<close> up to \<open>hi\<close>; \<open>False\<close> is \<open>goto bad\<close>.\<close>

function copy_loop :: "addr \<Rightarrow> addr \<Rightarrow> nat \<Rightarrow> nat \<Rightarrow> vm \<Rightarrow> kerror + bool \<times> vm" where
  "copy_loop pgdir d i hi s =
     (if i < hi then
        case walkpgdir pgdir i False s of
          (None, _) \<Rightarrow> Inl (Panic ''copyuvm: pte should exist'')
        | (Some pte, _) \<Rightarrow>
            if words s pte AND PTE_P = 0 then Inl (Panic ''copyuvm: page not present'')
            else
              let (mem, s1) = vm_kalloc s in
              if mem = 0 then Inr (False, s1)
              else bindE (mappages d i PGSIZE mem (PTE_W OR PTE_U) (copy_page mem (PTE_ADDR (words s pte)) s1)) (\<lambda>(r, s2).
                if r < 0 then Inr (False, s2) else copy_loop pgdir d (i + PGSIZE) hi s2)
      else Inr (True, s))"
  by pat_completeness auto
termination by (relation "measure (\<lambda>(pgdir, d, i, hi, s). hi - i)") (auto simp: PGSIZE_def)

declare copy_loop.simps [simp del]

definition copyuvm :: "addr \<Rightarrow> addr \<Rightarrow> addr \<Rightarrow> nat \<Rightarrow> nat \<Rightarrow> vm \<Rightarrow> kerror + addr \<times> vm" where
  "copyuvm kend data pgdir sz stackSz s =
     bindE (setupkvm data s) (\<lambda>(d, s1).
     if d = 0 then Inr (0, s1)
     else bindE (copy_loop pgdir d PGSIZE sz s1) (\<lambda>(ok1, s2).
       bindE (if ok1 then copy_loop pgdir d stackSz USERTOP s2 else Inr (False, s2)) (\<lambda>(ok, s3).
       if ok then Inr (d, s3) else bindE (freevm kend d s3) (\<lambda>s4. Inr (0, s4)))))"

text \<open>A null page table entry pointer is read through address 0, which only process 1 has mapped; the
  callers pass a directory with a table for user memory, so this does not happen.\<close>

definition uva2ka :: "addr \<Rightarrow> nat \<Rightarrow> vm \<Rightarrow> kerror + addr" where
  "uva2ka pgdir uva s =
     (case walkpgdir pgdir uva False s of
        (None, _) \<Rightarrow> Inl (Panic ''trap'')
      | (Some pte, _) \<Rightarrow>
          if words s pte AND PTE_P = 0 then Inr 0
          else if words s pte AND PTE_U = 0 then Inr 0
          else Inr (PTE_ADDR (words s pte)))"

function copyout :: "addr \<Rightarrow> nat \<Rightarrow> 8 word list \<Rightarrow> vm \<Rightarrow> kerror + int \<times> vm" where
  "copyout pgdir va bs s =
     (if bs \<noteq> [] then
        let va0 = PGROUNDDOWN va in
        bindE (uva2ka pgdir va0 s) (\<lambda>pa0.
        if pa0 = 0 then Inr (- 1, s)
        else
          let n = min (PGSIZE - (va - va0)) (length bs)
          in copyout pgdir (add32 va0 PGSIZE) (drop n bs) (put_bytes (pa0 + (va - va0)) (take n bs) s))
      else Inr (0, s))"
  by pat_completeness auto
termination
proof (relation "measure (\<lambda>(pgdir, va, bs, s). length bs)")
  fix pgdir va :: nat and bs :: "8 word list" and s :: vm and x va0 n
  assume "bs \<noteq> []" "va0 = PGROUNDDOWN va" "n = min (PGSIZE - (va - va0)) (length bs)"
  moreover have "va - PGROUNDDOWN va < PGSIZE" by (simp add: PGROUNDDOWN_def minus_div_mult_eq_mod)
  ultimately have "0 < n" "0 < length bs" by simp_all
  then show "((pgdir, add32 va0 PGSIZE, drop n bs, put_bytes (x + (va - va0)) (take n bs) s), pgdir, va, bs, s)
      \<in> measure (\<lambda>(pgdir, va, bs, s). length bs)" by simp
qed simp

declare copyout.simps [simp del]

section \<open>The process and its addresses\<close>

text \<open>User memory is the program and heap below \<open>v_sz\<close> and the stack from \<open>v_stackSz\<close> to \<open>USERTOP\<close>.\<close>

record vproc =
  v_pid :: int
  v_pgdir :: addr
  v_sz :: nat
  v_stackSz :: nat
  v_esp :: nat

text \<open>The entry that the hardware finds for an address, and a load by the kernel through it.\<close>

definition pte_of :: "vm \<Rightarrow> addr \<Rightarrow> nat \<Rightarrow> nat" where
  "pte_of s pgdir va =
     (let e = words s (pgdir + 4 * PDX va)
      in if e AND PTE_P \<noteq> 0 then words s (PTE_ADDR e + 4 * PTX va) else 0)"

definition kload :: "vproc \<Rightarrow> nat \<Rightarrow> vm \<Rightarrow> kerror + 8 word" where
  "kload p va s =
     (let e = pte_of s (v_pgdir p) va
      in if e AND PTE_P \<noteq> 0 then Inr (pbytes s (PTE_ADDR e + va mod PGSIZE)) else Inl (Panic ''trap''))"

definition kload_int :: "vproc \<Rightarrow> nat \<Rightarrow> vm \<Rightarrow> kerror + nat" where
  "kload_int p va s =
     bindE (kload p va s) (\<lambda>b0. bindE (kload p (add32 va 1) s) (\<lambda>b1.
     bindE (kload p (add32 va 2) s) (\<lambda>b2. bindE (kload p (add32 va 3) s) (\<lambda>b3.
     Inr (unat b0 + 2 ^ 8 * unat b1 + 2 ^ 16 * unat b2 + 2 ^ 24 * unat b3)))))"

text \<open>\<open>None\<close> is the return value -1, \<open>Some\<close> what the out parameter receives.\<close>

definition fetchint :: "vproc \<Rightarrow> nat \<Rightarrow> vm \<Rightarrow> kerror + nat option" where
  "fetchint p addr s =
     (if addr < PGSIZE \<and> v_pid p \<noteq> 1 then Inr None
      else if (addr \<ge> v_sz p \<or> add32 addr 4 > v_sz p) \<and>
              (addr < v_stackSz p \<or> addr \<ge> USERTOP \<or> add32 addr 4 \<ge> USERTOP) then Inr None
      else bindE (kload_int p addr s) (\<lambda>v. Inr (Some v)))"

function str_scan :: "vproc \<Rightarrow> nat \<Rightarrow> nat \<Rightarrow> vm \<Rightarrow> kerror + nat option" where
  "str_scan p start a s =
     (if a < USERTOP then
        bindE (kload p a s) (\<lambda>c. if c = 0 then Inr (Some (a - start)) else str_scan p start (a + 1) s)
      else Inr None)"
  by pat_completeness auto
termination by (relation "measure (\<lambda>(p, start, a, s). USERTOP - a)") auto

declare str_scan.simps [simp del]

definition fetchstr :: "vproc \<Rightarrow> nat \<Rightarrow> vm \<Rightarrow> kerror + nat option" where
  "fetchstr p addr s =
     (if addr < PGSIZE \<and> v_pid p \<noteq> 1 then Inr None
      else if addr \<ge> v_sz p \<and> (addr < v_stackSz p \<or> addr \<ge> USERTOP) then Inr None
      else str_scan p addr addr s)"

definition argint :: "vproc \<Rightarrow> nat \<Rightarrow> vm \<Rightarrow> kerror + nat option" where
  "argint p n s = fetchint p (add32 (v_esp p) (4 + 4 * n)) s"

definition argptr :: "vproc \<Rightarrow> nat \<Rightarrow> int \<Rightarrow> vm \<Rightarrow> kerror + nat option" where
  "argptr p n sz s =
     bindE (argint p n s) (\<lambda>r. case r of None \<Rightarrow> Inr None
       | Some aVal \<Rightarrow>
           if aVal < PGSIZE then Inr None
           else
             let e = add32 aVal (nat (u32 sz));
                 insideCodeHeap = aVal < v_sz p \<and> e \<le> v_sz p;
                 insideOfStack = aVal < USERTOP \<and> e \<le> USERTOP \<and> aVal \<ge> v_stackSz p
             in if \<not> (insideCodeHeap \<or> insideOfStack) then Inr None else Inr (Some aVal))"

definition argstr :: "vproc \<Rightarrow> nat \<Rightarrow> vm \<Rightarrow> kerror + (nat \<times> nat) option" where
  "argstr p n s =
     bindE (argint p n s) (\<lambda>r. case r of None \<Rightarrow> Inr None
       | Some addr \<Rightarrow> bindE (fetchstr p addr s) (\<lambda>l. Inr (map_option (\<lambda>k. (addr, k)) l)))"

section \<open>Growing the heap and the stack\<close>

definition growproc_p3 :: "addr \<Rightarrow> int \<Rightarrow> vproc \<Rightarrow> vm \<Rightarrow> kerror + int \<times> vproc \<times> vm" where
  "growproc_p3 kend n p s =
     (let sz = v_sz p; sz' = nat (u32 (int sz + n)) in
      if n > 0 then
        if sz' > sub32 (v_stackSz p) PGSIZE then Inr (- 1, p, s)
        else bindE (allocuvm kend (v_pgdir p) sz sz' s) (\<lambda>(r, s1).
          if r = 0 then Inr (- 1, p, s1) else Inr (0, p\<lparr>v_sz := r\<rparr>, s1))
      else if n < 0 then
        bindE (deallocuvm kend (v_pgdir p) sz sz' s) (\<lambda>(r, s1).
          if r = 0 then Inr (- 1, p, s1) else Inr (0, p\<lparr>v_sz := r\<rparr>, s1))
      else Inr (0, p, s))"

text \<open>The page fault case of \<open>trap\<close>; the flag says that the process is killed.\<close>

definition pgflt :: "addr \<Rightarrow> bool \<Rightarrow> nat \<Rightarrow> vproc \<Rightarrow> vm \<Rightarrow> kerror + bool \<times> vproc \<times> vm" where
  "pgflt kend user_mode cr2 p s =
     (if cr2 > sub32 (v_stackSz p) PGSIZE \<and> cr2 < v_stackSz p \<and>
         add32 (v_sz p) PGSIZE < sub32 (v_stackSz p) PGSIZE then
        bindE (allocuvm kend (v_pgdir p) (sub32 (v_stackSz p) PGSIZE) (v_stackSz p) s) (\<lambda>(r, s1).
          Inr (r = 0, p\<lparr>v_stackSz := sub32 (v_stackSz p) PGSIZE\<rparr>, s1))
      else if \<not> user_mode then Inl (Panic ''trap'')
      else Inr (True, p, s))"

end
