(* ===== verification/VmSpec.thy ===== *)
theory VmSpec
  imports Vm
begin

text \<open>
  What the address spaces promise. \<open>pte_of\<close> is the view of the hardware; \<open>pd_ok\<close> says that a page
  directory and its tables are pages of their own, \<open>us_ok\<close> that the user pages are too.
\<close>

section \<open>Entries\<close>

definition present :: "nat \<Rightarrow> bool" where "present e \<longleftrightarrow> e AND PTE_P \<noteq> 0"

lemma present_odd: "present e \<longleftrightarrow> odd e"
  by (simp add: present_def PTE_P_def and_one_eq odd_iff_mod_2_eq_one)

lemma not_present_0 [simp]: "\<not> present 0"
  by (simp add: present_odd)

lemma or_flags: "4096 dvd pa \<Longrightarrow> f < 4096 \<Longrightarrow> pa OR f = pa + (f :: nat)"
proof -
  assume pa: "4096 dvd pa" and f: "f < 4096"
  then obtain k where k: "pa = push_bit 12 k" by (auto simp: push_bit_eq_mult mult.commute elim: dvdE)
  have "take_bit 12 f = f" using f by (simp add: take_bit_eq_mod)
  then have "pa AND f = 0"
    unfolding k by (metis (no_types, lifting) bit_eqI bit_and_iff bit_push_bit_iff bit_take_bit_iff bit_0_eq bot_apply bot_bool_def not_le)
  then show ?thesis by (simp add: disjunctive_add_eq_or)
qed

lemma entry_parts:
  assumes "4096 dvd pa" "f < 4096" "odd f"
  shows "present (pa OR f)" "PTE_ADDR (pa OR f) = pa"
proof -
  have "even pa" using assms(1) dvd_trans [of 2 4096 pa] by simp
  then show "present (pa OR f)" using assms by (simp add: or_flags present_odd)
  have "(pa + f) mod 4096 = f" using assms by (auto elim: dvdE)
  then show "PTE_ADDR (pa OR f) = pa" using assms by (simp add: or_flags PTE_ADDR_def)
qed

lemma page_ok_dvd: "page_ok kend v \<Longrightarrow> 4096 dvd v"
  by (auto simp: page_ok_def PGSIZE_def)

lemma in_page_unique: "4096 dvd u \<Longrightarrow> 4096 dvd v \<Longrightarrow> in_page u a \<Longrightarrow> in_page v a \<Longrightarrow> u = v"
  by (auto simp: in_page_def PGSIZE_def elim!: dvdE)

lemma in_page_slot: "i < 1024 \<Longrightarrow> in_page v (v + 4 * i)"
  by (simp add: in_page_def PGSIZE_def)

lemma in_page_byte: "in_page v (v + k mod 4096)"
  by (simp add: in_page_def PGSIZE_def)

lemma PX_less [simp]: "PDX va < 1024" "PTX va < 1024"
  by (simp_all add: PDX_def PTX_def)

section \<open>What a change may touch\<close>

definition touches :: "addr set \<Rightarrow> vm \<Rightarrow> vm \<Rightarrow> bool" where
  "touches P s s' \<longleftrightarrow> (\<forall>a. (\<nexists>v. v \<in> P \<and> in_page v a) \<longrightarrow> words s' a = words s a \<and> pbytes s' a = pbytes s a)"

lemma touches_refl [simp]: "touches P s s"
  by (simp add: touches_def)

lemma touches_trans: "touches P s s' \<Longrightarrow> touches Q s' s'' \<Longrightarrow> P \<union> Q \<subseteq> R \<Longrightarrow> touches R s s''"
  unfolding touches_def by (metis UnI1 UnI2 subsetD)

lemma touches_mono: "touches P s s' \<Longrightarrow> P \<subseteq> Q \<Longrightarrow> touches Q s s'"
  unfolding touches_def by blast

lemma touches_fill: "touches {v} s (fill_page v c s)"
  by (simp add: touches_def fill_page_def)

lemma touches_set_word: "in_page v p \<Longrightarrow> touches {v} s (set_word p x s)"
  by (auto simp: touches_def set_word_def)

lemma touches_km: "touches P s (s\<lparr>km := k\<rparr>)"
  by (simp add: touches_def)

lemma touches_slot:
  assumes "touches P s s'" "\<forall>u \<in> P. 4096 dvd u" "4096 dvd v" "v \<notin> P" "in_page v a"
  shows "words s' a = words s a \<and> pbytes s' a = pbytes s a"
  using assms in_page_unique unfolding touches_def by metis

section \<open>Tables\<close>

definition table :: "vm \<Rightarrow> addr \<Rightarrow> nat \<Rightarrow> addr option" where
  "table s pd i = (if present (words s (pd + 4 * i)) then Some (PTE_ADDR (words s (pd + 4 * i))) else None)"

definition own :: "vm \<Rightarrow> addr \<Rightarrow> addr set" where
  "own s pd = insert pd {t. \<exists>i < 1024. table s pd i = Some t}"

lemma pte_of_table:
  "pte_of s pd va = (case table s pd (PDX va) of None \<Rightarrow> 0 | Some t \<Rightarrow> words s (t + 4 * PTX va))"
  by (simp add: pte_of_def table_def present_def Let_def)

definition pd_ok :: "addr \<Rightarrow> vm \<Rightarrow> addr \<Rightarrow> addr list \<Rightarrow> bool" where
  "pd_ok kend s pd fs \<longleftrightarrow> kmem_inv kend (km s) fs \<and> (\<forall>v \<in> own s pd. page_ok kend v \<and> v \<notin> set fs) \<and>
     (\<forall>i < 1024. table s pd i \<noteq> Some pd) \<and>
     (\<forall>i < 1024. \<forall>j < 1024. table s pd i = table s pd j \<longrightarrow> table s pd i \<noteq> None \<longrightarrow> i = j)"

lemma own_table: "table s pd i = Some t \<Longrightarrow> i < 1024 \<Longrightarrow> t \<in> own s pd"
  by (auto simp: own_def)

lemma own_self [simp]: "pd \<in> own s pd"
  by (simp add: own_def)

lemma pd_ok_page: "pd_ok kend s pd fs \<Longrightarrow> v \<in> own s pd \<Longrightarrow> page_ok kend v \<and> v \<notin> set fs \<and> 4096 dvd v"
  by (auto simp: pd_ok_def page_ok_dvd)

lemma pd_ok_kmem: "pd_ok kend s pd fs \<Longrightarrow> kmem_inv kend (km s) fs"
  by (simp add: pd_ok_def)

lemma kmem_page: "kmem_inv kend k fs \<Longrightarrow> v \<in> set fs \<Longrightarrow> page_ok kend v \<and> 4096 dvd v"
  by (auto simp: kmem_inv_def page_ok_dvd)

text \<open>A change elsewhere leaves a page directory as it was.\<close>

lemma frame_tables:
  assumes "touches P s s'" "\<forall>u \<in> P. 4096 dvd u" "\<forall>v \<in> own s pd. 4096 dvd v \<and> v \<notin> P"
  shows "table s' pd i = table s pd i \<or> \<not> i < 1024" "pte_of s' pd va = pte_of s pd va" "own s' pd = own s pd"
proof -
  have t: "table s' pd i = table s pd i" if "i < 1024" for i
    using touches_slot [OF assms(1,2), of pd "pd + 4 * i"] assms(3) in_page_slot [OF that] by (simp add: table_def)
  then show "table s' pd i = table s pd i \<or> \<not> i < 1024" by blast
  show "own s' pd = own s pd" using t by (auto simp: own_def)
  show "pte_of s' pd va = pte_of s pd va"
  proof (cases "table s pd (PDX va)")
    case (Some u)
    then have "u \<in> own s pd" by (rule own_table) simp
    then have "words s' (u + 4 * PTX va) = words s (u + 4 * PTX va)"
      using touches_slot [OF assms(1,2), of u] assms(3) in_page_slot by simp
    then show ?thesis using t Some by (simp add: pte_of_table)
  qed (simp add: pte_of_table t)
qed

lemma frame_pd_ok:
  assumes "pd_ok kend s pd fs" "touches P s s'" "\<forall>u \<in> P. 4096 dvd u \<and> u \<notin> own s pd"
    "kmem_inv kend (km s') fs'" "set fs' \<inter> own s pd = {}"
  shows "pd_ok kend s' pd fs'"
proof -
  have p: "\<forall>u \<in> P. 4096 dvd u" "\<forall>v \<in> own s pd. 4096 dvd v \<and> v \<notin> P"
    using assms(1,3) pd_ok_page by blast+
  note f = frame_tables [OF assms(2) p]
  have "\<forall>v \<in> own s pd. page_ok kend v" "\<forall>i < 1024. table s pd i \<noteq> Some pd"
    "\<forall>i < 1024. \<forall>j < 1024. table s pd i = table s pd j \<longrightarrow> table s pd i \<noteq> None \<longrightarrow> i = j"
    using assms(1) unfolding pd_ok_def by blast+
  then show ?thesis unfolding pd_ok_def using assms(4,5) f(1,3) by (metis disjoint_iff)
qed

section \<open>Walking and mapping\<close>

lemma vm_kalloc_pool:
  "kmem_inv kend (km s) [] \<Longrightarrow> vm_kalloc s = (0, s)"
  "kmem_inv kend (km s) (x # xs) \<Longrightarrow> \<exists>k. vm_kalloc s = (x, s\<lparr>km := k\<rparr>) \<and> kmem_inv kend k xs \<and> x \<noteq> 0 \<and> x \<notin> set xs"
  using kalloc_inv_empty [of kend "km s"] kalloc_inv_cons [of kend "km s" x xs] kmem_inv_wf [of kend "km s" "x # xs"]
  by (auto simp: vm_kalloc_def)

lemma walk_present: "table s pd (PDX va) = Some t \<Longrightarrow> walkpgdir pd va c s = (Some (t + 4 * PTX va), s)"
  by (auto simp: walkpgdir_def table_def present_def Let_def split: if_splits)

lemma walk_absent: "table s pd (PDX va) = None \<Longrightarrow> walkpgdir pd va False s = (None, s)"
  by (auto simp: walkpgdir_def table_def present_def Let_def split: if_splits)

lemma words_simps:
  "words (set_word p v s) = (words s)(p := v)" "pbytes (set_word p v s) = pbytes s" "km (set_word p v s) = km s"
  "km (fill_page v c s) = km s"
  "in_page v a \<Longrightarrow> words (fill_page v 0 s) a = 0" "\<not> in_page v a \<Longrightarrow> words (fill_page v c s) a = words s a"
  "in_page v a \<Longrightarrow> pbytes (fill_page v 0 s) a = 0" "\<not> in_page v a \<Longrightarrow> pbytes (fill_page v c s) a = pbytes s a"
  by (simp_all add: set_word_def fill_page_def)

lemma walk_create:
  assumes ok: "pd_ok kend s pd fs" and none: "table s pd (PDX va) = None"
  shows "(fs = [] \<and> walkpgdir pd va True s = (None, s)) \<or>
    (\<exists>x xs s'. fs = x # xs \<and> walkpgdir pd va True s = (Some (x + 4 * PTX va), s') \<and> pd_ok kend s' pd xs \<and>
      table s' pd (PDX va) = Some x \<and> (\<forall>va'. pte_of s' pd va' = pte_of s pd va') \<and>
      own s' pd = insert x (own s pd) \<and> touches {pd, x} s s')"
proof (cases fs)
  case Nil
  then have "vm_kalloc s = (0, s)" using vm_kalloc_pool(1) pd_ok_kmem [OF ok] by blast
  then show ?thesis using none Nil by (auto simp: walkpgdir_def table_def present_def Let_def split: if_splits)
next
  case (Cons x xs)
  then obtain k where k: "vm_kalloc s = (x, s\<lparr>km := k\<rparr>)" "kmem_inv kend k xs" "x \<noteq> 0" "x \<notin> set xs"
    using vm_kalloc_pool(2) pd_ok_kmem [OF ok] by blast
  define pde where "pde = pd + 4 * PDX va"
  define s' where "s' = set_word pde (x OR 7) (fill_page x 0 (s\<lparr>km := k\<rparr>))"
  have x: "page_ok kend x" "4096 dvd x" "x \<notin> own s pd"
    using kmem_page [OF pd_ok_kmem [OF ok], of x] Cons pd_ok_page [OF ok, of x] by auto
  have pd: "4096 dvd pd" "pd \<noteq> x" using pd_ok_page [OF ok own_self] x by auto
  have slot: "\<not> in_page x (v + 4 * i)" if "v \<in> own s pd" "i < 1024" for v i
    using in_page_unique [of x v] in_page_slot [OF that(2), of v] x pd_ok_page [OF ok that(1)] that(1) by auto
  have w: "walkpgdir pd va True s = (Some (x + 4 * PTX va), s')"
    using none k by (auto simp: walkpgdir_def table_def present_def Let_def s'_def pde_def PTE_P_def PTE_W_def PTE_U_def
      split: if_splits)
  have e: "present (x OR 7)" "PTE_ADDR (x OR 7) = x" using entry_parts [OF x(2), of 7] by simp_all
  have t: "table s' pd i = (if i = PDX va then Some x else table s pd i)" if "i < 1024" for i
    using slot [OF own_self that] e by (simp add: table_def s'_def pde_def words_simps)
  have o: "own s' pd = insert x (own s pd)"
  proof -
    have "(\<exists>i < 1024. table s' pd i = Some y) \<longleftrightarrow> y = x \<or> (\<exists>i < 1024. table s pd i = Some y)" for y
      using t none by (metis PX_less(1) option.inject option.discI)
    then show ?thesis by (auto simp: own_def)
  qed
  have "\<not> in_page x pde" using slot [OF own_self] by (simp add: pde_def)
  then have xw: "words s' (x + 4 * i) = 0" if "i < 1024" for i
    using in_page_slot [OF that, of x] by (auto simp: s'_def words_simps)
  have tw: "words s' (u + 4 * PTX va') = words s (u + 4 * PTX va')"
    if "table s pd i = Some u" "i < 1024" for u i va'
  proof -
    have u: "u \<in> own s pd" "u \<noteq> pd" using own_table [OF that] ok that by (auto simp: pd_ok_def)
    then have "\<not> in_page pd (u + 4 * PTX va')"
      using in_page_unique [of u pd] in_page_slot [of "PTX va'" u] pd pd_ok_page [OF ok] by auto
    then have "u + 4 * PTX va' \<noteq> pde" using in_page_slot [of "PDX va" pd] by (auto simp: pde_def)
    then show ?thesis using slot [OF u(1)] by (simp add: s'_def words_simps)
  qed
  have p: "pte_of s' pd va' = pte_of s pd va'" for va'
  proof (cases "PDX va' = PDX va")
    case True
    then show ?thesis using t none xw by (simp add: pte_of_table)
  next
    case False
    then show ?thesis using t tw [of "PDX va'"] by (simp add: pte_of_table split: option.split)
  qed
  have "pd_ok kend s' pd xs"
    unfolding pd_ok_def o
  proof (intro conjI allI impI ballI)
    show "kmem_inv kend (km s') xs" using k by (simp add: s'_def words_simps)
    show "page_ok kend v" "v \<notin> set xs" if "v \<in> insert x (own s pd)" for v
      using that x k(4) pd_ok_page [OF ok] Cons by auto
    show "table s' pd i \<noteq> Some pd" if "i < 1024" for i using t [OF that] pd ok that by (auto simp: pd_ok_def)
    show "i = j" if "i < 1024" "j < 1024" "table s' pd i = table s' pd j" "table s' pd i \<noteq> None" for i j
    proof -
      have "table s pd l \<noteq> Some x" if "l < 1024" for l using own_table [OF _ that] x(3) by auto
      then show ?thesis using that t ok unfolding pd_ok_def by (metis (no_types, lifting))
    qed
  qed
  moreover have "touches {pd, x} s s'"
    unfolding touches_def s'_def using in_page_slot [of "PDX va" pd] by (auto simp: words_simps pde_def)
  ultimately show ?thesis using Cons w t [of "PDX va"] p o by auto
qed

lemma set_pte:
  fixes v :: nat
  assumes ok: "pd_ok kend s pd fs" and t: "table s pd (PDX va) = Some t"
  defines "s' \<equiv> set_word (t + 4 * PTX va) v s"
  shows "pd_ok kend s' pd fs" "\<And>i. i < 1024 \<Longrightarrow> table s' pd i = table s pd i" "own s' pd = own s pd"
    "pte_of s' pd va' = (if PDX va' = PDX va \<and> PTX va' = PTX va then v else pte_of s pd va')"
    "touches {t} s s'"
proof -
  have tp: "t \<in> own s pd" "t \<noteq> pd" "4096 dvd t" "4096 dvd pd"
    using own_table [OF t] ok t pd_ok_page [OF ok] by (auto simp: pd_ok_def)
  have slot: "u + 4 * i \<noteq> t + 4 * j" if "u \<noteq> t" "4096 dvd u" "i < 1024" "j < 1024" for u i j
    using in_page_unique [OF that(2) tp(3), of "u + 4 * i"] in_page_slot that by fastforce
  show tb: "table s' pd i = table s pd i" if "i < 1024" for i
    using slot [of pd i "PTX va"] tp that by (simp add: table_def s'_def words_simps)
  show o: "own s' pd = own s pd" unfolding own_def using tb by auto
  have k: "km s' = km s" by (simp add: s'_def words_simps)
  show "pd_ok kend s' pd fs" unfolding pd_ok_def o k using ok tb unfolding pd_ok_def by (metis (no_types, lifting))
  show "touches {t} s s'" unfolding s'_def by (intro touches_set_word in_page_slot) simp
  show "pte_of s' pd va' = (if PDX va' = PDX va \<and> PTX va' = PTX va then v else pte_of s pd va')"
  proof (cases "table s pd (PDX va')")
    case None
    then show ?thesis using tb t by (auto simp: pte_of_table)
  next
    case (Some u)
    have uu: "u \<in> own s pd" using own_table Some by simp
    show ?thesis
    proof (cases "u = t")
      case True
      then have "PDX va' = PDX va" using ok Some t unfolding pd_ok_def by (metis PX_less(1) option.discI)
      then show ?thesis using True Some tb t by (auto simp: pte_of_table s'_def words_simps)
    next
      case False
      then have "PDX va' \<noteq> PDX va" using Some t by auto
      then show ?thesis using slot [OF False, of "PTX va'" "PTX va"] pd_ok_page [OF ok uu] Some tb
        by (simp add: pte_of_table s'_def words_simps)
    qed
  qed
qed

definition same_page :: "nat \<Rightarrow> nat \<Rightarrow> bool" where
  "same_page a b \<longleftrightarrow> PDX a = PDX b \<and> PTX a = PTX b"

lemma same_page_iff:
  assumes "a < 2 ^ 32" "b < 2 ^ 32"
  shows "same_page a b \<longleftrightarrow> a div 4096 = b div 4096"
proof -
  have d: "PDX x = x div 4096 div 1024 \<and> PTX x = x div 4096 mod 1024" if "x < 2 ^ 32" for x
    using that div_mult2_eq [of x 4096 1024] by (simp add: PDX_def PTX_def less_mult_imp_div_less)
  show ?thesis unfolding same_page_def using d [OF assms(1)] d [OF assms(2)] by (metis div_mult_mod_eq)
qed

text \<open>A page directory that has taken the pages \<open>us\<close> from the free list for its tables.\<close>

definition grown :: "addr \<Rightarrow> addr \<Rightarrow> vm \<Rightarrow> addr list \<Rightarrow> vm \<Rightarrow> addr list \<Rightarrow> addr list \<Rightarrow> bool" where
  "grown kend pd s fs s' us fs' \<longleftrightarrow> fs = us @ fs' \<and> pd_ok kend s' pd fs' \<and> own s' pd = set us \<union> own s pd \<and>
     touches (own s' pd) s s' \<and> (\<forall>i < 1024. table s pd i \<noteq> None \<longrightarrow> table s' pd i = table s pd i)"

lemma grown_refl: "pd_ok kend s pd fs \<Longrightarrow> grown kend pd s fs s [] fs"
  by (simp add: grown_def)

lemma grown_trans:
  assumes "grown kend pd s fs s1 us fs1" "grown kend pd s1 fs1 s2 vs fs2"
  shows "grown kend pd s fs s2 (us @ vs) fs2"
proof -
  have "touches (own s2 pd) s s2"
    using touches_trans [of "own s1 pd" s s1 "own s2 pd" s2 "own s2 pd"] assms by (auto simp: grown_def)
  then show ?thesis using assms by (auto simp: grown_def)
qed

lemma walk_grown:
  assumes ok: "pd_ok kend s pd fs"
  obtains (full) "fs = []" "table s pd (PDX va) = None" "walkpgdir pd va True s = (None, s)"
  | (slot) t s1 us fs' where "walkpgdir pd va True s = (Some (t + 4 * PTX va), s1)" "table s1 pd (PDX va) = Some t"
      "grown kend pd s fs s1 us fs'" "\<And>va'. pte_of s1 pd va' = pte_of s pd va'"
      "table s pd (PDX va) \<noteq> None \<Longrightarrow> us = []"
proof (cases "table s pd (PDX va)")
  case (Some t)
  show ?thesis by (rule slot [of t s "[]" fs]) (use Some ok in \<open>auto simp: walk_present grown_refl\<close>)
next
  case None
  from walk_create [OF ok None] show ?thesis
  proof
    assume "fs = [] \<and> walkpgdir pd va True s = (None, s)"
    then show ?thesis using full None by blast
  next
    assume "\<exists>x xs s'. fs = x # xs \<and> walkpgdir pd va True s = (Some (x + 4 * PTX va), s') \<and> pd_ok kend s' pd xs \<and>
      table s' pd (PDX va) = Some x \<and> (\<forall>va'. pte_of s' pd va' = pte_of s pd va') \<and>
      own s' pd = insert x (own s pd) \<and> touches {pd, x} s s'"
    then obtain x xs s1 where w: "fs = x # xs" "walkpgdir pd va True s = (Some (x + 4 * PTX va), s1)" "pd_ok kend s1 pd xs"
      "table s1 pd (PDX va) = Some x" "\<forall>va'. pte_of s1 pd va' = pte_of s pd va'"
      "own s1 pd = insert x (own s pd)" "touches {pd, x} s s1" by blast
    have "table s1 pd i = table s pd i" if i: "i < 1024" "table s pd i \<noteq> None" for i
    proof -
      obtain u where u: "table s pd i = Some u" using i(2) by auto
      then have "i \<noteq> PDX va" using None by auto
      moreover have "words s1 (pd + 4 * i) = words s (pd + 4 * i)"
      proof -
        have "s1 = snd (walkpgdir pd va True s)" using w(2) by simp
        moreover obtain k where "vm_kalloc s = (x, s\<lparr>km := k\<rparr>)" "x \<noteq> 0"
          using vm_kalloc_pool(2) pd_ok_kmem [OF ok] w(1) by blast
        ultimately have s1: "s1 = set_word (pd + 4 * PDX va) (x OR PTE_P OR PTE_W OR PTE_U) (fill_page x 0 (s\<lparr>km := k\<rparr>))"
          using None by (auto simp: walkpgdir_def table_def present_def Let_def split: if_splits)
        have "x \<noteq> pd" using pd_ok_page [OF ok own_self] w(1) by auto
        moreover have "4096 dvd x" "4096 dvd pd" using kmem_page [OF pd_ok_kmem [OF ok], of x] pd_ok_page [OF ok own_self] w(1) by auto
        ultimately have "\<not> in_page x (pd + 4 * i)" using in_page_unique in_page_slot [OF that(1), of pd] by blast
        then show ?thesis using s1 \<open>i \<noteq> PDX va\<close> by (simp add: words_simps)
      qed
      ultimately show ?thesis by (simp add: table_def)
    qed
    then have "grown kend pd s fs s1 [x] xs"
      using w touches_mono [OF w(7), of "own s1 pd"] by (auto simp: grown_def)
    then show ?thesis using slot [OF w(2,4)] w(5) None by blast
  qed
qed

lemma map_step:
  fixes v :: nat
  assumes ok: "pd_ok kend s pd fs"
  obtains (full) "fs = []" "table s pd (PDX va) = None" "walkpgdir pd va True s = (None, s)"
  | (slot) p s1 us fs' where "walkpgdir pd va True s = (Some p, s1)" "words s1 p = pte_of s pd va"
      "grown kend pd s fs (set_word p v s1) us fs'" "table (set_word p v s1) pd (PDX va) \<noteq> None"
      "\<And>va'. pte_of (set_word p v s1) pd va' = (if same_page va' va then v else pte_of s pd va')"
      "table s pd (PDX va) \<noteq> None \<Longrightarrow> us = []"
proof (cases rule: walk_grown [OF ok, of va])
  case 1
  then show ?thesis using full by blast
next
  case (2 t s1 us fs')
  have ok1: "pd_ok kend s1 pd fs'" using 2(3) by (simp add: grown_def)
  note sp = set_pte [OF ok1 2(2), where v = v]
  have "grown kend pd s1 fs' (set_word (t + 4 * PTX va) v s1) [] fs'"
    using sp own_table [OF 2(2)] touches_mono [OF sp(5), of "own s1 pd"] by (simp add: grown_def)
  from grown_trans [OF 2(3) this] have g: "grown kend pd s fs (set_word (t + 4 * PTX va) v s1) us fs'" by simp
  have "words s1 (t + 4 * PTX va) = pte_of s pd va" using 2(2) 2(4) [of va] by (simp add: pte_of_table)
  then show ?thesis using slot [OF 2(1) _ g] sp(2,4) 2 by (simp add: same_page_def)
qed

lemma map_loop_spec:
  assumes "pd_ok kend s pd fs" "4096 dvd a" "4096 dvd pa" "perm < 8"
    "a + n * 4096 < 2 ^ 32" "pa + n * 4096 < 2 ^ 32" "\<And>j. j \<le> n \<Longrightarrow> \<not> present (pte_of s pd (a + j * 4096))"
  shows "\<exists>r s' us fs'. map_loop n pd a pa perm s = Inr (r, s') \<and> r \<in> {0, - 1} \<and> grown kend pd s fs s' us fs' \<and>
    (\<forall>va. va < 2 ^ 32 \<longrightarrow> \<not> (a \<le> va \<and> va < a + (n + 1) * 4096) \<longrightarrow> pte_of s' pd va = pte_of s pd va) \<and>
    (r = 0 \<longrightarrow> table s' pd (PDX a) \<noteq> None)"
  using assms
proof (induction n arbitrary: s fs a pa)
  case (0 s fs a pa)
  show ?case
  proof (cases rule: map_step [OF 0(1), where va = a and v = "pa OR perm OR PTE_P"])
    case 1
    then show ?thesis using 0(1) by (auto simp: map_loop.simps intro!: exI [of _ "[]"] exI [of _ fs] grown_refl)
  next
    case (2 p s1 us fs')
    have "pte_of (set_word p (pa OR perm OR PTE_P) s1) pd va = pte_of s pd va"
      if "va < 2 ^ 32" "\<not> (a \<le> va \<and> va < a + 4096)" for va
    proof -
      have "va div 4096 \<noteq> a div 4096" using that(2) 0(2) by (auto elim!: dvdE)
      then show ?thesis using 2(5) same_page_iff [OF that(1), of a] 0(5) by simp
    qed
    moreover have "map_loop 0 pd a pa perm s = Inr (0, set_word p (pa OR perm OR PTE_P) s1)"
      using 2(1,2) 0(7) [of 0] by (simp add: map_loop.simps present_def)
    ultimately show ?thesis using 2(3,4) by auto
  qed
next
  case (Suc n s fs a pa)
  show ?case
  proof (cases rule: map_step [OF Suc.prems(1), where va = a and v = "pa OR perm OR PTE_P"])
    case 1
    then show ?thesis using Suc.prems(1)
      by (auto simp: map_loop.simps [of "Suc n"] intro!: exI [of _ "[]"] exI [of _ fs] grown_refl)
  next
    case (2 p s1 us fs')
    define s2 where "s2 = set_word p (pa OR perm OR PTE_P) s1"
    have pte: "pte_of s2 pd va = pte_of s pd va" if "va < 2 ^ 32" "\<not> (a \<le> va \<and> va < a + 4096)" for va
    proof -
      have "va div 4096 \<noteq> a div 4096" using that(2) Suc.prems(2) by (auto elim!: dvdE)
      then show ?thesis using 2(5) same_page_iff [OF that(1), of a] Suc.prems(5) by (simp add: s2_def)
    qed
    have np: "\<not> present (pte_of s2 pd (a + 4096 + j * 4096))" if "j \<le> n" for j
      using pte [of "a + 4096 + j * 4096"] Suc.prems(5) Suc.prems(7) [of "Suc j"] that
        mult_le_mono1 [OF that, of 4096] by (simp add: add.assoc)
    have ok2: "pd_ok kend s2 pd fs'" using 2(3) by (simp add: grown_def s2_def)
    have ad: "add32 a PGSIZE = a + 4096" "add32 pa PGSIZE = pa + 4096"
      using Suc.prems(5,6) by (simp_all add: add32_def PGSIZE_def)
    obtain r s' vs fs2 where IH: "map_loop n pd (a + 4096) (pa + 4096) perm s2 = Inr (r, s')" "r \<in> {0, - 1}"
      "grown kend pd s2 fs' s' vs fs2"
      "\<forall>va. va < 2 ^ 32 \<longrightarrow> \<not> (a + 4096 \<le> va \<and> va < a + 4096 + (n + 1) * 4096) \<longrightarrow> pte_of s' pd va = pte_of s2 pd va"
      using Suc.IH [OF ok2, of "a + 4096" "pa + 4096"] Suc.prems np by auto
    have m: "map_loop (Suc n) pd a pa perm s = Inr (r, s')"
      using 2(1,2) Suc.prems(7) [of 0] IH(1) ad by (simp add: map_loop.simps [of "Suc n"] present_def s2_def)
    have g: "grown kend pd s fs s' (us @ vs) fs2" using grown_trans [OF 2(3)] IH(3) by (simp add: s2_def)
    have "table s' pd (PDX a) \<noteq> None" using IH(3) 2(4) by (simp add: grown_def s2_def)
    moreover have "pte_of s' pd va = pte_of s pd va" if "va < 2 ^ 32" "\<not> (a \<le> va \<and> va < a + (Suc n + 1) * 4096)" for va
      using IH(4) pte that by auto
    ultimately show ?thesis using m g IH(2) by blast
  qed
qed

lemma mappages_range:
  assumes "4096 dvd a" "0 < a" "a + (n + 1) * 4096 \<le> 2 ^ 32"
  shows "mappages pd a (sub32 ((a + (n + 1) * 4096) mod 2 ^ 32) a) pa perm s = map_loop n pd a pa perm s"
proof -
  have m: "x mod 4294967296 = x" if "x < 4294967296" for x :: nat using that by simp
  have sz: "sub32 ((a + (n + 1) * 4096) mod 2 ^ 32) a = (n + 1) * 4096"
  proof (cases "a + (n + 1) * 4096 = 2 ^ 32")
    case True
    then have z: "(a + (n + 1) * 4096) mod 2 ^ 32 = 0" unfolding True by simp
    show ?thesis unfolding sub32_def z using True assms(2) by simp
  next
    case False
    then have "(a + (n + 1) * 4096) mod 2 ^ 32 = a + (n + 1) * 4096" using assms(3) by simp
    moreover have "(a + (n + 1) * 4096 + 2 ^ 32 - a) mod 2 ^ 32 = (n + 1) * 4096"
    proof -
      have l: "(n + 1) * 4096 < 2 ^ 32" using assms(2,3) by simp
      have "a + (n + 1) * 4096 + 2 ^ 32 - a = (n + 1) * 4096 + 2 ^ 32" by simp
      then show ?thesis by (simp only: mod_add_self2 mod_less [OF l])
    qed
    ultimately show ?thesis by (simp only: sub32_def)
  qed
  have "sub32 (add32 a ((n + 1) * 4096)) 1 = a + n * 4096 + 4095"
  proof (cases "a + (n + 1) * 4096 = 2 ^ 32")
    case True
    have z: "add32 a ((n + 1) * 4096) = 0" unfolding add32_def True by simp
    show ?thesis unfolding z using True by (simp add: sub32_def)
  next
    case False
    then have "add32 a ((n + 1) * 4096) = a + (n + 1) * 4096" using assms(3) by (simp add: add32_def)
    moreover have "(a + (n + 1) * 4096 + 2 ^ 32 - 1) mod 2 ^ 32 = a + n * 4096 + 4095" using assms(3) by (simp add: mod_if)
    ultimately show ?thesis by (simp only: sub32_def)
  qed
  moreover have "PGROUNDDOWN (a + n * 4096 + 4095) = a + n * 4096" "PGROUNDDOWN a = a"
  proof -
    obtain k where k: "a = 4096 * k" using assms(1) by blast
    have "(4096 * (k + n) + 4095) div 4096 = k + n" by simp
    moreover have "a + n * 4096 + 4095 = 4096 * (k + n) + 4095" by (simp add: k)
    ultimately have "(a + n * 4096 + 4095) div 4096 = k + n" by (simp only:)
    then show "PGROUNDDOWN (a + n * 4096 + 4095) = a + n * 4096" by (simp add: PGROUNDDOWN_def PGSIZE_def k)
    show "PGROUNDDOWN a = a" by (simp add: PGROUNDDOWN_def PGSIZE_def k)
  qed
  moreover have "sub32 (a + n * 4096) a div PGSIZE = n" using assms(2,3) by (simp add: sub32_def PGSIZE_def m)
  ultimately show ?thesis unfolding sz by (simp add: mappages_def Let_def)
qed

section \<open>A fresh address space\<close>

fun regions :: "nat \<Rightarrow> (nat \<times> nat \<times> nat) list \<Rightarrow> bool" where
  "regions lo [] \<longleftrightarrow> True"
| "regions lo ((p, e, perm) # ks) \<longleftrightarrow> lo \<le> p \<and> 0 < p \<and> 4096 dvd p \<and> perm < 8 \<and>
     (\<exists>n. p + (n + 1) * 4096 \<le> 2 ^ 32 \<and> e = (p + (n + 1) * 4096) mod 2 ^ 32 \<and> regions (p + (n + 1) * 4096) ks)"

lemma kmap_loop_spec:
  assumes "regions lo ks" "pd_ok kend s pd fs" "\<And>va. lo \<le> va \<Longrightarrow> va < 2 ^ 32 \<Longrightarrow> \<not> present (pte_of s pd va)"
  shows "\<exists>r s' us fs'. kmap_loop ks pd s = Inr (r, s') \<and> r \<in> {0, - 1} \<and> grown kend pd s fs s' us fs' \<and>
    (\<forall>va. va < lo \<longrightarrow> va < 2 ^ 32 \<longrightarrow> pte_of s' pd va = pte_of s pd va) \<and>
    (r = 0 \<longrightarrow> (\<forall>(p, e, perm) \<in> set ks. table s' pd (PDX p) \<noteq> None))"
  using assms
proof (induction ks arbitrary: lo s fs)
  case Nil
  then show ?case using grown_refl by fastforce
next
  case (Cons k ks)
  obtain p e perm where k: "k = (p, e, perm)" by (cases k)
  then obtain n where n: "lo \<le> p" "0 < p" "4096 dvd p" "perm < 8" "p + (n + 1) * 4096 \<le> 2 ^ 32"
    "e = (p + (n + 1) * 4096) mod 2 ^ 32" "regions (p + (n + 1) * 4096) ks"
    using Cons.prems(1) by auto
  have "\<not> present (pte_of s pd (p + j * 4096))" if "j \<le> n" for j
    using Cons.prems(3) [of "p + j * 4096"] n(1,5) mult_le_mono1 [OF that, of 4096] by simp
  then obtain r s1 us fs1 where m: "map_loop n pd p p perm s = Inr (r, s1)" "r \<in> {0, - 1}" "grown kend pd s fs s1 us fs1"
    "\<forall>va. va < 2 ^ 32 \<longrightarrow> \<not> (p \<le> va \<and> va < p + (n + 1) * 4096) \<longrightarrow> pte_of s1 pd va = pte_of s pd va"
    "r = 0 \<longrightarrow> table s1 pd (PDX p) \<noteq> None"
    using map_loop_spec [OF Cons.prems(2) n(3) n(3,4), of n] n(5) by auto
  have mp: "mappages pd p (sub32 e p) p perm s = Inr (r, s1)"
    using mappages_range [OF n(3,2,5)] m(1) by (simp only: n(6))
  show ?case
  proof (cases "r = 0")
    case False
    then show ?thesis using mp m n(1) k by auto
  next
    case True
    have ok1: "pd_ok kend s1 pd fs1" using m(3) by (simp add: grown_def)
    have "\<not> present (pte_of s1 pd va)" if "p + (n + 1) * 4096 \<le> va" "va < 2 ^ 32" for va
      using m(4) that Cons.prems(3) [of va] n(1) by simp
    then obtain r2 s2 vs fs2 where i: "kmap_loop ks pd s1 = Inr (r2, s2)" "r2 \<in> {0, - 1}" "grown kend pd s1 fs1 s2 vs fs2"
      "\<forall>va. va < p + (n + 1) * 4096 \<longrightarrow> va < 2 ^ 32 \<longrightarrow> pte_of s2 pd va = pte_of s1 pd va"
      "r2 = 0 \<longrightarrow> (\<forall>(p, e, perm) \<in> set ks. table s2 pd (PDX p) \<noteq> None)"
      using Cons.IH [OF n(7) ok1] by blast
    have g: "grown kend pd s fs s2 (us @ vs) fs2" using grown_trans [OF m(3) i(3)] .
    have "table s2 pd (PDX p) \<noteq> None" using i(3) m(5) True by (simp add: grown_def)
    moreover have "pte_of s2 pd va = pte_of s pd va" if "va < lo" "va < 2 ^ 32" for va
      using i(4) m(4) that n(1) by simp
    moreover have "kmap_loop (k # ks) pd s = Inr (r2, s2)" using mp i(1) True k by simp
    ultimately show ?thesis using g i(2,5) k by auto
  qed
qed

definition data_ok :: "addr \<Rightarrow> bool" where
  "data_ok data \<longleftrightarrow> 4096 dvd data \<and> 0x100000 < data \<and> data < PHYSTOP"

lemma kmap_regions: "data_ok data \<Longrightarrow> regions USERTOP (kmap data)"
proof -
  assume d: "data_ok data"
  then obtain q where q: "data = 4096 * q" by (auto simp: data_ok_def)
  have b: "256 < q" "q < 4096" using d by (simp_all add: q data_ok_def PHYSTOP_def)
  have r4: "regions PHYSTOP [(0xFE000000, 0, PTE_W)]"
    by (simp add: PHYSTOP_def PTE_W_def) (rule exI [of _ 8191], simp)
  have r3: "regions data [(data, PHYSTOP, PTE_W), (0xFE000000, 0, PTE_W)]"
    using b r4 by (simp add: q PHYSTOP_def PTE_W_def) (rule exI [of _ "4095 - q"], simp add: PHYSTOP_def diff_mult_distrib)
  have r2: "regions 0x100000 [(0x100000, data, 0), (data, PHYSTOP, PTE_W), (0xFE000000, 0, PTE_W)]"
    using b r3 by (simp add: q PHYSTOP_def PTE_W_def) (rule exI [of _ "q - 257"], simp add: PHYSTOP_def diff_mult_distrib)
  show ?thesis using r2 unfolding kmap_def
    by (simp add: USERTOP_def PTE_W_def) (rule exI [of _ 95], simp)
qed

text \<open>What \<open>setupkvm\<close> takes from the free list and touches, and the directory it returns.\<close>

lemma setupkvm_spec:
  assumes "kmem_inv kend (km s) fs" "data_ok data"
  shows "\<exists>d s' us fs'. setupkvm data s = Inr (d, s') \<and> fs = us @ fs' \<and> kmem_inv kend (km s') fs' \<and>
    touches (set us) s s' \<and>
    (d \<noteq> 0 \<longrightarrow> pd_ok kend s' d fs' \<and> own s' d = set us \<and> table s' d 0 \<noteq> None \<and>
      (\<forall>va < USERTOP. pte_of s' d va = 0))"
proof (cases fs)
  case Nil
  then have "vm_kalloc s = (0, s)" using vm_kalloc_pool(1) assms(1) by blast
  then show ?thesis using assms(1) Nil by (simp add: setupkvm_def)
next
  case (Cons d xs)
  then obtain k where k: "vm_kalloc s = (d, s\<lparr>km := k\<rparr>)" "kmem_inv kend k xs" "d \<noteq> 0" "d \<notin> set xs"
    using vm_kalloc_pool(2) assms(1) by blast
  define s0 where "s0 = fill_page d 0 (s\<lparr>km := k\<rparr>)"
  have d: "page_ok kend d" "4096 dvd d" using kmem_page [OF assms(1), of d] Cons by auto
  have t0: "table s0 d i = None" if "i < 1024" for i
    using in_page_slot [OF that, of d] by (simp add: table_def s0_def words_simps)
  then have own0: "own s0 d = {d}" by (auto simp: own_def)
  have ok0: "pd_ok kend s0 d xs" unfolding pd_ok_def own0 using t0 k d by (simp add: s0_def words_simps)
  have p0: "pte_of s0 d va = 0" for va using t0 by (simp add: pte_of_table)
  have tc0: "touches {d} s s0" unfolding touches_def s0_def by (auto simp: words_simps)
  obtain r s' us fs' where m: "kmap_loop (kmap data) d s0 = Inr (r, s')" "r \<in> {0, - 1}" "grown kend d s0 xs s' us fs'"
    "\<forall>va. va < USERTOP \<longrightarrow> va < 2 ^ 32 \<longrightarrow> pte_of s' d va = pte_of s0 d va"
    "r = 0 \<longrightarrow> (\<forall>(p, e, perm) \<in> set (kmap data). table s' d (PDX p) \<noteq> None)"
    using kmap_loop_spec [OF kmap_regions [OF assms(2)] ok0] p0 by auto
  have "touches (set (d # us)) s s'"
    using touches_trans [OF tc0, of "own s' d" s' "set (d # us)"] m(3) own0 by (auto simp: grown_def)
  moreover have "r = 0 \<longrightarrow> table s' d 0 \<noteq> None" using m(5) by (simp add: kmap_def USERTOP_def PDX_def)
  moreover have "\<forall>va < USERTOP. pte_of s' d va = 0" using m(4) p0 by (simp add: USERTOP_def)
  moreover have "setupkvm data s = Inr (if r < 0 then 0 else d, s')"
    using k m(1) by (simp add: setupkvm_def s0_def Let_def)
  ultimately show ?thesis using m(2,3) own0 Cons k(3) pd_ok_kmem
    by (intro exI [of _ "if r < 0 then 0 else d"] exI [of _ s'] exI [of _ "d # us"] exI [of _ fs'])
      (auto simp: grown_def)
qed

end
