(* ===== verification/VmUser.thy ===== *)
theory VmUser
  imports VmSpec
begin

text \<open>
  User memory: what \<open>allocuvm\<close>, \<open>deallocuvm\<close> and \<open>copyuvm\<close> do to the pages below \<open>USERTOP\<close>, as the
  hardware sees them, and that the pages of different address spaces stay apart.
\<close>

section \<open>User address spaces\<close>

definition frames :: "vm \<Rightarrow> addr \<Rightarrow> addr set" where
  "frames s pd = {f. \<exists>va < USERTOP. present (pte_of s pd va) \<and> f = PTE_ADDR (pte_of s pd va)}"

definition pages_of :: "vm \<Rightarrow> addr \<Rightarrow> addr set" where "pages_of s pd = own s pd \<union> frames s pd"

definition us_ok :: "addr \<Rightarrow> vm \<Rightarrow> addr \<Rightarrow> addr list \<Rightarrow> bool" where
  "us_ok kend s pd fs \<longleftrightarrow> pd_ok kend s pd fs \<and> table s pd 0 \<noteq> None \<and>
     (\<forall>f \<in> frames s pd. page_ok kend f \<and> f \<notin> set fs \<and> f \<notin> own s pd) \<and>
     (\<forall>va < USERTOP. \<forall>vb < USERTOP. present (pte_of s pd va) \<and> present (pte_of s pd vb) \<and>
        PTE_ADDR (pte_of s pd va) = PTE_ADDR (pte_of s pd vb) \<longrightarrow> va div 4096 = vb div 4096)"

definition ubyte :: "vm \<Rightarrow> addr \<Rightarrow> nat \<Rightarrow> 8 word" where
  "ubyte s pd va = pbytes s (PTE_ADDR (pte_of s pd va) + va mod 4096)"

definition same_at :: "vm \<Rightarrow> vm \<Rightarrow> addr \<Rightarrow> nat \<Rightarrow> bool" where
  "same_at s s' pd va \<longleftrightarrow> pte_of s' pd va = pte_of s pd va \<and>
     (present (pte_of s pd va) \<longrightarrow> ubyte s' pd va = ubyte s pd va)"

lemma same_at_refl [simp]: "same_at s s pd va"
  by (simp add: same_at_def)

lemma same_at_trans: "same_at s s1 pd va \<Longrightarrow> same_at s1 s2 pd va \<Longrightarrow> same_at s s2 pd va"
  by (simp add: same_at_def)

lemma us_pd: "us_ok kend s pd fs \<Longrightarrow> pd_ok kend s pd fs"
  by (simp add: us_ok_def)

lemma frames_page: "us_ok kend s pd fs \<Longrightarrow> f \<in> frames s pd \<Longrightarrow> page_ok kend f \<and> 4096 dvd f \<and> f \<notin> set fs \<and> f \<notin> own s pd"
  by (auto simp: us_ok_def page_ok_dvd)

lemma pages_page: "us_ok kend s pd fs \<Longrightarrow> f \<in> pages_of s pd \<Longrightarrow> page_ok kend f \<and> 4096 dvd f \<and> f \<notin> set fs"
  using frames_page pd_ok_page us_pd by (metis Un_iff pages_of_def)

lemma user_PDX: "va < USERTOP \<Longrightarrow> PDX va = 0"
  by (simp add: USERTOP_def PDX_def)

lemma user_same_page: "va < USERTOP \<Longrightarrow> vb < USERTOP \<Longrightarrow> same_page va vb \<longleftrightarrow> va div 4096 = vb div 4096"
  by (rule same_page_iff) (simp_all add: USERTOP_def)

lemma user_pte_page: "va < USERTOP \<Longrightarrow> vb < USERTOP \<Longrightarrow> va div 4096 = vb div 4096 \<Longrightarrow> pte_of s pd va = pte_of s pd vb"
  using user_same_page [of va vb] by (simp add: same_page_def pte_of_def Let_def)

lemma frame_in: "va < USERTOP \<Longrightarrow> present (pte_of s pd va) \<Longrightarrow> PTE_ADDR (pte_of s pd va) \<in> frames s pd"
  by (auto simp: frames_def)

lemma frames_cong: "\<forall>va < USERTOP. pte_of s' pd va = pte_of s pd va \<Longrightarrow> frames s' pd = frames s pd"
  by (auto simp: frames_def)

text \<open>A change of other pages leaves an address space alone.\<close>

lemma user_frame:
  assumes us: "us_ok kend s pd fs" and t: "touches P s s'" and P: "\<forall>u \<in> P. 4096 dvd u \<and> u \<notin> pages_of s pd"
  shows "\<forall>va < USERTOP. same_at s s' pd va" "own s' pd = own s pd" "frames s' pd = frames s pd" "pages_of s' pd = pages_of s pd"
proof -
  have p: "\<forall>u \<in> P. 4096 dvd u" "\<forall>v \<in> own s pd. 4096 dvd v \<and> v \<notin> P"
    using P pd_ok_page [OF us_pd [OF us]] by (auto simp: pages_of_def)
  note f = frame_tables [OF t p]
  show "own s' pd = own s pd" by (rule f(3))
  show fr: "frames s' pd = frames s pd" using f(2) by (intro frames_cong) simp
  then show "pages_of s' pd = pages_of s pd" using f(3) by (simp add: pages_of_def)
  have "ubyte s' pd va = ubyte s pd va" if "va < USERTOP" "present (pte_of s pd va)" for va
  proof -
    have "PTE_ADDR (pte_of s pd va) \<in> frames s pd" using frame_in that .
    then have "4096 dvd PTE_ADDR (pte_of s pd va)" "PTE_ADDR (pte_of s pd va) \<notin> P"
      using frames_page [OF us] P by (auto simp: pages_of_def)
    then show ?thesis using touches_slot [OF t p(1) _ _ in_page_byte] f(2) by (simp add: ubyte_def)
  qed
  then show "\<forall>va < USERTOP. same_at s s' pd va" using f(2) by (simp add: same_at_def)
qed

lemma user_frame_ok:
  assumes us: "us_ok kend s pd fs" and t: "touches P s s'" and P: "\<forall>u \<in> P. 4096 dvd u \<and> u \<notin> pages_of s pd"
    and k: "kmem_inv kend (km s') fs'" and d: "set fs' \<inter> pages_of s pd = {}"
  shows "us_ok kend s' pd fs'"
proof -
  have p: "\<forall>u \<in> P. 4096 dvd u" "\<forall>v \<in> own s pd. 4096 dvd v \<and> v \<notin> P"
    using P pd_ok_page [OF us_pd [OF us]] by (auto simp: pages_of_def)
  note f = frame_tables [OF t p] and uf = user_frame [OF us t P]
  have "pd_ok kend s' pd fs'"
    by (rule frame_pd_ok [OF us_pd [OF us] t]) (use P k d in \<open>auto simp: pages_of_def\<close>)
  moreover have "table s' pd 0 \<noteq> None" using f(1) [of 0] us by (simp add: us_ok_def)
  moreover have "\<forall>g \<in> frames s' pd. page_ok kend g \<and> g \<notin> set fs' \<and> g \<notin> own s' pd"
    using uf(2,3) frames_page [OF us] d by (auto simp: pages_of_def)
  moreover have "\<forall>va < USERTOP. \<forall>vb < USERTOP. present (pte_of s pd va) \<and> present (pte_of s pd vb) \<and>
        PTE_ADDR (pte_of s pd va) = PTE_ADDR (pte_of s pd vb) \<longrightarrow> va div 4096 = vb div 4096"
    using us unfolding us_ok_def by blast
  ultimately show ?thesis unfolding us_ok_def f(2) by blast
qed

section \<open>Mapping and unmapping a user page\<close>

lemma mappages_one: "4096 dvd a \<Longrightarrow> a < USERTOP \<Longrightarrow> mappages pd a PGSIZE pa perm s = map_loop 0 pd a pa perm s"
proof -
  assume a: "4096 dvd a" "a < USERTOP"
  then obtain k where k: "a = 4096 * k" by blast
  have "sub32 (add32 a PGSIZE) 1 = 4096 * k + 4095" using a(2) by (simp add: k sub32_def add32_def PGSIZE_def USERTOP_def mod_if)
  then have "PGROUNDDOWN (sub32 (add32 a PGSIZE) 1) = a" by (simp add: PGROUNDDOWN_def PGSIZE_def k)
  moreover have "PGROUNDDOWN a = a" by (simp add: PGROUNDDOWN_def PGSIZE_def k)
  ultimately show ?thesis by (simp add: mappages_def Let_def sub32_def)
qed

lemma user_map:
  assumes us: "us_ok kend s pd fs" and a: "4096 dvd a" "a < USERTOP" "\<not> present (pte_of s pd a)"
    and m: "page_ok kend mem" "mem \<notin> set fs" "mem \<notin> pages_of s pd"
  shows "\<exists>s'. mappages pd a PGSIZE mem (PTE_W OR PTE_U) s = Inr (0, s') \<and> us_ok kend s' pd fs \<and> own s' pd = own s pd \<and>
    frames s' pd = insert mem (frames s pd) \<and> touches (own s pd) s s' \<and> pbytes s' = pbytes s \<and>
    (\<forall>va < USERTOP. pte_of s' pd va = (if va div 4096 = a div 4096 then mem OR 7 else pte_of s pd va))"
proof -
  obtain t where t: "table s pd 0 = Some t" using us by (auto simp: us_ok_def)
  then have t': "table s pd (PDX a) = Some t" using user_PDX [OF a(2)] by simp
  define p where "p = t + 4 * PTX a"
  define s' where "s' = set_word p (mem OR 7) s"
  note sp = set_pte [OF us_pd [OF us] t', where v = "mem OR 7", folded p_def, folded s'_def]
  have "words s p = pte_of s pd a" using t' by (simp add: pte_of_table p_def)
  then have "mappages pd a PGSIZE mem (PTE_W OR PTE_U) s = Inr (0, s')"
    using a(3) walk_present [OF t'] unfolding mappages_one [OF a(1,2)]
    by (simp add: map_loop.simps present_def p_def s'_def PTE_W_def PTE_U_def PTE_P_def or.assoc)
  moreover have pte: "\<forall>va < USERTOP. pte_of s' pd va = (if va div 4096 = a div 4096 then mem OR 7 else pte_of s pd va)"
    using sp(4) user_same_page [OF _ a(2)] by (simp add: same_page_def)
  have e: "present (mem OR 7)" "PTE_ADDR (mem OR 7) = mem" using entry_parts [OF page_ok_dvd [OF m(1)], of 7] by simp_all
  have np: "\<not> present (pte_of s pd va)" if "va < USERTOP" "va div 4096 = a div 4096" for va
    using user_pte_page [OF that(1) a(2) that(2)] a(3) by simp
  have fr: "frames s' pd = insert mem (frames s pd)"
  proof -
    have "f = mem \<or> f \<in> frames s pd" if f: "f \<in> frames s' pd" for f
    proof -
      obtain va where va: "va < USERTOP" "present (pte_of s' pd va)" "f = PTE_ADDR (pte_of s' pd va)"
        using f by (auto simp: frames_def)
      then show ?thesis using pte e(2) frame_in [of va s pd] by (cases "va div 4096 = a div 4096") auto
    qed
    moreover have "mem \<in> frames s' pd" using frame_in [of a s' pd] pte e a(2) by simp
    moreover have "f \<in> frames s' pd" if f: "f \<in> frames s pd" for f
    proof -
      obtain va where va: "va < USERTOP" "present (pte_of s pd va)" "f = PTE_ADDR (pte_of s pd va)"
        using f by (auto simp: frames_def)
      then have "pte_of s' pd va = pte_of s pd va" using pte np by auto
      then show ?thesis using va frame_in [of va s' pd] by simp
    qed
    ultimately have "f \<in> frames s' pd \<longleftrightarrow> f = mem \<or> f \<in> frames s pd" for f by blast
    then show ?thesis by auto
  qed
  have "us_ok kend s' pd fs" unfolding us_ok_def
  proof (intro conjI ballI allI impI)
    show "pd_ok kend s' pd fs" by (rule sp(1))
    show "table s' pd 0 \<noteq> None" using sp(2) t by simp
    show "page_ok kend f" "f \<notin> set fs" "f \<notin> own s' pd" if "f \<in> frames s' pd" for f
      using that fr m frames_page [OF us] sp(3) by (auto simp: pages_of_def)
    show "va div 4096 = vb div 4096"
      if "va < USERTOP" "vb < USERTOP" "present (pte_of s' pd va) \<and> present (pte_of s' pd vb) \<and>
        PTE_ADDR (pte_of s' pd va) = PTE_ADDR (pte_of s' pd vb)" for va vb
    proof -
      have "mem \<noteq> PTE_ADDR (pte_of s pd vc)" if "vc < USERTOP" "present (pte_of s pd vc)" for vc
        using frame_in [OF that] m(3) by (auto simp: pages_of_def)
      then show ?thesis using that pte e us unfolding us_ok_def by (metis (no_types, lifting))
    qed
  qed
  moreover have "touches (own s pd) s s'" using touches_mono [OF sp(5)] own_table [OF t'] by simp
  ultimately show ?thesis using sp(3) fr pte by (auto simp: s'_def words_simps)
qed

lemma vm_kfree_ok:
  assumes "kmem_inv kend (km s) fs" "page_ok kend v" "v \<notin> set fs"
  shows "\<exists>s'. vm_kfree kend v s = Inr s' \<and> kmem_inv kend (km s') (v # fs) \<and> touches {v} s s'"
proof -
  obtain k where "kfree kend v (km s) = Inr k" "kmem_inv kend k (v # fs)" using kfree_inv [OF assms] by blast
  moreover have "touches {v} s (fill_page v 1 (s\<lparr>km := k\<rparr>))" unfolding touches_def by (auto simp: words_simps)
  ultimately show ?thesis by (simp add: vm_kfree_def words_simps)
qed

text \<open>Freeing the page at \<open>a\<close> and clearing its entry.\<close>

lemma user_unmap:
  assumes us: "us_ok kend s pd fs" and a: "a < USERTOP" "present (pte_of s pd a)"
    and t: "table s pd (PDX a) = Some t"
  defines "f \<equiv> PTE_ADDR (pte_of s pd a)"
  shows "\<exists>s1. vm_kfree kend f s = Inr s1 \<and> us_ok kend (set_word (t + 4 * PTX a) 0 s1) pd (f # fs) \<and>
    own (set_word (t + 4 * PTX a) 0 s1) pd = own s pd \<and> frames (set_word (t + 4 * PTX a) 0 s1) pd = frames s pd - {f} \<and>
    touches (insert f (own s pd)) s (set_word (t + 4 * PTX a) 0 s1) \<and>
    (\<forall>va < USERTOP. if va div 4096 = a div 4096 then pte_of (set_word (t + 4 * PTX a) 0 s1) pd va = 0
       else same_at s (set_word (t + 4 * PTX a) 0 s1) pd va)"
proof -
  have ff: "f \<in> frames s pd" using frame_in [OF a] by (simp add: f_def)
  note fp = frames_page [OF us ff]
  obtain s1 where s1: "vm_kfree kend f s = Inr s1" "kmem_inv kend (km s1) (f # fs)" "touches {f} s s1"
    using vm_kfree_ok [OF pd_ok_kmem [OF us_pd [OF us]], of f] fp by blast
  have P: "\<forall>u \<in> {f}. 4096 dvd u" "\<forall>v \<in> own s pd. 4096 dvd v \<and> v \<notin> {f}"
    using fp pd_ok_page [OF us_pd [OF us]] by auto
  note ft = frame_tables [OF s1(3) P]
  have ok1: "pd_ok kend s1 pd (f # fs)"
    by (rule frame_pd_ok [OF us_pd [OF us] s1(3)]) (use fp s1(2) pd_ok_page [OF us_pd [OF us]] in auto)
  have t1: "table s1 pd (PDX a) = Some t" using ft(1) [of "PDX a"] t by simp
  define s2 where "s2 = set_word (t + 4 * PTX a) 0 s1"
  note sp = set_pte [OF ok1 t1, where v = 0, folded s2_def]
  have pte: "pte_of s2 pd va = (if va div 4096 = a div 4096 then 0 else pte_of s pd va)" if "va < USERTOP" for va
    using sp(4) ft(2) user_same_page [OF that a(1)] by (simp add: same_page_def)
  have other: "PTE_ADDR (pte_of s pd va) \<noteq> f" if "va < USERTOP" "present (pte_of s pd va)" "va div 4096 \<noteq> a div 4096" for va
    using us that a unfolding us_ok_def f_def by blast
  have sm: "same_at s s2 pd va" if "va < USERTOP" "va div 4096 \<noteq> a div 4096" for va
  proof -
    have "ubyte s2 pd va = ubyte s pd va" if p: "present (pte_of s pd va)"
    proof -
      have "4096 dvd PTE_ADDR (pte_of s pd va)" using frames_page [OF us frame_in [OF \<open>va < USERTOP\<close> p]] by simp
      then have "pbytes s1 (PTE_ADDR (pte_of s pd va) + va mod 4096) = pbytes s (PTE_ADDR (pte_of s pd va) + va mod 4096)"
        using touches_slot [OF s1(3) P(1) _ _ in_page_byte] other [OF \<open>va < USERTOP\<close> p \<open>va div 4096 \<noteq> a div 4096\<close>] by simp
      then show ?thesis using pte [OF \<open>va < USERTOP\<close>] \<open>va div 4096 \<noteq> a div 4096\<close> by (simp add: ubyte_def s2_def words_simps)
    qed
    then show ?thesis using pte that by (simp add: same_at_def)
  qed
  have fr: "frames s2 pd = frames s pd - {f}"
  proof -
    have "g \<in> frames s2 pd \<longleftrightarrow> g \<in> frames s pd \<and> g \<noteq> f" for g
    proof
      assume "g \<in> frames s2 pd"
      then obtain va where va: "va < USERTOP" "present (pte_of s2 pd va)" "g = PTE_ADDR (pte_of s2 pd va)" by (auto simp: frames_def)
      then have "va div 4096 \<noteq> a div 4096" using pte by auto
      then show "g \<in> frames s pd \<and> g \<noteq> f" using va pte frame_in [of va s pd] other [of va] by auto
    next
      assume g: "g \<in> frames s pd \<and> g \<noteq> f"
      then obtain va where va: "va < USERTOP" "present (pte_of s pd va)" "g = PTE_ADDR (pte_of s pd va)" by (auto simp: frames_def)
      have "va div 4096 \<noteq> a div 4096"
      proof
        assume "va div 4096 = a div 4096"
        then have "pte_of s pd va = pte_of s pd a" by (rule user_pte_page [OF va(1) a(1)])
        then show False using g va by (simp add: f_def)
      qed
      then show "g \<in> frames s2 pd" using va pte frame_in [of va s2 pd] by simp
    qed
    then show ?thesis by auto
  qed
  have "us_ok kend s2 pd (f # fs)" unfolding us_ok_def
  proof (intro conjI ballI allI impI)
    show "pd_ok kend s2 pd (f # fs)" by (rule sp(1))
    show "table s2 pd 0 \<noteq> None" using sp(2) ft(1) [of 0] us by (simp add: us_ok_def)
    show "page_ok kend g" "g \<notin> set (f # fs)" "g \<notin> own s2 pd" if "g \<in> frames s2 pd" for g
      using that fr frames_page [OF us, of g] sp(3) ft(3) by auto
    show "va div 4096 = vb div 4096"
      if "va < USERTOP" "vb < USERTOP" "present (pte_of s2 pd va) \<and> present (pte_of s2 pd vb) \<and>
        PTE_ADDR (pte_of s2 pd va) = PTE_ADDR (pte_of s2 pd vb)" for va vb
      using that pte us unfolding us_ok_def by (metis not_present_0)
  qed
  moreover have "touches (insert f (own s pd)) s s2"
    using touches_trans [OF s1(3) sp(5)] own_table [OF t] by simp
  ultimately show ?thesis using s1(1) sp(3) ft(3) fr pte sm by (auto simp: s2_def)
qed

section \<open>Shrinking and growing\<close>

text \<open>The pages that a loop from \<open>lo\<close> up to \<open>hi\<close> visits.\<close>

definition in_range :: "nat \<Rightarrow> nat \<Rightarrow> nat \<Rightarrow> bool" where
  "in_range lo hi va \<longleftrightarrow> lo \<le> va \<and> PGROUNDDOWN va < hi"

lemma in_range_step:
  assumes "4096 dvd a" "a < hi"
  shows "in_range a hi va \<longleftrightarrow> va div 4096 = a div 4096 \<or> in_range (a + 4096) hi va"
proof -
  obtain k where k: "a = 4096 * k" using assms(1) by blast
  have "4096 * k \<le> va \<longleftrightarrow> k \<le> va div 4096" "4096 * k + 4096 \<le> va \<longleftrightarrow> k + 1 \<le> va div 4096"
    by (simp_all add: less_eq_div_iff_mult_less_eq mult.commute add.commute)
  moreover have "PGROUNDDOWN va = va div 4096 * 4096" by (simp add: PGROUNDDOWN_def PGSIZE_def)
  ultimately show ?thesis using assms(2) by (auto simp: in_range_def k)
qed

lemma in_range_empty: "\<not> a < hi \<Longrightarrow> 4096 dvd a \<Longrightarrow> \<not> in_range a hi va"
proof
  assume a: "\<not> a < hi" "4096 dvd a" "in_range a hi va"
  obtain k where k: "a = 4096 * k" using a(2) by blast
  then have "k \<le> va div 4096" using a(3) by (simp add: in_range_def less_eq_div_iff_mult_less_eq mult.commute)
  then show False using a k by (auto simp: in_range_def PGROUNDDOWN_def PGSIZE_def)
qed

definition range_frames :: "vm \<Rightarrow> addr \<Rightarrow> nat \<Rightarrow> nat \<Rightarrow> addr set" where
  "range_frames s pd lo hi = {f. \<exists>va < USERTOP. in_range lo hi va \<and> present (pte_of s pd va) \<and> f = PTE_ADDR (pte_of s pd va)}"

lemma dealloc_loop_spec:
  assumes "us_ok kend s pd fs" "4096 dvd a" "hi \<le> USERTOP"
  shows "\<exists>s' fs'. dealloc_loop kend pd a hi s = Inr s' \<and> us_ok kend s' pd fs' \<and> own s' pd = own s pd \<and>
    frames s' pd \<subseteq> frames s pd \<and> set fs \<subseteq> set fs' \<and> set fs' \<subseteq> set fs \<union> frames s pd \<and>
    touches (own s pd \<union> range_frames s pd a hi) s s' \<and>
    (\<forall>va < USERTOP. if in_range a hi va then \<not> present (pte_of s' pd va) else same_at s s' pd va)"
  using assms
proof (induction kend pd a hi s arbitrary: fs rule: dealloc_loop.induct)
  case (1 kend pd a hi s)
  show ?case
  proof (cases "a < hi")
    case False
    then have "dealloc_loop kend pd a hi s = Inr s" by (simp add: dealloc_loop.simps [of kend pd a])
    then show ?thesis using "1.prems" in_range_empty [OF False] by (auto intro!: exI [of _ fs])
  next
    case True
    then have au: "a < USERTOP" using "1.prems" by simp
    then obtain t where t: "table s pd (PDX a) = Some t" using "1.prems"(1) user_PDX [OF au] by (auto simp: us_ok_def)
    have w: "walkpgdir pd a False s = (Some (t + 4 * PTX a), s)" by (rule walk_present [OF t])
    have pe: "words s (t + 4 * PTX a) = pte_of s pd a" using t by (simp add: pte_of_table)
    note rs = in_range_step [OF "1.prems"(2) True]
    have a4: "4096 dvd a + 4096" using "1.prems"(2) by simp
    show ?thesis
    proof (cases "present (pte_of s pd a)")
      case False
      then have d: "dealloc_loop kend pd a hi s = dealloc_loop kend pd (a + 4096) hi s"
        using w pe True by (simp add: dealloc_loop.simps [of kend pd a] present_def PGSIZE_def)
      obtain s' fs' where i: "dealloc_loop kend pd (a + 4096) hi s = Inr s'" "us_ok kend s' pd fs'" "own s' pd = own s pd"
        "frames s' pd \<subseteq> frames s pd" "set fs \<subseteq> set fs'" "set fs' \<subseteq> set fs \<union> frames s pd"
        "touches (own s pd \<union> range_frames s pd (a + 4096) hi) s s'"
        "\<forall>va < USERTOP. if in_range (a + 4096) hi va then \<not> present (pte_of s' pd va) else same_at s s' pd va"
        using "1.IH" [OF True, of s, unfolded PGSIZE_def, OF "1.prems"(1) a4 "1.prems"(3)] by blast
      have np: "\<not> present (pte_of s pd va)" if "va < USERTOP" "va div 4096 = a div 4096" for va
        using user_pte_page [OF that(1) au that(2)] False by simp
      have "\<forall>va < USERTOP. if in_range a hi va then \<not> present (pte_of s' pd va) else same_at s s' pd va"
        unfolding rs using i(8) np by (metis same_at_def)
      moreover have "range_frames s pd (a + 4096) hi \<subseteq> range_frames s pd a hi" using rs by (auto simp: range_frames_def)
      then have "touches (own s pd \<union> range_frames s pd a hi) s s'" using touches_mono [OF i(7)] by blast
      moreover have "dealloc_loop kend pd a hi s = Inr s'" using d i(1) by simp
      ultimately show ?thesis using i(2-6) by blast
    next
      case p: True
      define f where "f = PTE_ADDR (pte_of s pd a)"
      have f: "f \<in> frames s pd" using frame_in [OF au p] by (simp add: f_def)
      then have f0: "f \<noteq> 0" using frames_page [OF "1.prems"(1)] by (auto simp: page_ok_def)
      define s2 where "s2 s1 = set_word (t + 4 * PTX a) 0 s1" for s1
      obtain s1 where u: "vm_kfree kend f s = Inr s1" "us_ok kend (s2 s1) pd (f # fs)" "own (s2 s1) pd = own s pd"
        "frames (s2 s1) pd = frames s pd - {f}" "touches (insert f (own s pd)) s (s2 s1)"
        "\<forall>va < USERTOP. if va div 4096 = a div 4096 then pte_of (s2 s1) pd va = 0 else same_at s (s2 s1) pd va"
        using user_unmap [OF "1.prems"(1) au p t] unfolding f_def s2_def by blast
      have d: "dealloc_loop kend pd a hi s = dealloc_loop kend pd (a + 4096) hi (s2 s1)"
        using w pe True p u(1) f0 by (simp add: dealloc_loop.simps [of kend pd a hi s] present_def PGSIZE_def f_def s2_def)
      obtain s' fs' where i: "dealloc_loop kend pd (a + 4096) hi (s2 s1) = Inr s'" "us_ok kend s' pd fs'"
        "own s' pd = own (s2 s1) pd" "frames s' pd \<subseteq> frames (s2 s1) pd" "set (f # fs) \<subseteq> set fs'"
        "set fs' \<subseteq> set (f # fs) \<union> frames (s2 s1) pd"
        "touches (own (s2 s1) pd \<union> range_frames (s2 s1) pd (a + 4096) hi) (s2 s1) s'"
        "\<forall>va < USERTOP. if in_range (a + 4096) hi va then \<not> present (pte_of s' pd va) else same_at (s2 s1) s' pd va"
        using "1.IH" [OF True, of "s2 s1", unfolded PGSIZE_def, OF u(2) a4 "1.prems"(3)] by blast
      have ra: "in_range a hi a" using rs by blast
      have rf: "range_frames (s2 s1) pd (a + 4096) hi \<subseteq> range_frames s pd a hi"
      proof
        fix g assume "g \<in> range_frames (s2 s1) pd (a + 4096) hi"
        then obtain va where va: "va < USERTOP" "in_range (a + 4096) hi va" "present (pte_of (s2 s1) pd va)"
          "g = PTE_ADDR (pte_of (s2 s1) pd va)" by (auto simp: range_frames_def)
        then have "pte_of (s2 s1) pd va = pte_of s pd va" using u(6) by (metis not_present_0 same_at_def)
        then show "g \<in> range_frames s pd a hi" using va rs by (auto simp: range_frames_def)
      qed
      have "f \<in> range_frames s pd a hi" using au p ra by (auto simp: range_frames_def f_def)
      then have "touches (own s pd \<union> range_frames s pd a hi) s s'"
        using touches_trans [OF u(5) i(7), of "own s pd \<union> range_frames s pd a hi"] u(3) rf by blast
      moreover have "\<forall>va < USERTOP. if in_range a hi va then \<not> present (pte_of s' pd va) else same_at s s' pd va"
        unfolding rs using i(8) u(6) same_at_trans by (metis not_present_0 same_at_def)
      ultimately show ?thesis using d i u(3,4) f by (auto intro!: exI [of _ s'] exI [of _ fs'])
    qed
  qed
qed

text \<open>All the pages an address space and the free list hold between them.\<close>

definition pool :: "vm \<Rightarrow> addr \<Rightarrow> addr list \<Rightarrow> addr set" where "pool s pd fs = set fs \<union> pages_of s pd"

definition user_entry :: "nat \<Rightarrow> bool" where "user_entry e \<longleftrightarrow> (\<exists>f. 4096 dvd f \<and> e = f OR 7)"

lemma user_entry_present: "user_entry e \<Longrightarrow> present e"
  using entry_parts(1) [of _ 7] by (auto simp: user_entry_def)

text \<open>A page from the free list, cleared or filled, is mapped at \<open>a\<close>.\<close>

lemma user_take_map:
  assumes us: "us_ok kend s pd (m # xs)" and a: "4096 dvd a" "a < USERTOP" "\<not> present (pte_of s pd a)"
    and k: "kmem_inv kend k xs" and s1: "touches {m} s s1" "km s1 = k"
  shows "\<exists>s2. mappages pd a PGSIZE m (PTE_W OR PTE_U) s1 = Inr (0, s2) \<and> us_ok kend s2 pd xs \<and> own s2 pd = own s pd \<and>
    frames s2 pd = insert m (frames s pd) \<and> touches (insert m (own s pd)) s s2 \<and> pbytes s2 = pbytes s1 \<and>
    (\<forall>va < USERTOP. if va div 4096 = a div 4096 then user_entry (pte_of s2 pd va) \<and> PTE_ADDR (pte_of s2 pd va) = m
       else same_at s s2 pd va)"
proof -
  have m: "page_ok kend m" "4096 dvd m" using kmem_page [OF pd_ok_kmem [OF us_pd [OF us]], of m] by simp_all
  have mp: "m \<notin> pages_of s pd" using pages_page [OF us, of m] by auto
  have mx: "m \<notin> set xs" using kmem_inv_wf [OF pd_ok_kmem [OF us_pd [OF us]]] by simp
  have P: "\<forall>u \<in> {m}. 4096 dvd u \<and> u \<notin> pages_of s pd" using m mp by simp
  have d: "set xs \<inter> pages_of s pd = {}" using pages_page [OF us] by fastforce
  have us1: "us_ok kend s1 pd xs" by (rule user_frame_ok [OF us s1(1) P]) (use k s1(2) d in auto)
  note uf = user_frame [OF us s1(1) P]
  have pte1: "pte_of s1 pd va = pte_of s pd va" if "va < USERTOP" for va using uf(1) that by (simp add: same_at_def)
  have np: "\<not> present (pte_of s1 pd a)" using a pte1 by simp
  have mp1: "m \<notin> pages_of s1 pd" using mp uf(4) by simp
  obtain s2 where s2: "mappages pd a PGSIZE m (PTE_W OR PTE_U) s1 = Inr (0, s2)" "us_ok kend s2 pd xs" "own s2 pd = own s1 pd"
    "frames s2 pd = insert m (frames s1 pd)" "touches (own s1 pd) s1 s2" "pbytes s2 = pbytes s1"
    "\<forall>va < USERTOP. pte_of s2 pd va = (if va div 4096 = a div 4096 then m OR 7 else pte_of s1 pd va)"
    using user_map [OF us1 a(1,2) np m(1) mx mp1] by blast
  have v: "if va div 4096 = a div 4096 then user_entry (pte_of s2 pd va) \<and> PTE_ADDR (pte_of s2 pd va) = m
       else same_at s s2 pd va" if va: "va < USERTOP" for va
  proof (cases "va div 4096 = a div 4096")
    case True
    then show ?thesis using s2(7) va m(2) entry_parts(2) [OF m(2), of 7] by (auto simp: user_entry_def)
  next
    case False
    then have "same_at s1 s2 pd va" using s2(6,7) va by (simp add: same_at_def ubyte_def)
    then show ?thesis using False uf(1) va same_at_trans by auto
  qed
  have "touches (insert m (own s pd)) s s2" using touches_trans [OF s1(1) s2(5)] uf(2) by auto
  then show ?thesis using s2(1-4,6) uf(2,3) v by (intro exI [of _ s2]) blast
qed

lemma alloc_loop_spec:
  assumes "us_ok kend s pd fs" "4096 dvd a" "newsz \<le> USERTOP" "oldsz \<le> a" "PGROUNDUP oldsz \<le> a"
    "\<forall>va < USERTOP. in_range a newsz va \<longrightarrow> \<not> present (pte_of s pd va)"
  shows "\<exists>r s' fs'. alloc_loop kend pd a oldsz newsz s = Inr (r, s') \<and> us_ok kend s' pd fs' \<and> own s' pd = own s pd \<and>
    pool s' pd fs' \<subseteq> pool s pd fs \<and> touches (pool s pd fs) s s' \<and>
    (r = newsz \<and> (\<forall>va < USERTOP. if in_range a newsz va then user_entry (pte_of s' pd va) \<and> ubyte s' pd va = 0
        else same_at s s' pd va) \<or>
     r = 0 \<and> (\<forall>va < USERTOP. if in_range (PGROUNDUP oldsz) newsz va then \<not> present (pte_of s' pd va)
        else same_at s s' pd va))"
  using assms
proof (induction kend pd a oldsz newsz s arbitrary: fs rule: alloc_loop.induct)
  case (1 kend pd a oldsz newsz s)
  note us = "1.prems"(1)
  show ?case
  proof (cases "a < newsz")
    case False
    then have "alloc_loop kend pd a oldsz newsz s = Inr (newsz, s)" by (simp add: alloc_loop.simps [of kend pd a])
    then show ?thesis using us in_range_empty [OF False "1.prems"(2)] by auto
  next
    case True
    then have au: "a < USERTOP" using "1.prems"(3) by simp
    note rs = in_range_step [OF "1.prems"(2) True]
    show ?thesis
    proof (cases fs)
      case Nil
      then have k: "vm_kalloc s = (0, s)" using vm_kalloc_pool(1) pd_ok_kmem [OF us_pd [OF us]] by blast
      obtain s' fs' where d: "dealloc_loop kend pd (PGROUNDUP oldsz) newsz s = Inr s'" "us_ok kend s' pd fs'" "own s' pd = own s pd"
        "frames s' pd \<subseteq> frames s pd" "set fs' \<subseteq> set fs \<union> frames s pd"
        "touches (own s pd \<union> range_frames s pd (PGROUNDUP oldsz) newsz) s s'"
        "\<forall>va < USERTOP. if in_range (PGROUNDUP oldsz) newsz va then \<not> present (pte_of s' pd va) else same_at s s' pd va"
        using dealloc_loop_spec [OF us, of "PGROUNDUP oldsz" newsz] PGROUNDUP_dvd "1.prems"(3) by (auto simp: PGSIZE_def)
      have "touches (pool s pd fs) s s'"
        by (rule touches_mono [OF d(6)]) (auto simp: pool_def pages_of_def range_frames_def frames_def)
      moreover have "pool s' pd fs' \<subseteq> pool s pd fs" using d(3-5) by (auto simp: pool_def pages_of_def)
      moreover have "alloc_loop kend pd a oldsz newsz s = Inr (0, s')"
        using True k d(1) "1.prems"(4) by (simp add: alloc_loop.simps [of kend pd a] deallocuvm_def)
      ultimately show ?thesis using d(2,3,7) by blast
    next
      case (Cons m xs)
      then obtain k where k: "vm_kalloc s = (m, s\<lparr>km := k\<rparr>)" "kmem_inv kend k xs" "m \<noteq> 0"
        using vm_kalloc_pool(2) pd_ok_kmem [OF us_pd [OF us]] by blast
      define s1 where "s1 = fill_page m 0 (s\<lparr>km := k\<rparr>)"
      have t1: "touches {m} s s1" unfolding touches_def s1_def by (auto simp: words_simps)
      have np: "\<not> present (pte_of s pd a)" using "1.prems"(6) au rs by blast
      obtain s2 where s2: "mappages pd a PGSIZE m (PTE_W OR PTE_U) s1 = Inr (0, s2)" "us_ok kend s2 pd xs" "own s2 pd = own s pd"
        "frames s2 pd = insert m (frames s pd)" "touches (insert m (own s pd)) s s2" "pbytes s2 = pbytes s1"
        "\<forall>va < USERTOP. if va div 4096 = a div 4096 then user_entry (pte_of s2 pd va) \<and> PTE_ADDR (pte_of s2 pd va) = m
           else same_at s s2 pd va"
        using user_take_map [OF us [unfolded Cons] "1.prems"(2) au np k(2) t1] by (auto simp: s1_def words_simps)
      have z: "ubyte s2 pd va = 0" if "va < USERTOP" "va div 4096 = a div 4096" for va
        using s2(6,7) that by (simp add: ubyte_def s1_def words_simps in_page_byte)
      have al: "alloc_loop kend pd a oldsz newsz s = alloc_loop kend pd (a + 4096) oldsz newsz s2"
        using True k s2(1) by (simp add: alloc_loop.simps [of kend pd a] s1_def PGSIZE_def)
      have nr: "\<forall>va < USERTOP. in_range (a + 4096) newsz va \<longrightarrow> \<not> present (pte_of s2 pd va)"
      proof (intro allI impI)
        fix va assume va: "va < USERTOP" "in_range (a + 4096) newsz va"
        then have "va div 4096 \<noteq> a div 4096" using "1.prems"(2) by (auto simp: in_range_def elim!: dvdE)
        then show "\<not> present (pte_of s2 pd va)" using s2(7) va "1.prems"(6) rs by (auto simp: same_at_def)
      qed
      have "\<exists>r s' fs'. alloc_loop kend pd (a + 4096) oldsz newsz s2 = Inr (r, s') \<and> us_ok kend s' pd fs' \<and> own s' pd = own s2 pd \<and>
        pool s' pd fs' \<subseteq> pool s2 pd xs \<and> touches (pool s2 pd xs) s2 s' \<and>
        (r = newsz \<and> (\<forall>va < USERTOP. if in_range (a + 4096) newsz va then user_entry (pte_of s' pd va) \<and> ubyte s' pd va = 0
            else same_at s2 s' pd va) \<or>
         r = 0 \<and> (\<forall>va < USERTOP. if in_range (PGROUNDUP oldsz) newsz va then \<not> present (pte_of s' pd va)
            else same_at s2 s' pd va))"
        by (rule "1.IH" [OF True refl k(1) [symmetric] k(3), unfolded PGSIZE_def, OF s2(2)]) (use "1.prems"(2-5) nr in simp_all)
      then obtain r s' fs' where i: "alloc_loop kend pd (a + 4096) oldsz newsz s2 = Inr (r, s')" "us_ok kend s' pd fs'"
        "own s' pd = own s2 pd" "pool s' pd fs' \<subseteq> pool s2 pd xs" "touches (pool s2 pd xs) s2 s'"
        "r = newsz \<and> (\<forall>va < USERTOP. if in_range (a + 4096) newsz va then user_entry (pte_of s' pd va) \<and> ubyte s' pd va = 0
            else same_at s2 s' pd va) \<or>
         r = 0 \<and> (\<forall>va < USERTOP. if in_range (PGROUNDUP oldsz) newsz va then \<not> present (pte_of s' pd va)
            else same_at s2 s' pd va)" by blast
      have pl: "pool s2 pd xs = pool s pd fs" using s2(3,4) Cons by (auto simp: pool_def pages_of_def)
      have "touches (pool s pd fs) s s'"
        using touches_trans [OF s2(5) i(5)] pl Cons by (auto simp: pool_def pages_of_def)
      moreover have "alloc_loop kend pd a oldsz newsz s = Inr (r, s')" using al i(1) by simp
      moreover have "r = newsz \<and> (\<forall>va < USERTOP. if in_range a newsz va then user_entry (pte_of s' pd va) \<and> ubyte s' pd va = 0
            else same_at s s' pd va) \<or>
         r = 0 \<and> (\<forall>va < USERTOP. if in_range (PGROUNDUP oldsz) newsz va then \<not> present (pte_of s' pd va)
            else same_at s s' pd va)"
        using i(6)
      proof (elim disjE conjE)
        assume r: "r = newsz" and v: "\<forall>va < USERTOP. if in_range (a + 4096) newsz va
            then user_entry (pte_of s' pd va) \<and> ubyte s' pd va = 0 else same_at s2 s' pd va"
        have "if in_range a newsz va then user_entry (pte_of s' pd va) \<and> ubyte s' pd va = 0 else same_at s s' pd va"
          if "va < USERTOP" for va
          using v s2(7) z that user_entry_present same_at_trans unfolding rs by (metis (no_types, lifting) same_at_def)
        then show ?thesis using r by blast
      next
        assume r: "r = 0" and v: "\<forall>va < USERTOP. if in_range (PGROUNDUP oldsz) newsz va
            then \<not> present (pte_of s' pd va) else same_at s2 s' pd va"
        have "in_range a newsz va \<Longrightarrow> in_range (PGROUNDUP oldsz) newsz va" for va
          using "1.prems"(5) by (auto simp: in_range_def)
        then have "if in_range (PGROUNDUP oldsz) newsz va then \<not> present (pte_of s' pd va) else same_at s s' pd va"
          if "va < USERTOP" for va
          using v s2(7) that same_at_trans rs by (metis (no_types, lifting))
        then show ?thesis using r by blast
      qed
      ultimately show ?thesis using i(2-4) s2(3) pl by (metis (no_types, lifting))
    qed
  qed
qed

end
