(* ===== verification/VmCopy.thy ===== *)
theory VmCopy
  imports VmUser
begin

text \<open>
  Growing an address space and copying one for a child: the contract of \<open>allocuvm\<close>, \<open>deallocuvm\<close>,
  \<open>freevm\<close> and \<open>copyuvm\<close>, the isolation of address spaces included.
\<close>

section \<open>Isolation\<close>

lemma pool_pages: "us_ok kend s pd fs \<Longrightarrow> u \<in> pool s pd fs \<Longrightarrow> 4096 dvd u"
  using pages_page kmem_page pd_ok_kmem us_pd unfolding pool_def by (metis Un_iff)

lemma others_keep:
  assumes "us_ok kend s pd fs" "touches (pool s pd fs) s s'" "us_ok kend s' pd fs'" "pool s' pd fs' \<subseteq> pool s pd fs"
    and o: "us_ok kend s pd2 fs" "pages_of s pd2 \<inter> pages_of s pd = {}"
  shows "us_ok kend s' pd2 fs' \<and> pages_of s' pd2 \<inter> pages_of s' pd = {} \<and> (\<forall>va < USERTOP. same_at s s' pd2 va)"
proof -
  have "u \<notin> pages_of s pd2" if "u \<in> pool s pd fs" for u
    using that o pages_page [OF o(1), of u] by (auto simp: pool_def)
  then have P: "\<forall>u \<in> pool s pd fs. 4096 dvd u \<and> u \<notin> pages_of s pd2" using pool_pages [OF assms(1)] by blast
  note f = user_frame [OF o(1) assms(2) P]
  have "us_ok kend s' pd2 fs'"
    by (rule user_frame_ok [OF o(1) assms(2) P pd_ok_kmem [OF us_pd [OF assms(3)]]]) (use P assms(4) in \<open>auto simp: pool_def\<close>)
  then show ?thesis using f P assms(4) by (auto simp: pool_def)
qed

lemma allocuvm_spec:
  assumes "us_ok kend s pd fs" "oldsz \<le> newsz" "newsz \<le> USERTOP"
    "\<forall>va < USERTOP. in_range (PGROUNDUP oldsz) newsz va \<longrightarrow> \<not> present (pte_of s pd va)"
  shows "\<exists>r s' fs'. allocuvm kend pd oldsz newsz s = Inr (r, s') \<and> us_ok kend s' pd fs' \<and>
    (r = newsz \<and> (\<forall>va < USERTOP. if in_range (PGROUNDUP oldsz) newsz va
        then user_entry (pte_of s' pd va) \<and> ubyte s' pd va = 0 else same_at s s' pd va) \<or>
     r = 0 \<and> (\<forall>va < USERTOP. if in_range (PGROUNDUP oldsz) newsz va
        then \<not> present (pte_of s' pd va) else same_at s s' pd va)) \<and>
    (\<forall>pd2. us_ok kend s pd2 fs \<and> pages_of s pd2 \<inter> pages_of s pd = {} \<longrightarrow>
       us_ok kend s' pd2 fs' \<and> pages_of s' pd2 \<inter> pages_of s' pd = {} \<and> (\<forall>va < USERTOP. same_at s s' pd2 va))"
proof -
  obtain r s' fs' where i: "alloc_loop kend pd (PGROUNDUP oldsz) oldsz newsz s = Inr (r, s')" "us_ok kend s' pd fs'"
    "pool s' pd fs' \<subseteq> pool s pd fs" "touches (pool s pd fs) s s'"
    "r = newsz \<and> (\<forall>va < USERTOP. if in_range (PGROUNDUP oldsz) newsz va
        then user_entry (pte_of s' pd va) \<and> ubyte s' pd va = 0 else same_at s s' pd va) \<or>
     r = 0 \<and> (\<forall>va < USERTOP. if in_range (PGROUNDUP oldsz) newsz va
        then \<not> present (pte_of s' pd va) else same_at s s' pd va)"
    using alloc_loop_spec [OF assms(1), of "PGROUNDUP oldsz" newsz oldsz] assms(3,4) PGROUNDUP_dvd PGROUNDUP_ge
    by (auto simp: PGSIZE_def)
  have "allocuvm kend pd oldsz newsz s = Inr (r, s')" using i(1) assms(2,3) by (simp add: allocuvm_def)
  then show ?thesis using i(2,5) others_keep [OF assms(1) i(4,2,3)] by blast
qed

text \<open>C31: Growing a process. If the pages to come are free, \<open>allocuvm\<close> returns and never panics. It
  gives the new size, with every page from the old size up mapped for the user and reading zero, or
  0 when memory runs out, with none of them mapped; all other user addresses read as before. Every
  other address space keeps its mapping and its bytes, and no page gets two owners.\<close>

theorem allocuvm_grows:
  assumes "us_ok kend s pd fs" "oldsz \<le> newsz" "newsz \<le> USERTOP"
    "\<forall>va < USERTOP. in_range (PGROUNDUP oldsz) newsz va \<longrightarrow> \<not> present (pte_of s pd va)"
  shows "\<exists>r s' fs'. allocuvm kend pd oldsz newsz s = Inr (r, s') \<and> us_ok kend s' pd fs' \<and>
    (r = newsz \<and> (\<forall>va < USERTOP. if in_range (PGROUNDUP oldsz) newsz va
        then user_entry (pte_of s' pd va) \<and> ubyte s' pd va = 0 else same_at s s' pd va) \<or>
     r = 0 \<and> (\<forall>va < USERTOP. if in_range (PGROUNDUP oldsz) newsz va
        then \<not> present (pte_of s' pd va) else same_at s s' pd va)) \<and>
    (\<forall>pd2. us_ok kend s pd2 fs \<and> pages_of s pd2 \<inter> pages_of s pd = {} \<longrightarrow>
       us_ok kend s' pd2 fs' \<and> pages_of s' pd2 \<inter> pages_of s' pd = {} \<and> (\<forall>va < USERTOP. same_at s s' pd2 va))"
  using allocuvm_spec [OF assms] .

section \<open>Copying\<close>

lemma copy_page_bytes:
  "touches {m} s (copy_page m src s)" "km (copy_page m src s) = km s"
  "pbytes (copy_page m src s) (m + k mod 4096) = pbytes s (src + k mod 4096)"
proof -
  show "touches {m} s (copy_page m src s)" by (auto simp: touches_def copy_page_def put_bytes_def in_page_def)
  show "km (copy_page m src s) = km s" by (simp add: copy_page_def put_bytes_def)
  show "pbytes (copy_page m src s) (m + k mod 4096) = pbytes s (src + k mod 4096)"
    by (simp add: copy_page_def put_bytes_def PGSIZE_def)
qed

lemma copy_loop_spec:
  assumes "us_ok kend s pd fs" "us_ok kend s d fs" "pages_of s pd \<inter> pages_of s d = {}" "4096 dvd i" "hi \<le> USERTOP"
    "\<forall>va < USERTOP. in_range i hi va \<longrightarrow> present (pte_of s pd va) \<and> \<not> present (pte_of s d va)"
  shows "\<exists>b s' fs'. copy_loop pd d i hi s = Inr (b, s') \<and> us_ok kend s' pd fs' \<and> us_ok kend s' d fs' \<and>
    pages_of s' pd \<inter> pages_of s' d = {} \<and> (\<forall>va < USERTOP. same_at s s' pd va) \<and> own s' d = own s d \<and>
    (b \<longrightarrow> (\<forall>va < USERTOP. if in_range i hi va then user_entry (pte_of s' d va) \<and> ubyte s' d va = ubyte s pd va
       else same_at s s' d va))"
  using assms
proof (induction pd d i hi s arbitrary: fs rule: copy_loop.induct)
  case (1 pd d i hi s)
  note up = "1.prems"(1) and ud = "1.prems"(2)
  show ?case
  proof (cases "i < hi")
    case False
    then have "copy_loop pd d i hi s = Inr (True, s)" by (simp add: copy_loop.simps [of pd d])
    then show ?thesis using up ud "1.prems"(3) in_range_empty [OF False "1.prems"(4)] by auto
  next
    case True
    then have iu: "i < USERTOP" using "1.prems"(5) by simp
    note rs = in_range_step [OF "1.prems"(4) True]
    have pr: "present (pte_of s pd i)" and np: "\<not> present (pte_of s d i)" using "1.prems"(6) iu rs by blast+
    obtain t where t: "table s pd (PDX i) = Some t" using up user_PDX [OF iu] by (auto simp: us_ok_def)
    have w: "walkpgdir pd i False s = (Some (t + 4 * PTX i), s)" by (rule walk_present [OF t])
    have pe: "words s (t + 4 * PTX i) = pte_of s pd i" using t by (simp add: pte_of_table)
    define pa where "pa = PTE_ADDR (pte_of s pd i)"
    show ?thesis
    proof (cases fs)
      case Nil
      then have k: "vm_kalloc s = (0, s)" using vm_kalloc_pool(1) pd_ok_kmem [OF us_pd [OF up]] by blast
      have "copy_loop pd d i hi s = Inr (False, s)" using True w pe pr k by (simp add: copy_loop.simps [of pd d] present_def)
      then show ?thesis using up ud "1.prems"(3) by auto
    next
      case (Cons m xs)
      then obtain k where k: "vm_kalloc s = (m, s\<lparr>km := k\<rparr>)" "kmem_inv kend k xs" "m \<noteq> 0"
        using vm_kalloc_pool(2) pd_ok_kmem [OF us_pd [OF up]] by blast
      define s1 where "s1 = copy_page m pa (s\<lparr>km := k\<rparr>)"
      have t1: "touches {m} s s1"
        using copy_page_bytes(1) [where m = m and src = pa and s = "s\<lparr>km := k\<rparr>"] by (simp add: touches_def s1_def)
      have km1: "km s1 = k" by (simp add: s1_def copy_page_bytes(2))
      obtain s2 where s2: "mappages d i PGSIZE m (PTE_W OR PTE_U) s1 = Inr (0, s2)" "us_ok kend s2 d xs" "own s2 d = own s d"
        "frames s2 d = insert m (frames s d)" "touches (insert m (own s d)) s s2" "pbytes s2 = pbytes s1"
        "\<forall>va < USERTOP. if va div 4096 = i div 4096 then user_entry (pte_of s2 d va) \<and> PTE_ADDR (pte_of s2 d va) = m
           else same_at s s2 d va"
        using user_take_map [OF ud [unfolded Cons] "1.prems"(4) iu np k(2) t1 km1] by blast
      have m: "4096 dvd m" "m \<notin> pages_of s pd" "m \<notin> pages_of s d"
        using kmem_page [OF pd_ok_kmem [OF us_pd [OF up]], of m] Cons pages_page [OF up, of m] pages_page [OF ud, of m] by auto
      have P: "\<forall>u \<in> insert m (own s d). 4096 dvd u \<and> u \<notin> pages_of s pd"
        using m pd_ok_page [OF us_pd [OF ud]] "1.prems"(3) by (auto simp: pages_of_def)
      note fp = user_frame [OF up s2(5) P]
      have up2: "us_ok kend s2 pd xs"
        by (rule user_frame_ok [OF up s2(5) P pd_ok_kmem [OF us_pd [OF s2(2)]]]) (use Cons pages_page [OF up] in fastforce)
      have dj: "pages_of s2 pd \<inter> pages_of s2 d = {}" using fp(4) s2(3,4) m "1.prems"(3) by (auto simp: pages_of_def)
      have cb: "ubyte s2 d va = ubyte s pd va" if "va < USERTOP" "va div 4096 = i div 4096" for va
      proof -
        have "pte_of s pd va = pte_of s pd i" by (rule user_pte_page [OF that(1) iu that(2)])
        then show ?thesis using s2(6,7) that copy_page_bytes(3) [where m = m and src = pa and s = "s\<lparr>km := k\<rparr>" and k = va] by (simp add: ubyte_def s1_def pa_def)
      qed
      have nr: "\<forall>va < USERTOP. in_range (i + 4096) hi va \<longrightarrow> present (pte_of s2 pd va) \<and> \<not> present (pte_of s2 d va)"
      proof (intro allI impI)
        fix va assume va: "va < USERTOP" "in_range (i + 4096) hi va"
        then have "va div 4096 \<noteq> i div 4096" using "1.prems"(4) by (auto simp: in_range_def elim!: dvdE)
        then show "present (pte_of s2 pd va) \<and> \<not> present (pte_of s2 d va)"
          using s2(7) fp(1) va "1.prems"(6) rs by (auto simp: same_at_def)
      qed
      have al: "copy_loop pd d i hi s = copy_loop pd d (i + 4096) hi s2"
        using True w pe pr k s2(1) by (simp add: copy_loop.simps [of pd d i] present_def s1_def pa_def PGSIZE_def)
      have "words s (t + 4 * PTX i) AND PTE_P \<noteq> 0" using pr pe by (simp add: present_def)
      note IH = "1.IH" [OF True w [symmetric] refl this refl k(1) [symmetric] k(3), of 0, unfolded PGSIZE_def, OF _ up2 s2(2) dj]
      obtain b s' fs' where i: "copy_loop pd d (i + 4096) hi s2 = Inr (b, s')" "us_ok kend s' pd fs'" "us_ok kend s' d fs'"
        "pages_of s' pd \<inter> pages_of s' d = {}" "\<forall>va < USERTOP. same_at s2 s' pd va" "own s' d = own s2 d"
        "b \<longrightarrow> (\<forall>va < USERTOP. if in_range (i + 4096) hi va then user_entry (pte_of s' d va) \<and> ubyte s' d va = ubyte s2 pd va
           else same_at s2 s' d va)"
        using IH "1.prems"(4,5) nr by auto
      have "\<forall>va < USERTOP. same_at s s' pd va" using i(5) fp(1) same_at_trans by blast
      moreover have "if in_range i hi va then user_entry (pte_of s' d va) \<and> ubyte s' d va = ubyte s pd va
          else same_at s s' d va" if b: "b" and va: "va < USERTOP" for va
      proof (cases "in_range (i + 4096) hi va")
        case True
        then have "present (pte_of s pd va)" using "1.prems"(6) va rs by blast
        then have "ubyte s2 pd va = ubyte s pd va" using fp(1) va by (simp add: same_at_def)
        then show ?thesis using True rs i(7) b va by auto
      next
        case False
        then have sm: "same_at s2 s' d va" using i(7) b va by auto
        show ?thesis
        proof (cases "va div 4096 = i div 4096")
          case True
          then have "user_entry (pte_of s2 d va)" using s2(7) va by auto
          then show ?thesis using True rs sm cb [OF va True] user_entry_present by (auto simp: same_at_def)
        next
          case F: False
          then show ?thesis using False rs sm s2(7) va same_at_trans by auto
        qed
      qed
      ultimately show ?thesis using al i(1-4,6) s2(3) by (metis (no_types, lifting))
    qed
  qed
qed

section \<open>Freeing\<close>

lemma free_tables_spec:
  assumes "kmem_inv kend (km s) xs" "4096 dvd d" "d \<notin> set xs" "distinct is" "set is \<subseteq> {..<1024}"
    "\<forall>i \<in> set is. \<forall>t. table s d i = Some t \<longrightarrow> page_ok kend t \<and> t \<notin> set xs \<and> t \<noteq> d"
    "\<forall>i \<in> set is. \<forall>j \<in> set is. \<forall>t. table s d i = Some t \<longrightarrow> table s d j = Some t \<longrightarrow> i = j"
  shows "\<exists>s' ys. free_tables kend d is s = Inr s' \<and> kmem_inv kend (km s') ys \<and> d \<notin> set ys \<and>
    set ys \<subseteq> set xs \<union> {t. \<exists>i \<in> set is. table s d i = Some t} \<and> touches {t. \<exists>i \<in> set is. table s d i = Some t} s s'"
  using assms
proof (induction "is" arbitrary: s xs)
  case Nil
  then show ?case by auto
next
  case (Cons i js)
  show ?case
  proof (cases "table s d i")
    case None
    then have f: "free_tables kend d (i # js) s = free_tables kend d js s"
      by (simp add: table_def present_def split: if_splits)
    obtain s' ys where "free_tables kend d js s = Inr s'" "kmem_inv kend (km s') ys" "d \<notin> set ys"
      "set ys \<subseteq> set xs \<union> {t. \<exists>i \<in> set js. table s d i = Some t}" "touches {t. \<exists>i \<in> set js. table s d i = Some t} s s'"
      using Cons.IH [OF Cons.prems(1-3)] Cons.prems(4-7) by auto
    moreover have "{t. \<exists>i \<in> set js. table s d i = Some t} = {t. \<exists>i \<in> set (i # js). table s d i = Some t}"
      using None by auto
    ultimately show ?thesis using f by auto
  next
    case (Some t)
    then have e: "words s (d + 4 * i) AND PTE_P \<noteq> 0" "PTE_ADDR (words s (d + 4 * i)) = t"
      by (auto simp: table_def present_def split: if_splits)
    have t: "page_ok kend t" "t \<notin> set xs" "t \<noteq> d" "4096 dvd t" using Cons.prems(6) Some page_ok_dvd by auto
    obtain s1 where s1: "vm_kfree kend t s = Inr s1" "kmem_inv kend (km s1) (t # xs)" "touches {t} s s1"
      using vm_kfree_ok [OF Cons.prems(1) t(1,2)] by blast
    have tb: "table s1 d j = table s d j" if "j < 1024" for j
      using touches_slot [OF s1(3), of d "d + 4 * j"] t Cons.prems(2) in_page_slot [OF that] by (simp add: table_def)
    have js: "set js \<subseteq> {..<1024}" "distinct js" "i \<notin> set js" using Cons.prems(4,5) by auto
    have pre: "\<forall>j \<in> set js. \<forall>u. table s1 d j = Some u \<longrightarrow> page_ok kend u \<and> u \<notin> set (t # xs) \<and> u \<noteq> d"
    proof (intro ballI allI impI)
      fix j u assume j: "j \<in> set js" "table s1 d j = Some u"
      then have u: "table s d j = Some u" using tb js(1) by auto
      then have "u \<noteq> t" using Cons.prems(7) Some j(1) js(3) by auto
      then show "page_ok kend u \<and> u \<notin> set (t # xs) \<and> u \<noteq> d" using Cons.prems(6) u j by auto
    qed
    have inj: "\<forall>j \<in> set js. \<forall>l \<in> set js. \<forall>u. table s1 d j = Some u \<longrightarrow> table s1 d l = Some u \<longrightarrow> j = l"
    proof (intro ballI allI impI)
      fix j l u assume j: "j \<in> set js" "l \<in> set js" "table s1 d j = Some u" "table s1 d l = Some u"
      then have "table s d j = Some u" "table s d l = Some u" using tb js(1) by auto
      then show "j = l" using Cons.prems(7) j by auto
    qed
    have dx: "d \<notin> set (t # xs)" using Cons.prems(3) t(3) by simp
    obtain s' ys where i: "free_tables kend d js s1 = Inr s'" "kmem_inv kend (km s') ys" "d \<notin> set ys"
      "set ys \<subseteq> set (t # xs) \<union> {t. \<exists>i \<in> set js. table s1 d i = Some t}" "touches {t. \<exists>i \<in> set js. table s1 d i = Some t} s1 s'"
      using Cons.IH [OF s1(2) Cons.prems(2) dx js(2,1) pre inj] by blast
    have eq: "{t. \<exists>i \<in> set js. table s1 d i = Some t} = {t. \<exists>i \<in> set js. table s d i = Some t}"
      using tb js(1) by (metis lessThan_iff subsetD)
    have "touches {t. \<exists>i \<in> set (i # js). table s d i = Some t} s s'"
      by (rule touches_trans [OF s1(3) i(5) [unfolded eq]]) (use Some in auto)
    moreover have "free_tables kend d (i # js) s = Inr s'" using e s1(1) i(1) by simp
    ultimately show ?thesis using i(2-4) Some unfolding eq by auto
  qed
qed

lemma freevm_spec:
  assumes us: "us_ok kend s d fs"
  shows "\<exists>s' ys. freevm kend d s = Inr s' \<and> kmem_inv kend (km s') ys \<and> set ys \<subseteq> pool s d fs \<and> touches (pool s d fs) s s'"
proof -
  have d: "page_ok kend d" "d \<notin> set fs" "4096 dvd d" using pd_ok_page [OF us_pd [OF us] own_self] by auto
  obtain s1 xs where s1: "dealloc_loop kend d 0 USERTOP s = Inr s1" "us_ok kend s1 d xs" "own s1 d = own s d"
    "set xs \<subseteq> set fs \<union> frames s d" "touches (own s d \<union> range_frames s d 0 USERTOP) s s1"
    using dealloc_loop_spec [OF us, of 0 USERTOP] by auto
  have de: "deallocuvm kend d USERTOP 0 s = Inr (0, s1)"
    using s1(1) by (simp add: deallocuvm_def USERTOP_def PGROUNDUP_def PGSIZE_def)
  have ok1: "pd_ok kend s1 d xs" by (rule us_pd [OF s1(2)])
  have o: "\<forall>v \<in> own s1 d. page_ok kend v \<and> v \<notin> set xs" and nd: "\<forall>i < 1024. table s1 d i \<noteq> Some d"
    and inj: "\<forall>i < 1024. \<forall>j < 1024. table s1 d i = table s1 d j \<longrightarrow> table s1 d i \<noteq> None \<longrightarrow> i = j"
    using ok1 unfolding pd_ok_def by blast+
  have tabs: "\<forall>i \<in> set [0..<NPDENTRIES]. \<forall>t. table s1 d i = Some t \<longrightarrow> page_ok kend t \<and> t \<notin> set xs \<and> t \<noteq> d"
    using o nd own_table by (auto simp: NPDENTRIES_def)
  have tinj: "\<forall>i \<in> set [0..<NPDENTRIES]. \<forall>j \<in> set [0..<NPDENTRIES]. \<forall>t. table s1 d i = Some t \<longrightarrow>
      table s1 d j = Some t \<longrightarrow> i = j"
    using inj by (auto simp: NPDENTRIES_def)
  have dx: "d \<notin> set xs" using o by (auto simp: own_def)
  have r: "distinct [0..<NPDENTRIES]" "set [0..<NPDENTRIES] \<subseteq> {..<1024}" by (auto simp: NPDENTRIES_def)
  obtain s2 ys where s2: "free_tables kend d [0..<NPDENTRIES] s1 = Inr s2" "kmem_inv kend (km s2) ys" "d \<notin> set ys"
    "set ys \<subseteq> set xs \<union> {t. \<exists>i \<in> set [0..<NPDENTRIES]. table s1 d i = Some t}"
    "touches {t. \<exists>i \<in> set [0..<NPDENTRIES]. table s1 d i = Some t} s1 s2"
    using free_tables_spec [OF pd_ok_kmem [OF ok1] d(3) dx r tabs tinj] by blast
  have sub: "{t. \<exists>i \<in> set [0..<NPDENTRIES]. table s1 d i = Some t} \<subseteq> own s d"
    unfolding s1(3) [symmetric] by (auto simp: own_def NPDENTRIES_def)
  obtain s3 where s3: "vm_kfree kend d s2 = Inr s3" "kmem_inv kend (km s3) (d # ys)" "touches {d} s2 s3"
    using vm_kfree_ok [OF s2(2) d(1) s2(3)] by blast
  have rf: "range_frames s d 0 USERTOP \<subseteq> frames s d" by (auto simp: range_frames_def frames_def)
  have d0: "d \<in> own s d" by simp
  have "touches (pool s d fs) s s2"
    by (rule touches_trans [OF s1(5) s2(5)]) (use rf sub in \<open>auto simp: pool_def pages_of_def\<close>)
  then have "touches (pool s d fs) s s3"
    by (rule touches_trans [OF _ s3(3)]) (use d0 in \<open>auto simp: pool_def pages_of_def\<close>)
  moreover have "set (d # ys) \<subseteq> pool s d fs" using s2(4) s1(4) sub d0 by (auto simp: pool_def pages_of_def)
  moreover have "freevm kend d s = Inr s3" using de s2(1) s3(1) d(1) by (simp add: freevm_def page_ok_def)
  ultimately show ?thesis using s3(2) by blast
qed

section \<open>The child's address space\<close>

definition user_va :: "nat \<Rightarrow> nat \<Rightarrow> nat \<Rightarrow> bool" where
  "user_va sz stackSz va \<longleftrightarrow> PGSIZE \<le> va \<and> PGROUNDDOWN va < sz \<or> stackSz \<le> va \<and> va < USERTOP"

text \<open>C10: Copying an address space for a child. If the pages of the program and of the stack are
  mapped, \<open>copyuvm\<close> never panics. It gives 0 when memory runs out, or a new page directory under which
  exactly those pages are mapped, with the bytes of the parent, and whose pages are all its own. The
  page at address 0 is not among them. The parent's memory stays as it was either way.\<close>

theorem copyuvm_copies:
  assumes us: "us_ok kend s pd fs" and data: "data_ok data"
    and sz: "sz \<le> stackSz" "stackSz \<le> USERTOP" "4096 dvd stackSz"
    and mapped: "\<forall>va < USERTOP. user_va sz stackSz va \<longrightarrow> present (pte_of s pd va)"
  shows "\<exists>d s' fs'. copyuvm kend data pd sz stackSz s = Inr (d, s') \<and> us_ok kend s' pd fs' \<and>
    (\<forall>va < USERTOP. same_at s s' pd va) \<and>
    (d \<noteq> 0 \<longrightarrow> us_ok kend s' d fs' \<and> pages_of s' pd \<inter> pages_of s' d = {} \<and>
      (\<forall>va < USERTOP. present (pte_of s' d va) \<longleftrightarrow> user_va sz stackSz va) \<and>
      (\<forall>va < USERTOP. user_va sz stackSz va \<longrightarrow> ubyte s' d va = ubyte s pd va))"
proof -
  obtain d s1 us fs1 where s1: "setupkvm data s = Inr (d, s1)" "fs = us @ fs1" "kmem_inv kend (km s1) fs1" "touches (set us) s s1"
    "d \<noteq> 0 \<longrightarrow> pd_ok kend s1 d fs1 \<and> own s1 d = set us \<and> table s1 d 0 \<noteq> None \<and> (\<forall>va < USERTOP. pte_of s1 d va = 0)"
    using setupkvm_spec [OF pd_ok_kmem [OF us_pd [OF us]] data] by blast
  have P: "\<forall>u \<in> set us. 4096 dvd u \<and> u \<notin> pages_of s pd"
    using kmem_page [OF pd_ok_kmem [OF us_pd [OF us]]] pages_page [OF us] s1(2) by auto
  note f1 = user_frame [OF us s1(4) P]
  have us1: "us_ok kend s1 pd fs1"
    by (rule user_frame_ok [OF us s1(4) P s1(3)]) (use pages_page [OF us] s1(2) in fastforce)
  show ?thesis
  proof (cases "d = 0")
    case True
    then have "copyuvm kend data pd sz stackSz s = Inr (0, s1)" using s1(1) by (simp add: copyuvm_def)
    then show ?thesis using us1 f1(1) by blast
  next
    case False
    then have ch: "pd_ok kend s1 d fs1" "own s1 d = set us" "table s1 d 0 \<noteq> None" "\<forall>va < USERTOP. pte_of s1 d va = 0"
      using s1(5) by auto
    have fr: "frames s1 d = {}" using ch(4) by (auto simp: frames_def)
    have ud1: "us_ok kend s1 d fs1" unfolding us_ok_def fr using ch by simp
    have dj1: "pages_of s1 pd \<inter> pages_of s1 d = {}" using P f1(4) ch(2) fr by (auto simp: pages_of_def)
    have r1: "in_range PGSIZE sz va \<Longrightarrow> user_va sz stackSz va" for va by (simp add: in_range_def user_va_def)
    have pr1: "\<forall>va < USERTOP. in_range PGSIZE sz va \<longrightarrow> present (pte_of s1 pd va) \<and> \<not> present (pte_of s1 d va)"
      using mapped r1 f1(1) ch(4) by (auto simp: same_at_def)
    have g: "4096 dvd PGSIZE" "sz \<le> USERTOP" using sz by (simp_all add: PGSIZE_def)
    obtain b1 s2 fs2 where s2: "copy_loop pd d PGSIZE sz s1 = Inr (b1, s2)" "us_ok kend s2 pd fs2" "us_ok kend s2 d fs2"
      "pages_of s2 pd \<inter> pages_of s2 d = {}" "\<forall>va < USERTOP. same_at s1 s2 pd va" "own s2 d = own s1 d"
      "b1 \<longrightarrow> (\<forall>va < USERTOP. if in_range PGSIZE sz va then user_entry (pte_of s2 d va) \<and> ubyte s2 d va = ubyte s1 pd va
         else same_at s1 s2 d va)"
      using copy_loop_spec [OF us1 ud1 dj1 g pr1] by blast
    obtain ok s3 fs3 where s3: "(if b1 then copy_loop pd d stackSz USERTOP s2 else Inr (False, s2)) = Inr (ok, s3)"
      "us_ok kend s3 pd fs3" "us_ok kend s3 d fs3" "pages_of s3 pd \<inter> pages_of s3 d = {}" "\<forall>va < USERTOP. same_at s2 s3 pd va"
      "ok \<longrightarrow> b1 \<and> (\<forall>va < USERTOP. if in_range stackSz USERTOP va then user_entry (pte_of s3 d va) \<and> ubyte s3 d va = ubyte s2 pd va
         else same_at s2 s3 d va)"
    proof (cases b1)
      case False
      then show ?thesis using that [of False s2 fs2] s2(2-4) by simp
    next
      case True
      have "\<not> in_range PGSIZE sz va" if "in_range stackSz USERTOP va" for va
      proof -
        obtain k where "stackSz = 4096 * k" using sz(3) by blast
        then have "stackSz \<le> PGROUNDDOWN va"
          using that by (simp add: in_range_def PGROUNDDOWN_def PGSIZE_def less_eq_div_iff_mult_less_eq mult.commute)
        then show ?thesis using sz(1) by (simp add: in_range_def)
      qed
      moreover have "present (pte_of s pd va)" if "va < USERTOP" "in_range stackSz USERTOP va" for va
        using mapped that by (auto simp: in_range_def user_va_def)
      ultimately have pr2: "\<forall>va < USERTOP. in_range stackSz USERTOP va \<longrightarrow> present (pte_of s2 pd va) \<and> \<not> present (pte_of s2 d va)"
        using s2(5,7) f1(1) ch(4) True unfolding same_at_def by (metis not_present_0)
      show ?thesis using copy_loop_spec [OF s2(2-4) sz(3) order.refl pr2] True that by (metis (no_types, lifting))
    qed
    have sp: "\<forall>va < USERTOP. same_at s s3 pd va" using f1(1) s2(5) s3(5) same_at_trans by blast
    show ?thesis
    proof (cases ok)
      case True
      have c: "copyuvm kend data pd sz stackSz s = Inr (d, s3)" using s1(1) False s2(1) s3(1) True by (simp add: copyuvm_def)
      have "(present (pte_of s3 d va) \<longleftrightarrow> user_va sz stackSz va) \<and> (user_va sz stackSz va \<longrightarrow> ubyte s3 d va = ubyte s pd va)"
        if va: "va < USERTOP" for va
      proof -
        have u: "user_va sz stackSz va \<longleftrightarrow> in_range PGSIZE sz va \<or> in_range stackSz USERTOP va"
          using va by (auto simp: user_va_def in_range_def PGROUNDDOWN_def PGSIZE_def intro: order.strict_trans1)
        have b: "ubyte s2 pd va = ubyte s pd va \<and> ubyte s1 pd va = ubyte s pd va" if "user_va sz stackSz va"
        proof -
          have "present (pte_of s pd va)" using mapped va that by blast
          then show ?thesis using f1(1) s2(5) va by (simp add: same_at_def)
        qed
        have x3: "if in_range stackSz USERTOP va then user_entry (pte_of s3 d va) \<and> ubyte s3 d va = ubyte s2 pd va else same_at s2 s3 d va"
          and x2: "if in_range PGSIZE sz va then user_entry (pte_of s2 d va) \<and> ubyte s2 d va = ubyte s1 pd va else same_at s1 s2 d va"
          using s2(7) s3(6) True va by auto
        show ?thesis
        proof (cases "in_range stackSz USERTOP va")
          case True
          then show ?thesis using x3 u b user_entry_present by auto
        next
          case F: False
          show ?thesis using F x2 x3 u b user_entry_present ch(4) va
            by (cases "in_range PGSIZE sz va") (auto simp: same_at_def)
        qed
      qed
      then show ?thesis using c s3(2-4) sp by blast
    next
      case F: False
      obtain s4 ys where s4: "freevm kend d s3 = Inr s4" "kmem_inv kend (km s4) ys" "set ys \<subseteq> pool s3 d fs3" "touches (pool s3 d fs3) s3 s4"
        using freevm_spec [OF s3(3)] by blast
      have c: "copyuvm kend data pd sz stackSz s = Inr (0, s4)"
        using s1(1) \<open>d \<noteq> 0\<close> s2(1) s3(1) F s4(1) by (simp add: copyuvm_def)
      have P4: "\<forall>u \<in> pool s3 d fs3. 4096 dvd u \<and> u \<notin> pages_of s3 pd"
        using pool_pages [OF s3(3)] s3(4) pages_page [OF s3(2)] by (fastforce simp: pool_def)
      have "us_ok kend s4 pd ys"
        by (rule user_frame_ok [OF s3(2) s4(4) P4 s4(2)]) (use P4 s4(3) in auto)
      moreover have "\<forall>va < USERTOP. same_at s s4 pd va" using sp user_frame(1) [OF s3(2) s4(4) P4] same_at_trans by blast
      ultimately show ?thesis using c by blast
    qed
  qed
qed

end
