(* ===== verification/VmProc.thy ===== *)
theory VmProc
  imports VmCopy
begin

text \<open>
  The layout of a process, program and heap below, stack on top and nothing at address 0, under
  \<open>growproc_p3\<close> and page faults; and what the checks of system call arguments let through.
\<close>

section \<open>The layout\<close>

definition layout :: "addr \<Rightarrow> vproc \<Rightarrow> vm \<Rightarrow> addr list \<Rightarrow> bool" where
  "layout kend p s fs \<longleftrightarrow> us_ok kend s (v_pgdir p) fs \<and> 0 < v_sz p \<and> v_sz p + PGSIZE \<le> v_stackSz p \<and>
     v_stackSz p \<le> USERTOP \<and> 4096 dvd v_stackSz p \<and>
     (\<forall>va < USERTOP. present (pte_of s (v_pgdir p) va) \<longleftrightarrow> user_va (v_sz p) (v_stackSz p) va)"

lemma PGROUNDDOWN_less: "PGROUNDDOWN va < n \<longleftrightarrow> va < PGROUNDUP n"
proof
  assume "PGROUNDDOWN va < n"
  then have "va div 4096 * 4096 < PGROUNDUP n" using PGROUNDUP_ge [of n] by (simp add: PGROUNDDOWN_def PGSIZE_def)
  moreover obtain k where k: "PGROUNDUP n = 4096 * k" using PGROUNDUP_dvd [of n] by (auto simp: PGSIZE_def)
  ultimately have "va div 4096 < k" by simp
  then show "va < PGROUNDUP n" using k by (simp add: div_less_iff_less_mult mult.commute)
next
  assume a: "va < PGROUNDUP n"
  show "PGROUNDDOWN va < n"
  proof (rule ccontr)
    assume "\<not> PGROUNDDOWN va < n"
    then have "PGROUNDUP n \<le> PGROUNDDOWN va" by (intro PGROUNDUP_least) (simp_all add: PGROUNDDOWN_def)
    moreover have "PGROUNDDOWN va \<le> va" by (simp add: PGROUNDDOWN_def)
    ultimately show False using a by simp
  qed
qed

lemma PGROUNDUP_mono: "a \<le> b \<Longrightarrow> PGROUNDUP a \<le> PGROUNDUP b"
  by (intro PGROUNDUP_least) (use PGROUNDUP_ge [of b] in auto)

lemma user_va_iff: "user_va sz st va \<longleftrightarrow> PGSIZE \<le> va \<and> va < PGROUNDUP sz \<or> st \<le> va \<and> va < USERTOP"
  by (simp add: user_va_def PGROUNDDOWN_less)

lemma in_range_iff: "in_range lo hi va \<longleftrightarrow> lo \<le> va \<and> va < PGROUNDUP hi"
  by (simp add: in_range_def PGROUNDDOWN_less)

lemma PGROUNDUP_pos: "0 < n \<Longrightarrow> PGSIZE \<le> PGROUNDUP n"
  by (metis PGROUNDUP_dvd PGROUNDUP_ge dvd_imp_le less_le_trans)

lemma layout_room:
  assumes "layout kend p s fs"
  shows "PGROUNDUP (v_sz p) + PGSIZE \<le> v_stackSz p" "PGSIZE \<le> PGROUNDUP (v_sz p)"
    "v_sz p < 2 ^ 20" "v_stackSz p \<le> 0xA0000" "sub32 (v_stackSz p) PGSIZE = v_stackSz p - PGSIZE"
proof -
  have d: "4096 dvd v_stackSz p - PGSIZE" using assms by (simp add: layout_def PGSIZE_def)
  have "PGROUNDUP (v_sz p) \<le> v_stackSz p - PGSIZE"
    by (rule PGROUNDUP_least) (use assms d in \<open>auto simp: layout_def PGSIZE_def\<close>)
  moreover have "PGSIZE \<le> v_stackSz p" using assms by (simp add: layout_def)
  ultimately show "PGROUNDUP (v_sz p) + PGSIZE \<le> v_stackSz p" by linarith
  show "PGSIZE \<le> PGROUNDUP (v_sz p)" using assms by (intro PGROUNDUP_pos) (simp add: layout_def)
  show "v_sz p < 2 ^ 20" "v_stackSz p \<le> 0xA0000" "sub32 (v_stackSz p) PGSIZE = v_stackSz p - PGSIZE"
    using assms by (auto simp: layout_def PGSIZE_def USERTOP_def sub32_def mod_if)
qed

section \<open>Growing\<close>

lemma grow_layout:
  assumes l: "layout kend p s fs" and n: "0 < n" "n < 2 ^ 31"
  shows "\<exists>r p' s' fs'. growproc_p3 kend n p s = Inr (r, p', s') \<and> layout kend p' s' fs' \<and> v_stackSz p' = v_stackSz p \<and>
    (r = 0 \<and> int (v_sz p') = int (v_sz p) + n \<or> r = - 1 \<and> p' = p)"
proof -
  note r = layout_room [OF l]
  define sz' where "sz' = nat (u32 (int (v_sz p) + n))"
  have sz': "int sz' = int (v_sz p) + n" using n r(3) by (simp add: sz'_def u32_def)
  show ?thesis
  proof (cases "sz' > v_stackSz p - PGSIZE")
    case True
    then have "growproc_p3 kend n p s = Inr (- 1, p, s)" using n r(5) by (simp add: growproc_p3_def Let_def sz'_def)
    then show ?thesis using l by blast
  next
    case False
    then have room: "sz' + PGSIZE \<le> v_stackSz p" "v_sz p \<le> sz'" "sz' \<le> USERTOP"
      using sz' n l by (auto simp: layout_def)
    have "PGROUNDUP sz' \<le> v_stackSz p - PGSIZE"
      by (rule PGROUNDUP_least) (use room(1) l in \<open>auto simp: layout_def PGSIZE_def\<close>)
    then have up: "PGROUNDUP sz' < v_stackSz p" using room(1) by (simp add: PGSIZE_def)
    have us: "us_ok kend s (v_pgdir p) fs" and pr: "\<forall>va < USERTOP. present (pte_of s (v_pgdir p) va) \<longleftrightarrow> user_va (v_sz p) (v_stackSz p) va"
      using l by (auto simp: layout_def)
    have free: "\<forall>va < USERTOP. in_range (PGROUNDUP (v_sz p)) sz' va \<longrightarrow> \<not> present (pte_of s (v_pgdir p) va)"
      using pr up by (auto simp: in_range_iff user_va_iff)
    obtain r' s' fs' where a: "allocuvm kend (v_pgdir p) (v_sz p) sz' s = Inr (r', s')" "us_ok kend s' (v_pgdir p) fs'"
      "r' = sz' \<and> (\<forall>va < USERTOP. if in_range (PGROUNDUP (v_sz p)) sz' va
          then user_entry (pte_of s' (v_pgdir p) va) \<and> ubyte s' (v_pgdir p) va = 0 else same_at s s' (v_pgdir p) va) \<or>
       r' = 0 \<and> (\<forall>va < USERTOP. if in_range (PGROUNDUP (v_sz p)) sz' va
          then \<not> present (pte_of s' (v_pgdir p) va) else same_at s s' (v_pgdir p) va)"
      using allocuvm_spec [OF us room(2,3) free] by blast
    have u: "user_va sz' (v_stackSz p) va \<longleftrightarrow> in_range (PGROUNDUP (v_sz p)) sz' va \<or> user_va (v_sz p) (v_stackSz p) va" for va
      using r(2) PGROUNDUP_mono [OF room(2)] by (auto simp: in_range_iff user_va_iff)
    have "0 < sz'" using room(2) l by (simp add: layout_def)
    show ?thesis
      using a(3)
    proof (elim disjE conjE)
      assume x: "r' = sz'" "\<forall>va < USERTOP. if in_range (PGROUNDUP (v_sz p)) sz' va
          then user_entry (pte_of s' (v_pgdir p) va) \<and> ubyte s' (v_pgdir p) va = 0 else same_at s s' (v_pgdir p) va"
      then have "\<forall>va < USERTOP. present (pte_of s' (v_pgdir p) va) \<longleftrightarrow> user_va sz' (v_stackSz p) va"
        unfolding u using pr user_entry_present by (metis same_at_def)
      then have "layout kend (p\<lparr>v_sz := sz'\<rparr>) s' fs'" using a(2) l room \<open>0 < sz'\<close> by (simp add: layout_def)
      moreover have "growproc_p3 kend n p s = Inr (0, p\<lparr>v_sz := sz'\<rparr>, s')"
        using False n r(5) a(1) x(1) \<open>0 < sz'\<close> by (simp add: growproc_p3_def Let_def sz'_def)
      ultimately show ?thesis using sz' by (intro exI [of _ 0] exI [of _ "p\<lparr>v_sz := sz'\<rparr>"]) auto
    next
      assume x: "r' = 0" "\<forall>va < USERTOP. if in_range (PGROUNDUP (v_sz p)) sz' va
          then \<not> present (pte_of s' (v_pgdir p) va) else same_at s s' (v_pgdir p) va"
      then have "\<forall>va < USERTOP. present (pte_of s' (v_pgdir p) va) \<longleftrightarrow> user_va (v_sz p) (v_stackSz p) va"
        using pr free by (metis same_at_def)
      then have "layout kend p s' fs'" using a(2) l by (simp add: layout_def)
      moreover have "growproc_p3 kend n p s = Inr (- 1, p, s')"
        using False n r(5) a(1) x(1) by (simp add: growproc_p3_def Let_def sz'_def)
      ultimately show ?thesis by blast
    qed
  qed
qed

lemma shrink_layout:
  assumes l: "layout kend p s fs" and n: "n < 0" "- (2 ^ 31) \<le> n" "int (v_sz p) + n \<noteq> 0"
  shows "\<exists>p' s' fs'. growproc_p3 kend n p s = Inr (0, p', s') \<and> layout kend p' s' fs' \<and> v_stackSz p' = v_stackSz p \<and>
    int (v_sz p') = (if 0 \<le> int (v_sz p) + n then int (v_sz p) + n else int (v_sz p))"
proof -
  note r = layout_room [OF l]
  define sz' where "sz' = nat (u32 (int (v_sz p) + n))"
  have us: "us_ok kend s (v_pgdir p) fs" and pr: "\<forall>va < USERTOP. present (pte_of s (v_pgdir p) va) \<longleftrightarrow> user_va (v_sz p) (v_stackSz p) va"
    and pos: "0 < v_sz p" using l by (auto simp: layout_def)
  show ?thesis
  proof (cases "0 \<le> int (v_sz p) + n")
    case False
    have "v_sz p \<le> sz'"
    proof -
      have "(int (v_sz p) + n) mod 2 ^ 32 = (int (v_sz p) + n + 2 ^ 32) mod 2 ^ 32" by (rule mod_add_self2 [symmetric])
      also have "\<dots> = int (v_sz p) + n + 2 ^ 32" using False n by (intro mod_pos_pos_trivial) auto
      finally have "u32 (int (v_sz p) + n) = int (v_sz p) + n + 2 ^ 32" by (simp add: u32_def)
      then show ?thesis using n by (simp add: sz'_def)
    qed
    then have "growproc_p3 kend n p s = Inr (0, p, s)" using n pos by (simp add: growproc_p3_def Let_def sz'_def deallocuvm_def)
    then show ?thesis using l False by auto
  next
    case True
    then have sz': "int sz' = int (v_sz p) + n" using n r(3) by (simp add: sz'_def u32_def)
    then have lt: "0 < sz'" "sz' < v_sz p" using n True by auto
    have g: "4096 dvd PGROUNDUP sz'" "v_sz p \<le> USERTOP"
      using PGROUNDUP_dvd [of sz'] l by (auto simp: PGSIZE_def layout_def)
    obtain s' fs' where d: "dealloc_loop kend (v_pgdir p) (PGROUNDUP sz') (v_sz p) s = Inr s'" "us_ok kend s' (v_pgdir p) fs'"
      "\<forall>va < USERTOP. if in_range (PGROUNDUP sz') (v_sz p) va then \<not> present (pte_of s' (v_pgdir p) va) else same_at s s' (v_pgdir p) va"
      using dealloc_loop_spec [OF us g] by blast
    have u: "user_va sz' (v_stackSz p) va \<longleftrightarrow> \<not> in_range (PGROUNDUP sz') (v_sz p) va \<and> user_va (v_sz p) (v_stackSz p) va" for va
      using r(1) PGROUNDUP_mono [of sz' "v_sz p"] lt by (auto simp: in_range_iff user_va_iff)
    have "\<forall>va < USERTOP. present (pte_of s' (v_pgdir p) va) \<longleftrightarrow> user_va sz' (v_stackSz p) va"
      unfolding u using d(3) pr by (metis same_at_def)
    then have "layout kend (p\<lparr>v_sz := sz'\<rparr>) s' fs'" using d(2) l lt by (simp add: layout_def)
    moreover have "growproc_p3 kend n p s = Inr (0, p\<lparr>v_sz := sz'\<rparr>, s')"
      using n lt d(1) by (simp add: growproc_p3_def Let_def sz'_def [symmetric] deallocuvm_def)
    ultimately show ?thesis using sz' True by (intro exI [of _ "p\<lparr>v_sz := sz'\<rparr>"]) auto
  qed
qed

lemma fault_layout:
  assumes l: "layout kend p s fs" and f: "pgflt kend um cr2 p s = Inr (False, p', s')"
  shows "(\<exists>fs'. layout kend p' s' fs') \<and> v_sz p' = v_sz p \<and> v_stackSz p' + PGSIZE = v_stackSz p"
proof -
  note r = layout_room [OF l]
  define st where "st = v_stackSz p - PGSIZE"
  have st: "4096 dvd st" "st + PGSIZE = v_stackSz p" "st \<le> v_stackSz p" "v_stackSz p \<le> USERTOP"
    using l r(1) by (auto simp: st_def layout_def PGSIZE_def)
  have us: "us_ok kend s (v_pgdir p) fs" and pr: "\<forall>va < USERTOP. present (pte_of s (v_pgdir p) va) \<longleftrightarrow> user_va (v_sz p) (v_stackSz p) va"
    using l by (auto simp: layout_def)
  have c: "v_sz p + PGSIZE < st"
    using f r(3,5) unfolding pgflt_def by (auto simp: st_def add32_def PGSIZE_def split: if_splits)
  have rd: "PGROUNDUP st = st"
    using st(1) PGROUNDUP_least [of st st] PGROUNDUP_ge [of st] by (simp add: PGSIZE_def)
  have rd2: "PGROUNDUP (v_stackSz p) = v_stackSz p"
    using l PGROUNDUP_least [of "v_stackSz p" "v_stackSz p"] PGROUNDUP_ge [of "v_stackSz p"] by (simp add: PGSIZE_def layout_def)
  have up: "PGROUNDUP (v_sz p) \<le> st" using r(1) by (simp add: st_def)
  have free: "\<forall>va < USERTOP. in_range (PGROUNDUP st) (v_stackSz p) va \<longrightarrow> \<not> present (pte_of s (v_pgdir p) va)"
    using pr up by (auto simp: in_range_iff user_va_iff rd rd2)
  obtain r' s1 fs' where a: "allocuvm kend (v_pgdir p) st (v_stackSz p) s = Inr (r', s1)" "us_ok kend s1 (v_pgdir p) fs'"
    "r' = v_stackSz p \<and> (\<forall>va < USERTOP. if in_range (PGROUNDUP st) (v_stackSz p) va
        then user_entry (pte_of s1 (v_pgdir p) va) \<and> ubyte s1 (v_pgdir p) va = 0 else same_at s s1 (v_pgdir p) va) \<or> r' = 0"
    using allocuvm_spec [OF us st(3,4) free] by blast
  have x: "r' \<noteq> 0" "p' = p\<lparr>v_stackSz := st\<rparr>" "s' = s1"
    using f a(1) r(5) unfolding pgflt_def by (auto simp: st_def split: if_splits)
  have "user_va (v_sz p) st va \<longleftrightarrow> in_range (PGROUNDUP st) (v_stackSz p) va \<or> user_va (v_sz p) (v_stackSz p) va" for va
    using st by (auto simp: in_range_iff user_va_iff rd rd2)
  then have "\<forall>va < USERTOP. present (pte_of s1 (v_pgdir p) va) \<longleftrightarrow> user_va (v_sz p) st va"
    using a(3) x(1) pr user_entry_present by (metis same_at_def)
  then have "layout kend p' s' fs'" using x a(2) l st c by (simp add: layout_def)
  then show ?thesis using x st by auto
qed


section \<open>Steps of a process\<close>

text \<open>\<open>sbrk\<close> by an \<open>int\<close>, other than down to size 0, and page faults that the kernel answers.\<close>

inductive vstep :: "addr \<Rightarrow> vproc \<times> vm \<Rightarrow> vproc \<times> vm \<Rightarrow> bool" for kend where
  vs_sbrk: "growproc_p3 kend n p s = Inr (r, p', s') \<Longrightarrow> - (2 ^ 31) \<le> n \<Longrightarrow> n < 2 ^ 31 \<Longrightarrow> int (v_sz p) + n \<noteq> 0 \<Longrightarrow>
    vstep kend (p, s) (p', s')"
| vs_fault: "pgflt kend um cr2 p s = Inr (False, p', s') \<Longrightarrow> vstep kend (p, s) (p', s')"

lemma growproc_total:
  assumes "layout kend p s fs" "- (2 ^ 31) \<le> n" "n < 2 ^ 31" "int (v_sz p) + n \<noteq> 0"
  shows "\<exists>r p' s' fs'. growproc_p3 kend n p s = Inr (r, p', s') \<and> layout kend p' s' fs' \<and> v_stackSz p' = v_stackSz p \<and>
    (r = 0 \<and> int (v_sz p') = int (v_sz p) + n \<or> r = - 1 \<and> 0 < n \<and> p' = p \<or>
     r = 0 \<and> int (v_sz p) + n < 0 \<and> v_sz p' = v_sz p)"
proof (cases "0 < n")
  case True
  then show ?thesis using grow_layout [OF assms(1) True assms(3)] by blast
next
  case False
  show ?thesis
  proof (cases "n = 0")
    case True
    then show ?thesis using assms(1) by (simp add: growproc_p3_def Let_def) blast
  next
    case nz: False
    then have n: "n < 0" using False by simp
    obtain p' s' fs' where g: "growproc_p3 kend n p s = Inr (0, p', s')" "layout kend p' s' fs'" "v_stackSz p' = v_stackSz p"
      "int (v_sz p') = (if 0 \<le> int (v_sz p) + n then int (v_sz p) + n else int (v_sz p))"
      using shrink_layout [OF assms(1) n assms(2,4)] by blast
    from g(4) have "int (v_sz p') = int (v_sz p) + n \<or> int (v_sz p) + n < 0 \<and> v_sz p' = v_sz p"
      by (auto split: if_splits)
    then show ?thesis using g(1-3) by blast
  qed
qed

lemma vstep_layout:
  assumes "vstep kend (p, s) (p', s')" "layout kend p s fs"
  shows "(\<exists>fs'. layout kend p' s' fs') \<and> v_pgdir p' = v_pgdir p \<and> v_stackSz p' \<le> v_stackSz p"
  using assms(1)
proof (cases rule: vstep.cases)
  case (vs_sbrk n r)
  then have "v_pgdir p' = v_pgdir p"
    by (auto simp: growproc_p3_def Let_def bindE_def split: if_splits sum.splits prod.splits)
  then show ?thesis using growproc_total [OF assms(2) vs_sbrk(2-4)] vs_sbrk(1) by fastforce
next
  case (vs_fault um cr2)
  then have "v_pgdir p' = v_pgdir p"
    by (auto simp: pgflt_def Let_def bindE_def split: if_splits sum.splits prod.splits)
  then show ?thesis using fault_layout [OF assms(2) vs_fault] by fastforce
qed

lemma vsteps_layout:
  assumes "(vstep kend)\<^sup>*\<^sup>* (p, s) (p', s')" "layout kend p s fs"
  shows "(\<exists>fs'. layout kend p' s' fs') \<and> v_pgdir p' = v_pgdir p \<and> v_stackSz p' \<le> v_stackSz p"
  using assms(1)
proof (induction rule: rtranclp_induct2)
  case refl
  then show ?case using assms(2) by auto
next
  case (step p1 s1 p2 s2)
  then show ?case using vstep_layout by fastforce
qed

end
