(* ===== verification/VmArgs.thy ===== *)
theory VmArgs
  imports VmProc
begin

text \<open>
  The properties of a process in its layout: what \<open>sbrk\<close> and page faults keep, and what the checks
  of system call arguments let through. \<open>vm0\<close> is a small address space for the witnesses.
\<close>

section \<open>A small address space\<close>

text \<open>One page at 0x1000, one stack page below \<open>USERTOP\<close>, a page directory, one table, three free pages.\<close>

definition vm0 :: vm where
  "vm0 = \<lparr>km = \<lparr>freelist = 0x204000, run_next = (\<lambda>_. 0)(0x204000 := 0x205000, 0x205000 := 0x206000)\<rparr>,
     words = (\<lambda>_. 0)(0x200000 := 0x201007, 0x201004 := 0x202007, 0x20127C := 0x203007),
     pbytes = (\<lambda>_. 1)\<rparr>"

definition vp0 :: vproc where
  "vp0 = \<lparr>v_pid = 3, v_pgdir = 0x200000, v_sz = 0x1800, v_stackSz = 0x9F000, v_esp = 0x9FF00\<rparr>"

definition free0 :: "addr list" where "free0 = [0x204000, 0x205000, 0x206000]"

lemma vm0_table: "i < 1024 \<Longrightarrow> table vm0 0x200000 i = (if i = 0 then Some 0x201000 else None)"
  by (auto simp: table_def vm0_def present_odd PTE_ADDR_def)

lemma vm0_own: "own vm0 0x200000 = {0x200000, 0x201000}"
  by (auto simp: own_def vm0_table split: if_splits intro: exI [of _ 0])

lemma vm0_pte:
  assumes "va < USERTOP"
  shows "pte_of vm0 0x200000 va = (if va div 4096 = 1 then 0x202007 else if va div 4096 = 0x9F then 0x203007 else 0)"
proof -
  have "va div 4096 < 0xA0" using assms by (simp add: USERTOP_def div_less_iff_less_mult)
  then have "PTX va = va div 4096" "va div 4096 < 0xA0" by (simp_all add: PTX_def)
  then show ?thesis
    using user_PDX [OF assms] by (auto simp: pte_of_table vm0_table) (auto simp: vm0_def)
qed

lemma vm0_present: "va < USERTOP \<Longrightarrow> present (pte_of vm0 0x200000 va) \<longleftrightarrow> user_va 0x1800 0x9F000 va"
  unfolding vm0_pte by (auto simp: present_odd user_va_def PGROUNDDOWN_def PGSIZE_def USERTOP_def)

lemma vm0_ok: "us_ok 0x10A000 vm0 0x200000 free0"
proof -
  have "kmem_inv 0x10A000 (km vm0) free0"
    by (simp add: kmem_inv_def vm0_def free0_def page_ok_def PGSIZE_def PHYSTOP_def)
  then have "pd_ok 0x10A000 vm0 0x200000 free0"
    by (auto simp: pd_ok_def vm0_own vm0_table page_ok_def PGSIZE_def PHYSTOP_def free0_def split: if_splits)
  moreover have "frames vm0 0x200000 \<subseteq> {0x202000, 0x203000}"
    by (auto simp: frames_def vm0_pte PTE_ADDR_def split: if_splits)
  moreover have "table vm0 0x200000 0 \<noteq> None" by (simp add: vm0_table)
  ultimately show ?thesis
    unfolding us_ok_def vm0_own by (auto simp: page_ok_def PGSIZE_def PHYSTOP_def free0_def vm0_pte PTE_ADDR_def split: if_splits)
qed

lemma vm0_layout: "layout 0x10A000 vp0 vm0 free0"
  using vm0_ok vm0_present by (simp add: layout_def vp0_def PGSIZE_def USERTOP_def)

section \<open>Growing\<close>



lemma PGROUNDUP_0 [simp]: "PGROUNDUP 0 = 0"
  by (simp add: PGROUNDUP_def PGSIZE_def)

lemma kload_absent: "\<not> present (pte_of s (v_pgdir p) va) \<Longrightarrow> kload p va s = Inl (Panic ''trap'')"
  by (simp add: kload_def present_def Let_def)

lemma kload_present: "present (pte_of s (v_pgdir p) va) \<Longrightarrow> kload p va s = Inr (ubyte s (v_pgdir p) va)"
  by (simp add: kload_def present_def Let_def ubyte_def PGSIZE_def)

text \<open>\<open>sbrk\<close> down to size 0. The heap is freed page by page, but the 0 that \<open>deallocuvm\<close> returns
  is taken for its failure: the call gives -1 and the size is not changed. A later system call whose
  argument lies in the old heap passes the check of \<open>fetchint\<close> and the kernel panics on the load.\<close>

lemma sbrk_to_zero:
  assumes l: "layout kend p s fs" and sz: "PGSIZE + 4 \<le> v_sz p"
  shows "\<exists>s'. growproc_p3 kend (- int (v_sz p)) p s = Inr (- 1, p, s') \<and>
    (\<forall>va < PGROUNDUP (v_sz p). \<not> present (pte_of s' (v_pgdir p) va)) \<and>
    fetchint p PGSIZE s' = Inl (Panic ''trap'')"
proof -
  have us: "us_ok kend s (v_pgdir p) fs" and top: "v_sz p \<le> USERTOP" using l by (auto simp: layout_def)
  obtain s' where d: "dealloc_loop kend (v_pgdir p) 0 (v_sz p) s = Inr s'"
    "\<forall>va < USERTOP. if in_range 0 (v_sz p) va then \<not> present (pte_of s' (v_pgdir p) va) else same_at s s' (v_pgdir p) va"
    using dealloc_loop_spec [OF us _ top, of 0] by auto
  have "PGROUNDUP (v_sz p) \<le> USERTOP" using layout_room(1) [OF l] l by (simp add: layout_def)
  then have n: "\<forall>va < PGROUNDUP (v_sz p). \<not> present (pte_of s' (v_pgdir p) va)"
    using d(2) by (auto simp: in_range_iff)
  have "growproc_p3 kend (- int (v_sz p)) p s = Inr (- 1, p, s')"
    using sz d(1) by (simp add: growproc_p3_def Let_def deallocuvm_def u32_def PGSIZE_def)
  moreover have "\<not> present (pte_of s' (v_pgdir p) PGSIZE)" using n sz PGROUNDUP_ge [of "v_sz p"] by auto
  then have "fetchint p PGSIZE s' = Inl (Panic ''trap'')"
    using sz by (simp add: fetchint_def kload_int_def kload_absent add32_def PGSIZE_def)
  ultimately show ?thesis using n by blast
qed

lemma sbrk_to_zero_example:
  "\<exists>s'. growproc_p3 0x10A000 (- 0x1800) vp0 vm0 = Inr (- 1, vp0, s') \<and> fetchint vp0 PGSIZE s' = Inl (Panic ''trap'')"
  using sbrk_to_zero [OF vm0_layout] by (auto simp: vp0_def PGSIZE_def)

section \<open>System call arguments\<close>

definition int_ok :: "vproc \<Rightarrow> nat \<Rightarrow> bool" where
  "int_ok p a \<longleftrightarrow> PGSIZE \<le> a \<and> (a + 4 \<le> v_sz p \<or> v_stackSz p \<le> a \<and> a + 4 < USERTOP)"

lemma layout_present:
  assumes "layout kend p s fs" "PGSIZE \<le> va" "va < v_sz p \<or> v_stackSz p \<le> va \<and> va < USERTOP"
  shows "present (pte_of s (v_pgdir p) va)"
proof -
  have "va < USERTOP" "user_va (v_sz p) (v_stackSz p) va"
    using assms PGROUNDUP_ge [of "v_sz p"] by (auto simp: layout_def user_va_iff)
  then show ?thesis using assms(1) by (simp add: layout_def)
qed

lemma kload_int_ok:
  assumes l: "layout kend p s fs" and a: "int_ok p a"
  shows "kload_int p a s = Inr (unat (ubyte s (v_pgdir p) a) + 2 ^ 8 * unat (ubyte s (v_pgdir p) (a + 1)) +
    2 ^ 16 * unat (ubyte s (v_pgdir p) (a + 2)) + 2 ^ 24 * unat (ubyte s (v_pgdir p) (a + 3)))"
proof -
  have "a + 4 < 2 ^ 32" using a layout_room(3) [OF l] by (auto simp: int_ok_def USERTOP_def)
  then have add: "add32 a (Suc 0) = a + 1" "add32 a 2 = a + 2" "add32 a 3 = a + 3" by (simp_all add: add32_def)
  have "present (pte_of s (v_pgdir p) (a + k))" if "k < 4" for k
    by (rule layout_present [OF l]) (use a that in \<open>auto simp: int_ok_def\<close>)
  from this [of 0] this [of 1] this [of 2] this [of 3] show ?thesis
    by (simp add: kload_int_def kload_present add)
qed

lemma fetchint_eq:
  assumes l: "layout kend p s fs" and pid: "v_pid p \<noteq> 1" and a: "a < 2 ^ 32"
  shows "fetchint p a s = (if int_ok p a then bindE (kload_int p a s) (\<lambda>v. Inr (Some v)) else Inr None)"
proof -
  have "v_sz p \<le> v_stackSz p" "v_stackSz p \<le> USERTOP" using l by (auto simp: layout_def)
  then show ?thesis
    using pid a layout_room(3) [OF l]
    by (auto simp: fetchint_def int_ok_def add32_def mod_if USERTOP_def PGSIZE_def)
qed





lemma str_scan_run:
  assumes "a \<le> b" "b \<le> USERTOP" "\<forall>va. a \<le> va \<and> va < b \<longrightarrow> present (pte_of s (v_pgdir p) va) \<and> ubyte s (v_pgdir p) va \<noteq> 0"
  shows "str_scan p st a s = str_scan p st b s"
  using assms
proof (induction "b - a" arbitrary: a)
  case (Suc n)
  then have "a < b" by simp
  then have "str_scan p st a s = str_scan p st (a + 1) s"
    using Suc.prems by (subst str_scan.simps) (simp add: kload_present)
  then show ?case using Suc \<open>a < b\<close> by simp
qed simp

text \<open>\<open>fetchstr\<close> looks for the end of a string up to \<open>USERTOP\<close>, not up to the end of the segment.
  A string on the heap with no 0 byte up to the end of the last heap page makes the scan run into the
  unmapped page above, and the kernel panics on a user's argument.\<close>

lemma fetchstr_panics:
  assumes l: "layout kend p s fs" and a: "PGSIZE \<le> a" "a < v_sz p"
    and nz: "\<forall>va. a \<le> va \<and> va < PGROUNDUP (v_sz p) \<longrightarrow> ubyte s (v_pgdir p) va \<noteq> 0"
  shows "fetchstr p a s = Inl (Panic ''trap'')"
proof -
  let ?b = "PGROUNDUP (v_sz p)"
  note r = layout_room(1,2) [OF l]
  have top: "v_stackSz p \<le> USERTOP" and pr: "\<forall>va < USERTOP. present (pte_of s (v_pgdir p) va) \<longleftrightarrow> user_va (v_sz p) (v_stackSz p) va"
    using l by (auto simp: layout_def)
  have "0 < PGSIZE" by (simp add: PGSIZE_def)
  then have b: "a \<le> ?b" "?b < v_stackSz p" "?b < USERTOP" using a PGROUNDUP_ge [of "v_sz p"] r top by linarith+
  have "\<forall>va. a \<le> va \<and> va < ?b \<longrightarrow> present (pte_of s (v_pgdir p) va)" using pr a b by (auto simp: user_va_iff)
  then have "str_scan p a a s = str_scan p a ?b s" using str_scan_run [of a ?b] b nz by auto
  also have "\<dots> = Inl (Panic ''trap'')"
  proof -
    have "\<not> present (pte_of s (v_pgdir p) ?b)" using pr b by (auto simp: user_va_iff)
    then show ?thesis using b by (subst str_scan.simps) (simp add: kload_absent)
  qed
  finally show ?thesis using a by (simp add: fetchstr_def)
qed

lemma fetchstr_panics_example:
  "fetchstr vp0 0x1100 vm0 = Inl (Panic ''trap'')"
  by (rule fetchstr_panics [OF vm0_layout]) (simp_all add: vp0_def PGSIZE_def ubyte_def vm0_def)

theorem allocuvm_grows_witness:
  "\<exists>r s' fs'. allocuvm 0x10A000 0x200000 0x1800 0x4000 vm0 = Inr (r, s') \<and> us_ok 0x10A000 s' 0x200000 fs'"
  using allocuvm_grows [OF vm0_ok, of "0x1800" "0x4000"] vm0_present
  by (force simp: USERTOP_def in_range_iff user_va_iff PGROUNDUP_def PGSIZE_def)

theorem copyuvm_copies_witness:
  "\<exists>d s' fs'. copyuvm 0x10A000 0x108000 0x200000 0x1800 0x9F000 vm0 = Inr (d, s') \<and> us_ok 0x10A000 s' 0x200000 fs'"
  using copyuvm_copies [OF vm0_ok, of "0x108000" "0x1800" "0x9F000"] vm0_present
  by (auto simp: USERTOP_def data_ok_def PHYSTOP_def)

end
