(* ===== verification/Ide.thy ===== *)
theory Ide
  imports Prelude "HOL-Library.Word"
begin

unbundle bit_operations_syntax

text \<open>
  The disk driver, kernel/ide.c, and the buffers of buf.h. Buffers are named by their address, 0 is
  the null pointer; the flag word is three booleans. The queue of requests is linked through
  \<open>qnext\<close>. The controller is the documented ATA interface: the ports hold the request, and a request
  takes effect by the time the interrupt arrives. \<open>iderw\<close> is split at its sleep.
\<close>

section \<open>Buffers and the controller\<close>

type_synonym sector = "8 word list"

record buf =
  b_busy :: bool
  b_valid :: bool
  b_dirty :: bool
  b_dev :: nat
  b_sector :: nat
  b_data :: sector

record ports =
  p1f3 :: "8 word"
  p1f4 :: "8 word"
  p1f5 :: "8 word"
  p1f6 :: "8 word"
  p1f7 :: "8 word"
  p1f0 :: sector

record ide =
  bufs :: "addr \<Rightarrow> buf"
  idequeue :: addr
  qnext :: "addr \<Rightarrow> addr"
  havedisk1 :: bool
  port :: ports
  hdisk :: "nat \<Rightarrow> nat \<Rightarrow> sector"

definition IDE_CMD_READ :: "8 word" where "IDE_CMD_READ = 0x20"
definition IDE_CMD_WRITE :: "8 word" where "IDE_CMD_WRITE = 0x30"

definition bupd :: "addr \<Rightarrow> (buf \<Rightarrow> buf) \<Rightarrow> 'a ide_scheme \<Rightarrow> 'a ide_scheme" where
  "bupd b f s = s\<lparr>bufs := (bufs s)(b := f (bufs s b))\<rparr>"

text \<open>What the controller reads from its ports: drive, block number, and the effect of the command.\<close>

definition ata_dev :: "ports \<Rightarrow> nat" where "ata_dev p = unat (drop_bit 4 (p1f6 p) AND 1)"

definition ata_lba :: "ports \<Rightarrow> nat" where
  "ata_lba p = unat (p1f3 p) + 2 ^ 8 * unat (p1f4 p) + 2 ^ 16 * unat (p1f5 p) + 2 ^ 24 * unat (p1f6 p AND 0xF)"

definition ata_exec :: "ports \<Rightarrow> (nat \<Rightarrow> nat \<Rightarrow> sector) \<Rightarrow> nat \<Rightarrow> nat \<Rightarrow> sector" where
  "ata_exec p d = (if p1f7 p = IDE_CMD_WRITE
     then d(ata_dev p := (d (ata_dev p))(ata_lba p := p1f0 p)) else d)"

section \<open>The driver\<close>

definition idestart :: "addr \<Rightarrow> 'a ide_scheme \<Rightarrow> kerror + 'a ide_scheme" where
  "idestart b s =
     (if b = 0 then Inl (Panic ''idestart'')
      else
        let f = bufs s b;
            p = (port s)\<lparr>p1f3 := of_nat (b_sector f) AND 0xFF, p1f4 := of_nat (drop_bit 8 (b_sector f)) AND 0xFF,
              p1f5 := of_nat (drop_bit 16 (b_sector f)) AND 0xFF,
              p1f6 := 0xE0 OR push_bit 4 (of_nat (b_dev f) AND 1) OR (of_nat (drop_bit 24 (b_sector f)) AND 0xF)\<rparr>
        in Inr (s\<lparr>port := (if b_dirty f then p\<lparr>p1f7 := IDE_CMD_WRITE, p1f0 := b_data f\<rparr> else p\<lparr>p1f7 := IDE_CMD_READ\<rparr>)\<rparr>))"

text \<open>The interrupt handler, with the channel that it wakes; \<open>err\<close> is the error bit of the controller.\<close>

definition ideintr :: "bool \<Rightarrow> 'a ide_scheme \<Rightarrow> kerror + addr option \<times> 'a ide_scheme" where
  "ideintr err s =
     (let b = idequeue s in
      if b = 0 then Inr (None, s)
      else
        let s1 = s\<lparr>idequeue := qnext s b\<rparr>;
            s2 = (if \<not> b_dirty (bufs s b) \<and> \<not> err
                  then bupd b (\<lambda>f. f\<lparr>b_data := hdisk s (ata_dev (port s)) (ata_lba (port s))\<rparr>) s1 else s1);
            s3 = bupd b (\<lambda>f. f\<lparr>b_valid := True, b_dirty := False\<rparr>) s2
        in if idequeue s3 \<noteq> 0 then bindE (idestart (idequeue s3) s3) (\<lambda>s4. Inr (Some b, s4)) else Inr (Some b, s3))"

text \<open>The walk to the end of the queue in \<open>iderw\<close>.\<close>

partial_function (option) q_last :: "(addr \<Rightarrow> addr) \<Rightarrow> addr \<Rightarrow> addr option" where
  "q_last nx p = (if nx p = 0 then Some p else q_last nx (nx p))"

declare q_last.simps [code]

definition q_append :: "addr \<Rightarrow> 'a ide_scheme \<Rightarrow> 'a ide_scheme option" where
  "q_append b s =
     (let s1 = s\<lparr>qnext := (qnext s)(b := 0)\<rparr> in
      if idequeue s1 = 0 then Some (s1\<lparr>idequeue := b\<rparr>)
      else case q_last (qnext s1) (idequeue s1) of
             None \<Rightarrow> None
           | Some p \<Rightarrow> Some (s1\<lparr>qnext := (qnext s1)(p := b)\<rparr>))"

definition iderw_start :: "addr \<Rightarrow> 'a ide_scheme \<Rightarrow> (kerror + 'a ide_scheme) option" where
  "iderw_start b s =
     (if \<not> b_busy (bufs s b) then Some (Inl (Panic ''iderw: buf not busy''))
      else if b_valid (bufs s b) \<and> \<not> b_dirty (bufs s b) then Some (Inl (Panic ''iderw: nothing to do''))
      else if b_dev (bufs s b) \<noteq> 0 \<and> \<not> havedisk1 s then Some (Inl (Panic ''iderw: ide disk 1 not present''))
      else case q_append b s of
             None \<Rightarrow> None
           | Some s1 \<Rightarrow> Some (if idequeue s1 = b then idestart b s1 else Inr s1))"

definition iderw_done :: "addr \<Rightarrow> 'a ide_scheme \<Rightarrow> bool" where
  "iderw_done b s \<longleftrightarrow> b_valid (bufs s b) \<and> \<not> b_dirty (bufs s b)"

text \<open>The controller finishes the command in its ports without an error and interrupts.\<close>

definition ide_irq :: "'a ide_scheme \<Rightarrow> kerror + addr option \<times> 'a ide_scheme" where
  "ide_irq s = ideintr False (if idequeue s = 0 then s else s\<lparr>hdisk := ata_exec (port s) (hdisk s)\<rparr>)"

text \<open>A process that sleeps in \<open>iderw\<close> until its buffer is done, while interrupts come in.\<close>

partial_function (option) ide_wait :: "addr \<Rightarrow> 'a ide_scheme \<Rightarrow> (kerror + 'a ide_scheme) option" where
  "ide_wait b s =
     (if iderw_done b s then Some (Inr s)
      else case ide_irq s of
             Inl e \<Rightarrow> Some (Inl e)
           | Inr r \<Rightarrow> ide_wait b (snd r))"

declare ide_wait.simps [code]

definition iderw :: "addr \<Rightarrow> 'a ide_scheme \<Rightarrow> (kerror + 'a ide_scheme) option" where
  "iderw b s =
     (case iderw_start b s of
        None \<Rightarrow> None
      | Some (Inl e) \<Rightarrow> Some (Inl e)
      | Some (Inr s1) \<Rightarrow> ide_wait b s1)"

section \<open>Requests\<close>

text \<open>A request served at once: the specification.\<close>

definition on_disk :: "(nat \<Rightarrow> nat \<Rightarrow> sector) \<Rightarrow> buf \<Rightarrow> sector" where
  "on_disk d f = d (b_dev f mod 2) (b_sector f mod 2 ^ 28)"

definition serve :: "addr \<Rightarrow> 'a ide_scheme \<Rightarrow> 'a ide_scheme" where
  "serve b s =
     (let f = bufs s b in
      if b_dirty f
      then s\<lparr>hdisk := (hdisk s)(b_dev f mod 2 := (hdisk s (b_dev f mod 2))(b_sector f mod 2 ^ 28 := b_data f)),
             bufs := (bufs s)(b := f\<lparr>b_valid := True, b_dirty := False\<rparr>)\<rparr>
      else s\<lparr>bufs := (bufs s)(b := f\<lparr>b_data := on_disk (hdisk s) f, b_valid := True, b_dirty := False\<rparr>)\<rparr>)"

definition ready :: "'a ide_scheme \<Rightarrow> addr \<Rightarrow> bool" where
  "ready s b \<longleftrightarrow> b \<noteq> 0 \<and> b_busy (bufs s b) \<and> \<not> (b_valid (bufs s b) \<and> \<not> b_dirty (bufs s b)) \<and>
     (b_dev (bufs s b) \<noteq> 0 \<longrightarrow> havedisk1 s)"

definition holds_request :: "ports \<Rightarrow> buf \<Rightarrow> bool" where
  "holds_request p f \<longleftrightarrow> ata_dev p = b_dev f mod 2 \<and> ata_lba p = b_sector f mod 2 ^ 28 \<and>
     (if b_dirty f then p1f7 p = IDE_CMD_WRITE \<and> p1f0 p = b_data f else p1f7 p = IDE_CMD_READ)"

definition ide_inv :: "'a ide_scheme \<Rightarrow> addr list \<Rightarrow> bool" where
  "ide_inv s xs \<longleftrightarrow> linked (qnext s) (idequeue s) xs \<and> (\<forall>b \<in> set xs. ready s b) \<and>
     (xs \<noteq> [] \<longrightarrow> holds_request (port s) (bufs s (hd xs)))"

text \<open>The ports carry the block number: 28 bits of it.\<close>

lemma take_bit_pieces: "take_bit 28 (n :: nat) = take_bit 8 n + 2 ^ 8 * take_bit 8 (drop_bit 8 n) +
  2 ^ 16 * take_bit 8 (drop_bit 16 n) + 2 ^ 24 * take_bit 4 (drop_bit 24 n)"
proof -
  have a: "n mod 2 ^ 28 = n mod 2 ^ 8 + 2 ^ 8 * (n div 2 ^ 8 mod 2 ^ 20)"
    using mod_mult2_eq [of n "2 ^ 8" "2 ^ 20"] by simp
  have b: "n div 2 ^ 8 mod 2 ^ 20 = n div 2 ^ 8 mod 2 ^ 8 + 2 ^ 8 * (n div 2 ^ 16 mod 2 ^ 12)"
    using mod_mult2_eq [of "n div 2 ^ 8" "2 ^ 8" "2 ^ 12"] by (simp add: div_mult2_eq [symmetric])
  have c: "n div 2 ^ 16 mod 2 ^ 12 = n div 2 ^ 16 mod 2 ^ 8 + 2 ^ 8 * (n div 2 ^ 24 mod 2 ^ 4)"
    using mod_mult2_eq [of "n div 2 ^ 16" "2 ^ 8" "2 ^ 4"] by (simp add: div_mult2_eq [symmetric])
  show ?thesis using a b c by (simp add: take_bit_eq_mod drop_bit_eq_div)
qed

lemma low_masks: "0xFF = (mask 8 :: 8 word)" "0xF = (mask 4 :: 8 word)"
  by (simp_all add: mask_eq_exp_minus_1)

lemma unat_low_byte: "unat (of_nat n AND 0xFF :: 8 word) = take_bit 8 n"
  unfolding low_masks take_bit_eq_mask [symmetric] unsigned_take_bit_eq unsigned_of_nat take_bit_take_bit by simp

lemma drive_byte:
  fixes d h :: nat
  defines "w \<equiv> 0xE0 OR push_bit 4 (of_nat d AND 1) OR (of_nat h AND 0xF) :: 8 word"
  shows "unat (drop_bit 4 w AND 1) = d mod 2" "unat (w AND 0xF) = take_bit 4 h"
proof -
  have a: "(of_nat h AND 0xF :: 8 word) = take_bit 4 (of_nat h)" by (simp only: low_masks take_bit_eq_mask)
  have "(drop_bit 4 w AND 1) = (of_nat d AND 1 :: 8 word)"
    unfolding w_def a by (rule bit_word_eqI) (auto simp: bit_simps)
  then show "unat (drop_bit 4 w AND 1) = d mod 2"
    by (simp add: and_one_eq unat_mod_distrib unat_of_nat mod_mod_cancel)
  have "(w AND 0xF) = take_bit 4 w" by (simp only: low_masks take_bit_eq_mask)
  also have "\<dots> = take_bit 4 (of_nat h)"
    unfolding w_def a by (simp add: take_bit_or take_bit_push_bit)
  finally show "unat (w AND 0xF) = take_bit 4 h"
    by (simp only: unsigned_take_bit_eq unsigned_of_nat take_bit_take_bit) simp
qed

section \<open>The queue\<close>

lemma idestart_request: "b \<noteq> 0 \<Longrightarrow> \<exists>p. idestart b s = Inr (s\<lparr>port := p\<rparr>) \<and> holds_request p (bufs s b)"
proof -
  assume b: "b \<noteq> 0"
  define f where "f = bufs s b"
  define q where "q = (port s)\<lparr>p1f3 := of_nat (b_sector f) AND 0xFF, p1f4 := of_nat (drop_bit 8 (b_sector f)) AND 0xFF,
      p1f5 := of_nat (drop_bit 16 (b_sector f)) AND 0xFF,
      p1f6 := 0xE0 OR push_bit 4 (of_nat (b_dev f) AND 1) OR (of_nat (drop_bit 24 (b_sector f)) AND 0xF)\<rparr>"
  define p where "p = (if b_dirty f then q\<lparr>p1f7 := IDE_CMD_WRITE, p1f0 := b_data f\<rparr> else q\<lparr>p1f7 := IDE_CMD_READ\<rparr>)"
  have "idestart b s = Inr (s\<lparr>port := p\<rparr>)"
    using b by (simp only: idestart_def Let_def f_def [symmetric] q_def [symmetric] p_def [symmetric] if_False)
  moreover have "ata_dev q = b_dev f mod 2" unfolding ata_dev_def q_def using drive_byte(1) by simp
  moreover have "ata_lba q = take_bit 28 (b_sector f)"
    unfolding ata_lba_def q_def using drive_byte(2) take_bit_pieces [of "b_sector f"] by (simp add: unat_low_byte)
  ultimately show ?thesis
    by (auto simp: holds_request_def f_def [symmetric] p_def ata_dev_def ata_lba_def take_bit_eq_mod)
qed

lemma ata_exec_request: "holds_request p f \<Longrightarrow> ata_exec p d = (if b_dirty f
    then d(b_dev f mod 2 := (d (b_dev f mod 2))(b_sector f mod 2 ^ 28 := b_data f)) else d)"
  by (auto simp: holds_request_def ata_exec_def IDE_CMD_READ_def IDE_CMD_WRITE_def split: if_splits)

lemma serve_simps:
  "idequeue (serve b s) = idequeue s" "qnext (serve b s) = qnext s" "port (serve b s) = port s"
  "havedisk1 (serve b s) = havedisk1 s" "c \<noteq> b \<Longrightarrow> bufs (serve b s) c = bufs s c"
  "b_valid (bufs (serve b s) b)" "\<not> b_dirty (bufs (serve b s) b)" "ide.more (serve b s) = ide.more s"
  by (auto simp: serve_def Let_def)

lemma serve_cong:
  "bufs s = bufs t \<Longrightarrow> hdisk s = hdisk t \<Longrightarrow> bufs (serve b s) = bufs (serve b t) \<and> hdisk (serve b s) = hdisk (serve b t)"
  by (simp add: serve_def Let_def)

lemma fold_serve_cong:
  "bufs s = bufs t \<Longrightarrow> hdisk s = hdisk t \<Longrightarrow>
   bufs (fold serve bs s) = bufs (fold serve bs t) \<and> hdisk (fold serve bs s) = hdisk (fold serve bs t)"
  by (induction bs arbitrary: s t) (auto dest: serve_cong)

lemma q_last_linked: "linked nx p (xs @ [a]) \<Longrightarrow> q_last nx p = Some a"
proof (induction xs arbitrary: p)
  case Nil
  then show ?case by (subst q_last.simps) simp
next
  case (Cons x xs)
  then have "linked nx (nx p) (xs @ [a])" "nx p \<noteq> 0" by (cases xs; simp)+
  then show ?case using Cons.IH by (subst q_last.simps) simp
qed

lemma linked_snoc_end: "linked nx p (xs @ [a]) \<Longrightarrow> nx a = 0"
  by (induction xs arbitrary: p) auto

lemma q_append_linked:
  assumes l: "linked (qnext s) (idequeue s) xs" and b: "b \<noteq> 0" "b \<notin> set xs"
  shows "\<exists>h q. q_append b s = Some (s\<lparr>idequeue := h, qnext := q\<rparr>) \<and> linked q h (xs @ [b]) \<and>
    (xs = [] \<and> h = b \<or> xs \<noteq> [] \<and> h = idequeue s \<and> h \<noteq> b)"
proof (cases xs rule: rev_cases)
  case Nil
  then have z: "idequeue s = 0" using l by simp
  have "s\<lparr>qnext := (qnext s)(b := 0), idequeue := b\<rparr> = s\<lparr>idequeue := b, qnext := (qnext s)(b := 0)\<rparr>"
    by (rule ide.equality) simp_all
  then have "q_append b s = Some (s\<lparr>idequeue := b, qnext := (qnext s)(b := 0)\<rparr>)" using z by (simp add: q_append_def Let_def)
  moreover have "linked ((qnext s)(b := 0)) b (xs @ [b])" using Nil b by simp
  ultimately show ?thesis using Nil by blast
next
  case (snoc ys a)
  let ?q = "(qnext s)(b := 0)"
  have h: "idequeue s \<noteq> 0" "idequeue s \<in> set xs" using l snoc by (cases ys; auto)+
  have "linked ?q (idequeue s) (ys @ [a])" using l b snoc by (simp add: linked_frame)
  then have "q_last ?q (idequeue s) = Some a" by (rule q_last_linked)
  moreover have "s\<lparr>qnext := ?q(a := b)\<rparr> = s\<lparr>idequeue := idequeue s, qnext := ?q(a := b)\<rparr>"
    by (rule ide.equality) simp_all
  ultimately have "q_append b s = Some (s\<lparr>idequeue := idequeue s, qnext := ?q(a := b)\<rparr>)"
    using h by (simp add: q_append_def Let_def)
  moreover have "?q(a := b) = (qnext s)(b := qnext s a, a := b)"
    using linked_snoc_end [of "qnext s" "idequeue s" ys a] l snoc by simp
  then have "linked (?q(a := b)) (idequeue s) (xs @ [b])"
    using linked_insert [of "qnext s" "idequeue s" ys a "[]" b] l b snoc by simp
  ultimately show ?thesis using h b snoc by blast
qed

lemma ready_cong: "bufs s b = bufs t b \<Longrightarrow> havedisk1 s = havedisk1 t \<Longrightarrow> ready s b = ready t b"
  by (simp add: ready_def)

lemma iderw_start_spec:
  assumes inv: "ide_inv s xs" and b: "ready s b" "b \<notin> set xs"
  shows "\<exists>h q p. iderw_start b s = Some (Inr (s\<lparr>idequeue := h, qnext := q, port := p\<rparr>)) \<and>
    ide_inv (s\<lparr>idequeue := h, qnext := q, port := p\<rparr>) (xs @ [b])"
proof -
  obtain h q where q: "q_append b s = Some (s\<lparr>idequeue := h, qnext := q\<rparr>)" "linked q h (xs @ [b])"
    "xs = [] \<and> h = b \<or> xs \<noteq> [] \<and> h = idequeue s \<and> h \<noteq> b"
    using q_append_linked [of s xs b] inv b by (auto simp: ide_inv_def ready_def)
  have st: "iderw_start b s = Some (if h = b then idestart b (s\<lparr>idequeue := h, qnext := q\<rparr>) else Inr (s\<lparr>idequeue := h, qnext := q\<rparr>))"
    using b q(1) by (auto simp: iderw_start_def ready_def)
  have r: "ready (s\<lparr>idequeue := h, qnext := q, port := p\<rparr>) c" if "c \<in> set (xs @ [b])" for c p
    using inv b that by (auto simp: ide_inv_def ready_def)
  show ?thesis
    using q(3)
  proof (elim disjE conjE)
    assume x: "xs = []" "h = b"
    obtain p where p: "idestart b (s\<lparr>idequeue := h, qnext := q\<rparr>) = Inr (s\<lparr>idequeue := h, qnext := q, port := p\<rparr>)"
      "holds_request p (bufs s b)"
      using idestart_request [of b "s\<lparr>idequeue := h, qnext := q\<rparr>"] b by (auto simp: ready_def)
    then have "ide_inv (s\<lparr>idequeue := h, qnext := q, port := p\<rparr>) (xs @ [b])"
      using x q(2) r by (auto simp: ide_inv_def)
    then show ?thesis using st p(1) x by auto
  next
    assume x: "xs \<noteq> []" "h = idequeue s" "h \<noteq> b"
    have "ide_inv (s\<lparr>idequeue := h, qnext := q, port := port s\<rparr>) (xs @ [b])"
      using x q(2) r [of _ "port s"] inv by (auto simp: ide_inv_def hd_append)
    moreover have "s\<lparr>idequeue := h, qnext := q, port := port s\<rparr> = s\<lparr>idequeue := h, qnext := q\<rparr>" by simp
    moreover have "iderw_start b s = Some (Inr (s\<lparr>idequeue := h, qnext := q\<rparr>))" using st x(3) by simp
    ultimately have "iderw_start b s = Some (Inr (s\<lparr>idequeue := h, qnext := q, port := port s\<rparr>)) \<and>
      ide_inv (s\<lparr>idequeue := h, qnext := q, port := port s\<rparr>) (xs @ [b])" by simp
    then show ?thesis by blast
  qed
qed

lemma ide_irq_spec:
  assumes inv: "ide_inv s (b # xs)"
  shows "\<exists>h p. ide_irq s = Inr (Some b, (serve b s)\<lparr>idequeue := h, port := p\<rparr>) \<and>
    ide_inv ((serve b s)\<lparr>idequeue := h, port := p\<rparr>) xs"
proof -
  have l: "idequeue s = b" "b \<noteq> 0" "linked (qnext s) (qnext s b) xs" "holds_request (port s) (bufs s b)" and d: "b \<notin> set xs"
    using inv linked_distinct [of "qnext s" "idequeue s" "b # xs"] by (auto simp: ide_inv_def)
  define s1 where "s1 = (serve b s)\<lparr>idequeue := qnext s b\<rparr>"
  define s0 where "s0 = s\<lparr>hdisk := ata_exec (port s) (hdisk s)\<rparr>"
  define s2 where "s2 = bupd b (\<lambda>f. f\<lparr>b_valid := True, b_dirty := False\<rparr>)
    (if \<not> b_dirty (bufs s0 b) \<and> \<not> False
     then bupd b (\<lambda>f. f\<lparr>b_data := hdisk s0 (ata_dev (port s0)) (ata_lba (port s0))\<rparr>) (s0\<lparr>idequeue := qnext s0 b\<rparr>)
     else s0\<lparr>idequeue := qnext s0 b\<rparr>)"
  have "on_disk (hdisk s) (bufs s b) = hdisk s (ata_dev (port s)) (ata_lba (port s))"
    using l(4) by (simp add: holds_request_def on_disk_def)
  then have "s2 = s1" unfolding s2_def s1_def s0_def using ata_exec_request [OF l(4)]
    by (intro ide.equality) (simp_all add: serve_def Let_def bupd_def)
  moreover have "ide_irq s = (if idequeue s2 \<noteq> 0 then bindE (idestart (idequeue s2) s2) (\<lambda>s4. Inr (Some b, s4)) else Inr (Some b, s2))"
    using l(1,2) unfolding ide_irq_def ideintr_def s2_def s0_def by (simp only: Let_def if_False) simp
  ultimately have irq: "ide_irq s = (if idequeue s1 \<noteq> 0 then bindE (idestart (idequeue s1) s1) (\<lambda>s4. Inr (Some b, s4)) else Inr (Some b, s1))"
    by simp
  have r: "\<forall>c \<in> set xs. ready (s1\<lparr>port := p\<rparr>) c" for p
  proof
    fix c assume c: "c \<in> set xs"
    then have "c \<noteq> b" using d by blast
    then have "bufs (s1\<lparr>port := p\<rparr>) c = bufs s c" by (simp add: s1_def serve_simps)
    then show "ready (s1\<lparr>port := p\<rparr>) c" using c inv ready_cong by (fastforce simp: ide_inv_def s1_def serve_simps)
  qed
  show ?thesis
  proof (cases xs)
    case Nil
    then have "ide_irq s = Inr (Some b, (serve b s)\<lparr>idequeue := 0, port := port s\<rparr>)"
      using irq l(3) by (simp add: s1_def serve_simps)
    then show ?thesis using Nil by (force simp: ide_inv_def)
  next
    case (Cons c ys)
    then have c: "qnext s b = c" "c \<noteq> 0" using l(3) by auto
    then obtain p where p: "idestart c s1 = Inr (s1\<lparr>port := p\<rparr>)" "holds_request p (bufs s1 c)"
      using idestart_request by blast
    have "ide_irq s = Inr (Some b, s1\<lparr>port := p\<rparr>)" using irq p c by (simp add: s1_def)
    moreover have "ide_inv (s1\<lparr>port := p\<rparr>) xs"
      using l(3) r p(2) Cons by (simp add: ide_inv_def s1_def serve_simps)
    ultimately show ?thesis unfolding s1_def by (intro exI [of _ "qnext s b"] exI [of _ p]) simp
  qed
qed

lemma ide_irq_idle: "ide_inv s [] \<Longrightarrow> ide_irq s = Inr (None, s)"
  by (simp add: ide_inv_def ide_irq_def ideintr_def)

section \<open>Interrupts and sleeping processes\<close>

datatype ievent = Submit addr | Irq

fun ide_run :: "ievent list \<Rightarrow> 'a ide_scheme \<Rightarrow> (kerror + addr list \<times> 'a ide_scheme) option" where
  "ide_run [] s = Some (Inr ([], s))"
| "ide_run (Submit b # es) s =
     (case iderw_start b s of None \<Rightarrow> None | Some (Inl e) \<Rightarrow> Some (Inl e) | Some (Inr s1) \<Rightarrow> ide_run es s1)"
| "ide_run (Irq # es) s =
     (case ide_irq s of Inl e \<Rightarrow> Some (Inl e)
      | Inr (w, s1) \<Rightarrow> map_option (map_sum id (\<lambda>(ws, s2). (case w of None \<Rightarrow> ws | Some b \<Rightarrow> b # ws, s2))) (ide_run es s1))"

fun submitted :: "ievent list \<Rightarrow> addr list" where
  "submitted [] = []"
| "submitted (Submit b # es) = b # submitted es"
| "submitted (Irq # es) = submitted es"

lemma ide_run_spec:
  assumes "ide_inv s xs" "distinct (xs @ submitted es)" "\<forall>b \<in> set (submitted es). ready s b"
  shows "\<exists>ws s' ys. ide_run es s = Some (Inr (ws, s')) \<and> ide_inv s' ys \<and> xs @ submitted es = ws @ ys \<and>
    bufs s' = bufs (fold serve ws s) \<and> hdisk s' = hdisk (fold serve ws s)"
  using assms
proof (induction es arbitrary: s xs)
  case (Cons e es)
  show ?case
  proof (cases e)
    case (Submit b)
    then obtain h q p where s1: "iderw_start b s = Some (Inr (s\<lparr>idequeue := h, qnext := q, port := p\<rparr>))"
      "ide_inv (s\<lparr>idequeue := h, qnext := q, port := p\<rparr>) (xs @ [b])"
      using iderw_start_spec [OF Cons.prems(1), of b] Cons.prems by auto
    let ?s = "s\<lparr>idequeue := h, qnext := q, port := p\<rparr>"
    have r: "\<forall>c \<in> set (submitted es). ready ?s c" using Cons.prems(3) Submit by (simp add: ready_def)
    obtain ws s' ys where i: "ide_run es ?s = Some (Inr (ws, s'))" "ide_inv s' ys" "(xs @ [b]) @ submitted es = ws @ ys"
      "bufs s' = bufs (fold serve ws ?s)" "hdisk s' = hdisk (fold serve ws ?s)"
      using Cons.IH [OF s1(2) _ r] Cons.prems(2) Submit by auto
    then show ?thesis using s1(1) Submit fold_serve_cong [of ?s s ws] by auto
  next
    case Irq
    show ?thesis
    proof (cases xs)
      case Nil
      then have "ide_irq s = Inr (None, s)" using ide_irq_idle Cons.prems(1) by blast
      moreover obtain ws s' ys where "ide_run es s = Some (Inr (ws, s'))" "ide_inv s' ys" "xs @ submitted es = ws @ ys"
        "bufs s' = bufs (fold serve ws s)" "hdisk s' = hdisk (fold serve ws s)"
        using Cons.IH [OF Cons.prems(1)] Cons.prems(2,3) Irq by auto
      ultimately show ?thesis using Irq by auto
    next
      case x: (Cons b bs)
      then obtain h p where s1: "ide_irq s = Inr (Some b, (serve b s)\<lparr>idequeue := h, port := p\<rparr>)"
        "ide_inv ((serve b s)\<lparr>idequeue := h, port := p\<rparr>) bs"
        using ide_irq_spec Cons.prems(1) by blast
      let ?s = "(serve b s)\<lparr>idequeue := h, port := p\<rparr>"
      have "ready ?s c" if "c \<in> set (submitted es)" for c
      proof -
        have "c \<noteq> b" using that Cons.prems(2) Irq x by auto
        then have "ready ?s c = ready s c" by (intro ready_cong) (simp_all add: serve_simps)
        then show ?thesis using that Cons.prems(3) Irq by simp
      qed
      then obtain ws s' ys where i: "ide_run es ?s = Some (Inr (ws, s'))" "ide_inv s' ys" "bs @ submitted es = ws @ ys"
        "bufs s' = bufs (fold serve ws ?s)" "hdisk s' = hdisk (fold serve ws ?s)"
        using Cons.IH [OF s1(2)] Cons.prems(2) Irq x by auto
      then show ?thesis using s1(1) Irq x fold_serve_cong [of ?s "serve b s" ws]
        by (intro exI [of _ "b # ws"] exI [of _ s'] exI [of _ ys]) auto
    qed
  qed
qed auto

lemma ide_wait_spec:
  assumes "ide_inv s (xs @ [b])"
  shows "\<exists>h p. ide_wait b s = Some (Inr ((fold serve (xs @ [b]) s)\<lparr>idequeue := h, port := p\<rparr>)) \<and>
    ide_inv ((fold serve (xs @ [b]) s)\<lparr>idequeue := h, port := p\<rparr>) []"
  using assms
proof (induction xs arbitrary: s)
  case Nil
  then obtain h p where s1: "ide_irq s = Inr (Some b, (serve b s)\<lparr>idequeue := h, port := p\<rparr>)"
    "ide_inv ((serve b s)\<lparr>idequeue := h, port := p\<rparr>) []" using ide_irq_spec by fastforce
  have "\<not> iderw_done b s" using Nil by (simp add: ide_inv_def ready_def iderw_done_def)
  moreover have "iderw_done b ((serve b s)\<lparr>idequeue := h, port := p\<rparr>)" by (simp add: iderw_done_def serve_simps)
  ultimately have "ide_wait b s = Some (Inr ((serve b s)\<lparr>idequeue := h, port := p\<rparr>))"
    using s1(1) by (subst ide_wait.simps, simp) (subst ide_wait.simps, simp)
  then show ?case using s1(2) by auto
next
  case (Cons x xs)
  then obtain h p where s1: "ide_irq s = Inr (Some x, (serve x s)\<lparr>idequeue := h, port := p\<rparr>)"
    "ide_inv ((serve x s)\<lparr>idequeue := h, port := p\<rparr>) (xs @ [b])" using ide_irq_spec by fastforce
  let ?s = "(serve x s)\<lparr>idequeue := h, port := p\<rparr>"
  have "\<not> iderw_done b s" using Cons.prems by (simp add: ide_inv_def ready_def iderw_done_def)
  then have w: "ide_wait b s = ide_wait b ?s" using s1(1) by (subst ide_wait.simps) simp
  have f: "qnext (fold serve ys r) = qnext r \<and> havedisk1 (fold serve ys r) = havedisk1 r \<and> ide.more (fold serve ys r) = ide.more r"
    for ys and r :: "'a ide_scheme" by (induction ys arbitrary: r) (simp_all add: serve_simps)
  obtain h2 p2 where i: "ide_wait b ?s = Some (Inr ((fold serve (xs @ [b]) ?s)\<lparr>idequeue := h2, port := p2\<rparr>))"
    "ide_inv ((fold serve (xs @ [b]) ?s)\<lparr>idequeue := h2, port := p2\<rparr>) []"
    using Cons.IH [OF s1(2)] by blast
  have "(fold serve (xs @ [b]) ?s)\<lparr>idequeue := h2, port := p2\<rparr> =
      (fold serve ((x # xs) @ [b]) s)\<lparr>idequeue := h2, port := p2\<rparr>"
    using fold_serve_cong [of ?s "serve x s" "xs @ [b]"] f [of "xs @ [b]" ?s] f [of "xs @ [b]" "serve x s"]
    by (intro ide.equality) simp_all
  then show ?case using i w by (metis (no_types, lifting))
qed

lemma iderw_spec:
  assumes "ide_inv s []" "ready s b"
  shows "\<exists>h q p. iderw b s = Some (Inr ((serve b s)\<lparr>idequeue := h, qnext := q, port := p\<rparr>)) \<and>
    ide_inv ((serve b s)\<lparr>idequeue := h, qnext := q, port := p\<rparr>) []"
proof -
  obtain h q p where s1: "iderw_start b s = Some (Inr (s\<lparr>idequeue := h, qnext := q, port := p\<rparr>))"
    "ide_inv (s\<lparr>idequeue := h, qnext := q, port := p\<rparr>) [b]"
    using iderw_start_spec [OF assms] by auto
  let ?s = "s\<lparr>idequeue := h, qnext := q, port := p\<rparr>"
  obtain h2 p2 where w: "ide_wait b ?s = Some (Inr ((serve b ?s)\<lparr>idequeue := h2, port := p2\<rparr>))"
    "ide_inv ((serve b ?s)\<lparr>idequeue := h2, port := p2\<rparr>) []"
    using ide_wait_spec [of ?s "[]" b] s1(2) by auto
  have "(serve b ?s)\<lparr>idequeue := h2, port := p2\<rparr> = (serve b s)\<lparr>idequeue := h2, qnext := q, port := p2\<rparr>"
    using serve_cong [of ?s s b] by (intro ide.equality) (simp_all add: serve_simps)
  then show ?thesis using s1(1) w by (auto simp: iderw_def)
qed

text \<open>C34: Requests are served in order. From any state of the queue, whatever order processes submit
  requests and the controller interrupts, nothing panics, the requests served are the first ones of
  those waiting and submitted, and disk and buffers are as if each had been carried out alone at once,
  one after the other; the others are still in the queue.\<close>

theorem ide_serves_in_order:
  assumes "ide_inv s xs" and "distinct (xs @ submitted es)" and "\<forall>b \<in> set (submitted es). ready s b"
  shows "\<exists>ws s' ys. ide_run es s = Some (Inr (ws, s')) \<and> ide_inv s' ys \<and> xs @ submitted es = ws @ ys \<and>
    bufs s' = bufs (fold serve ws s) \<and> hdisk s' = hdisk (fold serve ws s)"
  using ide_run_spec [OF assms] .

definition ide0 :: ide where
  "ide0 = \<lparr>bufs = (\<lambda>b. \<lparr>b_busy = True, b_valid = False, b_dirty = b = 2, b_dev = 0, b_sector = 7, b_data = [of_nat b]\<rparr>),
     idequeue = 0, qnext = (\<lambda>_. 0), havedisk1 = False,
     port = \<lparr>p1f3 = 0, p1f4 = 0, p1f5 = 0, p1f6 = 0, p1f7 = 0, p1f0 = []\<rparr>, hdisk = (\<lambda>_ _. [0])\<rparr>"

theorem ide_serves_in_order_witness:
  "\<exists>ws s' ys. ide_run [Submit 1, Submit 2, Irq, Submit 3, Irq, Irq] ide0 = Some (Inr (ws, s')) \<and> ide_inv s' ys \<and>
     [1, 2, 3] = ws @ ys"
proof -
  have "ide_inv ide0 []" by (simp add: ide_inv_def ide0_def)
  then show ?thesis using ide_serves_in_order [of ide0 "[]" "[Submit 1, Submit 2, Irq, Submit 3, Irq, Irq]"]
    by (auto simp: ready_def ide0_def)
qed

end
