(* ===== verification/Bio.thy ===== *)
theory Bio
  imports Ide
begin

text \<open>
  The buffer cache, kernel/bio.c, over the disk driver. Buffers have the addresses 1 to \<open>NBUF\<close>, the
  list head is \<open>HEADB\<close>; \<open>bnext\<close> and \<open>bprev\<close> are the pointers of the ring from the most to the least
  recently used buffer. A process that finds its block locked sleeps, which ends \<open>bget\<close> with \<open>BSleep\<close>.
\<close>

section \<open>The cache\<close>

definition NBUF :: nat where "NBUF = 10"
definition HEADB :: addr where "HEADB = NBUF + 1"
definition NODEV :: nat where "NODEV = 2 ^ 32 - 1"

record bcache = ide +
  bnext :: "addr \<Rightarrow> addr"
  bprev :: "addr \<Rightarrow> addr"

text \<open>\<open>b->next = head.next; b->prev = &head; ... head.next->prev = b; head.next = b\<close>.\<close>

definition push_front :: "addr \<Rightarrow> bcache \<Rightarrow> bcache" where
  "push_front b s =
     (let s1 = s\<lparr>bnext := (bnext s)(b := bnext s HEADB)\<rparr>;
          s2 = s1\<lparr>bprev := (bprev s1)(b := HEADB)\<rparr>;
          s3 = s2\<lparr>bprev := (bprev s2)(bnext s2 HEADB := b)\<rparr>
      in s3\<lparr>bnext := (bnext s3)(HEADB := b)\<rparr>)"

definition binit :: "bcache \<Rightarrow> bcache" where
  "binit s =
     (let s1 = s\<lparr>bprev := (bprev s)(HEADB := HEADB), bnext := (bnext s)(HEADB := HEADB)\<rparr>
      in fold (\<lambda>b s. bupd b (\<lambda>f. f\<lparr>b_dev := NODEV\<rparr>) (push_front b s)) [1..<NBUF + 1] s1)"

partial_function (option) find_cached :: "bcache \<Rightarrow> nat \<Rightarrow> nat \<Rightarrow> addr \<Rightarrow> addr option option" where
  "find_cached s dev sec b =
     (if b = HEADB then Some None
      else if b_dev (bufs s b) = dev \<and> b_sector (bufs s b) = sec then Some (Some b)
      else find_cached s dev sec (bnext s b))"

partial_function (option) find_free :: "bcache \<Rightarrow> addr \<Rightarrow> addr option option" where
  "find_free s b =
     (if b = HEADB then Some None
      else if \<not> b_busy (bufs s b) then Some (Some b)
      else find_free s (bprev s b))"

declare find_cached.simps [code] find_free.simps [code]

datatype bget_res = BGot addr | BSleep addr

definition bget :: "nat \<Rightarrow> nat \<Rightarrow> bcache \<Rightarrow> (kerror + bget_res \<times> bcache) option" where
  "bget dev sec s =
     (case find_cached s dev sec (bnext s HEADB) of
        None \<Rightarrow> None
      | Some (Some b) \<Rightarrow>
          if \<not> b_busy (bufs s b) then Some (Inr (BGot b, bupd b (\<lambda>f. f\<lparr>b_busy := True\<rparr>) s))
          else Some (Inr (BSleep b, s))
      | Some None \<Rightarrow>
          (case find_free s (bprev s HEADB) of
             None \<Rightarrow> None
           | Some (Some b) \<Rightarrow>
               Some (Inr (BGot b, bupd b (\<lambda>f. f\<lparr>b_dev := dev, b_sector := sec, b_busy := True, b_valid := False, b_dirty := False\<rparr>) s))
           | Some None \<Rightarrow> Some (Inl (Panic ''bget: no buffers''))))"

definition bread_buf :: "nat \<Rightarrow> nat \<Rightarrow> bcache \<Rightarrow> (kerror + bget_res \<times> bcache) option" where
  "bread_buf dev sec s =
     (case bget dev sec s of
        Some (Inr (BGot b, s1)) \<Rightarrow>
          if b_valid (bufs s1 b) then Some (Inr (BGot b, s1))
          else map_option (map_sum id (\<lambda>s2. (BGot b, s2))) (iderw b s1)
      | r \<Rightarrow> r)"

definition set_dirty :: "addr \<Rightarrow> bcache \<Rightarrow> bcache" where
  "set_dirty b s = bupd b (\<lambda>f. f\<lparr>b_dirty := True\<rparr>) s"

definition bwrite_buf :: "addr \<Rightarrow> bcache \<Rightarrow> (kerror + bcache) option" where
  "bwrite_buf b s =
     (if \<not> b_busy (bufs s b) then Some (Inl (Panic ''bwrite'')) else iderw b (set_dirty b s))"

definition brelse :: "addr \<Rightarrow> bcache \<Rightarrow> kerror + bcache" where
  "brelse b s =
     (if \<not> b_busy (bufs s b) then Inl (Panic ''brelse'')
      else
        let s1 = s\<lparr>bprev := (bprev s)(bnext s b := bprev s b)\<rparr>;
            s2 = s1\<lparr>bnext := (bnext s1)(bprev s1 b := bnext s1 b)\<rparr>
        in Inr (bupd b (\<lambda>f. f\<lparr>b_busy := False\<rparr>) (push_front b s2)))"

section \<open>Doubly linked rings\<close>

primrec chain :: "(addr \<Rightarrow> addr) \<Rightarrow> (addr \<Rightarrow> addr) \<Rightarrow> addr \<Rightarrow> addr list \<Rightarrow> addr \<Rightarrow> bool" where
  "chain nx pv a [] z \<longleftrightarrow> nx a = z \<and> pv z = a"
| "chain nx pv a (x # xs) z \<longleftrightarrow> nx a = x \<and> pv x = a \<and> chain nx pv x xs z"

lemma chain_append: "chain nx pv a (xs @ y # ys) z \<longleftrightarrow> chain nx pv a xs y \<and> chain nx pv y ys z"
  by (induction xs arbitrary: a) auto

lemma chain_next: "chain nx pv a xs z \<Longrightarrow> c \<notin> set (a # xs) \<Longrightarrow> chain (nx(c := v)) pv a xs z"
  by (induction xs arbitrary: a) auto

lemma chain_prev: "chain nx pv a xs z \<Longrightarrow> c \<notin> set (xs @ [z]) \<Longrightarrow> chain nx (pv(c := v)) a xs z"
  by (induction xs arbitrary: a) auto

lemma chain_ends: "chain nx pv a xs z \<Longrightarrow> nx a = hd (xs @ [z]) \<and> pv z = last (a # xs)"
  by (induction xs arbitrary: a) auto

lemma chain_unlink:
  assumes "chain nx pv a (as @ x # bs) z" "distinct (as @ x # bs)" "a \<notin> set (as @ x # bs)" "z \<notin> set (as @ x # bs)"
  shows "chain (nx(pv x := nx x)) (pv(nx x := pv x)) a (as @ bs) z"
  using assms
proof (induction "as" arbitrary: a)
  case Nil
  then have h: "nx a = x" "pv x = a" "chain nx pv x bs z" by simp_all
  show ?case
  proof (cases bs)
    case (Cons y ys)
    then have "chain nx pv y ys z" "nx x = y" using h by simp_all
    then have "chain (nx(a := y)) (pv(y := a)) y ys z"
      using Nil.prems Cons by (intro chain_next chain_prev) auto
    then have "chain (nx(a := y)) (pv(y := a)) a (y # ys) z" by simp
    then show ?thesis by (simp only: append_Nil h(2) \<open>nx x = y\<close> Cons)
  qed (use h in simp)
next
  case (Cons w ws)
  have c: "chain nx pv w ws x" "chain nx pv x bs z" using Cons.prems(1) by (simp_all add: chain_append)
  then have e: "nx x = hd (bs @ [z])" "pv x = last (w # ws)" using chain_ends by blast+
  have "nx x \<in> set (bs @ [z])" unfolding e by (cases bs) auto
  moreover have "pv x \<in> set (w # ws)" unfolding e by (rule last_in_set) simp
  ultimately have "nx x \<noteq> w" "pv x \<noteq> a" using Cons.prems by auto
  then show ?case using Cons.IH [of w] Cons.prems by auto
qed

lemma chain_push:
  assumes "chain nx pv a xs z" "distinct xs" "a \<notin> set xs" "z \<notin> set xs" "x \<notin> set xs" "x \<noteq> a" "x \<noteq> z"
  shows "chain (nx(x := nx a, a := x)) (pv(x := a, nx a := x)) a (x # xs) z"
proof (cases xs)
  case (Cons y ys)
  then have "chain nx pv y ys z" "nx a = y" using assms(1) by simp_all
  then have "chain (nx(x := y, a := x)) (pv(x := a, y := x)) y ys z"
    using assms Cons by (intro chain_next chain_prev) auto
  then show ?thesis using assms Cons \<open>nx a = y\<close> by simp
qed (use assms in simp)

lemma chain_rev: "chain nx pv a xs z \<Longrightarrow> chain pv nx z (rev xs) a"
  by (induction xs arbitrary: a) (auto simp: chain_append)

section \<open>The ring of buffers\<close>

definition ring :: "bcache \<Rightarrow> addr list \<Rightarrow> bool" where
  "ring s L \<longleftrightarrow> chain (bnext s) (bprev s) HEADB L HEADB \<and> distinct (HEADB # L)"

lemma ring_cong: "bnext s = bnext t \<Longrightarrow> bprev s = bprev t \<Longrightarrow> ring s L \<longleftrightarrow> ring t L"
  by (simp add: ring_def)

lemma bupd_links [simp]:
  "bnext (bupd b f s) = bnext s" "bprev (bupd b f s) = bprev s" "qnext (bupd b f s) = qnext s"
  "idequeue (bupd b f s) = idequeue s" "hdisk (bupd b f s) = hdisk s" "havedisk1 (bupd b f s) = havedisk1 s"
  "port (bupd b f s) = port s" "bufs (bupd b f s) = (bufs s)(b := f (bufs s b))"
  by (simp_all add: bupd_def)

lemma push_front_ring: "ring s L \<Longrightarrow> b \<notin> set (HEADB # L) \<Longrightarrow> ring (push_front b s) (b # L)"
proof -
  assume "ring s L" "b \<notin> set (HEADB # L)"
  then have "chain ((bnext s)(b := bnext s HEADB, HEADB := b)) ((bprev s)(b := HEADB, bnext s HEADB := b)) HEADB (b # L) HEADB"
    by (intro chain_push) (auto simp: ring_def)
  moreover have "b \<noteq> HEADB" using \<open>b \<notin> set (HEADB # L)\<close> by simp
  ultimately show ?thesis using \<open>ring s L\<close> \<open>b \<notin> set (HEADB # L)\<close> by (auto simp: ring_def push_front_def Let_def)
qed

lemma push_front_rest [simp]:
  "bufs (push_front b s) = bufs s" "qnext (push_front b s) = qnext s" "idequeue (push_front b s) = idequeue s"
  "hdisk (push_front b s) = hdisk s" "havedisk1 (push_front b s) = havedisk1 s" "port (push_front b s) = port s"
  by (simp_all add: push_front_def Let_def)

lemma find_cached_chain:
  assumes "chain (bnext s) pv a xs HEADB" "HEADB \<notin> set xs"
  shows "find_cached s dev sec (bnext s a) = Some (find (\<lambda>b. b_dev (bufs s b) = dev \<and> b_sector (bufs s b) = sec) xs)"
  using assms
proof (induction xs arbitrary: a)
  case Nil
  then show ?case by (subst find_cached.simps) simp
next
  case (Cons x xs)
  then have "find_cached s dev sec (bnext s x) = Some (find (\<lambda>b. b_dev (bufs s b) = dev \<and> b_sector (bufs s b) = sec) xs)" by simp
  then show ?case using Cons.prems by (subst find_cached.simps) auto
qed

lemma find_free_chain:
  assumes "chain (bprev s) nx a xs HEADB" "HEADB \<notin> set xs"
  shows "find_free s (bprev s a) = Some (find (\<lambda>b. \<not> b_busy (bufs s b)) xs)"
  using assms
proof (induction xs arbitrary: a)
  case Nil
  then show ?case by (subst find_free.simps) simp
next
  case (Cons x xs)
  then have "find_free s (bprev s x) = Some (find (\<lambda>b. \<not> b_busy (bufs s b)) xs)" by simp
  then show ?case using Cons.prems by (subst find_free.simps) auto
qed

lemma bget_eq:
  assumes "ring s L"
  shows "bget dev sec s = Some (case find (\<lambda>b. b_dev (bufs s b) = dev \<and> b_sector (bufs s b) = sec) L of
      Some b \<Rightarrow> if b_busy (bufs s b) then Inr (BSleep b, s) else Inr (BGot b, bupd b (\<lambda>f. f\<lparr>b_busy := True\<rparr>) s)
    | None \<Rightarrow> (case find (\<lambda>b. \<not> b_busy (bufs s b)) (rev L) of
        Some b \<Rightarrow> Inr (BGot b, bupd b (\<lambda>f. f\<lparr>b_dev := dev, b_sector := sec, b_busy := True, b_valid := False, b_dirty := False\<rparr>) s)
      | None \<Rightarrow> Inl (Panic ''bget: no buffers'')))"
proof -
  have c: "chain (bnext s) (bprev s) HEADB L HEADB" "HEADB \<notin> set L" using assms by (simp_all add: ring_def)
  show ?thesis
    using find_cached_chain [OF c] find_free_chain [OF chain_rev [OF c(1)]] c(2)
    by (auto simp: bget_def split: option.split)
qed

lemma brelse_eq:
  assumes "ring s L" "b \<in> set L" "b_busy (bufs s b)"
  shows "\<exists>s'. brelse b s = Inr s' \<and> ring s' (b # remove1 b L) \<and> bufs s' = (bufs s)(b := (bufs s b)\<lparr>b_busy := False\<rparr>) \<and>
    hdisk s' = hdisk s \<and> qnext s' = qnext s \<and> idequeue s' = idequeue s \<and> port s' = port s \<and> havedisk1 s' = havedisk1 s"
proof -
  obtain as bs where L: "L = as @ b # bs" "b \<notin> set as" using split_list_first [OF assms(2)] by blast
  define s2 where "s2 = s\<lparr>bprev := (bprev s)(bnext s b := bprev s b), bnext := (bnext s)(bprev s b := bnext s b)\<rparr>"
  have d: "distinct (HEADB # as @ b # bs)" and c: "chain (bnext s) (bprev s) HEADB (as @ b # bs) HEADB"
    using assms(1) L by (simp_all add: ring_def)
  have "chain (bnext s2) (bprev s2) HEADB (as @ bs) HEADB"
    unfolding s2_def using chain_unlink [OF c] d by auto
  then have "ring s2 (as @ bs)" using d by (auto simp: ring_def)
  then have "ring (push_front b s2) (b # as @ bs)" using d by (intro push_front_ring) auto
  moreover have "bnext s b \<noteq> b"
  proof -
    have "bnext s b = hd (bs @ [HEADB])" using c chain_ends by (simp add: chain_append) blast
    then show ?thesis using d by (cases bs) auto
  qed
  then have "brelse b s = Inr (bupd b (\<lambda>f. f\<lparr>b_busy := False\<rparr>) (push_front b s2))"
    using assms(3) by (simp add: brelse_def Let_def s2_def)
  moreover have "remove1 b L = as @ bs" using L by (simp add: remove1_append)
  ultimately show ?thesis by (intro exI [of _ "bupd b (\<lambda>f. f\<lparr>b_busy := False\<rparr>) (push_front b s2)"])
      (auto simp: ring_def s2_def)
qed

end
