(* ===== verification/BioSpec.thy ===== *)
theory BioSpec
  imports Bio
begin

text \<open>
  What the buffer cache promises: the invariant of the cache under any interleaving of processes and
  disk interrupts, and that a process that uses it sees a plain array of blocks.
\<close>

section \<open>The invariant\<close>

definition key_ok :: "bcache \<Rightarrow> nat \<Rightarrow> nat \<Rightarrow> bool" where
  "key_ok s dev sec \<longleftrightarrow> dev \<le> 1 \<and> (dev \<noteq> 0 \<longrightarrow> havedisk1 s) \<and> sec < 2 ^ 28"

definition buf_key :: "bcache \<Rightarrow> addr \<Rightarrow> nat \<times> nat" where
  "buf_key s b = (b_dev (bufs s b), b_sector (bufs s b))"

definition clean :: "bcache \<Rightarrow> addr \<Rightarrow> bool" where
  "clean s b \<longleftrightarrow> b_valid (bufs s b) \<and> \<not> b_dirty (bufs s b)"

text \<open>Buffers: unused or with a proper key, no key twice, dirty only while queued, clean as on disk.\<close>

definition bc_data :: "bcache \<Rightarrow> addr list \<Rightarrow> addr list \<Rightarrow> bool" where
  "bc_data s q L \<longleftrightarrow>
     (\<forall>b \<in> set L. b_dev (bufs s b) = NODEV \<and> \<not> b_busy (bufs s b) \<and> \<not> b_valid (bufs s b) \<and> \<not> b_dirty (bufs s b) \<or>
        key_ok s (b_dev (bufs s b)) (b_sector (bufs s b))) \<and>
     (\<forall>b \<in> set L. \<forall>c \<in> set L. b_dev (bufs s b) \<noteq> NODEV \<longrightarrow> buf_key s b = buf_key s c \<longrightarrow> b = c) \<and>
     (\<forall>b \<in> set L. b_dirty (bufs s b) \<longrightarrow> b \<in> set q) \<and>
     (\<forall>b \<in> set L. clean s b \<longrightarrow> b_data (bufs s b) = hdisk s (b_dev (bufs s b)) (b_sector (bufs s b)))"

definition bc_inv :: "bcache \<Rightarrow> addr list \<Rightarrow> addr list \<Rightarrow> bool" where
  "bc_inv s q L \<longleftrightarrow> ring s L \<and> set L = {1..NBUF} \<and> ide_inv s q \<and> set q \<subseteq> set L \<and> bc_data s q L"

lemma bc_data_cong:
  "bufs s = bufs t \<Longrightarrow> hdisk s = hdisk t \<Longrightarrow> havedisk1 s = havedisk1 t \<Longrightarrow> set L = set L' \<Longrightarrow> bc_data s q L \<longleftrightarrow> bc_data t q L'"
  by (simp add: bc_data_def key_ok_def buf_key_def clean_def)

lemma bc_data_mono: "bc_data s q L \<Longrightarrow> set q \<subseteq> set q' \<Longrightarrow> bc_data s q' L"
  unfolding bc_data_def by blast

lemma key_ok_mod: "key_ok s dev sec \<Longrightarrow> dev mod 2 = dev \<and> sec mod 2 ^ 28 = sec \<and> dev \<noteq> NODEV"
  by (auto simp: key_ok_def NODEV_def)

lemma bc_data_keys:
  "bc_data s q L \<Longrightarrow> b \<in> set L \<Longrightarrow> b_busy (bufs s b) \<or> b_valid (bufs s b) \<or> b_dirty (bufs s b) \<Longrightarrow>
   key_ok s (b_dev (bufs s b)) (b_sector (bufs s b))"
  by (auto simp: bc_data_def)

lemma serve_key: "buf_key (serve b s) c = buf_key s c" "b_busy (bufs (serve b s) c) = b_busy (bufs s c)"
  "b_dev (bufs (serve b s) c) = b_dev (bufs s c)" "b_sector (bufs (serve b s) c) = b_sector (bufs s c)"
  by (auto simp: buf_key_def serve_def Let_def)

lemma serve_data:
  assumes d: "bc_data s (b # q) L" and b: "b \<in> set L" "b_busy (bufs s b)"
  shows "bc_data (serve b s) q L"
proof -
  have k: "key_ok s (b_dev (bufs s b)) (b_sector (bufs s b))" using bc_data_keys [OF d b(1)] b(2) by blast
  note m = key_ok_mod [OF k]
  have sv: "clean (serve b s) b" by (simp add: clean_def serve_simps)
  have db: "b_data (bufs (serve b s) b) = hdisk (serve b s) (b_dev (bufs s b)) (b_sector (bufs s b))"
    using m by (simp add: serve_def Let_def on_disk_def)
  have keys: "\<forall>c \<in> set L. b_dev (bufs s c) = NODEV \<and> \<not> b_busy (bufs s c) \<and> \<not> b_valid (bufs s c) \<and> \<not> b_dirty (bufs s c) \<or>
      key_ok s (b_dev (bufs s c)) (b_sector (bufs s c))"
    and uniq: "\<forall>b \<in> set L. \<forall>c \<in> set L. b_dev (bufs s b) \<noteq> NODEV \<longrightarrow> buf_key s b = buf_key s c \<longrightarrow> b = c"
    and dirt: "\<forall>c \<in> set L. b_dirty (bufs s c) \<longrightarrow> c \<in> set (b # q)"
    and cl: "\<forall>c \<in> set L. clean s c \<longrightarrow> b_data (bufs s c) = hdisk s (b_dev (bufs s c)) (b_sector (bufs s c))"
    using d unfolding bc_data_def by blast+
  have o: "bufs (serve b s) c = bufs s c" if "c \<noteq> b" for c using that by (simp add: serve_simps)
  have disk: "hdisk (serve b s) dv sc = hdisk s dv sc" if "(dv, sc) \<noteq> buf_key s b" for dv sc
    using that m by (auto simp: serve_def Let_def buf_key_def)
  have ok: "key_ok (serve b s) = key_ok s" by (intro ext) (simp add: key_ok_def serve_simps)
  have "b_dev (bufs (serve b s) c) = NODEV \<and> \<not> b_busy (bufs (serve b s) c) \<and> \<not> b_valid (bufs (serve b s) c) \<and>
      \<not> b_dirty (bufs (serve b s) c) \<or> key_ok (serve b s) (b_dev (bufs (serve b s) c)) (b_sector (bufs (serve b s) c))"
    if "c \<in> set L" for c
    using keys that k o [of c] by (cases "c = b") (auto simp: ok serve_key)
  moreover have "b_dirty (bufs (serve b s) c) \<longrightarrow> c \<in> set q" if "c \<in> set L" for c
    using dirt that o [of c] by (cases "c = b") (auto simp: serve_simps)
  moreover have "b_data (bufs (serve b s) c) = hdisk (serve b s) (b_dev (bufs s c)) (b_sector (bufs s c))"
    if c: "c \<in> set L" "clean (serve b s) c" for c
  proof (cases "c = b")
    case False
    then have cs: "clean s c" using c(2) o by (simp add: clean_def)
    then have "key_ok s (b_dev (bufs s c)) (b_sector (bufs s c))" using bc_data_keys [OF d c(1)] by (simp add: clean_def)
    then have "buf_key s c \<noteq> buf_key s b" using uniq c(1) b(1) False key_ok_mod by blast
    then show ?thesis using disk cl c(1) cs o [OF False] by (simp add: buf_key_def)
  qed (simp add: db)
  ultimately show ?thesis unfolding bc_data_def serve_key using uniq by blast
qed

lemma upd_data:
  assumes d: "bc_data s q L" and b: "b \<in> set L" and k: "key_ok s (b_dev f) (b_sector f)"
    and u: "\<forall>c \<in> set L. buf_key s c = (b_dev f, b_sector f) \<longrightarrow> c = b" and dirt: "b_dirty f \<longrightarrow> b \<in> set q'"
    and cl: "b_valid f \<and> \<not> b_dirty f \<longrightarrow> b_data f = hdisk s (b_dev f) (b_sector f)" and q: "set q \<subseteq> set q'"
  shows "bc_data (bupd b (\<lambda>_. f) s) q' L"
proof -
  define s' where "s' = bupd b (\<lambda>_. f) s"
  have s': "bufs s' c = (if c = b then f else bufs s c)" "hdisk s' = hdisk s" "key_ok s' = key_ok s" for c
    by (simp_all add: s'_def key_ok_def fun_eq_iff)
  have uniq: "\<forall>x \<in> set L. \<forall>y \<in> set L. b_dev (bufs s x) \<noteq> NODEV \<longrightarrow> buf_key s x = buf_key s y \<longrightarrow> x = y"
    and keys: "\<forall>c \<in> set L. b_dev (bufs s c) = NODEV \<and> \<not> b_busy (bufs s c) \<and> \<not> b_valid (bufs s c) \<and> \<not> b_dirty (bufs s c) \<or>
      key_ok s (b_dev (bufs s c)) (b_sector (bufs s c))"
    and drt: "\<forall>c \<in> set L. b_dirty (bufs s c) \<longrightarrow> c \<in> set q"
    and cln: "\<forall>c \<in> set L. clean s c \<longrightarrow> b_data (bufs s c) = hdisk s (b_dev (bufs s c)) (b_sector (bufs s c))"
    using d unfolding bc_data_def by blast+
  have "\<forall>c \<in> set L. b_dev (bufs s' c) = NODEV \<and> \<not> b_busy (bufs s' c) \<and> \<not> b_valid (bufs s' c) \<and> \<not> b_dirty (bufs s' c) \<or>
      key_ok s' (b_dev (bufs s' c)) (b_sector (bufs s' c))"
    using keys k unfolding s' by simp
  moreover have "x = y" if "x \<in> set L" "y \<in> set L" "b_dev (bufs s' x) \<noteq> NODEV" "buf_key s' x = buf_key s' y" for x y
  proof -
    have e: "buf_key s' c = (if c = b then (b_dev f, b_sector f) else buf_key s c)" for c by (simp add: buf_key_def s')
    show ?thesis using that u uniq unfolding e s' by (metis (full_types))
  qed
  moreover have "\<forall>c \<in> set L. b_dirty (bufs s' c) \<longrightarrow> c \<in> set q'" using drt dirt q unfolding s' by auto
  moreover have "\<forall>c \<in> set L. clean s' c \<longrightarrow> b_data (bufs s' c) = hdisk s' (b_dev (bufs s' c)) (b_sector (bufs s' c))"
    using cln cl unfolding s' clean_def by simp
  ultimately show ?thesis unfolding bc_data_def s'_def by blast
qed

section \<open>Each step keeps it\<close>

lemma find_hit: "find P xs = Some x \<Longrightarrow> x \<in> set xs \<and> P x"
  by (induction xs) (auto split: if_splits)

lemma bupd_const: "bupd b f s = bupd b (\<lambda>_. f (bufs s b)) s"
  by (simp add: bupd_def)

lemma ide_inv_bupd: "ide_inv s q \<Longrightarrow> b \<notin> set q \<Longrightarrow> ide_inv (bupd b f s) q"
proof -
  assume i: "ide_inv s q" and b: "b \<notin> set q"
  then have "\<forall>c \<in> set q. bufs (bupd b f s) c = bufs s c" by (auto simp: bupd_def)
  moreover have "qnext (bupd b f s) = qnext s" "idequeue (bupd b f s) = idequeue s" "port (bupd b f s) = port s"
    "havedisk1 (bupd b f s) = havedisk1 s" by (simp_all add: bupd_def)
  ultimately show ?thesis using i unfolding ide_inv_def ready_def by (metis list.set_sel(1))
qed

lemma ring_bupd [simp]: "ring (bupd b f s) L \<longleftrightarrow> ring s L"
  by (simp add: ring_def)

lemma upd_inv:
  assumes i: "bc_inv s q L" and b: "b \<in> set L" "b \<notin> set q" and k: "key_ok s (b_dev f) (b_sector f)"
    and u: "\<forall>c \<in> set L. buf_key s c = (b_dev f, b_sector f) \<longrightarrow> c = b" and f: "\<not> b_dirty f"
    and cl: "b_valid f \<longrightarrow> b_data f = hdisk s (b_dev f) (b_sector f)"
  shows "bc_inv (bupd b (\<lambda>_. f) s) q L"
proof -
  have "bc_data (bupd b (\<lambda>_. f) s) q L" using i b(1) k u f cl by (intro upd_data [of s q]) (auto simp: bc_inv_def)
  then show ?thesis using i ide_inv_bupd b by (auto simp: bc_inv_def)
qed

lemma bc_inv_buf:
  assumes "bc_inv s q L" "b \<in> set L"
  shows "b \<noteq> 0" "b \<noteq> HEADB" "b \<in> set q \<Longrightarrow> b_busy (bufs s b) \<and> \<not> clean s b" "b_dirty (bufs s b) \<Longrightarrow> b \<in> set q"
    "clean s b \<Longrightarrow> b_data (bufs s b) = hdisk s (b_dev (bufs s b)) (b_sector (bufs s b))"
    "b_busy (bufs s b) \<or> b_valid (bufs s b) \<Longrightarrow> key_ok s (b_dev (bufs s b)) (b_sector (bufs s b))"
proof -
  have d: "bc_data s q L" and r: "\<forall>c \<in> set q. ready s c" and L: "b \<in> {1..NBUF}"
    using assms by (simp_all add: bc_inv_def ide_inv_def)
  show "b \<noteq> 0" "b \<noteq> HEADB" using L by (simp_all add: HEADB_def)
  show "b \<in> set q \<Longrightarrow> b_busy (bufs s b) \<and> \<not> clean s b" using r by (simp add: ready_def clean_def)
  show "b_dirty (bufs s b) \<Longrightarrow> b \<in> set q"
    "clean s b \<Longrightarrow> b_data (bufs s b) = hdisk s (b_dev (bufs s b)) (b_sector (bufs s b))"
    using d assms(2) unfolding bc_data_def by blast+
  show "b_busy (bufs s b) \<or> b_valid (bufs s b) \<Longrightarrow> key_ok s (b_dev (bufs s b)) (b_sector (bufs s b))"
    using bc_data_keys [OF d assms(2)] by blast
qed

lemma bc_inv_uniq:
  "bc_inv s q L \<Longrightarrow> b \<in> set L \<Longrightarrow> c \<in> set L \<Longrightarrow> b_dev (bufs s b) \<noteq> NODEV \<Longrightarrow> buf_key s b = buf_key s c \<Longrightarrow> b = c"
  unfolding bc_inv_def bc_data_def by blast

text \<open>\<open>Got\<close>: what a process holds after \<open>bget\<close>.\<close>

definition holds :: "bcache \<Rightarrow> addr list \<Rightarrow> addr \<Rightarrow> nat \<Rightarrow> nat \<Rightarrow> bool" where
  "holds s q b dev sec \<longleftrightarrow> b \<in> {1..NBUF} \<and> b \<notin> set q \<and> b_busy (bufs s b) \<and> \<not> b_dirty (bufs s b) \<and> buf_key s b = (dev, sec)"

lemma bget_inv:
  assumes i: "bc_inv s q L" and k: "key_ok s dev sec"
  shows "bget dev sec s = Some (Inl (Panic ''bget: no buffers'')) \<and> (\<forall>b \<in> set L. b_busy (bufs s b) \<and> buf_key s b \<noteq> (dev, sec)) \<or>
    (\<exists>b \<in> set L. bget dev sec s = Some (Inr (BSleep b, s)) \<and> b_busy (bufs s b) \<and> buf_key s b = (dev, sec)) \<or>
    (\<exists>b s'. bget dev sec s = Some (Inr (BGot b, s')) \<and> \<not> b_busy (bufs s b) \<and> bc_inv s' q L \<and> holds s' q b dev sec \<and>
       hdisk s' = hdisk s \<and> havedisk1 s' = havedisk1 s \<and> (\<forall>c. c \<noteq> b \<longrightarrow> bufs s' c = bufs s c))"
proof -
  have r: "ring s L" and L: "set L = {1..NBUF}" using i by (simp_all add: bc_inv_def)
  note eq = bget_eq [OF r, of dev sec]
  let ?P = "\<lambda>b. b_dev (bufs s b) = dev \<and> b_sector (bufs s b) = sec"
  show ?thesis
  proof (cases "find ?P L")
    case (Some b)
    then have b: "b \<in> set L" "?P b" by (auto dest: find_hit)
    show ?thesis
    proof (cases "b_busy (bufs s b)")
      case True
      then show ?thesis using eq Some b by (auto simp: buf_key_def)
    next
      case False
      let ?f = "(bufs s b)\<lparr>b_busy := True\<rparr>"
      have nq: "b \<notin> set q" "\<not> b_dirty (bufs s b)" using bc_inv_buf [OF i b(1)] False by auto
      have "bc_inv (bupd b (\<lambda>_. ?f) s) q L"
      proof (rule upd_inv [OF i b(1) nq(1)])
        show "key_ok s (b_dev ?f) (b_sector ?f)" using b(2) k by simp
        show "\<forall>c \<in> set L. buf_key s c = (b_dev ?f, b_sector ?f) \<longrightarrow> c = b"
          using bc_inv_uniq [OF i _ b(1)] b(2) key_ok_mod [OF k] by (auto simp: buf_key_def)
        show "b_valid ?f \<longrightarrow> b_data ?f = hdisk s (b_dev ?f) (b_sector ?f)"
          using bc_inv_buf(5) [OF i b(1)] nq by (auto simp: clean_def)
      qed (use nq in simp)
      then have "bget dev sec s = Some (Inr (BGot b, bupd b (\<lambda>_. ?f) s)) \<and> bc_inv (bupd b (\<lambda>_. ?f) s) q L \<and>
          holds (bupd b (\<lambda>_. ?f) s) q b dev sec"
        using eq Some False b nq L bupd_const [of b "\<lambda>f. f\<lparr>b_busy := True\<rparr>" s] by (simp add: holds_def buf_key_def)
      then show ?thesis using False by (intro disjI2 exI [of _ b] exI [of _ "bupd b (\<lambda>_. ?f) s"]) simp
    qed
  next
    case None
    then have miss: "\<forall>c \<in> set L. buf_key s c \<noteq> (dev, sec)" by (auto simp: find_None_iff buf_key_def)
    show ?thesis
    proof (cases "find (\<lambda>b. \<not> b_busy (bufs s b)) (rev L)")
      case all: None
      then have "\<forall>b \<in> set L. b_busy (bufs s b)" by (simp add: find_None_iff)
      moreover have "bget dev sec s = Some (Inl (Panic ''bget: no buffers''))" using eq None all by simp
      ultimately show ?thesis using miss by blast
    next
      case (Some b)
      then have b: "b \<in> set L" "\<not> b_busy (bufs s b)" by (auto dest: find_hit)
      let ?f = "(bufs s b)\<lparr>b_dev := dev, b_sector := sec, b_busy := True, b_valid := False, b_dirty := False\<rparr>"
      have nq: "b \<notin> set q" using bc_inv_buf [OF i b(1)] b(2) by auto
      have "bc_inv (bupd b (\<lambda>_. ?f) s) q L"
        by (rule upd_inv [OF i b(1) nq]) (use k miss in auto)
      then have "bget dev sec s = Some (Inr (BGot b, bupd b (\<lambda>_. ?f) s)) \<and> bc_inv (bupd b (\<lambda>_. ?f) s) q L \<and>
          holds (bupd b (\<lambda>_. ?f) s) q b dev sec"
        using eq None Some b nq L
          bupd_const [of b "\<lambda>f. f\<lparr>b_dev := dev, b_sector := sec, b_busy := True, b_valid := False, b_dirty := False\<rparr>" s]
        by (simp add: holds_def buf_key_def)
      then show ?thesis using b(2) by (intro disjI2 exI [of _ b] exI [of _ "bupd b (\<lambda>_. ?f) s"]) simp
    qed
  qed
qed

lemma bget_free:
  assumes "bc_inv s q L" "key_ok s dev sec" "\<forall>b \<in> set L. \<not> b_busy (bufs s b)"
  shows "\<exists>b s'. bget dev sec s = Some (Inr (BGot b, s')) \<and> bc_inv s' q L \<and> holds s' q b dev sec \<and> hdisk s' = hdisk s \<and>
    havedisk1 s' = havedisk1 s \<and> (\<forall>c. c \<noteq> b \<longrightarrow> bufs s' c = bufs s c)"
proof -
  have "1 \<in> set L" using assms(1) by (simp add: bc_inv_def NBUF_def)
  then have n: "\<not> (\<forall>b \<in> set L. b_busy (bufs s b) \<and> buf_key s b \<noteq> (dev, sec))" using assms(3) by blast
  consider "\<forall>b \<in> set L. b_busy (bufs s b) \<and> buf_key s b \<noteq> (dev, sec)"
    | "\<exists>b \<in> set L. bget dev sec s = Some (Inr (BSleep b, s)) \<and> b_busy (bufs s b) \<and> buf_key s b = (dev, sec)"
    | b s' where "bget dev sec s = Some (Inr (BGot b, s'))" "bc_inv s' q L" "holds s' q b dev sec" "hdisk s' = hdisk s"
      "havedisk1 s' = havedisk1 s" "\<forall>c. c \<noteq> b \<longrightarrow> bufs s' c = bufs s c"
    using bget_inv [OF assms(1,2)] by (elim disjE exE conjE) simp_all
  then show ?thesis
  proof cases
    case 3
    then show ?thesis by (intro exI [of _ b] exI [of _ s'] conjI)
  qed (use n assms(3) in simp_all)
qed

lemma start_inv:
  assumes i: "bc_inv s q L" and b: "b \<in> set L" "b \<notin> set q" "b_busy (bufs s b)" and d: "b_dirty (bufs s b) \<or> \<not> b_valid (bufs s b)"
    and k: "key_ok s (b_dev (bufs s b)) (b_sector (bufs s b))"
  shows "\<exists>s'. iderw_start b s = Some (Inr s') \<and> bc_inv s' (q @ [b]) L \<and> bufs s' = bufs s \<and> hdisk s' = hdisk s"
proof -
  have "ready s b" using b d k bc_inv_buf(1) [OF i b(1)] by (auto simp: ready_def key_ok_def)
  then obtain h p r where s': "iderw_start b s = Some (Inr (s\<lparr>idequeue := h, qnext := p, port := r\<rparr>))"
    "ide_inv (s\<lparr>idequeue := h, qnext := p, port := r\<rparr>) (q @ [b])"
    using iderw_start_spec [of s q b] i b by (auto simp: bc_inv_def)
  have "bc_data s (q @ [b]) L" using i bc_data_mono [of s q L "q @ [b]"] by (auto simp: bc_inv_def)
  then have "bc_data (s\<lparr>idequeue := h, qnext := p, port := r\<rparr>) (q @ [b]) L"
    using bc_data_cong [of s "s\<lparr>idequeue := h, qnext := p, port := r\<rparr>" L L] by simp
  then have "bc_inv (s\<lparr>idequeue := h, qnext := p, port := r\<rparr>) (q @ [b]) L"
    using i s'(2) b by (auto simp: bc_inv_def ring_def)
  then show ?thesis using s'(1) by auto
qed

lemma irq_inv:
  assumes "bc_inv s q L" "ide_irq s = Inr (w, s')"
  shows "\<exists>q'. bc_inv s' q' L"
proof (cases q)
  case Nil
  then have "s' = s" using assms ide_irq_idle [of s] by (auto simp: bc_inv_def)
  then show ?thesis using assms by blast
next
  case (Cons b bs)
  then have ii: "ide_inv s (b # bs)" and b: "b \<in> set L" "b_busy (bufs s b)"
    using assms(1) by (auto simp: bc_inv_def ide_inv_def ready_def)
  obtain h p where s': "s' = (serve b s)\<lparr>idequeue := h, port := p\<rparr>" "ide_inv s' bs"
    using ide_irq_spec [OF ii] assms(2) by auto
  have "bc_data (serve b s) bs L" using serve_data [OF _ b] assms(1) Cons by (simp add: bc_inv_def)
  then have "bc_data s' bs L" using bc_data_cong [of "serve b s" s' L L bs] s'(1) by simp
  moreover have "bnext (serve b s) = bnext s" "bprev (serve b s) = bprev s" by (simp_all add: serve_def Let_def)
  ultimately show ?thesis using assms(1) s' Cons by (auto simp: bc_inv_def ring_def intro!: exI [of _ bs])
qed

lemma brelse_inv:
  assumes i: "bc_inv s q L" and b: "b \<in> set L" "b_busy (bufs s b)" "clean s b"
  shows "\<exists>s'. brelse b s = Inr s' \<and> bc_inv s' q (b # remove1 b L) \<and> hdisk s' = hdisk s \<and> havedisk1 s' = havedisk1 s \<and>
    bufs s' = (bufs s)(b := (bufs s b)\<lparr>b_busy := False\<rparr>)"
proof -
  have r: "ring s L" and L: "set L = {1..NBUF}" using i by (simp_all add: bc_inv_def)
  have nq: "b \<notin> set q" using bc_inv_buf(3) [OF i b(1)] b(3) by blast
  obtain s' where s': "brelse b s = Inr s'" "ring s' (b # remove1 b L)" "bufs s' = (bufs s)(b := (bufs s b)\<lparr>b_busy := False\<rparr>)"
    "hdisk s' = hdisk s" "qnext s' = qnext s" "idequeue s' = idequeue s" "port s' = port s" "havedisk1 s' = havedisk1 s"
    using brelse_eq [OF r b(1,2)] by blast
  let ?f = "(bufs s b)\<lparr>b_busy := False\<rparr>"
  have d: "distinct L" using r by (simp add: ring_def)
  then have set: "set (b # remove1 b L) = set L" using b(1) by auto
  have k: "key_ok s (b_dev (bufs s b)) (b_sector (bufs s b))" using bc_inv_buf(6) [OF i b(1)] b(2) by blast
  have "bc_inv (bupd b (\<lambda>_. ?f) s) q L"
  proof (rule upd_inv [OF i b(1) nq])
    show "\<forall>c \<in> set L. buf_key s c = (b_dev ?f, b_sector ?f) \<longrightarrow> c = b"
      using bc_inv_uniq [OF i _ b(1)] key_ok_mod [OF k] by (auto simp: buf_key_def)
    show "b_valid ?f \<longrightarrow> b_data ?f = hdisk s (b_dev ?f) (b_sector ?f)"
      using bc_inv_buf(5) [OF i b(1)] b(3) by (simp add: clean_def)
  qed (use b k in \<open>auto simp: clean_def\<close>)
  then have "ide_inv (bupd b (\<lambda>_. ?f) s) q" "bc_data (bupd b (\<lambda>_. ?f) s) q L" "set q \<subseteq> set L"
    unfolding bc_inv_def by blast+
  moreover have "bufs (bupd b (\<lambda>_. ?f) s) = bufs s'" using s'(3) by simp
  ultimately have "ide_inv s' q" "bc_data s' q (b # remove1 b L)"
    using s' set bc_data_cong [of "bupd b (\<lambda>_. ?f) s" s' L "b # remove1 b L" q]
    by (simp_all add: ide_inv_def ready_def)
  then show ?thesis using s' set L \<open>set q \<subseteq> set L\<close> by (auto simp: bc_inv_def)
qed

end
