(* ===== verification/BioProps.thy ===== *)
theory BioProps
  imports BioSpec BlockDev
begin

text \<open>
  The properties of the buffer cache: its choice of a buffer, its invariant under every interleaving
  of processes and interrupts, and that it is a block device.
\<close>

section \<open>Interleavings\<close>

definition queued :: "bcache \<Rightarrow> addr \<Rightarrow> bool" where
  "queued s b \<longleftrightarrow> (\<exists>xs. linked (qnext s) (idequeue s) xs \<and> b \<in> set xs)"

text \<open>What can happen: a process gets a buffer, its owner starts reading into it or writes new
  contents and starts writing them out, the disk interrupts, the owner releases a finished buffer.\<close>

inductive bstep :: "bcache \<Rightarrow> bcache \<Rightarrow> bool" where
  bs_get: "bget dev sec s = Some (Inr (BGot b, s')) \<Longrightarrow> key_ok s dev sec \<Longrightarrow> bstep s s'"
| bs_read: "b \<in> {1..NBUF} \<Longrightarrow> b_busy (bufs s b) \<Longrightarrow> \<not> b_valid (bufs s b) \<Longrightarrow> \<not> queued s b \<Longrightarrow>
    iderw_start b s = Some (Inr s') \<Longrightarrow> bstep s s'"
| bs_write: "b \<in> {1..NBUF} \<Longrightarrow> b_busy (bufs s b) \<Longrightarrow> clean s b \<Longrightarrow>
    iderw_start b (set_dirty b (bupd b (\<lambda>f. f\<lparr>b_data := v\<rparr>) s)) = Some (Inr s') \<Longrightarrow> bstep s s'"
| bs_irq: "ide_irq s = Inr (w, s') \<Longrightarrow> bstep s s'"
| bs_release: "b \<in> {1..NBUF} \<Longrightarrow> b_busy (bufs s b) \<Longrightarrow> clean s b \<Longrightarrow> brelse b s = Inr s' \<Longrightarrow> bstep s s'"

lemma store_inv:
  assumes i: "bc_inv s q L" and b: "b \<in> set L" "b_busy (bufs s b)" "clean s b"
    and s1_def: "s1 = set_dirty b (bupd b (\<lambda>f. f\<lparr>b_data := v\<rparr>) s)"
  shows "b \<notin> set q" "ide_inv s1 q" "bc_data s1 (q @ [b]) L" "ring s1 L" "ready s1 b"
    "bufs s1 = (bufs s)(b := (bufs s b)\<lparr>b_data := v, b_dirty := True\<rparr>)" "hdisk s1 = hdisk s" "havedisk1 s1 = havedisk1 s"
proof -
  show nq: "b \<notin> set q" using bc_inv_buf(3) [OF i b(1)] b(3) by blast
  have k: "key_ok s (b_dev (bufs s b)) (b_sector (bufs s b))" using bc_inv_buf(6) [OF i b(1)] b(2) by blast
  have s1: "s1 = bupd b (\<lambda>_. (bufs s b)\<lparr>b_data := v, b_dirty := True\<rparr>) s" by (simp add: s1_def set_dirty_def bupd_def)
  show "ide_inv s1 q" unfolding s1 using i nq by (intro ide_inv_bupd) (simp_all add: bc_inv_def)
  have d: "bc_data s q L" using i unfolding bc_inv_def by blast
  show "bc_data s1 (q @ [b]) L"
    unfolding s1
  proof (rule upd_data [OF d b(1)])
    show "\<forall>c \<in> set L. buf_key s c = (b_dev ((bufs s b)\<lparr>b_data := v, b_dirty := True\<rparr>), b_sector ((bufs s b)\<lparr>b_data := v, b_dirty := True\<rparr>)) \<longrightarrow> c = b"
      using bc_inv_uniq [OF i _ b(1)] key_ok_mod [OF k] by (auto simp: buf_key_def)
  qed (use k in auto)
  show "ring s1 L" using i by (simp add: s1 bc_inv_def)
  show "ready s1 b" using k b(2) bc_inv_buf(1) [OF i b(1)] by (auto simp: s1 ready_def key_ok_def)
  show "bufs s1 = (bufs s)(b := (bufs s b)\<lparr>b_data := v, b_dirty := True\<rparr>)" "hdisk s1 = hdisk s" "havedisk1 s1 = havedisk1 s"
    by (simp_all add: s1)
qed

lemma bstep_inv:
  assumes "bstep s s'" "bc_inv s q L"
  shows "\<exists>q' L'. bc_inv s' q' L'"
  using assms(1)
proof (cases rule: bstep.cases)
  case (bs_get dev sec b)
  then show ?thesis using bget_inv [OF assms(2) bs_get(2)] by force
next
  case (bs_read b)
  then have b: "b \<in> set L" using assms(2) by (simp add: bc_inv_def)
  have "linked (qnext s) (idequeue s) q" using assms(2) by (simp add: bc_inv_def ide_inv_def)
  then have nq: "b \<notin> set q" using bs_read(4) unfolding queued_def by blast
  show ?thesis using start_inv [OF assms(2) b nq bs_read(2)] bs_read(3,5) bc_inv_buf(6) [OF assms(2) b] bs_read(2) by fastforce
next
  case (bs_write b v)
  then have b: "b \<in> set L" using assms(2) by (simp add: bc_inv_def)
  let ?s = "set_dirty b (bupd b (\<lambda>f. f\<lparr>b_data := v\<rparr>) s)"
  note st = store_inv [of s q L b ?s v, OF assms(2) b bs_write(2,3) refl]
  obtain h p r where s': "s' = ?s\<lparr>idequeue := h, qnext := p, port := r\<rparr>" "ide_inv s' (q @ [b])"
    using iderw_start_spec [OF st(2,5,1)] bs_write(4) by auto
  have "bc_data s' (q @ [b]) L" using st(3) bc_data_cong [of ?s s' L L] s'(1) by simp
  moreover have "ring s' L" using st(4) s'(1) by (simp add: ring_def)
  ultimately have "bc_inv s' (q @ [b]) L" using assms(2) s'(2) b unfolding bc_inv_def by auto
  then show ?thesis by blast
next
  case (bs_irq w)
  then show ?thesis using irq_inv [OF assms(2)] by blast
next
  case (bs_release b)
  then have "b \<in> set L" using assms(2) by (simp add: bc_inv_def)
  then show ?thesis using brelse_inv [OF assms(2) _ bs_release(2,3)] bs_release(4) by fastforce
qed

lemma bsteps_inv: "bstep\<^sup>*\<^sup>* s s' \<Longrightarrow> bc_inv s q L \<Longrightarrow> \<exists>q' L'. bc_inv s' q' L'"
proof (induction rule: rtranclp_induct)
  case (step s1 s2)
  then show ?case using bstep_inv by blast
qed blast

section \<open>Boot\<close>

definition idle_bufs :: "bcache \<Rightarrow> bool" where
  "idle_bufs s \<longleftrightarrow> idequeue s = 0 \<and> (\<forall>b. \<not> b_busy (bufs s b) \<and> \<not> b_valid (bufs s b) \<and> \<not> b_dirty (bufs s b))"

lemma binit_fold:
  assumes "ring s L" "distinct bs" "set bs \<inter> set (HEADB # L) = {}"
  shows "ring (fold (\<lambda>b s. bupd b (\<lambda>f. f\<lparr>b_dev := NODEV\<rparr>) (push_front b s)) bs s) (rev bs @ L) \<and>
    bufs (fold (\<lambda>b s. bupd b (\<lambda>f. f\<lparr>b_dev := NODEV\<rparr>) (push_front b s)) bs s) =
      (\<lambda>c. if c \<in> set bs then (bufs s c)\<lparr>b_dev := NODEV\<rparr> else bufs s c) \<and>
    idequeue (fold (\<lambda>b s. bupd b (\<lambda>f. f\<lparr>b_dev := NODEV\<rparr>) (push_front b s)) bs s) = idequeue s"
  using assms
proof (induction bs arbitrary: s L)
  case (Cons b bs)
  have "ring (bupd b (\<lambda>f. f\<lparr>b_dev := NODEV\<rparr>) (push_front b s)) (b # L)" using Cons.prems by (simp add: push_front_ring)
  from Cons.IH [OF this] Cons.prems show ?case by auto
qed simp

lemma binit_inv:
  assumes "idle_bufs s"
  shows "bc_inv (binit s) [] (rev [1..<NBUF + 1])"
proof -
  let ?s = "s\<lparr>bprev := (bprev s)(HEADB := HEADB), bnext := (bnext s)(HEADB := HEADB)\<rparr>"
  have "ring ?s []" "distinct [1..<NBUF + 1]" "set [1..<NBUF + 1] \<inter> set [HEADB] = {}"
    by (simp_all add: ring_def HEADB_def)
  from binit_fold [OF this] have b: "ring (binit s) (rev [1..<NBUF + 1])"
    "bufs (binit s) = (\<lambda>c. if c \<in> set [1..<NBUF + 1] then (bufs s c)\<lparr>b_dev := NODEV\<rparr> else bufs s c)" "idequeue (binit s) = idequeue s"
    by (simp_all add: binit_def Let_def del: upt_Suc cong: if_cong)
  have set: "set (rev [1..<NBUF + 1]) = {1..NBUF}" by auto
  have "bc_data (binit s) [] (rev [1..<NBUF + 1])"
    using assms unfolding bc_data_def b(2) set clean_def by (auto simp: idle_bufs_def)
  then show ?thesis using b(1,3) set assms by (simp add: bc_inv_def ide_inv_def idle_bufs_def)
qed

text \<open>C12: The cache is coherent. After \<open>binit\<close>, whatever the interleaving of processes that get, read,
  write and release buffers with disk interrupts, the ring holds every buffer once, no block of a disk
  is in two buffers, every buffer that waits for the disk is locked, and every buffer that is valid
  and not being written has the bytes of its block on disk.\<close>

theorem bcache_coherent:
  assumes "idle_bufs s0" and "bstep\<^sup>*\<^sup>* (binit s0) s"
  shows "\<exists>L. chain (bnext s) (bprev s) HEADB L HEADB \<and> distinct L \<and> set L = {1..NBUF} \<and>
    (\<forall>b \<in> set L. \<forall>c \<in> set L. b_dev (bufs s b) \<noteq> NODEV \<and> b_dev (bufs s b) = b_dev (bufs s c) \<and>
       b_sector (bufs s b) = b_sector (bufs s c) \<longrightarrow> b = c) \<and>
    (\<forall>b. queued s b \<longrightarrow> b \<in> set L \<and> b_busy (bufs s b)) \<and>
    (\<forall>b \<in> set L. b_valid (bufs s b) \<and> \<not> b_dirty (bufs s b) \<longrightarrow>
       b_data (bufs s b) = hdisk s (b_dev (bufs s b)) (b_sector (bufs s b)))"
proof -
  obtain q L where i: "bc_inv s q L" using bsteps_inv [OF assms(2) binit_inv [OF assms(1)]] by blast
  have "b \<in> set q" if "queued s b" for b
    using that i linked_det unfolding queued_def bc_inv_def ide_inv_def by blast
  then have "\<forall>b. queued s b \<longrightarrow> b \<in> set L \<and> b_busy (bufs s b)"
    using i unfolding bc_inv_def ide_inv_def ready_def by blast
  moreover have "\<forall>b \<in> set L. \<forall>c \<in> set L. b_dev (bufs s b) \<noteq> NODEV \<and> b_dev (bufs s b) = b_dev (bufs s c) \<and>
       b_sector (bufs s b) = b_sector (bufs s c) \<longrightarrow> b = c"
    using bc_inv_uniq [OF i] by (auto simp: buf_key_def)
  moreover have "\<forall>b \<in> set L. b_valid (bufs s b) \<and> \<not> b_dirty (bufs s b) \<longrightarrow>
       b_data (bufs s b) = hdisk s (b_dev (bufs s b)) (b_sector (bufs s b))"
    using bc_inv_buf(5) [OF i] by (simp add: clean_def)
  moreover have "chain (bnext s) (bprev s) HEADB L HEADB" "distinct L" "set L = {1..NBUF}"
    using i unfolding bc_inv_def ring_def by simp_all
  ultimately show ?thesis by blast
qed

definition disk0 :: bcache where
  "disk0 = \<lparr>bufs = (\<lambda>b. \<lparr>b_busy = False, b_valid = False, b_dirty = False, b_dev = 0, b_sector = 0, b_data = []\<rparr>),
     idequeue = 0, qnext = (\<lambda>_. 0), havedisk1 = False,
     port = \<lparr>p1f3 = 0, p1f4 = 0, p1f5 = 0, p1f6 = 0, p1f7 = 0, p1f0 = []\<rparr>, hdisk = (\<lambda>d k. [of_nat k]),
     bnext = (\<lambda>_. 0), bprev = (\<lambda>_. 0)\<rparr>"

lemma disk0_at: "\<not> b_busy (bufs disk0 b)" "\<not> b_valid (bufs disk0 b)" "\<not> b_dirty (bufs disk0 b)" "idequeue disk0 = 0"
  "b_dev (bufs disk0 b) = 0" "b_sector (bufs disk0 b) = 0" "hdisk disk0 d k = [of_nat k]"
  by (simp_all add: disk0_def)

lemma disk0_idle: "idle_bufs disk0"
  by (simp add: idle_bufs_def disk0_at)

lemma disk0_fields:
  "bufs (binit disk0) b = (if 1 \<le> b \<and> b \<le> NBUF then (bufs disk0 b)\<lparr>b_dev := NODEV\<rparr> else bufs disk0 b)"
  "hdisk (binit disk0) = hdisk disk0"
proof -
  let ?F = "\<lambda>b s. bupd b (\<lambda>f. f\<lparr>b_dev := NODEV\<rparr>) (push_front b s)"
  have f: "hdisk (fold ?F bs s) = hdisk s \<and> bufs (fold ?F bs s) c = (if c \<in> set bs then (bufs s c)\<lparr>b_dev := NODEV\<rparr> else bufs s c)"
    for bs s c by (induction bs arbitrary: s) auto
  show "bufs (binit disk0) b = (if 1 \<le> b \<and> b \<le> NBUF then (bufs disk0 b)\<lparr>b_dev := NODEV\<rparr> else bufs disk0 b)"
    "hdisk (binit disk0) = hdisk disk0"
    using f by (auto simp: binit_def Let_def simp del: upt_Suc)
qed

theorem bcache_coherent_witness:
  "\<exists>s L. bstep\<^sup>*\<^sup>* (binit disk0) s \<and> s \<noteq> binit disk0 \<and> chain (bnext s) (bprev s) HEADB L HEADB \<and> set L = {1..NBUF}"
proof -
  note i = binit_inv [OF disk0_idle]
  have k: "key_ok (binit disk0) 0 5" by (simp add: key_ok_def)
  have free: "\<not> b_busy (bufs (binit disk0) b)" for b by (simp add: disk0_fields disk0_at)
  obtain b s where s: "bget 0 5 (binit disk0) = Some (Inr (BGot b, s))" "holds s [] b 0 5"
    using bget_free [OF i k] free by blast
  have "bstep (binit disk0) s" by (rule bs_get [OF s(1) k])
  then have r: "bstep\<^sup>*\<^sup>* (binit disk0) s" by blast
  have "s \<noteq> binit disk0" using s(2) free by (auto simp: holds_def)
  then show ?thesis using r bcache_coherent [OF disk0_idle r] by blast
qed

text \<open>How \<open>bget\<close> chooses. On a ring that lists the buffers by their last use it always returns: the
  buffer that caches the block, or a sleep when that one is locked; on a miss the unlocked buffer that
  was used least recently, marked invalid; a panic exactly when all are locked. Releasing a buffer
  makes it the most recently used one.\<close>

lemma bget_recycles_lru:
  assumes "ring s L" and "b \<in> set L" and "b_busy (bufs s b)"
  shows "bget dev sec s = Some (case find (\<lambda>b. b_dev (bufs s b) = dev \<and> b_sector (bufs s b) = sec) L of
      Some b \<Rightarrow> if b_busy (bufs s b) then Inr (BSleep b, s) else Inr (BGot b, bupd b (\<lambda>f. f\<lparr>b_busy := True\<rparr>) s)
    | None \<Rightarrow> (case find (\<lambda>b. \<not> b_busy (bufs s b)) (rev L) of
        Some b \<Rightarrow> Inr (BGot b, bupd b (\<lambda>f. f\<lparr>b_dev := dev, b_sector := sec, b_busy := True, b_valid := False, b_dirty := False\<rparr>) s)
      | None \<Rightarrow> Inl (Panic ''bget: no buffers''))) \<and>
    (\<exists>s'. brelse b s = Inr s' \<and> ring s' (b # remove1 b L))"
  using bget_eq [OF assms(1)] brelse_eq [OF assms] by blast

lemma bget_recycles_lru_example:
  "\<exists>s s'. ring s (rev [1..<NBUF + 1]) \<and> bget 0 5 s = Some (Inr (BGot 1, s')) \<and> (\<exists>t. brelse 3 s = Inr t)"
proof -
  define s where "s = bupd 3 (\<lambda>f. f\<lparr>b_busy := True\<rparr>) (binit disk0)"
  have r: "ring s (rev [1..<NBUF + 1])" using binit_inv [OF disk0_idle] by (simp add: s_def bc_inv_def)
  have b: "bufs s b = (if 1 \<le> b \<and> b \<le> NBUF then (bufs disk0 b)\<lparr>b_dev := NODEV, b_busy := b = 3\<rparr> else bufs disk0 b)" for b
    by (simp add: s_def disk0_fields disk0_at NBUF_def)
  have "3 \<in> set (rev [1..<NBUF + 1])" "b_busy (bufs s 3)" by (simp_all add: b NBUF_def)
  note l = bget_recycles_lru [OF r this, where dev = 0 and sec = 5]
  have "find (\<lambda>b. b_dev (bufs s b) = 0 \<and> b_sector (bufs s b) = 5) (rev [1..<NBUF + 1]) = None"
    by (simp add: find_None_iff b NODEV_def NBUF_def)
  moreover have "[1..<NBUF + 1] = 1 # [2..<NBUF + 1]" by (simp add: NBUF_def upt_conv_Cons)
  then have "find (\<lambda>b. \<not> b_busy (bufs s b)) (rev (rev [1..<NBUF + 1])) = Some 1"
    by (simp add: b NBUF_def disk0_at)
  ultimately show ?thesis using l r by auto
qed

section \<open>The cache as a block device\<close>

text \<open>The ways in which fs.c uses the cache: read a block and release it; store into it, write it, release it.\<close>

definition blk_read :: "nat \<Rightarrow> nat \<Rightarrow> bcache \<Rightarrow> (sector \<times> bcache) option" where
  "blk_read dev sec s =
     (case bread_buf dev sec s of
        Some (Inr (BGot b, s1)) \<Rightarrow> (case brelse b s1 of Inr s2 \<Rightarrow> Some (b_data (bufs s1 b), s2) | Inl _ \<Rightarrow> None)
      | _ \<Rightarrow> None)"

definition blk_write :: "nat \<Rightarrow> nat \<Rightarrow> sector \<Rightarrow> bcache \<Rightarrow> bcache option" where
  "blk_write dev sec v s =
     (case bread_buf dev sec s of
        Some (Inr (BGot b, s1)) \<Rightarrow>
          (case bwrite_buf b (bupd b (\<lambda>f. f\<lparr>b_data := v\<rparr>) s1) of
             Some (Inr s2) \<Rightarrow> (case brelse b s2 of Inr s3 \<Rightarrow> Some s3 | Inl _ \<Rightarrow> None)
           | _ \<Rightarrow> None)
      | _ \<Rightarrow> None)"

definition all_free :: "bcache \<Rightarrow> bool" where
  "all_free s \<longleftrightarrow> (\<exists>L. bc_inv s [] L \<and> (\<forall>b \<in> set L. \<not> b_busy (bufs s b)))"

lemma iderw_inv:
  assumes i: "bc_data s [b] L" "ring s L" "set L = {1..NBUF}" "ide_inv s []" and b: "b \<in> set L" "ready s b"
  shows "\<exists>s'. iderw b s = Some (Inr s') \<and> bc_inv s' [] L \<and> bufs s' = bufs (serve b s) \<and> hdisk s' = hdisk (serve b s) \<and>
    havedisk1 s' = havedisk1 s"
proof -
  obtain h q p where s': "iderw b s = Some (Inr ((serve b s)\<lparr>idequeue := h, qnext := q, port := p\<rparr>))"
    "ide_inv ((serve b s)\<lparr>idequeue := h, qnext := q, port := p\<rparr>) []"
    using iderw_spec [OF i(4) b(2)] by blast
  let ?s = "(serve b s)\<lparr>idequeue := h, qnext := q, port := p\<rparr>"
  have "bc_data (serve b s) [] L" using serve_data [OF i(1) b(1)] b(2) by (simp add: ready_def)
  then have "bc_data ?s [] L" using bc_data_cong [of "serve b s" ?s L L "[]"] by simp
  moreover have "ring ?s L" using i(2) by (simp add: ring_def serve_def Let_def)
  ultimately have "bc_inv ?s [] L" using s'(2) i(3) by (simp add: bc_inv_def)
  then show ?thesis using s'(1) by (intro exI [of _ ?s]) (simp add: serve_simps)
qed

lemma bread_buf_spec:
  assumes i: "bc_inv s [] L" and free: "\<forall>b \<in> set L. \<not> b_busy (bufs s b)" and k: "key_ok s dev sec"
  shows "\<exists>b s'. bread_buf dev sec s = Some (Inr (BGot b, s')) \<and> bc_inv s' [] L \<and> b \<in> set L \<and> b_busy (bufs s' b) \<and> clean s' b \<and>
    b_data (bufs s' b) = hdisk s dev sec \<and> buf_key s' b = (dev, sec) \<and> hdisk s' = hdisk s \<and> havedisk1 s' = havedisk1 s \<and>
    (\<forall>c \<in> set L. c \<noteq> b \<longrightarrow> \<not> b_busy (bufs s' c))"
proof -
  have L: "set L = {1..NBUF}" using i by (simp add: bc_inv_def)
  obtain b s1 where s1: "bget dev sec s = Some (Inr (BGot b, s1))" "bc_inv s1 [] L" "holds s1 [] b dev sec" "hdisk s1 = hdisk s"
    "havedisk1 s1 = havedisk1 s" "\<forall>c. c \<noteq> b \<longrightarrow> bufs s1 c = bufs s c"
    using bget_free [OF i k free] by blast
  then have b: "b \<in> set L" "b_busy (bufs s1 b)" "\<not> b_dirty (bufs s1 b)" "buf_key s1 b = (dev, sec)"
    using L by (auto simp: holds_def)
  have others: "\<forall>c \<in> set L. c \<noteq> b \<longrightarrow> \<not> b_busy (bufs s1 c)" using s1(6) free by simp
  show ?thesis
  proof (cases "b_valid (bufs s1 b)")
    case True
    then have "bread_buf dev sec s = Some (Inr (BGot b, s1))" using s1(1) by (simp add: bread_buf_def)
    moreover have "clean s1 b" using True b(3) by (simp add: clean_def)
    ultimately show ?thesis using bc_inv_buf(5) [OF s1(2) b(1)] s1 b others
      by (intro exI [of _ b] exI [of _ s1]) (simp add: buf_key_def)
  next
    case False
    have k1: "key_ok s1 dev sec" using k s1(5) by (simp add: key_ok_def)
    have rd: "ready s1 b" using b False k1 bc_inv_buf(1) [OF s1(2) b(1)] by (auto simp: ready_def key_ok_def buf_key_def)
    have "bc_data s1 [b] L" "ring s1 L" "ide_inv s1 []" using s1(2) bc_data_mono [of s1 "[]" L "[b]"] by (auto simp: bc_inv_def)
    then obtain s2 where s2: "iderw b s1 = Some (Inr s2)" "bc_inv s2 [] L" "bufs s2 = bufs (serve b s1)" "hdisk s2 = hdisk (serve b s1)"
      "havedisk1 s2 = havedisk1 s1" using iderw_inv [OF _ _ L _ b(1) rd] by blast
    have "bread_buf dev sec s = Some (Inr (BGot b, s2))" using s1(1) s2(1) False by (simp add: bread_buf_def)
    moreover have h: "hdisk s2 = hdisk s" using s2(4) b(3) s1(4) by (simp add: serve_def Let_def)
    moreover have c: "clean s2 b" using s2(3) by (simp add: clean_def serve_simps)
    moreover have "buf_key s2 b = (dev, sec)" "b_busy (bufs s2 b)" "\<forall>c \<in> set L. c \<noteq> b \<longrightarrow> \<not> b_busy (bufs s2 c)"
      using b others unfolding buf_key_def s2(3) by (simp_all add: serve_key)
    ultimately show ?thesis using bc_inv_buf(5) [OF s2(2) b(1)] s2(2,5) s1(5) b(1)
      by (intro exI [of _ b] exI [of _ s2]) (simp add: buf_key_def)
  qed
qed

lemma release_free:
  assumes "bc_inv s [] L" "b \<in> set L" "b_busy (bufs s b)" "clean s b" "\<forall>c \<in> set L. c \<noteq> b \<longrightarrow> \<not> b_busy (bufs s c)"
  shows "\<exists>s'. brelse b s = Inr s' \<and> all_free s' \<and> hdisk s' = hdisk s \<and> havedisk1 s' = havedisk1 s"
proof -
  obtain s' where s': "brelse b s = Inr s'" "bc_inv s' [] (b # remove1 b L)" "hdisk s' = hdisk s" "havedisk1 s' = havedisk1 s"
    "bufs s' = (bufs s)(b := (bufs s b)\<lparr>b_busy := False\<rparr>)" using brelse_inv [OF assms(1-4)] by blast
  have "\<forall>c \<in> set (b # remove1 b L). \<not> b_busy (bufs s' c)"
    using assms(5) s'(5) by (auto dest: in_set_remove1 [THEN iffD1, rotated] set_remove1_subset [THEN subsetD])
  then show ?thesis using s' unfolding all_free_def by blast
qed

lemma blk_read_spec:
  assumes "all_free s" "key_ok s dev sec"
  shows "\<exists>s'. blk_read dev sec s = Some (hdisk s dev sec, s') \<and> all_free s' \<and> hdisk s' = hdisk s \<and> havedisk1 s' = havedisk1 s"
proof -
  obtain L where L: "bc_inv s [] L" "\<forall>b \<in> set L. \<not> b_busy (bufs s b)" using assms(1) by (auto simp: all_free_def)
  obtain b s1 where s1: "bread_buf dev sec s = Some (Inr (BGot b, s1))" "bc_inv s1 [] L" "b \<in> set L" "b_busy (bufs s1 b)" "clean s1 b"
    "b_data (bufs s1 b) = hdisk s dev sec" "hdisk s1 = hdisk s" "havedisk1 s1 = havedisk1 s" "\<forall>c \<in> set L. c \<noteq> b \<longrightarrow> \<not> b_busy (bufs s1 c)"
    using bread_buf_spec [OF L assms(2)] by blast
  obtain s2 where "brelse b s1 = Inr s2" "all_free s2" "hdisk s2 = hdisk s1" "havedisk1 s2 = havedisk1 s1"
    using release_free [OF s1(2-5,9)] by blast
  then show ?thesis using s1 by (simp add: blk_read_def)
qed

lemma blk_write_spec:
  assumes "all_free s" "key_ok s dev sec"
  shows "\<exists>s'. blk_write dev sec v s = Some s' \<and> all_free s' \<and> hdisk s' = (hdisk s)(dev := (hdisk s dev)(sec := v)) \<and>
    havedisk1 s' = havedisk1 s"
proof -
  obtain L where L: "bc_inv s [] L" "\<forall>b \<in> set L. \<not> b_busy (bufs s b)" using assms(1) by (auto simp: all_free_def)
  obtain b s1 where s1: "bread_buf dev sec s = Some (Inr (BGot b, s1))" "bc_inv s1 [] L" "b \<in> set L" "b_busy (bufs s1 b)" "clean s1 b"
    "buf_key s1 b = (dev, sec)" "hdisk s1 = hdisk s" "havedisk1 s1 = havedisk1 s" "\<forall>c \<in> set L. c \<noteq> b \<longrightarrow> \<not> b_busy (bufs s1 c)"
    using bread_buf_spec [OF L assms(2)] by blast
  let ?s = "set_dirty b (bupd b (\<lambda>f. f\<lparr>b_data := v\<rparr>) s1)"
  note st = store_inv [of s1 "[]" L b ?s v, OF s1(2,3,4,5) refl]
  have "bc_data ?s [b] L" using st(3) by simp
  then obtain s2 where s2: "iderw b ?s = Some (Inr s2)" "bc_inv s2 [] L" "bufs s2 = bufs (serve b ?s)" "hdisk s2 = hdisk (serve b ?s)"
    "havedisk1 s2 = havedisk1 ?s"
    using iderw_inv [OF _ st(4) _ st(2) s1(3) st(5)] s1(2) unfolding bc_inv_def by blast
  have m: "dev mod 2 = dev" "sec mod 2 ^ 28 = sec" using key_ok_mod [OF assms(2)] by simp_all
  have "b_dirty (bufs ?s b)" "b_dev (bufs ?s b) = dev" "b_sector (bufs ?s b) = sec" "b_data (bufs ?s b) = v"
    using s1(6) unfolding st(6) by (simp_all add: buf_key_def)
  then have h: "hdisk s2 = (hdisk s)(dev := (hdisk s dev)(sec := v))"
    unfolding s2(4) using m st(7) s1(7) by (simp add: serve_def Let_def)
  have "b_busy (bufs s2 b)" "\<forall>c \<in> set L. c \<noteq> b \<longrightarrow> \<not> b_busy (bufs s2 c)" "clean s2 b"
    using s1(4,9) unfolding s2(3) clean_def by (simp_all add: serve_key serve_simps) (simp_all add: st(6))
  then obtain s3 where "brelse b s2 = Inr s3" "all_free s3" "hdisk s3 = hdisk s2" "havedisk1 s3 = havedisk1 s2"
    using release_free [OF s2(2) s1(3)] by blast
  moreover have "bwrite_buf b (bupd b (\<lambda>f. f\<lparr>b_data := v\<rparr>) s1) = Some (Inr s2)"
    using s2(1) s1(4) by (simp add: bwrite_buf_def)
  ultimately show ?thesis using s1(1,8) s2(5) st(8) h by (simp add: blk_write_def)
qed

interpretation bio: block_device all_free key_ok hdisk blk_read blk_write
proof unfold_locales
  fix s dev sec assume a: "all_free s" "key_ok s dev sec"
  have k: "key_ok s' = key_ok s" if "havedisk1 s' = havedisk1 s" for s' using that by (simp add: key_ok_def fun_eq_iff)
  show "\<exists>s'. blk_read dev sec s = Some (hdisk s dev sec, s') \<and> all_free s' \<and> hdisk s' = hdisk s \<and> key_ok s' = key_ok s"
    using blk_read_spec [OF a] k by blast
  show "\<exists>s'. blk_write dev sec v s = Some s' \<and> all_free s' \<and> hdisk s' = (hdisk s)(dev := (hdisk s dev)(sec := v)) \<and>
      key_ok s' = key_ok s" for v
    using blk_write_spec [OF a] k by blast
qed

text \<open>C11: The cache is transparent. A process that has the cache to itself reads and writes blocks, in
  any order, through \<open>bread\<close>, \<open>bwrite\<close> and \<open>brelse\<close>: every call returns, the reads deliver what a plain
  array of blocks would, the disk holds that array at the end, and no buffer stays locked.\<close>

theorem bio_transparent:
  assumes "all_free s" and "\<forall>x \<in> set ops. key_ok s (fst (op_key x)) (snd (op_key x))"
  shows "\<exists>s'. dev_run blk_read blk_write ops s = Some (fst (flat_run ops (hdisk s)), s') \<and> all_free s' \<and>
    hdisk s' = snd (flat_run ops (hdisk s))"
  using bio.run_flat [OF assms] by blast

theorem bio_transparent_witness:
  "\<exists>s'. dev_run blk_read blk_write [WriteB 0 3 [9], ReadB 0 4, ReadB 0 3] (binit disk0) = Some ([[4], [9]], s') \<and> all_free s'"
proof -
  have "all_free (binit disk0)" unfolding all_free_def using binit_inv [OF disk0_idle]
    by (intro exI [of _ "rev [1..<NBUF + 1]"]) (simp add: disk0_fields disk0_at)
  moreover have "\<forall>x \<in> set [WriteB 0 3 [9], ReadB 0 4, ReadB 0 3]. key_ok (binit disk0) (fst (op_key x)) (snd (op_key x))"
    by (simp add: key_ok_def)
  ultimately show ?thesis using bio_transparent [of "binit disk0" "[WriteB 0 3 [9], ReadB 0 4, ReadB 0 3]"]
    by (auto simp: disk0_fields disk0_at)
qed

end
