(* ===== verification/Spinlock.thy ===== *)
theory Spinlock
  imports Prelude
begin

text \<open>
  Kernel spin locks, kernel/spinlock.c. Several CPUs work on several locks; a step is one atomic
  action of one CPU, so \<open>acquire\<close> is three steps (up to the loop, one \<open>xchg\<close>, the recording of the
  owner) and \<open>release\<close> two. The call stacks kept for debugging are left out.
\<close>

section \<open>Interrupts\<close>

record cpust =
  ncli :: int
  intena :: bool
  flIF :: bool

definition pushcli :: "cpust \<Rightarrow> cpust" where
  "pushcli c =
     (let e = flIF c; c1 = c\<lparr>flIF := False\<rparr>; n = ncli c1; c2 = c1\<lparr>ncli := n + 1\<rparr>
      in if n = 0 then c2\<lparr>intena := e\<rparr> else c2)"

definition popcli :: "cpust \<Rightarrow> kerror + cpust" where
  "popcli c =
     (if flIF c then Inl (Panic ''popcli - interruptible'')
      else let c1 = c\<lparr>ncli := ncli c - 1\<rparr> in
        if ncli c1 < 0 then Inl (Panic ''popcli'')
        else Inr (if ncli c1 = 0 \<and> intena c1 then c1\<lparr>flIF := True\<rparr> else c1))"

section \<open>Locks\<close>

record spinlock =
  locked :: bool
  lcpu :: "nat option"

definition initlock :: spinlock where "initlock = \<lparr>locked = False, lcpu = None\<rparr>"

definition holding :: "nat \<Rightarrow> spinlock \<Rightarrow> bool" where
  "holding me l \<longleftrightarrow> locked l \<and> lcpu l = Some me"

text \<open>The old value and the lock with the new one.\<close>

definition xchg :: "bool \<Rightarrow> spinlock \<Rightarrow> bool \<times> spinlock" where
  "xchg v l = (locked l, l\<lparr>locked := v\<rparr>)"

datatype sp_pc = Runs | Acquiring nat | Taken nat | Releasing nat

record spsys =
  cpus :: "nat \<Rightarrow> cpust"
  lks :: "nat \<Rightarrow> spinlock"
  pc :: "nat \<Rightarrow> sp_pc"

definition acquire_begin :: "nat \<Rightarrow> nat \<Rightarrow> spsys \<Rightarrow> kerror + spsys" where
  "acquire_begin me l s =
     (let s1 = s\<lparr>cpus := (cpus s)(me := pushcli (cpus s me))\<rparr>
      in if holding me (lks s1 l) then Inl (Panic ''acquire'') else Inr (s1\<lparr>pc := (pc s1)(me := Acquiring l)\<rparr>))"

definition acquire_xchg :: "nat \<Rightarrow> nat \<Rightarrow> spsys \<Rightarrow> spsys" where
  "acquire_xchg me l s =
     (let (old, lk) = xchg True (lks s l); s1 = s\<lparr>lks := (lks s)(l := lk)\<rparr>
      in if old then s1 else s1\<lparr>pc := (pc s1)(me := Taken l)\<rparr>)"

definition acquire_end :: "nat \<Rightarrow> nat \<Rightarrow> spsys \<Rightarrow> spsys" where
  "acquire_end me l s = s\<lparr>lks := (lks s)(l := (lks s l)\<lparr>lcpu := Some me\<rparr>), pc := (pc s)(me := Runs)\<rparr>"

definition release_begin :: "nat \<Rightarrow> nat \<Rightarrow> spsys \<Rightarrow> kerror + spsys" where
  "release_begin me l s =
     (if \<not> holding me (lks s l) then Inl (Panic ''release'')
      else Inr (s\<lparr>lks := (lks s)(l := (lks s l)\<lparr>lcpu := None\<rparr>), pc := (pc s)(me := Releasing l)\<rparr>))"

definition release_end :: "nat \<Rightarrow> nat \<Rightarrow> spsys \<Rightarrow> kerror + spsys" where
  "release_end me l s =
     (let (_, lk) = xchg False (lks s l); s1 = s\<lparr>lks := (lks s)(l := lk)\<rparr>
      in bindE (popcli (cpus s1 me)) (\<lambda>c. Inr (s1\<lparr>cpus := (cpus s1)(me := c), pc := (pc s1)(me := Runs)\<rparr>)))"

section \<open>The system of CPUs\<close>

text \<open>Beside the locks a CPU calls \<open>pushcli\<close> and \<open>popcli\<close> in pairs, and \<open>sti\<close> or \<open>cli\<close> outside of
  them. Two counts go along with the state: the open \<open>pushcli\<close> calls of each CPU, and the interrupt
  flag it had before the first one. Locks are numbered below \<open>M\<close>.\<close>

record spghost = spsys +
  opened :: "nat \<Rightarrow> nat"
  before :: "nat \<Rightarrow> bool"

definition on_cpu :: "nat \<Rightarrow> cpust \<Rightarrow> spghost \<Rightarrow> spghost" where
  "on_cpu me c s = s\<lparr>cpus := (cpus s)(me := c)\<rparr>"

definition put_sys :: "spsys \<Rightarrow> spghost \<Rightarrow> spghost" where
  "put_sys t s = s\<lparr>cpus := cpus t, lks := lks t, pc := pc t\<rparr>"

definition sys :: "spghost \<Rightarrow> spsys" where
  "sys s = \<lparr>cpus = cpus s, lks = lks s, pc = pc s\<rparr>"

inductive spstep :: "nat \<Rightarrow> spghost \<Rightarrow> spghost \<Rightarrow> bool" for M where
  sp_acquire: "pc s me = Runs \<Longrightarrow> l < M \<Longrightarrow> acquire_begin me l (sys s) = Inr t \<Longrightarrow> spstep M s (put_sys t s)"
| sp_xchg: "pc s me = Acquiring l \<Longrightarrow> spstep M s (put_sys (acquire_xchg me l (sys s)) s)"
| sp_acquired: "pc s me = Taken l \<Longrightarrow> spstep M s (put_sys (acquire_end me l (sys s)) s)"
| sp_release: "pc s me = Runs \<Longrightarrow> l < M \<Longrightarrow> release_begin me l (sys s) = Inr t \<Longrightarrow> spstep M s (put_sys t s)"
| sp_released: "pc s me = Releasing l \<Longrightarrow> release_end me l (sys s) = Inr t \<Longrightarrow> spstep M s (put_sys t s)"
| sp_push: "pc s me = Runs \<Longrightarrow>
    spstep M s ((on_cpu me (pushcli (cpus s me)) s)\<lparr>opened := (opened s)(me := opened s me + 1)\<rparr>)"
| sp_pop: "pc s me = Runs \<Longrightarrow> 0 < opened s me \<Longrightarrow> popcli (cpus s me) = Inr c \<Longrightarrow>
    spstep M s ((on_cpu me c s)\<lparr>opened := (opened s)(me := opened s me - 1)\<rparr>)"
| sp_flag: "pc s me = Runs \<Longrightarrow> ncli (cpus s me) = 0 \<Longrightarrow>
    spstep M s ((on_cpu me ((cpus s me)\<lparr>flIF := b\<rparr>) s)\<lparr>before := (before s)(me := b)\<rparr>)"

definition spboot :: "spghost \<Rightarrow> bool" where
  "spboot s \<longleftrightarrow> (\<forall>c. ncli (cpus s c) = 0 \<and> opened s c = 0 \<and> before s c = flIF (cpus s c) \<and> pc s c = Runs) \<and> (\<forall>l. lks s l = initlock)"

definition owned :: "nat \<Rightarrow> spghost \<Rightarrow> nat \<Rightarrow> nat set" where
  "owned M s me = {l. l < M \<and> lcpu (lks s l) = Some me}"

text \<open>The lock that a CPU is taking or giving back.\<close>

definition busy_with :: "spghost \<Rightarrow> nat \<Rightarrow> nat \<Rightarrow> bool" where
  "busy_with s me l \<longleftrightarrow> pc s me = Taken l \<or> pc s me = Releasing l"

definition sp_depth :: "nat \<Rightarrow> spghost \<Rightarrow> nat \<Rightarrow> nat" where
  "sp_depth M s me = card (owned M s me) + opened s me + (if pc s me = Runs then 0 else 1)"

definition cpu_ok :: "cpust \<Rightarrow> nat \<Rightarrow> bool \<Rightarrow> bool" where
  "cpu_ok c n b \<longleftrightarrow> ncli c = int n \<and> (0 < n \<longrightarrow> \<not> flIF c \<and> intena c = b) \<and> (n = 0 \<longrightarrow> flIF c = b)"

definition sp_inv :: "nat \<Rightarrow> spghost \<Rightarrow> bool" where
  "sp_inv M s \<longleftrightarrow> (\<forall>me. cpu_ok (cpus s me) (sp_depth M s me) (before s me)) \<and>
     (\<forall>l. lcpu (lks s l) \<noteq> None \<longrightarrow> locked (lks s l)) \<and>
     (\<forall>me l. busy_with s me l \<longrightarrow> locked (lks s l) \<and> lcpu (lks s l) = None) \<and>
     (\<forall>me you l. busy_with s me l \<and> busy_with s you l \<longrightarrow> me = you) \<and>
     (\<forall>me l. pc s me \<in> {Acquiring l, Taken l, Releasing l} \<longrightarrow> l < M)"

lemma push_ok: "cpu_ok c n b \<Longrightarrow> cpu_ok (pushcli c) (Suc n) b"
  by (auto simp: cpu_ok_def pushcli_def Let_def)

lemma pop_ok: "cpu_ok c (Suc n) b \<Longrightarrow> \<exists>c'. popcli c = Inr c' \<and> cpu_ok c' n b"
  by (auto simp: cpu_ok_def popcli_def Let_def)

lemma finite_owned [simp]: "finite (owned M s me)"
  by (simp add: owned_def)

lemma owned_eq: "(\<And>l. lcpu (lks t l) = lcpu (lks s l)) \<Longrightarrow> owned M t me = owned M s me"
  by (simp add: owned_def)

lemma sys_simps [simp]:
  "cpus (sys s) = cpus s" "lks (sys s) = lks s" "pc (sys s) = pc s"
  "cpus (put_sys t s) = cpus t" "lks (put_sys t s) = lks t" "pc (put_sys t s) = pc t"
  "opened (put_sys t s) = opened s" "before (put_sys t s) = before s"
  "cpus (on_cpu me c s) = (cpus s)(me := c)" "lks (on_cpu me c s) = lks s" "pc (on_cpu me c s) = pc s"
  "opened (on_cpu me c s) = opened s" "before (on_cpu me c s) = before s"
  by (simp_all add: sys_def put_sys_def on_cpu_def)

text \<open>A step of one CPU: its own count and flag, and what it does to one lock.\<close>

lemma sp_inv_step:
  assumes i: "sp_inv M s" and o: "\<forall>c. c \<noteq> me \<longrightarrow> cpus t c = cpus s c \<and> pc t c = pc s c \<and> opened t c = opened s c \<and> before t c = before s c \<and>
      owned M t c = owned M s c"
    and me: "cpu_ok (cpus t me) (sp_depth M t me) (before t me)" and l: "\<forall>k. k \<noteq> l \<longrightarrow> lks t k = lks s k"
    and ol: "lcpu (lks t l) \<noteq> None \<longrightarrow> locked (lks t l)"
    and bl: "\<forall>c. busy_with t c l \<longrightarrow> locked (lks t l) \<and> lcpu (lks t l) = None \<and> c = me \<or> c \<noteq> me \<and> lks t l = lks s l \<and> \<not> busy_with t me l"
    and bm: "\<forall>k. busy_with t me k \<longrightarrow> k = l" and bd: "\<forall>k. pc t me \<in> {Acquiring k, Taken k, Releasing k} \<longrightarrow> k < M"
  shows "sp_inv M t"
proof -
  have b: "busy_with t c k = busy_with s c k" if "c \<noteq> me" for c k using o that by (simp add: busy_with_def)
  have d: "sp_depth M t c = sp_depth M s c" if "c \<noteq> me" for c using o that by (simp add: sp_depth_def)
  have "cpu_ok (cpus t c) (sp_depth M t c) (before t c)" for c
    using me i o d [of c] by (cases "c = me") (auto simp: sp_inv_def)
  moreover have "lcpu (lks t k) \<noteq> None \<longrightarrow> locked (lks t k)" for k
    using ol l i by (cases "k = l") (auto simp: sp_inv_def)
  moreover have "busy_with t c k \<longrightarrow> locked (lks t k) \<and> lcpu (lks t k) = None" for c k
  proof (cases "k = l")
    case True
    then show ?thesis using bl b [of c k] i unfolding sp_inv_def by metis
  next
    case False
    then have "c \<noteq> me \<or> \<not> busy_with t c k" using bm by blast
    then show ?thesis using l False b [of c k] i unfolding sp_inv_def by metis
  qed
  moreover have "c = c'" if "busy_with t c k" "busy_with t c' k" for c c' k
  proof (cases "c = me \<or> c' = me")
    case True
    then have "k = l" using bm that by blast
    then show ?thesis using bl that True by metis
  next
    case False
    then show ?thesis using b that i unfolding sp_inv_def by metis
  qed
  moreover have "k < M" if "pc t c \<in> {Acquiring k, Taken k, Releasing k}" for c k
    using bd o that i unfolding sp_inv_def by (cases "c = me") auto
  ultimately show ?thesis unfolding sp_inv_def by blast
qed

lemma sp_cpu: "sp_inv M s \<Longrightarrow> cpu_ok (cpus s c) (sp_depth M s c) (before s c)"
  by (simp add: sp_inv_def)

lemma sp_locked: "sp_inv M s \<Longrightarrow> lcpu (lks s l) = Some c \<Longrightarrow> locked (lks s l)"
  by (auto simp: sp_inv_def)

lemma sp_busy: "sp_inv M s \<Longrightarrow> busy_with s c l \<Longrightarrow> locked (lks s l) \<and> lcpu (lks s l) = None"
  unfolding sp_inv_def by blast

lemma sp_alone: "sp_inv M s \<Longrightarrow> busy_with s c l \<Longrightarrow> busy_with s c' l \<Longrightarrow> c = c'"
  unfolding sp_inv_def by blast

lemma sp_bound: "sp_inv M s \<Longrightarrow> pc s c \<in> {Acquiring l, Taken l, Releasing l} \<Longrightarrow> l < M"
  unfolding sp_inv_def by blast

lemma busy_pc: "pc s c = Runs \<Longrightarrow> \<not> busy_with s c l" "pc s c = Acquiring k \<Longrightarrow> \<not> busy_with s c l"
  "pc s c = Taken k \<Longrightarrow> busy_with s c l \<longleftrightarrow> l = k" "pc s c = Releasing k \<Longrightarrow> busy_with s c l \<longleftrightarrow> l = k"
  by (auto simp: busy_with_def)

lemma cpu_inv:
  assumes i: "sp_inv M s" and r: "pc s me = Runs"
    and t: "\<forall>c. c \<noteq> me \<longrightarrow> cpus t c = cpus s c \<and> opened t c = opened s c \<and> before t c = before s c" "\<forall>c. c \<noteq> me \<longrightarrow> pc t c = pc s c"
      "lks t = lks s" "pc t me \<in> {Runs} \<union> Acquiring ` {..<M}" "cpu_ok (cpus t me) (sp_depth M t me) (before t me)"
  shows "sp_inv M t"
proof (rule sp_inv_step [OF i, of me t "case pc t me of Acquiring l \<Rightarrow> l | _ \<Rightarrow> 0"])
  have nb: "\<not> busy_with t me k" for k using t(4) busy_pc(1,2) by (cases "pc t me") auto
  show "\<forall>c. busy_with t c (case pc t me of Acquiring l \<Rightarrow> l | _ \<Rightarrow> 0) \<longrightarrow>
      locked (lks t (case pc t me of Acquiring l \<Rightarrow> l | _ \<Rightarrow> 0)) \<and> lcpu (lks t (case pc t me of Acquiring l \<Rightarrow> l | _ \<Rightarrow> 0)) = None \<and> c = me \<or>
      c \<noteq> me \<and> lks t (case pc t me of Acquiring l \<Rightarrow> l | _ \<Rightarrow> 0) = lks s (case pc t me of Acquiring l \<Rightarrow> l | _ \<Rightarrow> 0) \<and>
      \<not> busy_with t me (case pc t me of Acquiring l \<Rightarrow> l | _ \<Rightarrow> 0)" using nb t(3) by metis
  show "lcpu (lks t (case pc t me of Acquiring l \<Rightarrow> l | _ \<Rightarrow> 0)) \<noteq> None \<longrightarrow> locked (lks t (case pc t me of Acquiring l \<Rightarrow> l | _ \<Rightarrow> 0))"
    using i t(3) by (simp add: sp_inv_def)
qed (use t busy_pc(1,2) in \<open>auto simp: owned_def busy_with_def\<close>)

lemma xchg_inv:
  assumes i: "sp_inv M s" and p: "pc s me = Acquiring l"
  shows "sp_inv M (put_sys (acquire_xchg me l (sys s)) s)"
proof (cases "locked (lks s l)")
  case True
  have "(lks s)(l := (lks s l)\<lparr>locked := True\<rparr>) = lks s" using True by (auto simp: fun_eq_iff)
  then have "put_sys (acquire_xchg me l (sys s)) s = s"
    using True by (simp add: acquire_xchg_def xchg_def put_sys_def)
  then show ?thesis using i by simp
next
  case False
  define t where "t = put_sys (acquire_xchg me l (sys s)) s"
  have t: "cpus t = cpus s" "lks t = (lks s)(l := (lks s l)\<lparr>locked := True\<rparr>)" "pc t = (pc s)(me := Taken l)" "opened t = opened s" "before t = before s"
    using False by (simp_all add: t_def acquire_xchg_def xchg_def)
  have none: "lcpu (lks s l) = None" using False i sp_locked by (cases "lcpu (lks s l)") auto
  have ow: "owned M t c = owned M s c" for c using none t by (auto simp: owned_def)
  have "sp_inv M t"
  proof (rule sp_inv_step [OF i, of me t l])
    show "cpu_ok (cpus t me) (sp_depth M t me) (before t me)" using sp_cpu [OF i, of me] p t ow by (simp add: sp_depth_def)
    show "\<forall>c. busy_with t c l \<longrightarrow> locked (lks t l) \<and> lcpu (lks t l) = None \<and> c = me \<or> c \<noteq> me \<and> lks t l = lks s l \<and> \<not> busy_with t me l"
    proof (intro allI impI)
      fix c assume b: "busy_with t c l"
      have "c = me"
      proof (rule ccontr)
        assume "c \<noteq> me"
        then have "busy_with s c l" using b t by (simp add: busy_with_def)
        then show False using sp_busy [OF i] False by blast
      qed
      then show "locked (lks t l) \<and> lcpu (lks t l) = None \<and> c = me \<or> c \<noteq> me \<and> lks t l = lks s l \<and> \<not> busy_with t me l"
        using t none by simp
    qed
    show "\<forall>k. pc t me \<in> {Acquiring k, Taken k, Releasing k} \<longrightarrow> k < M" using sp_bound [OF i, of me l] p t by auto
  qed (use t ow none in \<open>auto simp: busy_with_def\<close>)
  then show ?thesis by (simp add: t_def)
qed

lemma alone_cases:
  assumes "sp_inv M s" "busy_with s me l" "\<forall>c. c \<noteq> me \<longrightarrow> pc t c = pc s c" "pc t me = Runs"
  shows "\<not> busy_with t c l"
proof (cases "c = me")
  case False
  then have "busy_with t c l = busy_with s c l" using assms(3) by (simp add: busy_with_def)
  then show ?thesis using sp_alone [OF assms(1,2)] False by blast
qed (use assms(4) in \<open>simp add: busy_with_def\<close>)

lemma acquired_inv:
  assumes i: "sp_inv M s" and p: "pc s me = Taken l"
  shows "sp_inv M (put_sys (acquire_end me l (sys s)) s)"
proof -
  define t where "t = put_sys (acquire_end me l (sys s)) s"
  have t: "cpus t = cpus s" "lks t = (lks s)(l := (lks s l)\<lparr>lcpu := Some me\<rparr>)" "pc t = (pc s)(me := Runs)" "opened t = opened s" "before t = before s"
    by (simp_all add: t_def acquire_end_def)
  have b: "busy_with s me l" using p by (simp add: busy_pc)
  note lb = sp_busy [OF i b] and lM = sp_bound [OF i, of me l]
  have ow: "owned M t me = insert l (owned M s me)" "l \<notin> owned M s me" "\<forall>c. c \<noteq> me \<longrightarrow> owned M t c = owned M s c"
    using lb lM p t by (auto simp: owned_def)
  have "\<forall>c. \<not> busy_with t c l" using alone_cases [OF i b, of t] t by simp
  moreover have "cpu_ok (cpus t me) (sp_depth M t me) (before t me)"
    using sp_cpu [OF i, of me] p t ow by (simp add: sp_depth_def)
  ultimately have "sp_inv M t"
    by (intro sp_inv_step [OF i, of me t l]) (use t ow lb in \<open>auto simp: busy_with_def\<close>)
  then show ?thesis by (simp add: t_def)
qed

lemma release_inv:
  assumes i: "sp_inv M s" and p: "pc s me = Runs" "l < M" "release_begin me l (sys s) = Inr u"
  shows "sp_inv M (put_sys u s)"
proof -
  define t where "t = put_sys u s"
  have h: "holding me (lks s l)" using p(3) by (auto simp: release_begin_def split: if_splits)
  have t: "cpus t = cpus s" "lks t = (lks s)(l := (lks s l)\<lparr>lcpu := None\<rparr>)" "pc t = (pc s)(me := Releasing l)" "opened t = opened s" "before t = before s"
    using p(3) h by (auto simp: t_def release_begin_def)
  have hb: "locked (lks s l)" "lcpu (lks s l) = Some me" using h by (auto simp: holding_def)
  have ow: "owned M s me = insert l (owned M t me)" "l \<notin> owned M t me" "\<forall>c. c \<noteq> me \<longrightarrow> owned M t c = owned M s c"
    using hb p t by (auto simp: owned_def)
  have nb: "\<not> busy_with s c l" for c using sp_busy [OF i, of c l] hb by auto
  have "cpu_ok (cpus t me) (sp_depth M t me) (before t me)"
    using sp_cpu [OF i, of me] p t ow by (simp add: sp_depth_def)
  then have "sp_inv M t"
    by (intro sp_inv_step [OF i, of me t l]) (use t ow hb nb p in \<open>auto simp: busy_with_def split: if_splits\<close>)
  then show ?thesis by (simp add: t_def)
qed

lemma released_ok:
  assumes i: "sp_inv M s" and p: "pc s me = Releasing l"
  shows "\<exists>u. release_end me l (sys s) = Inr u \<and> sp_inv M (put_sys u s)"
proof -
  have b: "busy_with s me l" using p by (simp add: busy_pc)
  note lb = sp_busy [OF i b]
  have "cpu_ok (cpus s me) (Suc (card (owned M s me) + opened s me)) (before s me)"
    using sp_cpu [OF i, of me] p by (simp add: sp_depth_def)
  then obtain c where c: "popcli (cpus s me) = Inr c" "cpu_ok c (card (owned M s me) + opened s me) (before s me)"
    using pop_ok by blast
  define u where "u = (sys s)\<lparr>lks := (lks s)(l := (lks s l)\<lparr>locked := False\<rparr>), cpus := (cpus s)(me := c), pc := (pc s)(me := Runs)\<rparr>"
  define t where "t = put_sys u s"
  have t: "cpus t = (cpus s)(me := c)" "lks t = (lks s)(l := (lks s l)\<lparr>locked := False\<rparr>)" "pc t = (pc s)(me := Runs)"
    "opened t = opened s" "before t = before s" by (simp_all add: t_def u_def)
  have ow: "owned M t k = owned M s k" for k using t by (auto simp: owned_def)
  have "\<forall>c. \<not> busy_with t c l" using alone_cases [OF i b, of t] t by simp
  moreover have "cpu_ok (cpus t me) (sp_depth M t me) (before t me)" using c t ow by (simp add: sp_depth_def)
  ultimately have "sp_inv M t"
    by (intro sp_inv_step [OF i, of me t l]) (use t ow lb in \<open>auto simp: busy_with_def\<close>)
  moreover have "release_end me l (sys s) = Inr u" using c(1) by (simp add: release_end_def xchg_def u_def)
  ultimately show ?thesis by (simp add: t_def)
qed

lemma acquire_begin_inv:
  assumes i: "sp_inv M s" and p: "pc s me = Runs" "l < M" "acquire_begin me l (sys s) = Inr u"
  shows "sp_inv M (put_sys u s)"
proof -
  have u: "u = (sys s)\<lparr>cpus := (cpus s)(me := pushcli (cpus s me)), pc := (pc s)(me := Acquiring l)\<rparr>"
    using p(3) by (auto simp: acquire_begin_def Let_def split: if_splits)
  define t where "t = put_sys u s"
  have t: "cpus t = (cpus s)(me := pushcli (cpus s me))" "lks t = lks s" "pc t = (pc s)(me := Acquiring l)"
    "opened t = opened s" "before t = before s" by (simp_all add: t_def u)
  have "cpu_ok (cpus t me) (sp_depth M t me) (before t me)"
    using push_ok [OF sp_cpu [OF i, of me]] p t owned_eq [of t s M me] by (simp add: sp_depth_def)
  then have "sp_inv M t" by (intro cpu_inv [OF i p(1)]) (use t p(2) in auto)
  then show ?thesis by (simp add: t_def)
qed

lemma spstep_inv:
  assumes "spstep M s s'" "sp_inv M s"
  shows "sp_inv M s'"
  using assms(1)
proof (cases rule: spstep.cases)
  case (sp_acquire me l t)
  then show ?thesis using acquire_begin_inv [OF assms(2)] by simp
next
  case (sp_xchg me l)
  then show ?thesis using xchg_inv [OF assms(2)] by simp
next
  case (sp_acquired me l)
  then show ?thesis using acquired_inv [OF assms(2)] by simp
next
  case (sp_release me l t)
  then show ?thesis using release_inv [OF assms(2)] by simp
next
  case (sp_released me l t)
  then show ?thesis using released_ok [OF assms(2)] by fastforce
next
  case (sp_push me)
  have "cpu_ok (cpus s' me) (sp_depth M s' me) (before s' me)"
    using push_ok [OF sp_cpu [OF assms(2), of me]] sp_push owned_eq [of s' s M me] by (simp add: sp_depth_def)
  then show ?thesis by (intro cpu_inv [OF assms(2) sp_push(2)]) (use sp_push in auto)
next
  case (sp_pop me c)
  have "cpu_ok (cpus s me) (Suc (card (owned M s me) + (opened s me - 1))) (before s me)"
    using sp_cpu [OF assms(2), of me] sp_pop(2,3) by (simp add: sp_depth_def)
  then have "cpu_ok c (card (owned M s me) + (opened s me - 1)) (before s me)" using pop_ok sp_pop(4) by fastforce
  then have "cpu_ok (cpus s' me) (sp_depth M s' me) (before s' me)"
    using sp_pop owned_eq [of s' s M me] by (simp add: sp_depth_def)
  then show ?thesis by (intro cpu_inv [OF assms(2) sp_pop(2)]) (use sp_pop in auto)
next
  case (sp_flag me b)
  have "sp_depth M s me = 0" using sp_cpu [OF assms(2), of me] sp_flag(3) by (simp add: cpu_ok_def)
  then have "cpu_ok (cpus s' me) (sp_depth M s' me) (before s' me)"
    using sp_flag owned_eq [of s' s M me] by (simp add: sp_depth_def cpu_ok_def)
  then show ?thesis by (intro cpu_inv [OF assms(2) sp_flag(2)]) (use sp_flag in auto)
qed

lemma spsteps_inv: "(spstep M)\<^sup>*\<^sup>* s s' \<Longrightarrow> sp_inv M s \<Longrightarrow> sp_inv M s'"
  by (induction rule: rtranclp_induct) (auto intro: spstep_inv)

lemma spboot_inv: "spboot s \<Longrightarrow> sp_inv M s"
  by (auto simp: spboot_def sp_inv_def cpu_ok_def sp_depth_def owned_def initlock_def busy_with_def)

definition in_critical :: "spghost \<Rightarrow> nat \<Rightarrow> nat \<Rightarrow> bool" where
  "in_critical s me l \<longleftrightarrow> holding me (lks s l) \<or> busy_with s me l"

lemma spinlock_facts:
  assumes "spboot s0" and "(spstep M)\<^sup>*\<^sup>* s0 s"
  shows "\<forall>l c c'. in_critical s c l \<and> in_critical s c' l \<longrightarrow> c = c'"
    "\<forall>l c. l < M \<and> in_critical s c l \<longrightarrow> \<not> flIF (cpus s c)"
    "\<forall>l c. pc s c = Releasing l \<longrightarrow> (\<exists>t. release_end c l (sys s) = Inr t)"
    "\<forall>c. 0 < opened s c \<longrightarrow> (\<exists>k. popcli (cpus s c) = Inr k)"
    "\<forall>l c. acquire_begin c l (sys s) = Inl (Panic ''acquire'') \<longleftrightarrow> holding c (lks s l)"
    "\<forall>c. pc s c = Runs \<and> opened s c = 0 \<and> (\<forall>l < M. \<not> holding c (lks s l)) \<longrightarrow> flIF (cpus s c) = before s c"
proof -
  have i: "sp_inv M s" using spsteps_inv [OF assms(2) spboot_inv [OF assms(1)]] .
  have h: "holding c (lks s l) \<Longrightarrow> lcpu (lks s l) = Some c" for c l by (simp add: holding_def)
  have own: "l \<in> owned M s c \<longleftrightarrow> l < M \<and> holding c (lks s l)" for l c
    using sp_locked [OF i] by (auto simp: owned_def holding_def)
  show "\<forall>l c c'. in_critical s c l \<and> in_critical s c' l \<longrightarrow> c = c'"
    using h sp_busy [OF i] sp_alone [OF i] unfolding in_critical_def by (metis option.inject option.discI)
  have deep: "0 < sp_depth M s c" if "l < M" "in_critical s c l" for l c
  proof (cases "holding c (lks s l)")
    case True
    then have "owned M s c \<noteq> {}" using own that(1) by blast
    then show ?thesis by (simp add: sp_depth_def card_gt_0_iff)
  next
    case False
    then show ?thesis using that(2) busy_pc(1) [of s c l] by (auto simp: in_critical_def sp_depth_def)
  qed
  show "\<forall>l c. l < M \<and> in_critical s c l \<longrightarrow> \<not> flIF (cpus s c)"
    using deep sp_cpu [OF i] by (auto simp: cpu_ok_def)
  show "\<forall>l c. pc s c = Releasing l \<longrightarrow> (\<exists>t. release_end c l (sys s) = Inr t)"
    using released_ok [OF i] by blast
  show "\<forall>c. 0 < opened s c \<longrightarrow> (\<exists>k. popcli (cpus s c) = Inr k)"
  proof (intro allI impI)
    fix c assume "0 < opened s c"
    then obtain n where "sp_depth M s c = Suc n" by (auto simp: sp_depth_def gr0_conv_Suc)
    then show "\<exists>k. popcli (cpus s c) = Inr k" using pop_ok sp_cpu [OF i, of c] by metis
  qed
  show "\<forall>l c. acquire_begin c l (sys s) = Inl (Panic ''acquire'') \<longleftrightarrow> holding c (lks s l)"
    by (simp add: acquire_begin_def Let_def)
  show "\<forall>c. pc s c = Runs \<and> opened s c = 0 \<and> (\<forall>l < M. \<not> holding c (lks s l)) \<longrightarrow> flIF (cpus s c) = before s c"
  proof (intro allI impI)
    fix c assume c: "pc s c = Runs \<and> opened s c = 0 \<and> (\<forall>l < M. \<not> holding c (lks s l))"
    then have "owned M s c = {}" using own by blast
    then have "sp_depth M s c = 0" using c by (simp add: sp_depth_def)
    then show "flIF (cpus s c) = before s c" using sp_cpu [OF i, of c] by (simp add: cpu_ok_def)
  qed
qed

text \<open>C18: Spin locks under every interleaving of CPUs. No two CPUs are inside the same lock; a CPU that
  holds or takes one has its interrupts off, so its own handlers cannot deadlock with it; the calls of
  \<open>popcli\<close> never panic, \<open>acquire\<close> only in a CPU that holds the lock already; and when a CPU has given
  back everything its interrupt flag is what it was before.\<close>

theorem spinlock_exclusive:
  assumes "spboot s0" and "(spstep M)\<^sup>*\<^sup>* s0 s"
  shows "(\<forall>l c c'. in_critical s c l \<and> in_critical s c' l \<longrightarrow> c = c') \<and>
    (\<forall>l c. l < M \<and> in_critical s c l \<longrightarrow> \<not> flIF (cpus s c)) \<and>
    (\<forall>l c. pc s c = Releasing l \<longrightarrow> (\<exists>t. release_end c l (sys s) = Inr t)) \<and>
    (\<forall>c. 0 < opened s c \<longrightarrow> (\<exists>k. popcli (cpus s c) = Inr k)) \<and>
    (\<forall>l c. acquire_begin c l (sys s) = Inl (Panic ''acquire'') \<longleftrightarrow> holding c (lks s l)) \<and>
    (\<forall>c. pc s c = Runs \<and> opened s c = 0 \<and> (\<forall>l < M. \<not> holding c (lks s l)) \<longrightarrow> flIF (cpus s c) = before s c)"
  using spinlock_facts [OF assms] by (intro conjI)

definition sp0 :: spghost where
  "sp0 = \<lparr>cpus = (\<lambda>_. \<lparr>ncli = 0, intena = False, flIF = True\<rparr>), lks = (\<lambda>_. initlock), pc = (\<lambda>_. Runs),
     opened = (\<lambda>_. 0), before = (\<lambda>_. True)\<rparr>"

theorem spinlock_exclusive_witness:
  "\<exists>s. (spstep 2)\<^sup>*\<^sup>* sp0 s \<and> pc s 0 = Taken 1 \<and> \<not> flIF (cpus s 0) \<and> in_critical s 0 1 \<and> \<not> in_critical s 5 1"
proof -
  have b: "spboot sp0" by (simp add: spboot_def sp0_def)
  obtain t where t: "acquire_begin 0 1 (sys sp0) = Inr t" "pc t 0 = Acquiring 1" "\<not> locked (lks t 1)"
    by (simp add: acquire_begin_def holding_def sp0_def initlock_def)
  have 1: "spstep 2 sp0 (put_sys t sp0)" by (rule sp_acquire [OF _ _ t(1)]) (simp_all add: sp0_def)
  define s where "s = put_sys (acquire_xchg 0 1 (sys (put_sys t sp0))) (put_sys t sp0)"
  have 2: "spstep 2 (put_sys t sp0) s" unfolding s_def by (rule sp_xchg) (simp add: t(2))
  have r: "(spstep 2)\<^sup>*\<^sup>* sp0 s" using 1 2 by simp
  have p: "pc s 0 = Taken 1" using t by (simp add: s_def acquire_xchg_def xchg_def)
  then have c: "in_critical s 0 1" by (simp add: in_critical_def busy_with_def)
  then have "\<not> in_critical s 5 1" using spinlock_exclusive [OF b r] by fastforce
  moreover have "\<not> flIF (cpus s 0)" using spinlock_exclusive [OF b r] c one_less_numeral_iff semiring_norm(76) by blast
  ultimately show ?thesis using r p c by blast
qed

end
