(* ===== verification/Console.thy ===== *)
theory Console
  imports Prelude "HOL-Library.Word"
begin

unbundle bit_operations_syntax

text \<open>
  The console, kernel/console.c: the screen memory with its cursor, and the input line discipline with
  its ring of 128 characters and three free-running 32-bit counters, read, write and edit. What the
  interrupt handler and a reader do comes with the effects outside: characters echoed, readers woken.
\<close>

section \<open>The screen\<close>

definition BACKSPACE :: int where "BACKSPACE = 0x100"

record cga =
  cells :: "nat \<Rightarrow> 16 word"
  cpos :: nat

definition cgaputc :: "int \<Rightarrow> cga \<Rightarrow> cga" where
  "cgaputc c s =
     (let pos = cpos s;
          (pos1, m1) = (if c = 10 then (pos + (80 - pos mod 80), cells s)
            else if c = BACKSPACE then (if pos > 0 then pos - 1 else pos, cells s)
            else (pos + 1, (cells s)(pos := (word_of_int c AND 0xFF) OR 0x0700)));
          (pos2, m2) = (if pos1 div 80 \<ge> 24 then
              let m = (\<lambda>i. if i < 23 * 80 then m1 (i + 80) else m1 i); p = pos1 - 80
              in (p, \<lambda>i. if p \<le> i \<and> i < p + (24 * 80 - p) then 0 else m i)
            else (pos1, m1))
      in s\<lparr>cpos := pos2, cells := m2(pos2 := 0x20 OR 0x0700)\<rparr>)"

record console =
  screen :: cga
  uart_out :: "int list"
  panicked :: bool

text \<open>After a panic \<open>consputc\<close> does not return.\<close>

definition consputc :: "int \<Rightarrow> console \<Rightarrow> console option" where
  "consputc c s =
     (if panicked s then None
      else Some (s\<lparr>uart_out := uart_out s @ (if c = BACKSPACE then [8, 32, 8] else [c]), screen := cgaputc c (screen s)\<rparr>))"

fun consputs :: "int list \<Rightarrow> console \<Rightarrow> console option" where
  "consputs [] s = Some s"
| "consputs (c # cs) s = (case consputc c s of None \<Rightarrow> None | Some s1 \<Rightarrow> consputs cs s1)"

text \<open>\<open>consolewrite\<close> between giving up the inode's lock and taking it again.\<close>

definition consolewrite :: "8 word list \<Rightarrow> int \<Rightarrow> console \<Rightarrow> (int \<times> console) option" where
  "consolewrite buf n s = map_option (\<lambda>s1. (n, s1)) (consputs (map uint (take (nat n) buf)) s)"

section \<open>Input\<close>

definition INPUT_BUF :: nat where "INPUT_BUF = 128"

record coninput =
  ibuf :: "nat \<Rightarrow> 8 word"
  ir :: "32 word"
  iw :: "32 word"
  ie :: "32 word"

definition ctrl :: "int \<Rightarrow> int" where "ctrl x = x - 0x40"

definition slot_of :: "32 word \<Rightarrow> nat" where "slot_of w = unat (w mod of_nat INPUT_BUF)"

datatype coneff = Echo int | Procdump | WakeReaders

function kill_line :: "coninput \<Rightarrow> coneff list \<times> coninput" where
  "kill_line s =
     (if ie s \<noteq> iw s \<and> ibuf s (slot_of (ie s - 1)) \<noteq> 10 then
        let (es, s1) = kill_line (s\<lparr>ie := ie s - 1\<rparr>) in (Echo BACKSPACE # es, s1)
      else ([], s))"
  by pat_completeness auto
termination
proof (relation "measure (\<lambda>s. unat (ie s - iw s))")
  fix s :: coninput
  assume "ie s \<noteq> iw s \<and> ibuf s (slot_of (ie s - 1)) \<noteq> 10"
  then have "ie s - iw s \<noteq> 0" by simp
  then have "unat (ie s - iw s - 1) < unat (ie s - iw s)" by (rule measure_unat)
  then show "(s\<lparr>ie := ie s - 1\<rparr>, s) \<in> measure (\<lambda>s. unat (ie s - iw s))" by (simp add: diff_diff_eq add.commute)
qed simp

declare kill_line.simps [simp del]

text \<open>Storing a character, with the carriage return already replaced.\<close>

definition store_char :: "int \<Rightarrow> coninput \<Rightarrow> coneff list \<times> coninput" where
  "store_char c s =
     (let s1 = s\<lparr>ibuf := (ibuf s)(slot_of (ie s) := word_of_int c), ie := ie s + 1\<rparr>
      in if c = 10 \<or> c = ctrl 0x44 \<or> ie s1 = ir s1 + of_nat INPUT_BUF
         then ([Echo c, WakeReaders], s1\<lparr>iw := ie s1\<rparr>) else ([Echo c], s1))"

text \<open>One character of the loop in \<open>consoleintr\<close>.\<close>

definition intr_char :: "int \<Rightarrow> coninput \<Rightarrow> coneff list \<times> coninput" where
  "intr_char c s =
     (if c = ctrl 0x50 then ([Procdump], s)
      else if c = ctrl 0x55 then kill_line s
      else if c = ctrl 0x48 \<or> c = 0x7F then
        (if ie s \<noteq> iw s then ([Echo BACKSPACE], s\<lparr>ie := ie s - 1\<rparr>) else ([], s))
      else if c \<noteq> 0 \<and> ie s - ir s < of_nat INPUT_BUF then
        store_char (if c = 13 then 10 else c) s
      else ([], s))"

fun consoleintr :: "int list \<Rightarrow> coninput \<Rightarrow> coneff list \<times> coninput" where
  "consoleintr [] s = ([], s)"
| "consoleintr (c # cs) s =
     (if c \<ge> 0 then let (es, s1) = intr_char c s; (fs, s2) = consoleintr cs s1 in (es @ fs, s2) else ([], s))"

text \<open>The loop of \<open>consoleread\<close> with \<open>n\<close> bytes to go; \<open>some\<close> says that it has stored some. A reader
  that sleeps goes on with what is still to be read.\<close>

datatype conread = RDone | RKilled | RSleep nat

fun cread :: "bool \<Rightarrow> bool \<Rightarrow> nat \<Rightarrow> coninput \<Rightarrow> 8 word list \<times> conread \<times> coninput" where
  "cread killed some 0 s = ([], RDone, s)"
| "cread killed some (Suc n) s =
     (if ir s = iw s then ([], if killed then RKilled else RSleep (Suc n), s)
      else
        let c = ibuf s (slot_of (ir s)); s1 = s\<lparr>ir := ir s + 1\<rparr> in
        if uint c = ctrl 0x44 then ([], RDone, if some then s1\<lparr>ir := ir s1 - 1\<rparr> else s1)
        else if c = 10 then ([c], RDone, s1)
        else let (bs, r, s2) = cread killed True n s1 in (c # bs, r, s2))"

definition consoleread :: "bool \<Rightarrow> int \<Rightarrow> coninput \<Rightarrow> 8 word list \<times> conread \<times> coninput" where
  "consoleread killed n s = cread killed False (nat n) s"

section \<open>The screen stays in its memory\<close>

lemma cgaputc_inside:
  assumes "cpos s < 24 * 80"
  shows "cpos (cgaputc c s) < 24 * 80 \<and> (\<forall>i \<ge> 24 * 80. cells (cgaputc c s) i = cells s i)"
  using assms by (auto simp: cgaputc_def Let_def)

lemma consputs_inside:
  "\<not> panicked s \<Longrightarrow> cpos (screen s) < 24 * 80 \<Longrightarrow>
   \<exists>s'. consputs cs s = Some s' \<and> \<not> panicked s' \<and> cpos (screen s') < 24 * 80 \<and>
     (\<forall>i \<ge> 24 * 80. cells (screen s') i = cells (screen s) i)"
proof (induction cs arbitrary: s)
  case (Cons c cs)
  define s1 where "s1 = s\<lparr>uart_out := uart_out s @ (if c = BACKSPACE then [8, 32, 8] else [c]), screen := cgaputc c (screen s)\<rparr>"
  have "consputc c s = Some s1" "\<not> panicked s1" using Cons.prems(1) by (simp_all add: consputc_def s1_def)
  moreover have "cpos (screen s1) < 24 * 80" "\<forall>i \<ge> 24 * 80. cells (screen s1) i = cells (screen s) i"
    using cgaputc_inside [OF Cons.prems(2), of c] by (simp_all add: s1_def)
  ultimately show ?case using Cons.IH [of s1] by fastforce
qed simp

section \<open>The ring as two lists\<close>

text \<open>\<open>rdy\<close> is what readers may take, \<open>ed\<close> the line being edited.\<close>

definition con_rep :: "coninput \<Rightarrow> 8 word list \<Rightarrow> 8 word list \<Rightarrow> bool" where
  "con_rep s rdy ed \<longleftrightarrow> iw s = ir s + of_nat (length rdy) \<and> ie s = ir s + of_nat (length (rdy @ ed)) \<and>
     length (rdy @ ed) \<le> INPUT_BUF \<and> 10 \<notin> set ed \<and>
     (\<forall>k < length (rdy @ ed). ibuf s ((unat (ir s) + k) mod INPUT_BUF) = (rdy @ ed) ! k)"

fun edit_char :: "int \<Rightarrow> 8 word list \<times> 8 word list \<Rightarrow> 8 word list \<times> 8 word list" where
  "edit_char c (rdy, ed) =
     (if c = ctrl 0x50 then (rdy, ed)
      else if c = ctrl 0x55 then (rdy, [])
      else if c = ctrl 0x48 \<or> c = 0x7F then (rdy, butlast ed)
      else if c \<noteq> 0 \<and> length (rdy @ ed) < INPUT_BUF then
        let b = (if c = 13 then 10 else c); ed' = ed @ [word_of_int b]
        in if b = 10 \<or> b = ctrl 0x44 \<or> length (rdy @ ed') = INPUT_BUF then (rdy @ ed', []) else (rdy, ed')
      else (rdy, ed))"

lemma slot_of_eq: "slot_of w = unat w mod INPUT_BUF"
  by (simp add: slot_of_def INPUT_BUF_def unat_mod_distrib)

lemma slot_of_add: "slot_of (w + of_nat k) = (unat w + k) mod INPUT_BUF"
proof -
  have "unat (w + of_nat k) = (unat w + k) mod 2 ^ 32"
    by (simp add: unat_word_ariths(1) unat_of_nat mod_add_right_eq)
  then show ?thesis by (simp add: slot_of_eq INPUT_BUF_def mod_mod_cancel)
qed

lemma word_gap: "m \<le> INPUT_BUF \<Longrightarrow> n \<le> INPUT_BUF \<Longrightarrow> (w + of_nat m = w + (of_nat n :: 32 word)) \<longleftrightarrow> m = n"
  by (auto simp: INPUT_BUF_def word_of_nat_eq_iff take_bit_eq_mod)

lemma con_rep_conds:
  assumes "con_rep s rdy ed"
  shows "ie s = iw s \<longleftrightarrow> ed = []" "ir s = iw s \<longleftrightarrow> rdy = []" "ie s - ir s < of_nat INPUT_BUF \<longleftrightarrow> length (rdy @ ed) < INPUT_BUF"
    "slot_of (ie s) = (unat (ir s) + length (rdy @ ed)) mod INPUT_BUF"
    "ed \<noteq> [] \<Longrightarrow> slot_of (ie s - 1) = (unat (ir s) + (length (rdy @ ed) - 1)) mod INPUT_BUF"
proof -
  note r = assms [unfolded con_rep_def]
  have l: "length rdy \<le> INPUT_BUF" "length (rdy @ ed) \<le> INPUT_BUF" using r by auto
  show "ie s = iw s \<longleftrightarrow> ed = []" using word_gap [OF l(2,1)] r by auto
  have "0 \<le> INPUT_BUF" by simp
  from word_gap [OF l(1) this, of "ir s"] show "ir s = iw s \<longleftrightarrow> rdy = []" using r by auto
  show "ie s - ir s < of_nat INPUT_BUF \<longleftrightarrow> length (rdy @ ed) < INPUT_BUF"
    using r l by (simp add: INPUT_BUF_def word_less_nat_alt unat_of_nat del: of_nat_add length_append)
  show "slot_of (ie s) = (unat (ir s) + length (rdy @ ed)) mod INPUT_BUF" using r slot_of_add by metis
  assume "ed \<noteq> []"
  then have "ie s - 1 = ir s + of_nat (length (rdy @ ed) - 1)" using r by (cases ed rule: rev_cases) auto
  then show "slot_of (ie s - 1) = (unat (ir s) + (length (rdy @ ed) - 1)) mod INPUT_BUF" using slot_of_add by metis
qed

lemma con_rep_back:
  assumes r: "con_rep s rdy ed" and e: "ed \<noteq> []"
  shows "con_rep (s\<lparr>ie := ie s - 1\<rparr>) rdy (butlast ed)"
proof -
  obtain es b where ed: "ed = es @ [b]" using e by (cases ed rule: rev_cases) auto
  then show ?thesis using r by (auto simp: con_rep_def nth_append)
qed

lemma kill_line_rep: "con_rep s rdy ed \<Longrightarrow> con_rep (snd (kill_line s)) rdy []"
proof (induction s arbitrary: ed rule: kill_line.induct)
  case (1 s)
  show ?case
  proof (cases "ed = []")
    case True
    then have "ie s = iw s" using con_rep_conds(1) [OF "1.prems"] by simp
    then show ?thesis using "1.prems" True by (subst kill_line.simps) simp
  next
    case False
    let ?k = "length (rdy @ ed) - 1"
    have "ibuf s (slot_of (ie s - 1)) = (rdy @ ed) ! ?k"
      using con_rep_conds(5) [OF "1.prems" False] "1.prems" False unfolding con_rep_def by simp
    also have "\<dots> = last (rdy @ ed)" using False by (simp add: last_conv_nth)
    also have "\<dots> = last ed" using False by simp
    finally have nl: "ibuf s (slot_of (ie s - 1)) \<noteq> 10" using "1.prems" last_in_set [OF False] by (auto simp: con_rep_def)
    have "ie s \<noteq> iw s" using con_rep_conds(1) [OF "1.prems"] False by simp
    moreover have "con_rep (snd (kill_line (s\<lparr>ie := ie s - 1\<rparr>))) rdy []"
      using "1.IH" nl calculation con_rep_back [OF "1.prems" False] by blast
    ultimately show ?thesis using nl by (subst kill_line.simps) (simp add: Let_def split_beta)
  qed
qed

lemma con_rep_push:
  fixes b :: "8 word"
  assumes r: "con_rep s rdy ed" and l: "length (rdy @ ed) < INPUT_BUF"
    and s1_def: "s1 = s\<lparr>ibuf := (ibuf s)(slot_of (ie s) := b), ie := ie s + 1\<rparr>"
  shows "b \<noteq> 10 \<Longrightarrow> con_rep s1 rdy (ed @ [b])" "con_rep (s1\<lparr>iw := ie s1\<rparr>) (rdy @ ed @ [b]) []"
    "ie s1 = ir s1 + of_nat INPUT_BUF \<longleftrightarrow> length (rdy @ ed @ [b]) = INPUT_BUF"
proof -
  have ie: "ie s1 = ir s + of_nat (length (rdy @ ed @ [b]))" using r by (simp add: s1_def con_rep_def)
  have bytes: "ibuf s1 ((unat (ir s) + k) mod INPUT_BUF) = (rdy @ ed @ [b]) ! k" if k: "k < length (rdy @ ed @ [b])" for k
  proof (cases "k = length (rdy @ ed)")
    case True
    have "(rdy @ ed @ [b]) ! k = b" unfolding True by (metis append_assoc nth_append_length)
    then show ?thesis using True con_rep_conds(4) [OF r] by (simp add: s1_def)
  next
    case False
    then have k2: "k < length (rdy @ ed)" using k by simp
    have "(unat (ir s) + k) mod INPUT_BUF \<noteq> (unat (ir s) + length (rdy @ ed)) mod INPUT_BUF"
      using mod_add_distinct k2 l by metis
    moreover have "(rdy @ ed @ [b]) ! k = (rdy @ ed) ! k" using k2 by (metis append_assoc nth_append)
    ultimately show ?thesis using r k2 con_rep_conds(4) [OF r] by (simp add: s1_def con_rep_def)
  qed
  show "con_rep s1 rdy (ed @ [b])" if "b \<noteq> 10"
    using r l ie bytes that by (auto simp: con_rep_def s1_def)
  show "con_rep (s1\<lparr>iw := ie s1\<rparr>) (rdy @ ed @ [b]) []"
    using r l ie bytes by (auto simp: con_rep_def s1_def)
  show "ie s1 = ir s1 + of_nat INPUT_BUF \<longleftrightarrow> length (rdy @ ed @ [b]) = INPUT_BUF"
    unfolding ie using l word_gap [of "length (rdy @ ed @ [b])" INPUT_BUF "ir s"] by (simp add: s1_def)
qed

lemma intr_char_rep:
  assumes r: "con_rep s rdy ed" and c: "0 \<le> c" "c < 256"
  shows "con_rep (snd (intr_char c s)) (fst (edit_char c (rdy, ed))) (snd (edit_char c (rdy, ed)))"
proof -
  consider (special) "c = ctrl 0x50 \<or> c = ctrl 0x55"
    | (erase) "c \<noteq> ctrl 0x50" "c \<noteq> ctrl 0x55" "c = ctrl 0x48 \<or> c = 0x7F"
    | (plain) "c \<noteq> ctrl 0x50" "c \<noteq> ctrl 0x55" "\<not> (c = ctrl 0x48 \<or> c = 0x7F)" by blast
  then show ?thesis
  proof cases
    case special
    have "ctrl 0x50 \<noteq> ctrl 0x55" by (simp add: ctrl_def)
    then show ?thesis using r special kill_line_rep by (auto simp: intr_char_def)
  next
    case erase
    then show ?thesis using r con_rep_conds(1) [OF r] con_rep_back [OF r] by (auto simp: intr_char_def)
  next
    case plain
    show ?thesis
    proof (cases "c \<noteq> 0 \<and> length (rdy @ ed) < INPUT_BUF")
      case False
      then have nc: "\<not> (c \<noteq> 0 \<and> ie s - ir s < of_nat INPUT_BUF)" using con_rep_conds(3) [OF r] by blast
      have "intr_char c s = ([], s)" unfolding intr_char_def using plain nc by (simp only: if_False)
      moreover have "edit_char c (rdy, ed) = (rdy, ed)" using plain False by (simp only: edit_char.simps if_False)
      ultimately show ?thesis using r by simp
    next
      case True
      define b where "b = (if c = 13 then 10 else c)"
      define s1 where "s1 = s\<lparr>ibuf := (ibuf s)(slot_of (ie s) := word_of_int b), ie := ie s + 1\<rparr>"
      note push = con_rep_push [OF r conjunct2 [OF True] s1_def]
      have w10: "(word_of_int b :: 8 word) = 10 \<Longrightarrow> b = 10"
      proof -
        assume "(word_of_int b :: 8 word) = 10"
        then have "uint (word_of_int b :: 8 word) = 10" by simp
        moreover have "0 \<le> b" "b < 256" using c by (simp_all add: b_def)
        ultimately show "b = 10" by (simp add: uint_word_of_int)
      qed
      have p: "con_rep s1 rdy (ed @ [word_of_int b])" if "b \<noteq> 10" using push(1) w10 that by metis
      have "intr_char c s = store_char b s"
        unfolding intr_char_def b_def using plain True con_rep_conds(3) [OF r] by (simp only: if_False if_True simp_thms)
      then have "snd (intr_char c s) = (if b = 10 \<or> b = ctrl 0x44 \<or> ie s1 = ir s1 + of_nat INPUT_BUF then s1\<lparr>iw := ie s1\<rparr> else s1)"
        unfolding store_char_def s1_def [symmetric] Let_def by (simp only: split: if_split) simp
      moreover have "edit_char c (rdy, ed) = (if b = 10 \<or> b = ctrl 0x44 \<or> length (rdy @ ed @ [word_of_int b]) = INPUT_BUF
          then (rdy @ ed @ [word_of_int b], []) else (rdy, ed @ [word_of_int b]))"
        using plain True by (simp add: Let_def b_def [symmetric])
      ultimately show ?thesis using push(2,3) p by (simp only: split: if_split) simp
    qed
  qed
qed

lemma consoleintr_rep:
  "con_rep s rdy ed \<Longrightarrow> \<forall>c \<in> set cs. 0 \<le> c \<and> c < 256 \<Longrightarrow>
   con_rep (snd (consoleintr cs s)) (fst (fold edit_char cs (rdy, ed))) (snd (fold edit_char cs (rdy, ed)))"
proof (induction cs arbitrary: s rdy ed)
  case (Cons c cs)
  obtain rdy' ed' where e: "edit_char c (rdy, ed) = (rdy', ed')" by (meson surj_pair)
  have "con_rep (snd (intr_char c s)) rdy' ed'" using intr_char_rep [OF Cons.prems(1), of c] Cons.prems(2) e by simp
  then have "con_rep (snd (consoleintr cs (snd (intr_char c s)))) (fst (fold edit_char cs (rdy', ed'))) (snd (fold edit_char cs (rdy', ed')))"
    using Cons.IH Cons.prems(2) by simp
  then show ?case using Cons.prems(2) e by (simp add: split_beta Let_def)
qed simp

lemma con_rep_pop:
  assumes r: "con_rep s (b # rdy) ed"
  shows "con_rep (s\<lparr>ir := ir s + 1\<rparr>) rdy ed" "ibuf s (slot_of (ir s)) = b"
proof -
  have g: "ibuf s ((unat (ir s) + k) mod INPUT_BUF) = (b # rdy @ ed) ! k" if "k < length (b # rdy @ ed)" for k
    using r that by (simp add: con_rep_def)
  show "ibuf s (slot_of (ir s)) = b" using g [of 0] by (simp add: slot_of_eq)
  have "(unat (ir s + 1) + k) mod INPUT_BUF = (unat (ir s) + Suc k) mod INPUT_BUF" for k
    using slot_of_add [of "ir s + 1" k] slot_of_add [of "ir s" "Suc k"] by (simp add: ac_simps)
  then have "ibuf s ((unat (ir s + 1) + k) mod INPUT_BUF) = (rdy @ ed) ! k" if "k < length (rdy @ ed)" for k
    using g [of "Suc k"] that by simp
  then show "con_rep (s\<lparr>ir := ir s + 1\<rparr>) rdy ed" using r by (simp add: con_rep_def ac_simps)
qed

text \<open>What a read takes from the ready characters: up to \<open>n\<close>, not past a newline, and a control-D ends it.\<close>

definition line_of :: "8 word list \<Rightarrow> 8 word list" where
  "line_of rdy = takeWhile (\<lambda>c. c \<noteq> 10 \<and> c \<noteq> 4) rdy"

fun read_line :: "bool \<Rightarrow> bool \<Rightarrow> nat \<Rightarrow> 8 word list \<Rightarrow> 8 word list \<times> conread \<times> 8 word list" where
  "read_line killed some n rdy =
     (let line = line_of rdy; rest = drop (length line) rdy in
      if n \<le> length line then (take n line, RDone, drop n rdy)
      else case rest of [] \<Rightarrow> (line, if killed then RKilled else RSleep (n - length line), [])
        | c # cs \<Rightarrow> if c = 10 then (line @ [10], RDone, cs)
                   else (line, RDone, if some \<or> line \<noteq> [] then c # cs else cs))"

declare read_line.simps [simp del]

lemma read_line_0: "read_line killed some 0 rdy = ([], RDone, rdy)"
  by (simp add: read_line.simps Let_def)

lemma read_line_step:
  "read_line killed some (Suc n) [] = ([], if killed then RKilled else RSleep (Suc n), [])"
  "read_line killed some (Suc n) (c # rdy) =
     (if c = 4 then ([], RDone, if some then c # rdy else rdy) else if c = 10 then ([10], RDone, rdy)
      else let (bs, r, rest) = read_line killed True n rdy in (c # bs, r, rest))"
  by (auto simp: read_line.simps line_of_def Let_def split: list.split)

lemma cread_rep:
  "con_rep s rdy ed \<Longrightarrow> \<exists>s'. cread killed some n s = (fst (read_line killed some n rdy), fst (snd (read_line killed some n rdy)), s') \<and>
     con_rep s' (snd (snd (read_line killed some n rdy))) ed"
proof (induction n arbitrary: s rdy some)
  case 0
  then show ?case by (simp add: read_line_0)
next
  case (Suc n)
  show ?case
  proof (cases rdy)
    case Nil
    then show ?thesis using Suc.prems con_rep_conds(2) [OF Suc.prems] by (auto simp: read_line_step)
  next
    case (Cons c cs)
    then have ne: "ir s \<noteq> iw s" using con_rep_conds(2) [OF Suc.prems] by simp
    note pop = con_rep_pop [OF Suc.prems [unfolded Cons]]
    have four: "uint c = ctrl 0x44 \<longleftrightarrow> c = 4" by (auto simp: ctrl_def word_uint_eq_iff)
    show ?thesis
    proof (cases "c = 4 \<or> c = 10")
      case True
      then show ?thesis using ne pop four Suc.prems Cons by (auto simp: read_line_step Let_def)
    next
      case False
      obtain s' where "cread killed True n (s\<lparr>ir := ir s + 1\<rparr>) =
          (fst (read_line killed True n cs), fst (snd (read_line killed True n cs)), s')"
        "con_rep s' (snd (snd (read_line killed True n cs))) ed" using Suc.IH [OF pop(1)] by blast
      then show ?thesis using ne pop(2) four False Cons by (simp add: read_line_step Let_def split_beta)
    qed
  qed
qed

text \<open>C35: The line discipline, across any wrap-around of the three counters. While the ring of 128
  characters stands for the characters ready for readers and the line being edited, keystrokes edit that
  line as the reference says (erase, kill, commit at a newline, control-D or a full ring), and a read
  takes exactly the reference's bytes: up to a newline, a control-D or the count.\<close>

theorem console_line_discipline:
  assumes "con_rep s rdy ed"
  shows "(\<forall>cs. (\<forall>c \<in> set cs. 0 \<le> c \<and> c < 256) \<longrightarrow>
      con_rep (snd (consoleintr cs s)) (fst (fold edit_char cs (rdy, ed))) (snd (fold edit_char cs (rdy, ed)))) \<and>
    (\<forall>killed n. \<exists>s' rest. consoleread killed n s =
        (fst (read_line killed False (nat n) rdy), fst (snd (read_line killed False (nat n) rdy)), s') \<and>
      rest = snd (snd (read_line killed False (nat n) rdy)) \<and> con_rep s' rest ed)"
  using consoleintr_rep [OF assms] cread_rep [OF assms, where some = False] by (auto simp: consoleread_def)

theorem console_line_discipline_witness:
  "\<exists>s'. consoleread False 10 (snd (consoleintr [0x61, 0x62, 8, 0x63, 13] \<lparr>ibuf = (\<lambda>_. 0), ir = - 2, iw = - 2, ie = - 2\<rparr>)) =
     ([0x61, 0x63, 10], RDone, s') \<and> con_rep s' [] []"
proof -
  let ?s = "\<lparr>ibuf = (\<lambda>_. 0), ir = - 2, iw = - 2, ie = - 2\<rparr> :: coninput"
  have "con_rep ?s [] []" by (simp add: con_rep_def)
  then have "con_rep (snd (consoleintr [0x61, 0x62, 8, 0x63, 13] ?s)) [0x61, 0x63, 10] []"
    using conjunct1 [OF console_line_discipline [of ?s "[]" "[]"], THEN spec, of "[0x61, 0x62, 8, 0x63, 13]"]
    by (simp add: ctrl_def INPUT_BUF_def)
  from conjunct2 [OF console_line_discipline [OF this], THEN spec, THEN spec, of False 10] show ?thesis
    by (simp add: read_line.simps line_of_def)
qed

end
