(* ===== verification/CInt.thy ===== *)
theory CInt
  imports "HOL-Library.Word"
begin

text \<open>
  Machine integers read as C reads them: a 32-bit word as an \<open>int\<close>.
\<close>

lemma sint_pos_nat: "0 \<le> sint (x :: 32 word) \<Longrightarrow> unat x = nat (sint x)"
proof -
  assume p: "0 \<le> sint x"
  have "uint x = uint (word_of_int (sint x) :: 32 word)" by simp
  also have "\<dots> = sint x mod 2 ^ 32" by (simp only: uint_word_of_int) simp
  finally have "uint x = sint x mod 2 ^ 32" .
  moreover have "sint x < 2 ^ 31" using sint_lt [of x] by simp
  then have "sint x mod 2 ^ 32 = sint x" using p by (intro mod_pos_pos_trivial) auto
  ultimately show ?thesis by (simp only: unat_eq_nat_uint)
qed

end
