(* ===== verification/Printf.thy ===== *)
theory Printf
  imports CString CInt
begin

text \<open>
  Formatted output: \<open>printint\<close> and \<open>printf\<close> of user/printf.c, which write one byte per system call,
  and their kernel versions in kernel/console.c. The output is the list of bytes. The arguments of a
  call are the words on the stack behind the format, \<open>args\<close>; a call may read more of them than it was
  given. Strings are read from memory, so a missing NUL makes a \<open>partial_function\<close> run on.
\<close>

section \<open>The code\<close>

definition DIGITS_UPPER :: "byte list" where
  "DIGITS_UPPER = [0x30, 0x31, 0x32, 0x33, 0x34, 0x35, 0x36, 0x37, 0x38, 0x39, 0x41, 0x42, 0x43, 0x44, 0x45, 0x46]"

definition DIGITS_LOWER :: "byte list" where
  "DIGITS_LOWER = [0x30, 0x31, 0x32, 0x33, 0x34, 0x35, 0x36, 0x37, 0x38, 0x39, 0x61, 0x62, 0x63, 0x64, 0x65, 0x66]"

text \<open>\<open>do buf[i++] = digits[x % base]; while((x /= base) != 0)\<close> on 32-bit words.\<close>

partial_function (option) digit_loop :: "byte list \<Rightarrow> 32 word \<Rightarrow> 32 word \<Rightarrow> byte list \<Rightarrow> byte list option" where
  "digit_loop ds base x buf =
     (let buf1 = buf @ [ds ! unat (x mod base)]; x1 = x div base
      in if x1 \<noteq> 0 then digit_loop ds base x1 buf1 else Some buf1)"

declare digit_loop.simps [code]

definition printint :: "32 word \<Rightarrow> 32 word \<Rightarrow> bool \<Rightarrow> byte list option" where
  "printint xx base sg =
     (let neg = (sg \<and> sint xx < 0); x = (if neg then - xx else xx)
      in case digit_loop DIGITS_UPPER base x [] of None \<Rightarrow> None
         | Some buf \<Rightarrow> Some (rev (if neg then buf @ [0x2D] else buf)))"

definition kprintint :: "32 word \<Rightarrow> 32 word \<Rightarrow> bool \<Rightarrow> byte list option" where
  "kprintint xx base sign =
     (let neg = (sign \<and> sint xx < 0); x = (if neg then - xx else xx)
      in case digit_loop DIGITS_LOWER base x [] of None \<Rightarrow> None
         | Some buf \<Rightarrow> Some (rev (if neg then buf @ [0x2D] else buf)))"

text \<open>\<open>for(; *s; s++) putc(*s)\<close>.\<close>

partial_function (option) puts_loop :: "bmem \<Rightarrow> addr \<Rightarrow> byte list \<Rightarrow> byte list option" where
  "puts_loop m s out = (if m s = 0 then Some out else puts_loop m (s + 1) (out @ [m s]))"

declare puts_loop.simps [code]

definition null_text :: "byte list" where "null_text = [0x28, 0x6E, 0x75, 0x6C, 0x6C, 0x29]"

definition put_string :: "bmem \<Rightarrow> 32 word \<Rightarrow> byte list \<Rightarrow> byte list option" where
  "put_string m a out = (if a = 0 then Some (out @ null_text) else puts_loop m (unat a) out)"

text \<open>One conversion of \<open>printf\<close>: the output after it and the index of the next argument.\<close>

definition convert :: "bmem \<Rightarrow> (nat \<Rightarrow> 32 word) \<Rightarrow> byte \<Rightarrow> nat \<Rightarrow> byte list \<Rightarrow> (byte list \<times> nat) option" where
  "convert m args c ap out =
     (if c = 0x64 then map_option (\<lambda>t. (out @ t, ap + 1)) (printint (args ap) 10 True)
      else if c = 0x78 \<or> c = 0x70 then map_option (\<lambda>t. (out @ t, ap + 1)) (printint (args ap) 16 False)
      else if c = 0x73 then map_option (\<lambda>t. (t, ap + 1)) (put_string m (args ap) out)
      else if c = 0x63 then Some (out @ [ucast (args ap)], ap + 1)
      else if c = 0x25 then Some (out @ [c], ap)
      else Some (out @ [0x25, c], ap))"

partial_function (option) printf_loop ::
  "bmem \<Rightarrow> (nat \<Rightarrow> 32 word) \<Rightarrow> addr \<Rightarrow> bool \<Rightarrow> nat \<Rightarrow> byte list \<Rightarrow> byte list option" where
  "printf_loop m args i state ap out =
     (let c = m i in
      if c = 0 then Some out
      else if \<not> state then
        if c = 0x25 then printf_loop m args (i + 1) True ap out
        else printf_loop m args (i + 1) False ap (out @ [c])
      else case convert m args c ap out of None \<Rightarrow> None
           | Some (out1, ap1) \<Rightarrow> printf_loop m args (i + 1) False ap1 out1)"

declare printf_loop.simps [code]

definition printf :: "bmem \<Rightarrow> addr \<Rightarrow> (nat \<Rightarrow> 32 word) \<Rightarrow> byte list option" where
  "printf m fmt args = printf_loop m args fmt False 0 []"

text \<open>\<open>cprintf\<close> looks at the character behind \<open>%\<close> in the same round and has no \<open>%c\<close>.\<close>

definition kconvert :: "bmem \<Rightarrow> (nat \<Rightarrow> 32 word) \<Rightarrow> byte \<Rightarrow> nat \<Rightarrow> byte list \<Rightarrow> (byte list \<times> nat) option" where
  "kconvert m args c ap out =
     (if c = 0x64 then map_option (\<lambda>t. (out @ t, ap + 1)) (kprintint (args ap) 10 True)
      else if c = 0x78 \<or> c = 0x70 then map_option (\<lambda>t. (out @ t, ap + 1)) (kprintint (args ap) 16 False)
      else if c = 0x73 then map_option (\<lambda>t. (t, ap + 1)) (put_string m (args ap) out)
      else if c = 0x25 then Some (out @ [0x25], ap)
      else Some (out @ [0x25, c], ap))"

partial_function (option) cprintf_loop ::
  "bmem \<Rightarrow> (nat \<Rightarrow> 32 word) \<Rightarrow> addr \<Rightarrow> nat \<Rightarrow> byte list \<Rightarrow> byte list option" where
  "cprintf_loop m args i ap out =
     (let c = m i in
      if c = 0 then Some out
      else if c \<noteq> 0x25 then cprintf_loop m args (i + 1) ap (out @ [c])
      else
        let c = m (i + 1) in
        if c = 0 then Some out
        else case kconvert m args c ap out of None \<Rightarrow> None
             | Some (out1, ap1) \<Rightarrow> cprintf_loop m args (i + 2) ap1 out1)"

declare cprintf_loop.simps [code]

definition cprintf :: "bmem \<Rightarrow> addr \<Rightarrow> (nat \<Rightarrow> 32 word) \<Rightarrow> byte list option" where
  "cprintf m fmt args = cprintf_loop m args fmt 0 []"

section \<open>Numerals\<close>

text \<open>The reference: the digits of a number, most significant first.\<close>

function digits_of :: "nat \<Rightarrow> nat \<Rightarrow> nat list" where
  "digits_of b x = (if b < 2 \<or> x < b then [x] else digits_of b (x div b) @ [x mod b])"
  by pat_completeness auto
termination by (relation "measure snd") (auto intro!: div_less_dividend)

declare digits_of.simps [simp del]

definition numeral_of :: "byte list \<Rightarrow> nat \<Rightarrow> nat \<Rightarrow> byte list" where
  "numeral_of ds b x = map (\<lambda>d. ds ! d) (digits_of b x)"

definition decimal :: "int \<Rightarrow> byte list" where
  "decimal n = (if n < 0 then 0x2D # numeral_of DIGITS_UPPER 10 (nat (- n)) else numeral_of DIGITS_UPPER 10 (nat n))"

lemma digit_loop_eq:
  assumes "2 \<le> unat base"
  shows "digit_loop ds base x buf = Some (buf @ rev (numeral_of ds (unat base) (unat x)))"
proof (induction "unat x" arbitrary: x buf rule: less_induct)
  case less
  have d: "unat (x div base) = unat x div unat base" "unat (x mod base) = unat x mod unat base"
    by (simp_all add: unat_div_distrib unat_mod_distrib)
  show ?case
  proof (cases "x div base = 0")
    case True
    then have "unat x div unat base = 0" using d(1) by simp
    then have "unat x < unat base" using assms by (simp add: div_eq_0_iff)
    then show ?thesis using True d(2)
      by (subst digit_loop.simps, subst numeral_of_def, subst digits_of.simps) simp
  next
    case False
    then have "unat x div unat base \<noteq> 0" using d(1) unsigned_eq_0_iff by metis
    then have ge: "\<not> unat x < unat base" by auto
    have "unat (x div base) < unat x" using d(1) assms ge by (simp add: div_less_dividend)
    note i = less [OF this, of "buf @ [ds ! unat (x mod base)]"]
    have "digits_of (unat base) (unat x) = digits_of (unat base) (unat x div unat base) @ [unat x mod unat base]"
      using assms ge by (subst digits_of.simps) simp
    then have n: "numeral_of ds (unat base) (unat x) = numeral_of ds (unat base) (unat x div unat base) @ [ds ! (unat x mod unat base)]"
      by (simp add: numeral_of_def)
    have "digit_loop ds base x buf = digit_loop ds base (x div base) (buf @ [ds ! unat (x mod base)])"
      using False by (subst digit_loop.simps) simp
    then show ?thesis using i n d by simp
  qed
qed

lemma sint_neg_nat:
  fixes x :: "32 word"
  assumes "sint x < 0"
  shows "unat (- x) = nat (- sint x)"
proof -
  have "- x = word_of_int (- sint x)" by simp
  then have "uint (- x) = (- sint x) mod 2 ^ 32" by (simp only: uint_word_of_int) simp
  moreover have "- (2 ^ 31) \<le> sint x" using sint_ge [of x] by simp
  then have "(- sint x) mod 2 ^ 32 = - sint x" using assms by (intro mod_pos_pos_trivial) auto
  ultimately show ?thesis by (simp only: unat_eq_nat_uint)
qed

lemma printint_decimal: "printint x 10 True = Some (decimal (sint x))"
proof -
  have l: "digit_loop DIGITS_UPPER 10 y [] = Some (rev (numeral_of DIGITS_UPPER 10 (unat y)))" for y
    using digit_loop_eq [of 10 DIGITS_UPPER y "[]"] by simp
  show ?thesis
    by (cases "sint x < 0") (simp_all add: printint_def Let_def l decimal_def sint_neg_nat sint_pos_nat)
qed

lemma printint_hex: "printint x 16 False = Some (numeral_of DIGITS_UPPER 16 (unat x))"
  using digit_loop_eq [of 16 DIGITS_UPPER x "[]"] by (simp add: printint_def Let_def)

section \<open>Formats\<close>

text \<open>A format as a list of items, how it is written and what it stands for.\<close>

datatype fitem = Lit byte | FDec | FHex | FPtr | FStr | FChr | FPct | FOdd byte

fun render :: "fitem \<Rightarrow> byte list" where
  "render (Lit c) = [c]"
| "render FDec = [0x25, 0x64]"
| "render FHex = [0x25, 0x78]"
| "render FPtr = [0x25, 0x70]"
| "render FStr = [0x25, 0x73]"
| "render FChr = [0x25, 0x63]"
| "render FPct = [0x25, 0x25]"
| "render (FOdd c) = [0x25, c]"

fun item_ok :: "fitem \<Rightarrow> bool" where
  "item_ok (Lit c) \<longleftrightarrow> c \<noteq> 0 \<and> c \<noteq> 0x25"
| "item_ok (FOdd c) \<longleftrightarrow> c \<notin> {0, 0x25, 0x63, 0x64, 0x70, 0x73, 0x78}"
| "item_ok _ \<longleftrightarrow> True"

fun takes_arg :: "fitem \<Rightarrow> bool" where
  "takes_arg x = (x \<in> {FDec, FHex, FPtr, FStr, FChr})"

fun show_item :: "(addr \<Rightarrow> byte list) \<Rightarrow> 32 word \<Rightarrow> fitem \<Rightarrow> byte list" where
  "show_item strs a FDec = decimal (sint a)"
| "show_item strs a FHex = numeral_of DIGITS_UPPER 16 (unat a)"
| "show_item strs a FPtr = numeral_of DIGITS_UPPER 16 (unat a)"
| "show_item strs a FStr = (if a = 0 then null_text else strs (unat a))"
| "show_item strs a FChr = [ucast a]"
| "show_item strs a FPct = [0x25]"
| "show_item strs a (Lit c) = [c]"
| "show_item strs a (FOdd c) = [0x25, c]"

fun show_items :: "(addr \<Rightarrow> byte list) \<Rightarrow> (nat \<Rightarrow> 32 word) \<Rightarrow> nat \<Rightarrow> fitem list \<Rightarrow> byte list" where
  "show_items strs args ap [] = []"
| "show_items strs args ap (x # xs) =
     show_item strs (args ap) x @ show_items strs args (if takes_arg x then ap + 1 else ap) xs"

text \<open>The memory holds the strings that \<open>%s\<close> arguments point to.\<close>

definition strings_at :: "bmem \<Rightarrow> (addr \<Rightarrow> byte list) \<Rightarrow> (nat \<Rightarrow> 32 word) \<Rightarrow> bool" where
  "strings_at m strs args \<longleftrightarrow> (\<forall>k. args k \<noteq> 0 \<longrightarrow> cstr m (unat (args k)) (strs (unat (args k))))"

lemma puts_loop_cstr: "cstr m s xs \<Longrightarrow> puts_loop m s out = Some (out @ xs)"
proof (induction xs arbitrary: s out)
  case Nil
  then show ?case by (subst puts_loop.simps) simp
next
  case (Cons x xs)
  then show ?case by (subst puts_loop.simps) simp
qed

lemma convert_item:
  assumes "item_ok x" "\<nexists>c. x = Lit c"
    "x = FStr \<Longrightarrow> args ap \<noteq> 0 \<Longrightarrow> cstr m (unat (args ap)) (strs (unat (args ap)))"
  shows "\<exists>c. render x = [0x25, c] \<and> c \<noteq> 0 \<and>
    convert m args c ap out = Some (out @ show_item strs (args ap) x, if takes_arg x then ap + 1 else ap)"
  using assms
  by (cases x) (auto simp: convert_def printint_decimal printint_hex put_string_def puts_loop_cstr)

lemma cstr_append: "cstr m p (xs @ ys) \<longleftrightarrow> holds m p xs \<and> 0 \<notin> set xs \<and> cstr m (p + length xs) ys"
  by (induction xs arbitrary: p) auto

lemma printf_loop_items:
  assumes "\<forall>x \<in> set xs. item_ok x" "FStr \<in> set xs \<longrightarrow> strings_at m strs args" "cstr m p (concat (map render xs))"
  shows "printf_loop m args p False ap out = Some (out @ show_items strs args ap xs)"
  using assms
proof (induction xs arbitrary: p ap out)
  case Nil
  then show ?case by (subst printf_loop.simps) simp
next
  case (Cons x xs)
  show ?case
  proof (cases "\<exists>c. x = Lit c")
    case True
    then obtain c where x: "x = Lit c" by blast
    then have "m p = c" "c \<noteq> 0" "c \<noteq> 0x25" "cstr m (p + 1) (concat (map render xs))" using Cons.prems by auto
    then show ?thesis using Cons.IH [of "p + 1" ap "out @ [c]"] Cons.prems(1,2) x
      by (subst printf_loop.simps) simp
  next
    case False
    obtain c where c: "render x = [0x25, c]" "c \<noteq> 0"
      "\<And>out. convert m args c ap out = Some (out @ show_item strs (args ap) x, if takes_arg x then ap + 1 else ap)"
    proof -
      have s: "x = FStr \<Longrightarrow> args ap \<noteq> 0 \<Longrightarrow> cstr m (unat (args ap)) (strs (unat (args ap)))"
        using Cons.prems(2) by (simp add: strings_at_def)
      have k: "item_ok x" "\<nexists>c. x = Lit c" using Cons.prems(1) False by simp_all
      note ci = convert_item [of x args ap m strs, OF k s]
      obtain c where c: "render x = [0x25, c]" "c \<noteq> 0" using ci [of "[]"] by blast
      have "convert m args c ap out = Some (out @ show_item strs (args ap) x, if takes_arg x then ap + 1 else ap)" for out
        using ci [of out] c(1) by (metis list.inject)
      then show ?thesis using that c by blast
    qed
    have mp: "m p = 0x25" "m (p + 1) = c" "cstr m (p + 2) (concat (map render xs))"
      using Cons.prems(3) c(1) by (auto simp: add.assoc)
    have "printf_loop m args p False ap out = printf_loop m args (p + 1) True ap out"
      using mp(1) by (subst printf_loop.simps) simp
    also have "\<dots> = printf_loop m args (p + 2) False (if takes_arg x then ap + 1 else ap) (out @ show_item strs (args ap) x)"
      using mp(2) c(2,3) by (subst printf_loop.simps) (simp del: takes_arg.simps)
    also have "\<dots> = Some ((out @ show_item strs (args ap) x) @ show_items strs args (if takes_arg x then ap + 1 else ap) xs)"
      using Cons.IH mp(3) Cons.prems(1,2) by simp
    finally show ?thesis by simp
  qed
qed

text \<open>C36: \<open>printf\<close> means what its format says. For a format written from literal characters and the
  conversions, in any order and number, the call returns and its output is the literals with each
  conversion replaced by the text of the next argument: signed decimal, hexadecimal, string, character;
  a null string prints as (null), an unknown conversion is copied.\<close>

theorem printf_meaning:
  assumes "\<forall>x \<in> set xs. item_ok x" and "FStr \<in> set xs \<longrightarrow> strings_at m strs args" and "cstr m p (concat (map render xs))"
  shows "printf m p args = Some (show_items strs args 0 xs)"
  using printf_loop_items [OF assms, of 0 "[]"] by (simp add: printf_def)

text \<open>\<open>%d=%x!\<close> at address 100.\<close>

definition fmt_mem :: bmem where
  "fmt_mem = (\<lambda>_. 0)(100 := 0x25, 101 := 0x64, 102 := 0x3D, 103 := 0x25, 104 := 0x78, 105 := 0x21)"

theorem printf_meaning_witness:
  "printf fmt_mem 100 (\<lambda>k. if k = 0 then - 42 else 0xBEEF) =
     Some [0x2D, 0x34, 0x32, 0x3D, 0x42, 0x45, 0x45, 0x46, 0x21]"
proof -
  have d: "digits_of 10 42 = [4, 2]" by (subst digits_of.simps, simp, subst digits_of.simps, simp)
  have h: "digits_of 16 0xBEEF = [11, 14, 14, 15]"
    by (subst digits_of.simps, simp, subst digits_of.simps, simp, subst digits_of.simps, simp, subst digits_of.simps, simp)
  have "cstr fmt_mem 100 (concat (map render [FDec, Lit 0x3D, FHex, Lit 0x21]))"
    by (simp add: fmt_mem_def)
  then show ?thesis
    using printf_meaning [of "[FDec, Lit 0x3D, FHex, Lit 0x21]" fmt_mem "\<lambda>_. []" "\<lambda>k. if k = 0 then - 42 else 0xBEEF" 100]
    by (simp add: decimal_def numeral_of_def d h DIGITS_UPPER_def)
qed

section \<open>Reading numbers back\<close>

lemma digits_of_less: "2 \<le> b \<Longrightarrow> d \<in> set (digits_of b x) \<Longrightarrow> d < b"
proof (induction b x rule: digits_of.induct)
  case (1 b x)
  then show ?case by (subst (asm) digits_of.simps) (auto split: if_splits)
qed

lemma digits_of_value: "2 \<le> b \<Longrightarrow> foldl (\<lambda>n d. n * b + d) 0 (digits_of b x) = x"
proof (induction b x rule: digits_of.induct)
  case (1 b x)
  show ?case
  proof (cases "x < b")
    case True
    then show ?thesis by (subst digits_of.simps) simp
  next
    case False
    then have "foldl (\<lambda>n d. n * b + d) 0 (digits_of b (x div b)) = x div b" using 1 by simp
    then show ?thesis using False "1.prems" by (subst digits_of.simps) simp
  qed
qed

lemma decimal_digit: "d < 10 \<Longrightarrow> DIGITS_UPPER ! d = of_nat (48 + d) \<and> is_digit (DIGITS_UPPER ! d) \<and> sint (DIGITS_UPPER ! d) = 48 + int d"
proof -
  assume "d < 10"
  then have "d \<in> {0, 1, 2, 3, 4, 5, 6, 7, 8, 9}" by auto
  then show ?thesis by (auto simp: DIGITS_UPPER_def is_digit_def)
qed

lemma atoi_loop_digits:
  assumes "\<forall>d \<in> set ds. d < 10" "cstr m s (map (\<lambda>d. DIGITS_UPPER ! d) ds)"
  shows "atoi_loop m s (int n) = Some (int (foldl (\<lambda>n d. n * 10 + d) n ds))"
  using assms
proof (induction ds arbitrary: s n)
  case Nil
  then show ?case by (subst atoi_loop.simps) (simp add: is_digit_def)
next
  case (Cons d ds)
  then have "is_digit (m s)" "sint (m s) = 48 + int d" using decimal_digit [of d] by auto
  moreover have "int n * 10 + (48 + int d) - 48 = int (n * 10 + d)" by simp
  ultimately have "atoi_loop m s (int n) = atoi_loop m (s + 1) (int (n * 10 + d))"
    by (subst atoi_loop.simps) simp
  moreover have "atoi_loop m (s + 1) (int (n * 10 + d)) = Some (int (foldl (\<lambda>n d. n * 10 + d) (n * 10 + d) ds))"
    by (rule Cons.IH) (use Cons.prems in simp_all)
  ultimately show ?case by simp
qed

text \<open>C37: Numbers survive being printed and read. What \<open>printf("%d")\<close> prints for a non-negative \<open>int\<close>,
  stored as a string, is read back as the same number by \<open>atoi\<close>.\<close>

theorem printint_atoi:
  assumes "0 \<le> sint x" and "cstr m p (the (printint x 10 True))"
  shows "atoi m p = Some (sint x)"
proof -
  have "the (printint x 10 True) = map (\<lambda>d. DIGITS_UPPER ! d) (digits_of 10 (nat (sint x)))"
    using assms(1) by (simp add: printint_decimal decimal_def numeral_of_def)
  then have "atoi_loop m p (int 0) = Some (int (foldl (\<lambda>n d. n * 10 + d) 0 (digits_of 10 (nat (sint x)))))"
    using atoi_loop_digits [of "digits_of 10 (nat (sint x))" m p 0] digits_of_less [of 10] assms(2) by auto
  then show ?thesis using assms(1) by (simp add: atoi_def digits_of_value)
qed

theorem printint_atoi_witness:
  "atoi ((\<lambda>_. 0)(50 := 0x34, 51 := 0x32)) 50 = Some 42"
proof -
  have d: "digits_of 10 42 = [4, 2]" by (subst digits_of.simps, simp, subst digits_of.simps, simp)
  have "printint 42 10 True = Some [0x34, 0x32]"
    by (simp add: printint_decimal decimal_def numeral_of_def d DIGITS_UPPER_def)
  then show ?thesis using printint_atoi [of 42 "(\<lambda>_. 0)(50 := 0x34, 51 := 0x32)" 50] by simp
qed

end
