(* ===== verification/FsRefs.thy ===== *)
theory FsRefs
  imports FsSpec
begin

text \<open>
  The account of the inode cache. \<open>cache_ok s R L\<close> says that slot \<open>j\<close> has exactly \<open>R j\<close> references,
  that exactly the slots in \<open>L\<close> are locked, each by somebody who holds a reference, and that no inode
  is in two slots. The lemmas give, for every operation of fs.c that the system calls use, the account
  after it. \<open>acct\<close> is the part of the cache the account depends on.
\<close>

definition acct :: "fsst \<Rightarrow> (int \<times> bool \<times> nat \<times> nat) list" where
  "acct s = map (\<lambda>q. (i_ref q, i_busy q, i_dev q, i_num q)) (icache s)"

definition cache_ok :: "fsst \<Rightarrow> (nat \<Rightarrow> int) \<Rightarrow> nat set \<Rightarrow> bool" where
  "cache_ok s R L \<longleftrightarrow>
     (\<forall>j < length (icache s). i_ref (ino s j) = R j \<and> (i_busy (ino s j) \<longleftrightarrow> j \<in> L)) \<and>
     (\<forall>j \<in> L. j < length (icache s) \<and> R j \<ge> 1) \<and> cache_unique s"

section \<open>Operations that leave the account alone\<close>

lemma acct_length: "acct s' = acct s \<Longrightarrow> length (icache s') = length (icache s)"
  by (metis acct_def length_map)

lemma acct_refs: "acct s' = acct s \<Longrightarrow> refs s' = refs s"
proof -
  have "refs x = map (\<lambda>(r, b, d, n). (r, d, n)) (acct x)" for x by (simp add: refs_def acct_def comp_def)
  then show "acct s' = acct s \<Longrightarrow> refs s' = refs s" by simp
qed

lemma acct_nth:
  assumes "acct s' = acct s" "j < length (icache s)"
  shows "i_ref (ino s' j) = i_ref (ino s j) \<and> i_busy (ino s' j) = i_busy (ino s j) \<and>
    i_dev (ino s' j) = i_dev (ino s j) \<and> i_num (ino s' j) = i_num (ino s j)"
proof -
  have "acct s' ! j = acct s ! j" "j < length (icache s')" using assms acct_length [OF assms(1)] by simp_all
  then show ?thesis using assms(2) by (simp add: acct_def ino_def)
qed

lemma cache_ok_acct:
  assumes "acct s' = acct s" "cache_ok s R L"
  shows "cache_ok s' R L"
  using refs_balance [OF acct_refs [OF assms(1)]] acct_nth [OF assms(1)] assms(2)
  by (auto simp: cache_ok_def balance_def)

lemma acct_bwrite [simp]: "acct (bwrite dev b v s) = acct s"
  by (simp add: acct_def)

lemma acct_iupd:
  assumes "\<And>q. i_ref (f q) = i_ref q \<and> i_busy (f q) = i_busy q \<and> i_dev (f q) = i_dev q \<and> i_num (f q) = i_num q"
  shows "acct (iupd i f s) = acct s"
  unfolding acct_def iupd_def by (rule nth_equalityI) (simp_all add: nth_upd assms)

lemma acct_iupdate [simp]: "acct (iupdate i s) = acct s"
  by (simp add: iupdate_def Let_def)

lemma acct_balloc: "balloc dev s = Inr (a, s') \<Longrightarrow> acct s' = acct s"
proof -
  have "balloc_loop dev sb b s = Inr (a, s') \<Longrightarrow> acct s' = acct s" for sb b
  proof (induction dev sb b s rule: balloc_loop.induct)
    case (1 dev sb b s)
    then show ?case
      by (subst (asm) (2) balloc_loop.simps) (auto simp: Let_def split: if_splits option.splits)
  qed
  then show "balloc dev s = Inr (a, s') \<Longrightarrow> acct s' = acct s" by (simp add: balloc_def)
qed

lemma acct_bfree: "bfree dev b s = Inr s' \<Longrightarrow> acct s' = acct s"
  by (auto simp: bfree_def bzero_def Let_def split: if_splits)

lemma acct_free_direct: "free_direct i k n s = Inr s' \<Longrightarrow> acct s' = acct s"
proof (induction i k n s rule: free_direct.induct)
  case (2 i k n s)
  then show ?case by (auto simp: Let_def bindE_Inr_iff acct_iupd dest!: acct_bfree split: if_splits)
qed simp

lemma acct_free_list: "free_list dev as s = Inr s' \<Longrightarrow> acct s' = acct s"
  by (induction dev as s rule: free_list.induct)
    (auto simp: bindE_Inr_iff dest!: acct_bfree split: if_splits)

lemma acct_itrunc: "itrunc i s = Inr s' \<Longrightarrow> acct s' = acct s"
  by (auto simp: itrunc_def Let_def bindE_Inr_iff acct_iupd split: if_splits
      dest!: acct_free_direct acct_free_list acct_bfree)

lemma acct_bmap: "bmap i bn s = Inr (a, s') \<Longrightarrow> acct s' = acct s"
  by (auto simp: bmap_def Let_def bindE_Inr_iff acct_iupd split: if_splits dest!: acct_balloc)

lemma acct_readi_loop: "readi_loop i tot off n s = Inr (bs, s') \<Longrightarrow> acct s' = acct s"
proof (induction i tot off n s arbitrary: bs rule: readi_loop.induct)
  case (1 i tot off n s)
  show ?case
  proof (cases "tot < n")
    case True
    let ?m = "min (n - tot) (BSIZE - off mod BSIZE)"
    obtain a s1 xs where b: "bmap i (off div BSIZE) s = Inr (a, s1)"
      "readi_loop i (tot + ?m) (off + ?m) n s1 = Inr (xs, s')"
      using "1.prems" True by (auto simp: readi_loop.simps [of i tot off n s] Let_def bindE_Inr_iff)
    show ?thesis using "1.IH" [OF True refl b(2)] acct_bmap [OF b(1)] by simp
  qed (use "1.prems" in \<open>simp add: readi_loop.simps\<close>)
qed

lemma acct_readi: "readi D i off n s = Inr (x, s') \<Longrightarrow> acct s' = acct s"
  by (auto simp: readi_def Let_def bindE_Inr_iff dest!: acct_readi_loop split: if_splits option.splits)

lemma acct_writei_loop: "writei_loop i src tot off n s = Inr (x, s') \<Longrightarrow> acct s' = acct s"
proof (induction i src tot off n s rule: writei_loop.induct)
  case (1 i src tot off n s)
  show ?case
  proof (cases "tot < n")
    case True
    let ?m = "min (n - tot) (BSIZE - off mod BSIZE)"
    obtain a s1 where b: "bmap i (off div BSIZE) s = Inr (a, s1)"
      "writei_loop i src (tot + ?m) (off + ?m) n (bwrite (i_dev (ino s1 i)) a
         (blit (off mod BSIZE) (take ?m (drop tot src)) (bread (i_dev (ino s1 i)) a s1)) s1) = Inr (x, s')"
      using "1.prems" True by (auto simp: writei_loop.simps [of i src tot off n s] Let_def bindE_Inr_iff)
    show ?thesis using "1.IH" [OF True refl refl b(2)] acct_bmap [OF b(1)] by simp
  qed (use "1.prems" in \<open>simp add: writei_loop.simps\<close>)
qed

lemma acct_writei: "writei D i src off n s = Inr (x, s') \<Longrightarrow> acct s' = acct s"
  by (auto simp: writei_def Let_def bindE_Inr_iff acct_iupd dest!: acct_writei_loop split: if_splits option.splits)

lemma acct_dirlink_find: "dirlink_find D dp len off s = Inr (x, s') \<Longrightarrow> acct s' = acct s"
proof (induction D dp len off s rule: dirlink_find.induct)
  case (1 D dp len off s)
  show ?case
  proof (cases "off < len")
    case True
    then obtain r bs s1 where b: "readi D dp off 16 s = Inr ((r, bs), s1)"
      using "1.prems" by (auto simp: dirlink_find.simps [of D dp len off s] bindE_Inr_iff)
    show ?thesis
    proof (cases "r \<noteq> 16 \<or> get16 (\<lambda>k. bs ! k) 0 = 0")
      case True
      then show ?thesis using "1.prems" b \<open>off < len\<close> acct_readi [OF b]
        by (auto simp: dirlink_find.simps [of D dp len off s] split: if_splits)
    next
      case False
      then have d: "dirlink_find D dp len (off + 16) s1 = Inr (x, s')"
        using "1.prems" b \<open>off < len\<close> by (simp add: dirlink_find.simps [of D dp len off s])
      show ?thesis using "1.IH" [OF \<open>off < len\<close> _ _ d] False acct_readi [OF b] by auto
    qed
  qed (use "1.prems" in \<open>simp add: dirlink_find.simps\<close>)
qed

section \<open>Locks\<close>

lemma cache_ok_upd:
  assumes "cache_ok s R L" "i < length (icache s)" "cache_unique (iupd i f s)"
    and "i_ref (f (ino s i)) = R' i" "i_busy (f (ino s i)) \<longleftrightarrow> i \<in> L'" "i \<in> L' \<longrightarrow> R' i \<ge> 1"
    and "\<And>j. j \<noteq> i \<Longrightarrow> R' j = R j \<and> (j \<in> L' \<longleftrightarrow> j \<in> L)"
  shows "cache_ok (iupd i f s) R' L'"
  unfolding cache_ok_def
proof (intro conjI allI ballI impI)
  fix j assume "j < length (icache (iupd i f s))"
  then have j: "j < length (icache s)" by simp
  show "i_ref (ino (iupd i f s) j) = R' j" "i_busy (ino (iupd i f s) j) = (j \<in> L')"
    using assms(1,4,5,7) j ino_iupd [OF assms(2)] ino_iupd_other [of j i f s]
    by (cases "j = i"; simp add: cache_ok_def)+
next
  fix j assume "j \<in> L'"
  then show "j < length (icache (iupd i f s))" "1 \<le> R' j"
    using assms(1,2,6,7) by (cases "j = i"; auto simp: cache_ok_def)+
qed (rule assms(3))

lemma unique_iupd:
  assumes "cache_unique s" "i < length (icache s)" "\<And>q. i_dev (f q) = i_dev q \<and> i_num (f q) = i_num q"
    and "i_ref (f (ino s i)) > 0 \<longrightarrow> i_ref (ino s i) > 0"
  shows "cache_unique (iupd i f s)"
  unfolding cache_unique_def
proof (intro allI impI)
  fix j k assume jk: "j < length (icache (iupd i f s))" "k < length (icache (iupd i f s))"
    and a: "i_ref (ino (iupd i f s) j) > 0 \<and> i_ref (ino (iupd i f s) k) > 0 \<and>
      i_dev (ino (iupd i f s) j) = i_dev (ino (iupd i f s) k) \<and>
      i_num (ino (iupd i f s) j) = i_num (ino (iupd i f s) k)"
  have key: "i_dev (ino (iupd i f s) x) = i_dev (ino s x) \<and> i_num (ino (iupd i f s) x) = i_num (ino s x) \<and>
      (i_ref (ino (iupd i f s) x) > 0 \<longrightarrow> i_ref (ino s x) > 0)" for x
    using assms(3,4) ino_iupd [OF assms(2)] ino_iupd_other [of x i f s] by (cases "x = i") auto
  show "j = k" using assms(1) jk a key [of j] key [of k] unfolding cache_unique_def length_iupd by metis
qed

lemma ilock_ok:
  assumes "cache_ok s R L" "ilock (Some i) s = Inr s'" "i < length (icache s)"
  shows "i \<notin> L \<and> R i \<ge> 1 \<and> cache_ok s' R (insert i L) \<and> length (icache s') = length (icache s)"
proof -
  have i: "i_ref (ino s i) = R i" "i_busy (ino s i) \<longleftrightarrow> i \<in> L" using assms(1,3) by (auto simp: cache_ok_def)
  have n: "\<not> i_ref (ino s i) < 1" "i \<notin> L" using assms(2) i by (auto simp: ilock_def split: if_splits)
  let ?f = "\<lambda>ip. ip\<lparr>i_busy := True\<rparr>"
  have "cache_ok (iupd i ?f s) R (insert i L)"
    using assms(1,3) i n
    by (intro cache_ok_upd [where R = R and L = L]) (auto intro!: unique_iupd simp: cache_ok_def)
  moreover have "acct s' = acct (iupd i ?f s)"
    using assms(2) by (auto simp: ilock_def Let_def acct_iupd load_inode_def split: if_splits)
  ultimately show ?thesis using cache_ok_acct n i acct_length [of s' "iupd i ?f s"] by auto
qed

lemma iunlock_ok:
  assumes "cache_ok s R L" "iunlock (Some i) s = Inr s'" "i < length (icache s)"
  shows "i \<in> L \<and> cache_ok s' R (L - {i}) \<and> length (icache s') = length (icache s)"
proof -
  have i: "i_ref (ino s i) = R i" "i_busy (ino s i) \<longleftrightarrow> i \<in> L" using assms(1,3) by (auto simp: cache_ok_def)
  let ?f = "\<lambda>ip. ip\<lparr>i_busy := False\<rparr>"
  have s': "s' = iupd i ?f s" "i \<in> L" using assms(2) i by (auto simp: iunlock_def split: if_splits)
  have "cache_ok (iupd i ?f s) R (L - {i})"
    using assms(1,3) i
    by (intro cache_ok_upd [where R = R and L = L]) (auto intro!: unique_iupd simp: cache_ok_def)
  then show ?thesis using s' by simp
qed

section \<open>References\<close>

lemma iget_shape:
  assumes "iget dev inum s = Inr (k, s')"
  shows "k < length (icache s) \<and>
    ((i_ref (ino s k) > 0 \<and> s' = iupd k (\<lambda>ip. ip\<lparr>i_ref := i_ref ip + 1\<rparr>) s) \<or>
     (i_ref (ino s k) = 0 \<and>
      s' = iupd k (\<lambda>ip. ip\<lparr>i_dev := dev, i_num := inum, i_ref := 1, i_busy := False, i_valid := False\<rparr>) s))"
proof -
  obtain f r where sc: "iget_scan dev inum 0 (icache s) None = (f, r)" by fastforce
  show ?thesis
  proof (cases f)
    case True
    then have "iget_scan dev inum 0 (icache s) None = (True, r)" using sc by simp
    from iget_scan_found [OF this] show ?thesis
      using assms sc True by (auto simp: iget_def ino_def)
  next
    case False
    then have "iget_scan dev inum 0 (icache s) None = (False, r)" using sc by simp
    from iget_scan_fresh [OF this] show ?thesis
      using assms sc False by (auto simp: iget_def ino_def split: option.splits)
  qed
qed

lemma cache_ok_free: "cache_ok s R L \<Longrightarrow> R k = 0 \<Longrightarrow> k \<notin> L"
  by (auto simp: cache_ok_def)

lemma iget_ok:
  assumes "cache_ok s R L" "iget dev inum s = Inr (k, s')"
  shows "k < length (icache s) \<and> R k \<ge> 0 \<and> cache_ok s' (R(k := R k + 1)) L \<and> length (icache s') = length (icache s)"
proof -
  note sh = iget_shape [OF assms(2)]
  have k: "i_ref (ino s k) = R k" "i_busy (ino s k) \<longleftrightarrow> k \<in> L" using assms(1) sh by (auto simp: cache_ok_def)
  have u: "cache_unique s'" using iget_balance [OF assms(2)] assms(1) by (simp add: balance_def cache_ok_def)
  from sh consider
      "i_ref (ino s k) > 0" "s' = iupd k (\<lambda>ip. ip\<lparr>i_ref := i_ref ip + 1\<rparr>) s"
    | "i_ref (ino s k) = 0"
      "s' = iupd k (\<lambda>ip. ip\<lparr>i_dev := dev, i_num := inum, i_ref := 1, i_busy := False, i_valid := False\<rparr>) s"
    by blast
  then have "cache_ok s' (R(k := R k + 1)) L \<and> R k \<ge> 0 \<and> length (icache s') = length (icache s)"
  proof cases
    case 1
    have "cache_ok s' (R(k := R k + 1)) L"
      unfolding 1(2) using assms(1) sh u k 1
      by (intro cache_ok_upd [where R = R and L = L]) auto
    then show ?thesis using 1 k by simp
  next
    case 2
    have "k \<notin> L" using cache_ok_free [OF assms(1)] k 2(1) by simp
    then have "cache_ok s' (R(k := R k + 1)) L"
      unfolding 2(2) using assms(1) sh u k 2
      by (intro cache_ok_upd [where R = R and L = L]) auto
    then show ?thesis using 2 k by simp
  qed
  then show ?thesis using sh by simp
qed

lemma iput_ok:
  assumes "cache_ok s R L" "iput i s = Inr s'" "i < length (icache s)" "i \<in> L \<longrightarrow> R i \<ge> 2"
  shows "cache_ok s' (R(i := R i - 1)) L \<and> length (icache s') = length (icache s)"
proof -
  let ?cond = "i_ref (ino s i) = 1 \<and> i_valid (ino s i) \<and> i_nlink (ino s i) = 0"
  let ?t = "\<lambda>q. q\<lparr>i_busy := True\<rparr>"
  obtain s3 where a: "(if ?cond then
        if i_busy (ino s i) then Inl (FPanic ''iput busy'')
        else bindE (itrunc i (iupd i ?t s)) (\<lambda>s1.
               let s2 = iupdate i (iupd i (\<lambda>q. q\<lparr>i_type := 0\<rparr>) s1)
               in Inr (iupd i (\<lambda>q. q\<lparr>i_busy := False, i_valid := False\<rparr>) s2))
      else Inr s) = Inr s3" "s' = iupd i (\<lambda>q. q\<lparr>i_ref := i_ref q - 1\<rparr>) s3"
    using assms(2) unfolding iput_def bindE_Inr_iff by blast
  have s3: "cache_ok s3 R L \<and> length (icache s3) = length (icache s)"
  proof (cases ?cond)
    case False
    then have "s3 = s" using a(1) unfolding if_not_P [OF False] by simp
    then show ?thesis using assms(1) by simp
  next
    case True
    then obtain s1 where nb: "\<not> i_busy (ino s i)" and t: "itrunc i (iupd i ?t s) = Inr s1"
      "s3 = iupd i (\<lambda>q. q\<lparr>i_busy := False, i_valid := False\<rparr>) (iupdate i (iupd i (\<lambda>q. q\<lparr>i_type := 0\<rparr>) s1))"
      using a(1) unfolding if_P [OF True] by (auto simp: Let_def bindE_Inr_iff split: if_splits)
    have i: "i_ref (ino s i) = R i" "i \<notin> L" using assms(1,3) nb by (auto simp: cache_ok_def)
    have 1: "cache_ok (iupd i ?t s) R (insert i L)"
      using assms(1,3) i True
      by (intro cache_ok_upd [where R = R and L = L]) (auto intro!: unique_iupd simp: cache_ok_def)
    let ?s2 = "iupdate i (iupd i (\<lambda>q. q\<lparr>i_type := 0\<rparr>) s1)"
    have e: "acct ?s2 = acct (iupd i ?t s)" using acct_itrunc [OF t(1)] by (simp add: acct_iupd)
    then have 2: "cache_ok ?s2 R (insert i L)" "i < length (icache ?s2)"
      using cache_ok_acct [OF e 1] acct_length [OF e] assms(3) by simp_all
    have "cache_ok s3 R L" unfolding t(2)
      using 2 i by (intro cache_ok_upd [OF 2]) (auto intro!: unique_iupd simp: cache_ok_def)
    then show ?thesis using t(2) acct_length [OF e] by simp
  qed
  have "i_ref (ino s3 i) = R i" "i_busy (ino s3 i) \<longleftrightarrow> i \<in> L"
    using s3 assms(3) by (auto simp: cache_ok_def)
  then have "cache_ok s' (R(i := R i - 1)) L"
    unfolding a(2) using s3 assms(3,4)
    by (intro cache_ok_upd [where R = R and L = L]) (auto intro!: unique_iupd simp: cache_ok_def)
  then show ?thesis using a(2) s3 by simp
qed

lemma iunlockput_ok:
  assumes "cache_ok s R L" "iunlockput i s = Inr s'" "i < length (icache s)"
  shows "i \<in> L \<and> cache_ok s' (R(i := R i - 1)) (L - {i}) \<and> length (icache s') = length (icache s)"
proof -
  obtain s1 where a: "iunlock (Some i) s = Inr s1" "iput i s1 = Inr s'"
    using assms(2) by (auto simp: iunlockput_def bindE_Inr_iff)
  from iunlock_ok [OF assms(1) a(1) assms(3)] iput_ok [OF _ a(2), of R "L - {i}"] assms(3)
  show ?thesis by simp
qed

end
