(* ===== verification/Files.thy ===== *)
theory Files
  imports Fs Pipe Kalloc
begin

text \<open>
  The file table and the system calls on open files (kernel/file.c, the descriptor half of
  kernel/sysfile.c, \<open>pipealloc\<close> of kernel/pipe.c, the argument checks of kernel/syscall.c), on the
  inodes of \<open>Fs\<close>, the rings of \<open>Pipe\<close> and the pages of \<open>Kalloc\<close>. A \<open>struct file *\<close> is an index into
  \<open>ftab\<close>, a process an index into \<open>uprocs\<close>; a pipe lives at the address of its page.

  A system call is one atomic step. \<open>Inl\<close> is a panic or a sleep on a busy inode. A read or write of a
  pipe that has to wait ends with \<open>PSleep\<close> and the state reached; \<open>pipe_resume\<close> goes on from there.
  User memory is what the page table of the process maps; the kernel touching anything else is a page
  fault in kernel mode, the panic "trap".
\<close>

section \<open>State\<close>

type_synonym byte = "8 word"

datatype ftype = FD_NONE | FD_PIPE | FD_INODE

record kfile =
  f_type :: ftype
  f_ref :: int
  f_readable :: bool
  f_writable :: bool
  f_pipe :: addr
  f_ip :: nat
  f_off :: nat

record uproc =
  u_sz :: "32 word"
  u_esp :: "32 word"
  u_pgdir :: addr
  u_killed :: bool
  u_ofile :: "nat option list"
  u_cwd :: "nat option"

record kfs =
  ftab :: "kfile list"
  uprocs :: "uproc list"
  fsys :: fsst
  pipes :: "addr \<Rightarrow> pipe"
  kpages :: kmem
  kend :: addr
  devs :: devsw
  umem :: "addr \<Rightarrow> 32 word \<Rightarrow> byte option"

definition NOFILE :: nat where "NOFILE = 16"

definition NFILE :: nat where "NFILE = 100"

abbreviation proc_at :: "kfs \<Rightarrow> nat \<Rightarrow> uproc" where "proc_at s p \<equiv> uprocs s ! p"

abbreviation file_at :: "kfs \<Rightarrow> nat \<Rightarrow> kfile" where "file_at s k \<equiv> ftab s ! k"

definition pupd :: "nat \<Rightarrow> (uproc \<Rightarrow> uproc) \<Rightarrow> kfs \<Rightarrow> kfs" where
  "pupd p f s = s\<lparr>uprocs := (uprocs s)[p := f (proc_at s p)]\<rparr>"

definition fupd :: "nat \<Rightarrow> (kfile \<Rightarrow> kfile) \<Rightarrow> kfs \<Rightarrow> kfs" where
  "fupd k f s = s\<lparr>ftab := (ftab s)[k := f (file_at s k)]\<rparr>"

text \<open>An operation of the file system, and one of the page allocator, inside the kernel.\<close>

definition on_fs :: "(fsst \<Rightarrow> ferror + 'a \<times> fsst) \<Rightarrow> kfs \<Rightarrow> ferror + 'a \<times> kfs" where
  "on_fs f s = bindE (f (fsys s)) (\<lambda>(x, t). Inr (x, s\<lparr>fsys := t\<rparr>))"

definition do_fs :: "(fsst \<Rightarrow> ferror + fsst) \<Rightarrow> kfs \<Rightarrow> ferror + kfs" where
  "do_fs f s = bindE (f (fsys s)) (\<lambda>t. Inr (s\<lparr>fsys := t\<rparr>))"

definition free_page :: "addr \<Rightarrow> kfs \<Rightarrow> ferror + kfs" where
  "free_page a s =
     (case kfree (kend s) a (kpages s) of
        Inl (Panic msg) \<Rightarrow> Inl (FPanic msg)
      | Inr m \<Rightarrow> Inr (s\<lparr>kpages := m\<rparr>))"

text \<open>The early return \<open>-1\<close> of a system call whose check fails.\<close>

definition orfail :: "'a option \<Rightarrow> kfs \<Rightarrow> ('a \<Rightarrow> ferror + int \<times> kfs) \<Rightarrow> ferror + int \<times> kfs" where
  "orfail r s f = (case r of None \<Rightarrow> Inr (- 1, s) | Some x \<Rightarrow> f x)"

section \<open>User memory and arguments\<close>

definition peek :: "addr \<Rightarrow> 32 word \<Rightarrow> kfs \<Rightarrow> ferror + byte" where
  "peek pg a s = (case umem s pg a of None \<Rightarrow> Inl (FPanic ''trap'') | Some b \<Rightarrow> Inr b)"

fun load_bytes :: "addr \<Rightarrow> 32 word \<Rightarrow> nat \<Rightarrow> kfs \<Rightarrow> ferror + byte list" where
  "load_bytes pg a 0 s = Inr []"
| "load_bytes pg a (Suc n) s =
     bindE (peek pg a s) (\<lambda>b. bindE (load_bytes pg (a + 1) n s) (\<lambda>bs. Inr (b # bs)))"

fun store_bytes :: "addr \<Rightarrow> 32 word \<Rightarrow> byte list \<Rightarrow> kfs \<Rightarrow> ferror + kfs" where
  "store_bytes pg a [] s = Inr s"
| "store_bytes pg a (b # bs) s =
     bindE (peek pg a s) (\<lambda>_. store_bytes pg (a + 1) bs
       (s\<lparr>umem := (umem s)(pg := (umem s pg)(a := Some b))\<rparr>))"

definition word_of_bytes :: "byte list \<Rightarrow> 32 word" where
  "word_of_bytes bs = foldr (\<lambda>b w. ucast b + 256 * w) bs 0"

definition bytes_of_nat :: "nat \<Rightarrow> nat \<Rightarrow> byte list" where
  "bytes_of_nat k v = map (\<lambda>i. of_nat (v div 256 ^ i)) [0..<k]"

definition fetchint_p4 :: "uproc \<Rightarrow> 32 word \<Rightarrow> kfs \<Rightarrow> ferror + 32 word option" where
  "fetchint_p4 p a s =
     (if a \<ge> u_sz p \<or> a + 4 > u_sz p then Inr None
      else bindE (load_bytes (u_pgdir p) a 4 s) (\<lambda>bs. Inr (Some (word_of_bytes bs))))"

text \<open>The scan for the NUL returns the bytes before it; their number is what \<open>fetchstr\<close> returns.\<close>

function str_scan_p4 :: "addr \<Rightarrow> 32 word \<Rightarrow> 32 word \<Rightarrow> kfs \<Rightarrow> ferror + byte list option" where
  "str_scan_p4 pg a ep s =
     (if a < ep then
        bindE (peek pg a s) (\<lambda>b.
        if b = 0 then Inr (Some [])
        else bindE (str_scan_p4 pg (a + 1) ep s) (\<lambda>r. Inr (map_option ((#) b) r)))
      else Inr None)"
  by pat_completeness auto
termination
proof (relation "measure (\<lambda>(pg, a, ep, s). unat (ep - a))")
  fix pg a ep s x assume "(a :: 32 word) < ep"
  then have "ep - a \<noteq> 0" by auto
  then have "unat (ep - a - 1) < unat (ep - a)" by (rule measure_unat)
  then show "((pg, a + 1, ep, s), pg, a, ep, s) \<in> measure (\<lambda>(pg, a, ep, s). unat (ep - a))"
    by (simp add: algebra_simps)
qed simp

declare str_scan_p4.simps [simp del]

definition fetchstr_p4 :: "uproc \<Rightarrow> 32 word \<Rightarrow> kfs \<Rightarrow> ferror + byte list option" where
  "fetchstr_p4 p a s = (if a \<ge> u_sz p then Inr None else str_scan_p4 (u_pgdir p) a (u_sz p) s)"

definition argint_p4 :: "nat \<Rightarrow> nat \<Rightarrow> kfs \<Rightarrow> ferror + 32 word option" where
  "argint_p4 p n s = fetchint_p4 (proc_at s p) (u_esp (proc_at s p) + 4 + 4 * of_nat n) s"

definition argptr_p4 :: "nat \<Rightarrow> nat \<Rightarrow> 32 word \<Rightarrow> kfs \<Rightarrow> ferror + 32 word option" where
  "argptr_p4 p n nbytes s =
     bindE (argint_p4 p n s) (\<lambda>r. case r of None \<Rightarrow> Inr None
     | Some i \<Rightarrow> if i \<ge> u_sz (proc_at s p) \<or> i + nbytes > u_sz (proc_at s p) then Inr None else Inr (Some i))"

definition argstr_p4 :: "nat \<Rightarrow> nat \<Rightarrow> kfs \<Rightarrow> ferror + byte list option" where
  "argstr_p4 p n s =
     bindE (argint_p4 p n s) (\<lambda>r. case r of None \<Rightarrow> Inr None
     | Some a \<Rightarrow> fetchstr_p4 (proc_at s p) a s)"

section \<open>The file table\<close>

definition filealloc :: "kfs \<Rightarrow> nat option \<times> kfs" where
  "filealloc s =
     (case find (\<lambda>k. f_ref (file_at s k) = 0) [0..<length (ftab s)] of
        None \<Rightarrow> (None, s)
      | Some k \<Rightarrow> (Some k, fupd k (\<lambda>f. f\<lparr>f_ref := 1\<rparr>) s))"

definition filedup :: "nat \<Rightarrow> kfs \<Rightarrow> ferror + kfs" where
  "filedup k s =
     (if f_ref (file_at s k) < 1 then Inl (FPanic ''filedup'')
      else Inr (fupd k (\<lambda>f. f\<lparr>f_ref := f_ref f + 1\<rparr>) s))"

text \<open>\<open>pipeclose\<close> on the pipe at \<open>a\<close>: the ring, then the page once both ends are closed.\<close>

definition close_pipe :: "addr \<Rightarrow> bool \<Rightarrow> kfs \<Rightarrow> ferror + kfs" where
  "close_pipe a writable s =
     (case pipeclose writable (pipes s a) of (q, _, dead) \<Rightarrow>
        let s1 = s\<lparr>pipes := (pipes s)(a := q)\<rparr> in if dead then free_page a s1 else Inr s1)"

definition fileclose :: "nat \<Rightarrow> kfs \<Rightarrow> ferror + kfs" where
  "fileclose k s =
     (if f_ref (file_at s k) < 1 then Inl (FPanic ''fileclose'')
      else
        let s1 = fupd k (\<lambda>f. f\<lparr>f_ref := f_ref f - 1\<rparr>) s in
        if f_ref (file_at s1 k) > 0 then Inr s1
        else
          let ff = file_at s1 k; s2 = fupd k (\<lambda>f. f\<lparr>f_ref := 0, f_type := FD_NONE\<rparr>) s1 in
          case f_type ff of
            FD_PIPE \<Rightarrow> close_pipe (f_pipe ff) (f_writable ff) s2
          | FD_INODE \<Rightarrow> do_fs (iput (f_ip ff)) s2
          | FD_NONE \<Rightarrow> Inr s2)"

text \<open>The fields of a \<open>struct stat\<close> at their offsets; the bytes between them are not written.\<close>

definition store_stat :: "addr \<Rightarrow> 32 word \<Rightarrow> stat \<Rightarrow> kfs \<Rightarrow> ferror + kfs" where
  "store_stat pg a st s =
     bindE (store_bytes pg (a + 4) (bytes_of_nat 4 (st_dev st)) s) (\<lambda>s1.
     bindE (store_bytes pg (a + 8) (bytes_of_nat 4 (st_ino st)) s1) (\<lambda>s2.
     bindE (store_bytes pg a (bytes_of_nat 2 (nat (st_type st mod 2 ^ 16))) s2) (\<lambda>s3.
     bindE (store_bytes pg (a + 12) (bytes_of_nat 2 (nat (st_nlink st mod 2 ^ 16))) s3) (\<lambda>s4.
     store_bytes pg (a + 16) (bytes_of_nat 4 (st_size st)) s4))))"

definition filestat :: "nat \<Rightarrow> addr \<Rightarrow> 32 word \<Rightarrow> kfs \<Rightarrow> ferror + int \<times> kfs" where
  "filestat k pg a s =
     (if f_type (file_at s k) = FD_INODE then
        let i = f_ip (file_at s k) in
        bindE (do_fs (ilock (Some i)) s) (\<lambda>s1.
        bindE (store_stat pg a (stati i (fsys s1)) s1) (\<lambda>s2.
        bindE (do_fs (iunlock (Some i)) s2) (\<lambda>s3. Inr (0, s3))))
      else Inr (- 1, s))"

section \<open>Reading and writing open files\<close>

text \<open>The result says whether the call returned or sleeps in the pipe. A writer that sleeps has the
  bytes \<open>rest\<close> to go.\<close>

definition pipe_read :: "nat \<Rightarrow> addr \<Rightarrow> 32 word \<Rightarrow> 32 word \<Rightarrow> kfs \<Rightarrow> ferror + int pres \<times> kfs" where
  "pipe_read p a dst n s =
     (case piperead (u_killed (proc_at s p)) (sint n) (pipes s a) of (r, bs, q, _) \<Rightarrow>
        bindE (store_bytes (u_pgdir (proc_at s p)) dst bs (s\<lparr>pipes := (pipes s)(a := q)\<rparr>)) (\<lambda>s1. Inr (r, s1)))"

text \<open>The offset moves on by a positive result.\<close>

definition advance :: "nat \<Rightarrow> int \<Rightarrow> kfs \<Rightarrow> kfs" where
  "advance k r s = (if r > 0 then fupd k (\<lambda>q. q\<lparr>f_off := uadd (f_off q) (nat r)\<rparr>) s else s)"

definition fileread :: "nat \<Rightarrow> nat \<Rightarrow> 32 word \<Rightarrow> 32 word \<Rightarrow> kfs \<Rightarrow> ferror + int pres \<times> kfs" where
  "fileread p k dst n s =
     (let f = file_at s k in
      if \<not> f_readable f then Inr (PRet (- 1), s)
      else case f_type f of
        FD_PIPE \<Rightarrow> pipe_read p (f_pipe f) dst n s
      | FD_INODE \<Rightarrow>
          bindE (do_fs (ilock (Some (f_ip f))) s) (\<lambda>s1.
          bindE (on_fs (readi (devs s1) (f_ip f) (f_off f) (unat n)) s1) (\<lambda>((r, bs), s2).
          bindE (store_bytes (u_pgdir (proc_at s p)) dst bs s2) (\<lambda>s3.
          bindE (do_fs (iunlock (Some (f_ip f))) (advance k r s3)) (\<lambda>s4. Inr (PRet r, s4)))))
      | FD_NONE \<Rightarrow> Inl (FPanic ''fileread''))"

text \<open>The bytes to write are fetched at the start of the call; \<open>argptr\<close> has checked that they are inside
  the process unless \<open>n\<close> is negative. This is the number that \<open>writei\<close> takes from its source.\<close>

definition wcount :: "devsw \<Rightarrow> inode \<Rightarrow> nat \<Rightarrow> 32 word \<Rightarrow> nat" where
  "wcount D ip off n =
     (if i_type ip = T_DEV then
        if i_major ip < 0 \<or> i_major ip \<ge> NDEV \<or> dv_write D (i_major ip) = None then 0 else nat (sint n)
      else if off > i_size ip \<or> uadd off (unat n) < off then 0
      else if uadd off (unat n) > MAXFILE * BSIZE then usub (MAXFILE * BSIZE) off else unat n)"

definition pipe_write :: "nat \<Rightarrow> addr \<Rightarrow> 32 word \<Rightarrow> 32 word \<Rightarrow> kfs \<Rightarrow> ferror + int pres \<times> byte list \<times> kfs" where
  "pipe_write p a src n s =
     bindE (load_bytes (u_pgdir (proc_at s p)) src (nat (sint n)) s) (\<lambda>bs.
     case pipewrite (u_killed (proc_at s p)) (\<lambda>i. bs ! i) (sint n) (pipes s a) of (r, rest, q, _) \<Rightarrow>
       Inr (r, rest, s\<lparr>pipes := (pipes s)(a := q)\<rparr>))"

definition filewrite :: "nat \<Rightarrow> nat \<Rightarrow> 32 word \<Rightarrow> 32 word \<Rightarrow> kfs \<Rightarrow> ferror + int pres \<times> byte list \<times> kfs" where
  "filewrite p k src n s =
     (let f = file_at s k in
      if \<not> f_writable f then Inr (PRet (- 1), [], s)
      else case f_type f of
        FD_PIPE \<Rightarrow> pipe_write p (f_pipe f) src n s
      | FD_INODE \<Rightarrow>
          bindE (do_fs (ilock (Some (f_ip f))) s) (\<lambda>s1.
          bindE (load_bytes (u_pgdir (proc_at s p)) src (wcount (devs s1) (ino (fsys s1) (f_ip f)) (f_off f) n) s1) (\<lambda>bs.
          bindE (on_fs (writei (devs s1) (f_ip f) bs (f_off f) (unat n)) s1) (\<lambda>(r, s2).
          bindE (do_fs (iunlock (Some (f_ip f))) (advance k r s2)) (\<lambda>s3. Inr (PRet r, [], s3)))))
      | FD_NONE \<Rightarrow> Inl (FPanic ''filewrite''))"

text \<open>A sleeping writer that is woken goes on behind the \<open>done\<close> bytes it has stored; a sleeping reader
  starts again with \<open>pipe_read\<close>.\<close>

definition pipe_resume :: "nat \<Rightarrow> addr \<Rightarrow> 32 word \<Rightarrow> 32 word \<Rightarrow> nat \<Rightarrow> kfs \<Rightarrow> ferror + int pres \<times> byte list \<times> kfs" where
  "pipe_resume p a src n ndone s =
     bindE (load_bytes (u_pgdir (proc_at s p)) (src + of_nat ndone) (nat (sint n) - ndone) s) (\<lambda>bs.
     case pipewrite_loop (u_killed (proc_at s p)) (sint n) bs (pipes s a) of (r, rest, q, _) \<Rightarrow>
       Inr (r, rest, s\<lparr>pipes := (pipes s)(a := q)\<rparr>))"

section \<open>Descriptors\<close>

definition argfd :: "nat \<Rightarrow> nat \<Rightarrow> kfs \<Rightarrow> ferror + (nat \<times> nat) option" where
  "argfd p n s =
     bindE (argint_p4 p n s) (\<lambda>r. Inr (case r of None \<Rightarrow> None
     | Some w \<Rightarrow> if sint w < 0 \<or> sint w \<ge> int NOFILE then None
                 else map_option (\<lambda>k. (unat w, k)) (u_ofile (proc_at s p) ! unat w)))"

definition fdalloc :: "nat \<Rightarrow> nat \<Rightarrow> kfs \<Rightarrow> nat option \<times> kfs" where
  "fdalloc p k s =
     (case find (\<lambda>fd. u_ofile (proc_at s p) ! fd = None) [0..<NOFILE] of
        None \<Rightarrow> (None, s)
      | Some fd \<Rightarrow> (Some fd, pupd p (\<lambda>q. q\<lparr>u_ofile := (u_ofile q)[fd := Some k]\<rparr>) s))"

definition fdclear :: "nat \<Rightarrow> nat \<Rightarrow> kfs \<Rightarrow> kfs" where
  "fdclear p fd = pupd p (\<lambda>q. q\<lparr>u_ofile := (u_ofile q)[fd := None]\<rparr>)"

definition sys_dup :: "nat \<Rightarrow> kfs \<Rightarrow> ferror + int \<times> kfs" where
  "sys_dup p s =
     bindE (argfd p 0 s) (\<lambda>r. orfail r s (\<lambda>(_, k).
     case fdalloc p k s of
       (None, s1) \<Rightarrow> Inr (- 1, s1)
     | (Some fd, s1) \<Rightarrow> bindE (filedup k s1) (\<lambda>s2. Inr (int fd, s2))))"

definition sys_read :: "nat \<Rightarrow> kfs \<Rightarrow> ferror + int pres \<times> kfs" where
  "sys_read p s =
     bindE (argfd p 0 s) (\<lambda>r0. case r0 of None \<Rightarrow> Inr (PRet (- 1), s) | Some (_, k) \<Rightarrow>
     bindE (argint_p4 p 2 s) (\<lambda>r2. case r2 of None \<Rightarrow> Inr (PRet (- 1), s) | Some n \<Rightarrow>
     bindE (argptr_p4 p 1 n s) (\<lambda>r1. case r1 of None \<Rightarrow> Inr (PRet (- 1), s) | Some a \<Rightarrow>
     fileread p k a n s)))"

definition sys_write :: "nat \<Rightarrow> kfs \<Rightarrow> ferror + int pres \<times> byte list \<times> kfs" where
  "sys_write p s =
     bindE (argfd p 0 s) (\<lambda>r0. case r0 of None \<Rightarrow> Inr (PRet (- 1), [], s) | Some (_, k) \<Rightarrow>
     bindE (argint_p4 p 2 s) (\<lambda>r2. case r2 of None \<Rightarrow> Inr (PRet (- 1), [], s) | Some n \<Rightarrow>
     bindE (argptr_p4 p 1 n s) (\<lambda>r1. case r1 of None \<Rightarrow> Inr (PRet (- 1), [], s) | Some a \<Rightarrow>
     filewrite p k a n s)))"

definition sys_close :: "nat \<Rightarrow> kfs \<Rightarrow> ferror + int \<times> kfs" where
  "sys_close p s =
     bindE (argfd p 0 s) (\<lambda>r. orfail r s (\<lambda>(fd, k).
     bindE (fileclose k (fdclear p fd s)) (\<lambda>s1. Inr (0, s1))))"

definition sys_fstat :: "nat \<Rightarrow> kfs \<Rightarrow> ferror + int \<times> kfs" where
  "sys_fstat p s =
     bindE (argfd p 0 s) (\<lambda>r. orfail r s (\<lambda>(_, k).
     bindE (argptr_p4 p 1 20 s) (\<lambda>r1. orfail r1 s (\<lambda>a.
     filestat k (u_pgdir (proc_at s p)) a s))))"

definition pipealloc :: "kfs \<Rightarrow> ferror + (nat \<times> nat) option \<times> kfs" where
  "pipealloc s =
     (case filealloc s of
        (None, s1) \<Rightarrow> Inr (None, s1)
      | (Some k0, s1) \<Rightarrow> (case filealloc s1 of
          (None, s2) \<Rightarrow> bindE (fileclose k0 s2) (\<lambda>s3. Inr (None, s3))
        | (Some k1, s2) \<Rightarrow> (case kalloc (kpages s2) of (a, m) \<Rightarrow>
            let s3 = s2\<lparr>kpages := m\<rparr> in
            if a = 0 then
              bindE (fileclose k0 s3) (\<lambda>s4. bindE (fileclose k1 s4) (\<lambda>s5. Inr (None, s5)))
            else
              let s4 = s3\<lparr>pipes := (pipes s3)(a := (pipes s3 a)
                          \<lparr>readopen := True, writeopen := True, nwrite := 0, nread := 0\<rparr>)\<rparr>;
                  s5 = fupd k0 (\<lambda>f. f\<lparr>f_type := FD_PIPE, f_readable := True, f_writable := False, f_pipe := a\<rparr>) s4;
                  s6 = fupd k1 (\<lambda>f. f\<lparr>f_type := FD_PIPE, f_readable := False, f_writable := True, f_pipe := a\<rparr>) s5
              in Inr (Some (k0, k1), s6))))"

definition sys_pipe :: "nat \<Rightarrow> kfs \<Rightarrow> ferror + int \<times> kfs" where
  "sys_pipe p s =
     bindE (argptr_p4 p 0 8 s) (\<lambda>r. orfail r s (\<lambda>fd.
     bindE (pipealloc s) (\<lambda>(ends, s1). orfail ends s1 (\<lambda>(rf, wf).
     let close2 = (\<lambda>t. bindE (fileclose rf t) (\<lambda>t1. bindE (fileclose wf t1) (\<lambda>t2. Inr (- 1, t2)))) in
     case fdalloc p rf s1 of
       (None, s2) \<Rightarrow> close2 s2
     | (Some fd0, s2) \<Rightarrow> (case fdalloc p wf s2 of
         (None, s3) \<Rightarrow> close2 (fdclear p fd0 s3)
       | (Some fd1, s3) \<Rightarrow>
           bindE (store_bytes (u_pgdir (proc_at s p)) fd (bytes_of_nat 4 fd0) s3) (\<lambda>s4.
           bindE (store_bytes (u_pgdir (proc_at s p)) (fd + 4) (bytes_of_nat 4 fd1) s4) (\<lambda>s5.
           Inr (0, s5))))))))"

section \<open>Descriptors over fork and exit\<close>

text \<open>The loops of \<open>fork\<close> (\<open>clone\<close> has the same one) and \<open>exit\<close> over \<open>ofile\<close>, with the current directory.\<close>

fun dup_loop :: "nat \<Rightarrow> nat \<Rightarrow> nat list \<Rightarrow> kfs \<Rightarrow> ferror + kfs" where
  "dup_loop p q [] s = Inr s"
| "dup_loop p q (i # is) s =
     (case u_ofile (proc_at s p) ! i of
        None \<Rightarrow> dup_loop p q is s
      | Some k \<Rightarrow> bindE (filedup k s) (\<lambda>s1.
          dup_loop p q is (pupd q (\<lambda>r. r\<lparr>u_ofile := (u_ofile r)[i := Some k]\<rparr>) s1)))"

definition fork_files :: "nat \<Rightarrow> nat \<Rightarrow> kfs \<Rightarrow> ferror + kfs" where
  "fork_files p q s =
     bindE (dup_loop p q [0..<NOFILE] s) (\<lambda>s1.
     case u_cwd (proc_at s1 p) of
       None \<Rightarrow> Inl (FPanic ''trap'')
     | Some i \<Rightarrow> let (j, t) = idup i (fsys s1) in Inr (pupd q (\<lambda>r. r\<lparr>u_cwd := Some j\<rparr>) (s1\<lparr>fsys := t\<rparr>)))"

fun close_loop :: "nat \<Rightarrow> nat list \<Rightarrow> kfs \<Rightarrow> ferror + kfs" where
  "close_loop p [] s = Inr s"
| "close_loop p (fd # fds) s =
     (case u_ofile (proc_at s p) ! fd of
        None \<Rightarrow> close_loop p fds s
      | Some k \<Rightarrow> bindE (fileclose k s) (\<lambda>s1. close_loop p fds (fdclear p fd s1)))"

definition exit_files :: "nat \<Rightarrow> kfs \<Rightarrow> ferror + kfs" where
  "exit_files p s =
     bindE (close_loop p [0..<NOFILE] s) (\<lambda>s1.
     case u_cwd (proc_at s1 p) of
       None \<Rightarrow> Inl (FPanic ''trap'')
     | Some i \<Rightarrow> bindE (do_fs (iput i) s1) (\<lambda>s2. Inr (pupd p (\<lambda>r. r\<lparr>u_cwd := None\<rparr>) s2)))"

end
