(* ===== verification/SysFile.thy ===== *)
theory SysFile
  imports Files
begin

unbundle bit_operations_syntax

text \<open>
  The system calls on paths (kernel/sysfile.c): link, unlink, creation, open, mkdir, mknod, chdir.
  A path is its bytes in user memory up to the NUL.
\<close>

definition T_FILE :: int where "T_FILE = 2"

definition O_RDONLY :: "32 word" where "O_RDONLY = 0"
definition O_WRONLY :: "32 word" where "O_WRONLY = 0x001"
definition O_RDWR :: "32 word" where "O_RDWR = 0x002"
definition O_CREATE :: "32 word" where "O_CREATE = 0x200"

text \<open>The value of a \<open>short\<close> after \<open>++\<close> or \<open>--\<close>.\<close>

definition s16 :: "int \<Rightarrow> int" where "s16 x = (x + 2 ^ 15) mod 2 ^ 16 - 2 ^ 15"

definition nlink_add :: "int \<Rightarrow> nat \<Rightarrow> fsst \<Rightarrow> fsst" where
  "nlink_add d i s = iupdate i (iupd i (\<lambda>q. q\<lparr>i_nlink := s16 (i_nlink q + d)\<rparr>) s)"

definition cwd_of :: "nat \<Rightarrow> kfs \<Rightarrow> nat" where "cwd_of p s = the (u_cwd (proc_at s p))"

section \<open>Links\<close>

definition link_bad :: "nat \<Rightarrow> fsst \<Rightarrow> ferror + int \<times> fsst" where
  "link_bad ip t =
     bindE (ilock (Some ip) t) (\<lambda>t1. bindE (iunlockput ip (nlink_add (- 1) ip t1)) (\<lambda>t2. Inr (- 1, t2)))"

text \<open>From the locked parent on: \<open>ip\<close> has been counted up.\<close>

definition link_into :: "devsw \<Rightarrow> nat \<Rightarrow> nat \<Rightarrow> byte list \<Rightarrow> fsst \<Rightarrow> ferror + int \<times> fsst" where
  "link_into D ip dp name t =
     bindE (ilock (Some dp) t) (\<lambda>t1.
     bindE (if i_dev (ino t1 dp) \<noteq> i_dev (ino t1 ip) then Inr (- 1, t1)
            else dirlink D dp name (i_num (ino t1 ip)) t1) (\<lambda>(w, t2).
     if w < 0 then bindE (iunlockput dp t2) (link_bad ip)
     else bindE (iunlockput dp t2) (\<lambda>t3. bindE (iput ip t3) (\<lambda>t4. Inr (0, t4)))))"

definition do_link :: "devsw \<Rightarrow> nat \<Rightarrow> byte list \<Rightarrow> byte list \<Rightarrow> fsst \<Rightarrow> ferror + int \<times> fsst" where
  "do_link D cwd old new t =
     bindE (namei cwd old t) (\<lambda>(r, t1). case r of None \<Rightarrow> Inr (- 1, t1) | Some ip \<Rightarrow>
     bindE (ilock (Some ip) t1) (\<lambda>t2.
     if i_type (ino t2 ip) = T_DIR then bindE (iunlockput ip t2) (\<lambda>t3. Inr (- 1, t3))
     else
       bindE (iunlock (Some ip) (nlink_add 1 ip t2)) (\<lambda>t3.
       bindE (nameiparent cwd new t3) (\<lambda>(r2, t4). case r2 of
         None \<Rightarrow> link_bad ip t4
       | Some (dp, name) \<Rightarrow> link_into D ip dp name t4))))"

definition sys_link :: "nat \<Rightarrow> kfs \<Rightarrow> ferror + int \<times> kfs" where
  "sys_link p s =
     bindE (argstr_p4 p 0 s) (\<lambda>r0. orfail r0 s (\<lambda>old.
     bindE (argstr_p4 p 1 s) (\<lambda>r1. orfail r1 s (\<lambda>new.
     on_fs (do_link (devs s) (cwd_of p s) old new) s))))"

text \<open>The loop of \<open>isdirempty\<close>; \<open>len\<close> is \<open>dp->size\<close>, which no read changes.\<close>

function isdirempty_loop :: "devsw \<Rightarrow> nat \<Rightarrow> nat \<Rightarrow> nat \<Rightarrow> fsst \<Rightarrow> ferror + bool \<times> fsst" where
  "isdirempty_loop D dp len off t =
     (if off < len then
        bindE (readi D dp off 16 t) (\<lambda>((r, bs), t1).
        if r \<noteq> 16 then Inl (FPanic ''isdirempty: readi'')
        else if get16 (\<lambda>k. bs ! k) 0 \<noteq> 0 then Inr (False, t1)
        else isdirempty_loop D dp len (off + 16) t1)
      else Inr (True, t))"
  by pat_completeness auto
termination
  by (relation "measure (\<lambda>(D, dp, len, off, t). len - off)") auto

declare isdirempty_loop.simps [simp del]

definition isdirempty :: "devsw \<Rightarrow> nat \<Rightarrow> fsst \<Rightarrow> ferror + bool \<times> fsst" where
  "isdirempty D dp t = isdirempty_loop D dp (i_size (ino t dp)) 32 t"

definition is_dots :: "byte list \<Rightarrow> bool" where
  "is_dots name \<longleftrightarrow> namecmp name [46] = 0 \<or> namecmp name [46, 46] = 0"

text \<open>With parent and inode locked: clear the entry, count down; then from the entry found on.\<close>

definition unlink_entry :: "devsw \<Rightarrow> nat \<Rightarrow> nat \<Rightarrow> nat \<Rightarrow> fsst \<Rightarrow> ferror + int \<times> fsst" where
  "unlink_entry D dp ip off t =
     bindE (writei D dp (replicate 16 0) off 16 t) (\<lambda>(w, t1).
     if w \<noteq> 16 then Inl (FPanic ''unlink: writei'')
     else
       bindE (iunlockput dp (if i_type (ino t1 ip) = T_DIR then nlink_add (- 1) dp t1 else t1)) (\<lambda>t2.
       bindE (iunlockput ip (nlink_add (- 1) ip t2)) (\<lambda>t3. Inr (0, t3))))"

definition unlink_found :: "devsw \<Rightarrow> nat \<Rightarrow> nat \<Rightarrow> nat \<Rightarrow> fsst \<Rightarrow> ferror + int \<times> fsst" where
  "unlink_found D dp ip off t =
     bindE (ilock (Some ip) t) (\<lambda>t1.
     if i_nlink (ino t1 ip) < 1 then Inl (FPanic ''unlink: nlink < 1'')
     else
       bindE (if i_type (ino t1 ip) = T_DIR then isdirempty D ip t1 else Inr (True, t1)) (\<lambda>(empty, t2).
       if \<not> empty then bindE (iunlockput ip t2) (\<lambda>t3. bindE (iunlockput dp t3) (\<lambda>t4. Inr (- 1, t4)))
       else unlink_entry D dp ip off t2))"

definition do_unlink :: "devsw \<Rightarrow> nat \<Rightarrow> byte list \<Rightarrow> fsst \<Rightarrow> ferror + int \<times> fsst" where
  "do_unlink D cwd path t =
     bindE (nameiparent cwd path t) (\<lambda>(r, t1). case r of None \<Rightarrow> Inr (- 1, t1) | Some (dp, name) \<Rightarrow>
     bindE (ilock (Some dp) t1) (\<lambda>t2.
     if is_dots name then bindE (iunlockput dp t2) (\<lambda>t3. Inr (- 1, t3))
     else
       bindE (dirlookup dp name t2) (\<lambda>(r2, t3). case r2 of
         None \<Rightarrow> bindE (iunlockput dp t3) (\<lambda>t4. Inr (- 1, t4))
       | Some (ip, off) \<Rightarrow> unlink_found D dp ip off t3)))"

definition sys_unlink :: "nat \<Rightarrow> kfs \<Rightarrow> ferror + int \<times> kfs" where
  "sys_unlink p s =
     bindE (argstr_p4 p 0 s) (\<lambda>r0. orfail r0 s (\<lambda>path. on_fs (do_unlink (devs s) (cwd_of p s) path) s))"

section \<open>Creation\<close>

text \<open>\<open>.\<close> and \<open>..\<close> of a new directory; a \<open>||\<close> of two calls.\<close>

definition link_dots :: "devsw \<Rightarrow> nat \<Rightarrow> nat \<Rightarrow> fsst \<Rightarrow> ferror + fsst" where
  "link_dots D ip dp t =
     bindE (dirlink D ip [46] (i_num (ino t ip)) t) (\<lambda>(w, t1).
     if w < 0 then Inl (FPanic ''create dots'')
     else bindE (dirlink D ip [46, 46] (i_num (ino t1 dp)) t1) (\<lambda>(w2, t2).
       if w2 < 0 then Inl (FPanic ''create dots'') else Inr t2))"

text \<open>Both outcomes of the lookup of \<open>create\<close>, with the parent locked. The inode comes back locked, with
  the caller's reference.\<close>

definition create_old :: "nat \<Rightarrow> nat \<Rightarrow> int \<Rightarrow> fsst \<Rightarrow> ferror + nat option \<times> fsst" where
  "create_old dp ip ty t =
     bindE (iunlockput dp t) (\<lambda>t1.
     bindE (ilock (Some ip) t1) (\<lambda>t2.
     if ty = T_FILE \<and> i_type (ino t2 ip) = T_FILE then Inr (Some ip, t2)
     else bindE (iunlockput ip t2) (\<lambda>t3. Inr (None, t3))))"

definition create_new :: "devsw \<Rightarrow> nat \<Rightarrow> byte list \<Rightarrow> int \<Rightarrow> int \<Rightarrow> int \<Rightarrow> fsst \<Rightarrow> ferror + nat option \<times> fsst" where
  "create_new D dp name ty major minor t =
     bindE (ialloc (i_dev (ino t dp)) ty t) (\<lambda>(ip, t1).
     bindE (ilock (Some ip) t1) (\<lambda>t2.
     let t3 = iupdate ip (iupd ip (\<lambda>q. q\<lparr>i_major := major, i_minor := minor, i_nlink := 1\<rparr>) t2) in
     bindE (if ty = T_DIR then link_dots D ip dp (nlink_add 1 dp t3) else Inr t3) (\<lambda>t4.
     bindE (dirlink D dp name (i_num (ino t4 ip)) t4) (\<lambda>(w, t5).
     if w < 0 then Inl (FPanic ''create: dirlink'')
     else bindE (iunlockput dp t5) (\<lambda>t6. Inr (Some ip, t6))))))"

definition create :: "devsw \<Rightarrow> nat \<Rightarrow> byte list \<Rightarrow> int \<Rightarrow> int \<Rightarrow> int \<Rightarrow> fsst \<Rightarrow> ferror + nat option \<times> fsst" where
  "create D cwd path ty major minor t =
     bindE (nameiparent cwd path t) (\<lambda>(r, t1). case r of None \<Rightarrow> Inr (None, t1) | Some (dp, name) \<Rightarrow>
     bindE (ilock (Some dp) t1) (\<lambda>t2.
     bindE (dirlookup dp name t2) (\<lambda>(r2, t3). case r2 of
       Some (ip, off) \<Rightarrow> create_old dp ip ty t3
     | None \<Rightarrow> create_new D dp name ty major minor t3)))"

text \<open>The inode of \<open>sys_open\<close>, locked.\<close>

definition open_inode :: "devsw \<Rightarrow> nat \<Rightarrow> byte list \<Rightarrow> 32 word \<Rightarrow> fsst \<Rightarrow> ferror + nat option \<times> fsst" where
  "open_inode D cwd path omode t =
     (if omode AND O_CREATE \<noteq> 0 then create D cwd path T_FILE 0 0 t
      else
        bindE (namei cwd path t) (\<lambda>(r, t1). case r of None \<Rightarrow> Inr (None, t1) | Some ip \<Rightarrow>
        bindE (ilock (Some ip) t1) (\<lambda>t2.
        if i_type (ino t2 ip) = T_DIR \<and> omode \<noteq> O_RDONLY then bindE (iunlockput ip t2) (\<lambda>t3. Inr (None, t3))
        else Inr (Some ip, t2))))"

definition sys_open :: "nat \<Rightarrow> kfs \<Rightarrow> ferror + int \<times> kfs" where
  "sys_open p s =
     bindE (argstr_p4 p 0 s) (\<lambda>r0. orfail r0 s (\<lambda>path.
     bindE (argint_p4 p 1 s) (\<lambda>r1. orfail r1 s (\<lambda>omode.
     bindE (on_fs (open_inode (devs s) (cwd_of p s) path omode) s) (\<lambda>(ri, s1). orfail ri s1 (\<lambda>ip.
     case filealloc s1 of
       (None, s2) \<Rightarrow> bindE (do_fs (iunlockput ip) s2) (\<lambda>s3. Inr (- 1, s3))
     | (Some k, s2) \<Rightarrow> (case fdalloc p k s2 of
         (None, s3) \<Rightarrow> bindE (fileclose k s3) (\<lambda>s4. bindE (do_fs (iunlockput ip) s4) (\<lambda>s5. Inr (- 1, s5)))
       | (Some fd, s3) \<Rightarrow> bindE (do_fs (iunlock (Some ip)) s3) (\<lambda>s4.
           Inr (int fd, fupd k (\<lambda>f. f\<lparr>f_type := FD_INODE, f_ip := ip, f_off := 0,
             f_readable := omode AND O_WRONLY = 0,
             f_writable := omode AND O_WRONLY \<noteq> 0 \<or> omode AND O_RDWR \<noteq> 0\<rparr>) s4)))))))))"

definition sys_mkdir :: "nat \<Rightarrow> kfs \<Rightarrow> ferror + int \<times> kfs" where
  "sys_mkdir p s =
     bindE (argstr_p4 p 0 s) (\<lambda>r0. orfail r0 s (\<lambda>path.
     bindE (on_fs (create (devs s) (cwd_of p s) path T_DIR 0 0) s) (\<lambda>(ri, s1). orfail ri s1 (\<lambda>ip.
     bindE (do_fs (iunlockput ip) s1) (\<lambda>s2. Inr (0, s2))))))"

definition sys_mknod :: "nat \<Rightarrow> kfs \<Rightarrow> ferror + int \<times> kfs" where
  "sys_mknod p s =
     bindE (argstr_p4 p 0 s) (\<lambda>r0. orfail r0 s (\<lambda>path.
     bindE (argint_p4 p 1 s) (\<lambda>r1. orfail r1 s (\<lambda>major.
     bindE (argint_p4 p 2 s) (\<lambda>r2. orfail r2 s (\<lambda>minor.
     bindE (on_fs (create (devs s) (cwd_of p s) path T_DEV (s16 (sint major)) (s16 (sint minor))) s)
       (\<lambda>(ri, s1). orfail ri s1 (\<lambda>ip.
     bindE (do_fs (iunlockput ip) s1) (\<lambda>s2. Inr (0, s2))))))))))"

definition sys_chdir :: "nat \<Rightarrow> kfs \<Rightarrow> ferror + int \<times> kfs" where
  "sys_chdir p s =
     bindE (argstr_p4 p 0 s) (\<lambda>r0. orfail r0 s (\<lambda>path.
     bindE (on_fs (namei (cwd_of p s) path) s) (\<lambda>(ri, s1). orfail ri s1 (\<lambda>ip.
     bindE (do_fs (ilock (Some ip)) s1) (\<lambda>s2.
     if i_type (ino (fsys s2) ip) \<noteq> T_DIR then bindE (do_fs (iunlockput ip) s2) (\<lambda>s3. Inr (- 1, s3))
     else
       bindE (do_fs (iunlock (Some ip)) s2) (\<lambda>s3.
       bindE (do_fs (iput (cwd_of p s3)) s3) (\<lambda>s4.
       Inr (0, pupd p (\<lambda>q. q\<lparr>u_cwd := Some ip\<rparr>) s4))))))))"

end
