(* ===== verification/FsHeld.thy ===== *)
theory FsHeld
  imports FsRefs SysFile
begin

unbundle bit_operations_syntax

text \<open>
  The account of the inode cache over directories, paths and the system calls on paths. \<open>held n s R L\<close>
  is \<open>cache_ok\<close> for a cache of \<open>n\<close> slots, \<open>inc\<close> and \<open>dec\<close> count a reference taken or given back.
  \<open>yields m P\<close> says that \<open>P\<close> holds of what \<open>m\<close> returns when it returns; the rules in \<open>held_rules\<close>
  step through a handler call by call.
\<close>

definition held :: "nat \<Rightarrow> fsst \<Rightarrow> (nat \<Rightarrow> int) \<Rightarrow> nat set \<Rightarrow> bool" where
  "held n s R L \<longleftrightarrow> cache_ok s R L \<and> length (icache s) = n"

definition inc :: "nat \<Rightarrow> (nat \<Rightarrow> int) \<Rightarrow> nat \<Rightarrow> int" where "inc k R = R(k := R k + 1)"

definition dec :: "nat \<Rightarrow> (nat \<Rightarrow> int) \<Rightarrow> nat \<Rightarrow> int" where "dec k R = R(k := R k - 1)"

definition inc_opt :: "nat option \<Rightarrow> (nat \<Rightarrow> int) \<Rightarrow> nat \<Rightarrow> int" where
  "inc_opt r R = (case r of None \<Rightarrow> R | Some k \<Rightarrow> inc k R)"

lemma inc_opt_simps [simp]: "inc_opt None R = R" "inc_opt (Some k) R = inc k R"
  by (simp_all add: inc_opt_def)

lemma dec_inc [simp]: "dec k (inc k R) = R" "inc k (dec k R) = R"
  by (auto simp: inc_def dec_def)

lemma dec_inc_swap: "dec i (inc k R) = inc k (dec i R)"
  by (auto simp: inc_def dec_def)

lemma inc_ge: "1 \<le> R i \<Longrightarrow> 1 \<le> inc k R i" "0 \<le> R k \<Longrightarrow> 1 \<le> inc k R k"
  by (auto simp: inc_def)

definition in_cache :: "nat \<Rightarrow> nat option \<Rightarrow> bool" where
  "in_cache n r \<longleftrightarrow> (case r of None \<Rightarrow> True | Some k \<Rightarrow> k < n)"

lemma in_cache_simps [simp]: "in_cache n None" "in_cache n (Some k) \<longleftrightarrow> k < n"
  by (simp_all add: in_cache_def)

section \<open>What an operation returns\<close>

definition yields :: "'e + 'a \<Rightarrow> ('a \<Rightarrow> bool) \<Rightarrow> bool" where
  "yields m P \<longleftrightarrow> (\<forall>x. m = Inr x \<longrightarrow> P x)"

lemma yieldsI: "(\<And>x. m = Inr x \<Longrightarrow> P x) \<Longrightarrow> yields m P"
  by (simp add: yields_def)

lemma yieldsD: "yields m P \<Longrightarrow> m = Inr x \<Longrightarrow> P x"
  by (simp add: yields_def)

lemma yields_simps [simp]: "yields (Inr x) P \<longleftrightarrow> P x" "yields (Inl e) P"
  by (simp_all add: yields_def)

lemma yields_bind: "yields m Q \<Longrightarrow> (\<And>x. Q x \<Longrightarrow> yields (f x) P) \<Longrightarrow> yields (bindE m f) P"
  by (cases m) (simp_all add: yields_def)

lemma yields_weaken: "yields m Q \<Longrightarrow> (\<And>x. Q x \<Longrightarrow> P x) \<Longrightarrow> yields m P"
  by (simp add: yields_def)

section \<open>Locks and references\<close>

lemma held_acct: "held n s R L \<Longrightarrow> acct s' = acct s \<Longrightarrow> held n s' R L"
  using cache_ok_acct acct_length [of s' s] by (simp add: held_def)

lemma held_lock: "held n s R L \<Longrightarrow> i \<in> L \<Longrightarrow> i < n \<and> 1 \<le> R i"
  by (auto simp: held_def cache_ok_def)

lemma ilock_held:
  "held n s R L \<Longrightarrow> i < n \<Longrightarrow> yields (ilock (Some i) s) (\<lambda>s'. i \<notin> L \<and> held n s' R (insert i L))"
  using ilock_ok [of s R L i] by (auto simp: held_def intro!: yieldsI)

lemma iunlock_held: "held n s R L \<Longrightarrow> i < n \<Longrightarrow> yields (iunlock (Some i) s) (\<lambda>s'. held n s' R (L - {i}))"
  using iunlock_ok [of s R L i] by (auto simp: held_def intro!: yieldsI)

lemma iput_held:
  assumes "held n s R L" "i < n" "i \<in> L \<Longrightarrow> 2 \<le> R i"
  shows "yields (iput i s) (\<lambda>s'. held n s' (dec i R) L)"
  using iput_ok [of s R L i] assms by (auto simp: held_def dec_def intro!: yieldsI)

lemma iunlockput_held:
  "held n s R L \<Longrightarrow> i < n \<Longrightarrow> yields (iunlockput i s) (\<lambda>s'. held n s' (dec i R) (L - {i}))"
  using iunlockput_ok [of s R L i] by (auto simp: held_def dec_def intro!: yieldsI)

lemma iget_held: "held n s R L \<Longrightarrow> yields (iget dev inum s) (\<lambda>(k, s'). k < n \<and> held n s' (inc k R) L)"
  using iget_ok [of s R L dev inum] by (auto simp: held_def inc_def intro!: yieldsI)

lemma idup_held:
  assumes "held n s R L" "i < n" "1 \<le> R i"
  shows "held n (snd (idup i s)) (inc i R) L"
proof -
  have "cache_ok (iupd i (\<lambda>ip. ip\<lparr>i_ref := i_ref ip + 1\<rparr>) s) (inc i R) L"
    using assms by (intro cache_ok_upd [where R = R and L = L])
      (auto intro!: unique_iupd simp: held_def cache_ok_def inc_def)
  then show ?thesis using assms by (simp add: held_def idup_def)
qed

lemma iput_back:
  assumes "held n s (inc i R) L" "i < n" "i \<in> L \<Longrightarrow> 1 \<le> R i"
  shows "yields (iput i s) (\<lambda>s'. held n s' R L)"
proof -
  have "i \<in> L \<Longrightarrow> 2 \<le> inc i R i" using assms(3) by (simp add: inc_def)
  then show ?thesis using iput_held [OF assms(1,2)] by simp
qed

lemma iupd_held:
  assumes "held n s R L" "\<And>q. i_ref (f q) = i_ref q \<and> i_busy (f q) = i_busy q \<and> i_dev (f q) = i_dev q \<and> i_num (f q) = i_num q"
  shows "held n (iupd i f s) R L"
  using held_acct [OF assms(1) acct_iupd] assms(2) by blast

lemma iupdate_held: "held n s R L \<Longrightarrow> held n (iupdate i s) R L"
  using held_acct by simp

lemma nlink_add_held: "held n s R L \<Longrightarrow> held n (nlink_add d i s) R L"
  unfolding nlink_add_def by (intro iupdate_held iupd_held) auto

lemma readi_held: "held n s R L \<Longrightarrow> yields (readi D i off m s) (\<lambda>(x, s'). held n s' R L)"
  using held_acct [OF _ acct_readi] by (auto intro!: yieldsI)

lemma writei_held: "held n s R L \<Longrightarrow> yields (writei D i src off m s) (\<lambda>(x, s'). held n s' R L)"
  using held_acct [OF _ acct_writei] by (auto intro!: yieldsI)

lemma bmap_held: "held n s R L \<Longrightarrow> yields (bmap i bn s) (\<lambda>(a, s'). held n s' R L)"
  using held_acct [OF _ acct_bmap] by (auto intro!: yieldsI)

section \<open>Directories\<close>

lemma dirlookup_loop_held:
  "held n s R L \<Longrightarrow> yields (dirlookup_loop dp name len off s)
     (\<lambda>(r, s'). held n s' (inc_opt (map_option fst r) R) L \<and> in_cache n (map_option fst r))"
proof (induction dp name len off s rule: dirlookup_loop.induct)
  case (1 dp name len off s)
  note ih = "1.IH" and h = "1.prems"
  show ?case
  proof (cases "off < len")
    case True
    show ?thesis
      unfolding dirlookup_loop.simps [of dp name len off s] if_P [OF True]
    proof (rule yields_bind [OF bmap_held [OF h]], clarify)
      fix a s1
      assume h1: "held n s1 R L"
      let ?blk = "bread (i_dev (ino s1 dp)) a s1"
      show "yields (let blk = ?blk in case scan_block name blk of
          Some e \<Rightarrow> bindE (iget (i_dev (ino s1 dp)) (de_inum blk e) s1) (\<lambda>(j, s2). Inr (Some (j, off + 16 * e), s2))
        | None \<Rightarrow> dirlookup_loop dp name len (off + BSIZE) s1)
        (\<lambda>(r, s'). held n s' (inc_opt (map_option fst r) R) L \<and> in_cache n (map_option fst r))"
      proof (cases "scan_block name ?blk")
        case None
        then show ?thesis using ih [OF True refl None h1] by simp
      next
        case (Some e)
        have "yields (bindE (iget (i_dev (ino s1 dp)) (de_inum ?blk e) s1) (\<lambda>(j, s2). Inr (Some (j, off + 16 * e), s2)))
          (\<lambda>(r, s'). held n s' (inc_opt (map_option fst r) R) L \<and> in_cache n (map_option fst r))"
          by (rule yields_bind [OF iget_held [OF h1]]) auto
        then show ?thesis using Some by (simp add: Let_def)
      qed
    qed
  qed (use h in \<open>simp add: dirlookup_loop.simps\<close>)
qed

lemma dirlookup_held:
  "held n s R L \<Longrightarrow> yields (dirlookup dp name s)
     (\<lambda>(r, s'). held n s' (inc_opt (map_option fst r) R) L \<and> in_cache n (map_option fst r))"
  using dirlookup_loop_held by (simp add: dirlookup_def)

lemma dirlink_find_held: "held n s R L \<Longrightarrow> yields (dirlink_find D dp len off s) (\<lambda>(x, s'). held n s' R L)"
  using held_acct [OF _ acct_dirlink_find] by (auto intro!: yieldsI)

lemma dirlink_held:
  assumes "held n s R L"
  shows "yields (dirlink D dp name inum s) (\<lambda>(w, s'). held n s' R L)"
  unfolding dirlink_def
proof (rule yields_bind [OF dirlookup_held [OF assms]], clarify)
  fix r :: "(nat \<times> nat) option" and s1
  assume h: "held n s1 (inc_opt (map_option fst r) R) L" "in_cache n (map_option fst r)"
  show "yields (case r of
      Some (j, _) \<Rightarrow> bindE (iput j s1) (\<lambda>s2. Inr (- 1, s2))
    | None \<Rightarrow> bindE (dirlink_find D dp (i_size (ino s1 dp)) 0 s1) (\<lambda>(off, s2).
         bindE (writei D dp (dirent_bytes inum name) off 16 s2) (\<lambda>(w, s3).
         if w \<noteq> 16 then Inl (FPanic ''dirlink'') else Inr (0, s3)))) (\<lambda>(w, s'). held n s' R L)"
  proof (cases r)
    case None
    then have "held n s1 R L" using h by simp
    then show ?thesis using None
      by (auto intro!: yields_bind [OF dirlink_find_held] yields_bind [OF writei_held])
  next
    case (Some e)
    obtain j off where e: "e = (j, off)" by (cases e)
    have "held n s1 (inc j R) L" "j < n" using h Some e by simp_all
    then show ?thesis using Some e held_lock [OF assms, of j]
      by (auto intro!: yields_bind [OF iput_back])
  qed
qed

section \<open>Paths\<close>

lemma namex_loop_held:
  "held n s (inc ip R) {} \<Longrightarrow> ip < n \<Longrightarrow> yields (namex_loop np p ip s)
     (\<lambda>(r, s'). held n s' (inc_opt (map_option fst r) R) {} \<and> in_cache n (map_option fst r))"
proof (induction np p ip s rule: namex_loop.induct)
  case (1 np p ip s)
  note ih = "1.IH" and h = "1.prems"(1) and i = "1.prems"(2)
  show ?case
  proof (cases "skipelem p")
    case None
    then show ?thesis
      using h i by (auto simp: namex_loop.simps [of np p ip s] intro!: yields_bind [OF iput_back])
  next
    case (Some e)
    obtain name rest where e: "e = (name, rest)" by (cases e)
    show ?thesis
      unfolding namex_loop.simps [of np p ip s] Some e option.case prod.case
    proof (rule yields_bind [OF ilock_held [OF h i]], elim conjE)
      fix s1
      assume h1: "held n s1 (inc ip R) (insert ip {})"
      have put: "yields (iunlockput ip t) (\<lambda>t'. held n t' (dec ip S) {})" if "held n t S {ip}" for t S
        using iunlockput_held [OF that i] by simp
      have go: "yields (bindE (dirlookup ip name s1) (\<lambda>(r, s2). bindE (iunlockput ip s2) (\<lambda>s3.
          case r of None \<Rightarrow> Inr (None, s3) | Some (nxt, _) \<Rightarrow> namex_loop np rest nxt s3)))
        (\<lambda>(r, s'). held n s' (inc_opt (map_option fst r) R) {} \<and> in_cache n (map_option fst r))"
        if "i_type (ino s1 ip) = T_DIR" "\<not> (np \<and> rest = [])"
      proof (rule yields_bind [OF dirlookup_held [OF h1]], clarify)
        fix r :: "(nat \<times> nat) option" and s2
        assume h2: "held n s2 (inc_opt (map_option fst r) (inc ip R)) {ip}" "in_cache n (map_option fst r)"
        show "yields (bindE (iunlockput ip s2) (\<lambda>s3.
            case r of None \<Rightarrow> Inr (None, s3) | Some (nxt, _) \<Rightarrow> namex_loop np rest nxt s3))
          (\<lambda>(r, s'). held n s' (inc_opt (map_option fst r) R) {} \<and> in_cache n (map_option fst r))"
        proof (rule yields_bind [OF put [OF h2(1)]])
          fix s3
          assume h3: "held n s3 (dec ip (inc_opt (map_option fst r) (inc ip R))) {}"
          show "yields (case r of None \<Rightarrow> Inr (None, s3) | Some (nxt, _) \<Rightarrow> namex_loop np rest nxt s3)
            (\<lambda>(r, s'). held n s' (inc_opt (map_option fst r) R) {} \<and> in_cache n (map_option fst r))"
          proof (cases r)
            case (Some k)
            obtain nxt off where k: "k = (nxt, off)" by (cases k)
            have h4: "held n s3 (inc nxt R) {}" "nxt < n" using h2(2) h3 Some k by (simp_all add: dec_inc_swap)
            have nd: "\<not> i_type (ino s1 ip) \<noteq> T_DIR" using that(1) by simp
            note ih1 = ih [OF \<open>skipelem p = Some e\<close> e [symmetric] nd that(2)]
            show ?thesis using ih1 [OF Some k [symmetric] h4] Some k by simp
          qed (use h3 in simp)
        qed
      qed
      show "yields (if i_type (ino s1 ip) \<noteq> T_DIR then bindE (iunlockput ip s1) (\<lambda>s2. Inr (None, s2))
          else if np \<and> rest = [] then bindE (iunlock (Some ip) s1) (\<lambda>s2. Inr (Some (ip, name), s2))
          else bindE (dirlookup ip name s1) (\<lambda>(r, s2). bindE (iunlockput ip s2) (\<lambda>s3.
            case r of None \<Rightarrow> Inr (None, s3) | Some (nxt, _) \<Rightarrow> namex_loop np rest nxt s3)))
        (\<lambda>(r, s'). held n s' (inc_opt (map_option fst r) R) {} \<and> in_cache n (map_option fst r))"
        using go i by (auto intro!: yields_bind [OF put [OF h1]] yields_bind [OF iunlock_held [OF h1 i]])
    qed
  qed
qed

lemma namex_held:
  assumes "held n s R {}" "cwd < n" "1 \<le> R cwd"
  shows "yields (namex cwd path par s)
    (\<lambda>(r, s'). held n s' (inc_opt (map_option fst r) R) {} \<and> in_cache n (map_option fst r))"
proof -
  have "yields (if path \<noteq> [] \<and> hd path = 47 then iget 1 1 s else Inr (idup cwd s))
      (\<lambda>(ip, s1). ip < n \<and> held n s1 (inc ip R) {})"
    using iget_held [OF assms(1)] idup_held [OF assms] assms(2) by (auto simp: idup_def)
  then show ?thesis unfolding namex_def
    by (rule yields_bind) (auto intro: namex_loop_held)
qed

lemma namei_held:
  assumes "held n s R {}" "cwd < n" "1 \<le> R cwd"
  shows "yields (namei cwd path s) (\<lambda>(r, s'). held n s' (inc_opt r R) {} \<and> in_cache n r)"
  unfolding namei_def by (rule yields_bind [OF namex_held [OF assms]]) auto

lemma nameiparent_held:
  assumes "held n s R {}" "cwd < n" "1 \<le> R cwd"
  shows "yields (nameiparent cwd path s)
    (\<lambda>(r, s'). held n s' (inc_opt (map_option fst r) R) {} \<and> in_cache n (map_option fst r))"
  unfolding nameiparent_def by (rule namex_held [OF assms])

lemma iunlock_only: "held n s R {i} \<Longrightarrow> yields (iunlock (Some i) s) (\<lambda>s'. held n s' R {})"
  using iunlock_held [of n s R "{i}" i] held_lock [of n s R "{i}" i] by simp

lemma iunlockput_only: "held n s (inc i R) {i} \<Longrightarrow> yields (iunlockput i s) (\<lambda>s'. held n s' R {})"
  using iunlockput_held [of n s "inc i R" "{i}" i] held_lock [of n s "inc i R" "{i}" i] by simp

section \<open>System calls on paths\<close>

lemma ialloc_held:
  "held n s R L \<Longrightarrow> yields (ialloc dev ty s) (\<lambda>(k, s'). k < n \<and> held n s' (inc k R) L)"
proof -
  have "held n s R L \<Longrightarrow> yields (ialloc_loop dev ty m i s) (\<lambda>(k, s'). k < n \<and> held n s' (inc k R) L)" for m i
  proof (induction dev ty m i s rule: ialloc_loop.induct)
    case (1 dev ty m i s)
    have "held n (bwrite dev (IBLOCK i) blk s) R L" for blk using held_acct [OF "1.prems"] by simp
    note iget_held [OF this]
    then show ?case using 1 by (simp add: ialloc_loop.simps [of dev ty m i s] Let_def)
  qed
  then show "held n s R L \<Longrightarrow> ?thesis" by (simp add: ialloc_def)
qed

lemma link_bad_held:
  assumes "held n t (inc ip R) {}" "ip < n"
  shows "yields (link_bad ip t) (\<lambda>(w, t'). held n t' R {})"
  unfolding link_bad_def
  using assms(2) by (auto intro!: yields_bind [OF ilock_held [OF assms]] yields_bind [OF iunlockput_held [OF nlink_add_held]])


text \<open>From here on \<open>R\<close> is the account of the caller, who holds nothing else.\<close>

lemma link_into_held:
  assumes "held n t (inc dp (inc ip R)) {}" "dp < n" "ip < n"
  shows "yields (link_into D ip dp name t) (\<lambda>(w, t'). held n t' R {})"
  unfolding link_into_def
proof (rule yields_bind [OF ilock_held [OF assms(1,2)]], elim conjE, rule yields_bind)
  fix t1 assume "held n t1 (inc dp (inc ip R)) (insert dp {})"
  then show "yields (if i_dev (ino t1 dp) \<noteq> i_dev (ino t1 ip) then Inr (- 1, t1)
      else dirlink D dp name (i_num (ino t1 ip)) t1) (\<lambda>(w, t2). held n t2 (inc dp (inc ip R)) {dp})"
    using dirlink_held by simp
qed (auto intro!: yields_bind [OF iunlockput_only [of n _ dp "inc ip R"]] yields_bind [OF iput_back [of n _ ip R "{}"]]
      link_bad_held assms(3))

lemma do_link_held:
  assumes "held n t R {}" "cwd < n" "1 \<le> R cwd"
  shows "yields (do_link D cwd old new t) (\<lambda>(w, t'). held n t' R {})"
  unfolding do_link_def
  by (rule yields_bind [OF namei_held [OF assms]])
    (auto intro!: yields_bind [OF ilock_held] yields_bind [OF iunlockput_only [of n _ _ R]]
      yields_bind [OF iunlock_only [OF nlink_add_held]] yields_bind [OF nameiparent_held [of n _ "inc x R" cwd for x]]
      inc_ge link_bad_held link_into_held simp: assms split: option.splits)

lemma isdirempty_held: "held n s R L \<Longrightarrow> yields (isdirempty D dp s) (\<lambda>(x, s'). held n s' R L)"
proof -
  have "held n s R L \<Longrightarrow> yields (isdirempty_loop D dp len off s) (\<lambda>(x, s'). held n s' R L)" for len off
  proof (induction D dp len off s rule: isdirempty_loop.induct)
    case (1 D dp len off s)
    then show ?case
      by (auto simp: isdirempty_loop.simps [of D dp len off s] intro!: yields_bind [OF readi_held])
  qed
  then show "held n s R L \<Longrightarrow> ?thesis" by (simp add: isdirempty_def)
qed

lemma inc_swap: "inc i (inc k R) = inc k (inc i R)"
  by (auto simp: inc_def)

lemma iunlockput_two:
  assumes "held n s (inc i R) {i, j}" "i \<noteq> j"
  shows "yields (iunlockput i s) (\<lambda>s'. held n s' R {j})"
proof -
  have "{i, j} - {i} = {j}" using assms(2) by auto
  then show ?thesis using iunlockput_held [OF assms(1), of i] held_lock [OF assms(1), of i] by simp
qed


lemma yields_guard: "(\<not> c \<Longrightarrow> yields m P) \<Longrightarrow> yields (if c then Inl e else m) P"
  by simp

lemma unlink_entry_held:
  assumes "held n t (inc ip (inc dp R)) {ip, dp}" "ip \<noteq> dp"
  shows "yields (unlink_entry D dp ip off t) (\<lambda>(w, t'). held n t' R {})"
  unfolding unlink_entry_def
proof (rule yields_bind [OF writei_held [OF assms(1)]], clarify, rule yields_guard, rule yields_bind)
  fix t1 assume "held n t1 (inc ip (inc dp R)) {ip, dp}"
  then have "held n (if i_type (ino t1 ip) = T_DIR then nlink_add (- 1) dp t1 else t1) (inc dp (inc ip R)) {dp, ip}"
    using nlink_add_held by (simp add: inc_swap [of dp] insert_commute)
  from iunlockput_two [OF this] assms(2)
  show "yields (iunlockput dp (if i_type (ino t1 ip) = T_DIR then nlink_add (- 1) dp t1 else t1))
    (\<lambda>t2. held n t2 (inc ip R) {ip})" by simp
qed (auto intro!: yields_bind [OF iunlockput_only [OF nlink_add_held]])

lemma unlink_found_held:
  assumes "held n t (inc ip (inc dp R)) {dp}" "ip < n"
  shows "yields (unlink_found D dp ip off t) (\<lambda>(w, t'). held n t' R {})"
  unfolding unlink_found_def
proof (rule yields_bind [OF ilock_held [OF assms]], elim conjE, rule yields_guard, rule yields_bind)
  fix t1 assume h: "held n t1 (inc ip (inc dp R)) (insert ip {dp})" "ip \<notin> {dp}"
  then show "yields (if i_type (ino t1 ip) = T_DIR then isdirempty D ip t1 else Inr (True, t1))
      (\<lambda>(e, t2). held n t2 (inc ip (inc dp R)) {ip, dp} \<and> ip \<noteq> dp)"
    using isdirempty_held [OF h(1)] by (auto elim: yields_weaken)
qed (auto intro!: unlink_entry_held yields_bind [OF iunlockput_two [of n _ ip "inc dp R" dp]]
      yields_bind [OF iunlockput_only [of n _ dp R]])

lemma do_unlink_held:
  assumes "held n t R {}" "cwd < n" "1 \<le> R cwd"
  shows "yields (do_unlink D cwd path t) (\<lambda>(w, t'). held n t' R {})"
  unfolding do_unlink_def
  by (rule yields_bind [OF nameiparent_held [OF assms]])
    (auto intro!: yields_bind [OF ilock_held [of n _ "inc x R" "{}" for x]] yields_bind [OF iunlockput_only [of n _ _ R]]
      yields_bind [OF dirlookup_held [of n _ "inc x R" "{x}" for x]] unlink_found_held split: option.splits)

lemma link_dots_held:
  assumes "held n t R L"
  shows "yields (link_dots D ip dp t) (\<lambda>t'. held n t' R L)"
  unfolding link_dots_def
  by (rule yields_bind [OF dirlink_held [OF assms]]) (auto intro!: yields_bind [OF dirlink_held])

lemma create_old_held:
  assumes "held n t (inc ip (inc dp R)) {dp}" "ip < n"
  shows "yields (create_old dp ip ty t)
    (\<lambda>(r, t'). held n t' (inc_opt r R) (set_option r) \<and> in_cache n r)"
proof -
  have "held n t (inc dp (inc ip R)) {dp}" using assms(1) by (simp add: inc_swap)
  from iunlockput_only [OF this] show ?thesis unfolding create_old_def
    by (rule yields_bind)
      (auto intro!: yields_bind [OF ilock_held [of n _ "inc ip R" "{}"]] yields_bind [OF iunlockput_only [of n _ ip R]]
        simp: assms(2))
qed

lemma create_new_held:
  assumes "held n t (inc dp R) {dp}"
  shows "yields (create_new D dp name ty major minor t)
    (\<lambda>(r, t'). held n t' (inc_opt r R) (set_option r) \<and> in_cache n r)"
  unfolding create_new_def Let_def
proof (rule yields_bind [OF ialloc_held [OF assms]], clarify, rule yields_bind [OF ilock_held], assumption, assumption,
    elim conjE, rule yields_bind)
  fix ip t1 t2
  assume ip: "ip \<notin> {dp}" "ip < n" and h: "held n t2 (inc ip (inc dp R)) (insert ip {dp})"
  define t3 where "t3 = iupdate ip (iupd ip (\<lambda>q. q\<lparr>i_major := major, i_minor := minor, i_nlink := 1\<rparr>) t2)"
  have h3: "held n t3 (inc ip (inc dp R)) {ip, dp}"
    unfolding t3_def using iupdate_held [OF iupd_held [OF h]] by simp
  show "yields (if ty = T_DIR then link_dots D ip dp (nlink_add 1 dp
        (iupdate ip (iupd ip (\<lambda>q. q\<lparr>i_major := major, i_minor := minor, i_nlink := 1\<rparr>) t2)))
      else Inr (iupdate ip (iupd ip (\<lambda>q. q\<lparr>i_major := major, i_minor := minor, i_nlink := 1\<rparr>) t2)))
      (\<lambda>t4. held n t4 (inc dp (inc ip R)) {dp, ip} \<and> ip \<noteq> dp \<and> ip < n)"
    unfolding t3_def [symmetric]
    using ip h3 link_dots_held [OF nlink_add_held [OF h3]]
    by (auto simp: inc_swap [of dp] insert_commute elim: yields_weaken)
qed (auto intro!: yields_bind [OF dirlink_held] yields_bind [OF iunlockput_two])

lemma create_held:
  assumes "held n t R {}" "cwd < n" "1 \<le> R cwd"
  shows "yields (create D cwd path ty major minor t)
    (\<lambda>(r, t'). held n t' (inc_opt r R) (set_option r) \<and> in_cache n r)"
  unfolding create_def
  by (rule yields_bind [OF nameiparent_held [OF assms]])
    (auto intro!: yields_bind [OF ilock_held [of n _ "inc x R" "{}" for x]]
      yields_bind [OF dirlookup_held [of n _ "inc x R" "{x}" for x]] create_old_held create_new_held split: option.splits)

lemma open_inode_held:
  assumes "held n t R {}" "cwd < n" "1 \<le> R cwd"
  shows "yields (open_inode D cwd path omode t)
    (\<lambda>(r, t'). held n t' (inc_opt r R) (set_option r) \<and> in_cache n r)"
proof (cases "omode AND O_CREATE \<noteq> 0")
  case True
  then show ?thesis using create_held [OF assms] by (simp add: open_inode_def)
next
  case False
  then show ?thesis unfolding open_inode_def if_not_P [OF False]
    by (intro yields_bind [OF namei_held [OF assms]])
      (auto intro!: yields_bind [OF ilock_held [of n _ "inc x R" "{}" for x]] yields_bind [OF iunlockput_only [of n _ _ R]]
        split: option.splits)
qed

end
