(* ===== verification/FilesInv.thy ===== *)
theory FilesInv
  imports FsHeld
begin

text \<open>
  The account of the whole file layer. At rest the count of a file is the number of descriptors that
  name it, and the count of a cached inode is the number of open files and current directories on it.
  Inside a handler \<open>E\<close> and \<open>X\<close> are the references to inodes and to files that the code holds in its
  variables, \<open>N\<close> the files it has allocated and not yet filled in, \<open>L\<close> the inodes it has locked.
\<close>

section \<open>Counting\<close>

definition fdrefs :: "uproc list \<Rightarrow> nat \<Rightarrow> int" where
  "fdrefs ps k = sum_list (map (\<lambda>p. int (count_list (u_ofile p) (Some k))) ps)"

definition cwdrefs :: "uproc list \<Rightarrow> nat \<Rightarrow> int" where
  "cwdrefs ps j = sum_list (map (\<lambda>p. if u_cwd p = Some j then 1 else 0) ps)"

definition filerefs :: "kfile list \<Rightarrow> nat \<Rightarrow> int" where
  "filerefs fs j = sum_list (map (\<lambda>f. if f_type f = FD_INODE \<and> f_ip f = j then 1 else 0) fs)"

definition irefs :: "kfs \<Rightarrow> nat \<Rightarrow> int" where
  "irefs s j = filerefs (ftab s) j + cwdrefs (uprocs s) j"

lemma count_list_upd:
  "i < length xs \<Longrightarrow> int (count_list (xs[i := y]) v) = int (count_list xs v) - of_bool (xs ! i = v) + of_bool (y = v)"
proof (induction xs arbitrary: i)
  case (Cons a xs)
  then show ?case by (cases i) auto
qed simp

lemma sum_map_upd:
  "i < length xs \<Longrightarrow> sum_list (map g (xs[i := y])) = sum_list (map g xs) - g (xs ! i) + g y" for g :: "'a \<Rightarrow> int"
  by (simp add: map_update sum_list_upd)

lemma fdrefs_upd:
  "p < length ps \<Longrightarrow> fdrefs (ps[p := q]) k =
     fdrefs ps k - int (count_list (u_ofile (ps ! p)) (Some k)) + int (count_list (u_ofile q) (Some k))"
  by (simp add: fdrefs_def sum_map_upd)

lemma cwdrefs_upd:
  "p < length ps \<Longrightarrow> cwdrefs (ps[p := q]) j =
     cwdrefs ps j - of_bool (u_cwd (ps ! p) = Some j) + of_bool (u_cwd q = Some j)"
  by (simp add: cwdrefs_def sum_map_upd)

lemma filerefs_upd:
  "k < length fs \<Longrightarrow> filerefs (fs[k := f]) j =
     filerefs fs j - of_bool (f_type (fs ! k) = FD_INODE \<and> f_ip (fs ! k) = j) + of_bool (f_type f = FD_INODE \<and> f_ip f = j)"
  by (simp add: filerefs_def sum_map_upd)

lemma sum_nonneg_member:
  "x \<in> set xs \<Longrightarrow> (\<And>y. y \<in> set xs \<Longrightarrow> 0 \<le> g y) \<Longrightarrow> g x \<le> sum_list (map g xs)" for g :: "'a \<Rightarrow> int"
proof (induction xs)
  case (Cons a xs)
  then show ?case using sum_list_nonneg [of "map g xs"] by fastforce
qed simp

lemma fdrefs_nonneg: "0 \<le> fdrefs ps k"
  by (auto simp: fdrefs_def intro!: sum_list_nonneg)

lemma fdrefs_ge: "p < length ps \<Longrightarrow> Some k \<in> set (u_ofile (ps ! p)) \<Longrightarrow> 1 \<le> fdrefs ps k"
proof -
  assume a: "p < length ps" "Some k \<in> set (u_ofile (ps ! p))"
  then have "1 \<le> int (count_list (u_ofile (ps ! p)) (Some k))"
    using count_list_0_iff [of "u_ofile (ps ! p)" "Some k"] by linarith
  also have "\<dots> \<le> fdrefs ps k" unfolding fdrefs_def
    by (rule sum_nonneg_member) (use a in auto)
  finally show ?thesis .
qed

lemma irefs_nonneg: "0 \<le> irefs s j"
  by (auto simp: irefs_def filerefs_def cwdrefs_def intro!: sum_list_nonneg add_nonneg_nonneg)

lemma irefs_ge_cwd: "p < length (uprocs s) \<Longrightarrow> u_cwd (proc_at s p) = Some j \<Longrightarrow> 1 \<le> irefs s j"
proof -
  assume a: "p < length (uprocs s)" "u_cwd (proc_at s p) = Some j"
  have "(if u_cwd (proc_at s p) = Some j then 1 else 0) \<le> cwdrefs (uprocs s) j"
    unfolding cwdrefs_def by (rule sum_nonneg_member) (use a in auto)
  moreover have "0 \<le> filerefs (ftab s) j" by (auto simp: filerefs_def intro!: sum_list_nonneg)
  ultimately show ?thesis using a(2) by (simp add: irefs_def)
qed

section \<open>The invariant\<close>

definition pipe_pages :: "kfile list \<Rightarrow> addr set" where
  "pipe_pages fs = {f_pipe f | f. f \<in> set fs \<and> f_type f = FD_PIPE}"

definition live_end :: "kfile list \<Rightarrow> addr \<Rightarrow> bool \<Rightarrow> bool" where
  "live_end fs a w \<longleftrightarrow> (\<exists>f \<in> set fs. f_type f = FD_PIPE \<and> f_pipe f = a \<and> f_writable f = w)"

text \<open>Each pipe has at most one file for an end, its flags say which ends have one, and its page and
  the free pages make up \<open>pool\<close>.\<close>

definition pipes_ok :: "addr set \<Rightarrow> kfs \<Rightarrow> bool" where
  "pipes_ok pool s \<longleftrightarrow>
     (\<forall>f \<in> set (ftab s). f_type f = FD_PIPE \<longrightarrow> f_readable f = (\<not> f_writable f)) \<and>
     (\<forall>k < length (ftab s). \<forall>l < length (ftab s).
        f_type (file_at s k) = FD_PIPE \<and> f_type (file_at s l) = FD_PIPE \<and>
        f_pipe (file_at s k) = f_pipe (file_at s l) \<and> f_writable (file_at s k) = f_writable (file_at s l) \<longrightarrow> k = l) \<and>
     (\<forall>a \<in> pipe_pages (ftab s). writeopen (pipes s a) = live_end (ftab s) a True \<and>
        readopen (pipes s a) = live_end (ftab s) a False \<and> page_ok (kend s) a) \<and>
     (\<exists>xs. kmem_inv (kend s) (kpages s) xs \<and> pipe_pages (ftab s) \<inter> set xs = {} \<and>
        pipe_pages (ftab s) \<union> set xs = pool)"

lemma pipes_okI:
  assumes "ftab s = fs" "kend s = e"
    and "\<forall>f \<in> set fs. f_type f = FD_PIPE \<longrightarrow> f_readable f = (\<not> f_writable f)"
    and "\<forall>k < length fs. \<forall>l < length fs. f_type (fs ! k) = FD_PIPE \<and> f_type (fs ! l) = FD_PIPE \<and>
        f_pipe (fs ! k) = f_pipe (fs ! l) \<and> f_writable (fs ! k) = f_writable (fs ! l) \<longrightarrow> k = l"
    and "\<forall>a \<in> pipe_pages fs. writeopen (pipes s a) = live_end fs a True \<and>
        readopen (pipes s a) = live_end fs a False \<and> page_ok e a"
    and "kmem_inv e (kpages s) xs" "pipe_pages fs \<inter> set xs = {}" "pipe_pages fs \<union> set xs = pool"
  shows "pipes_ok pool s"
  unfolding pipes_ok_def assms(1,2)
  by (intro conjI exI [of _ xs]) (rule assms)+

definition files_ok :: "kfs \<Rightarrow> (nat \<Rightarrow> int) \<Rightarrow> nat set \<Rightarrow> bool" where
  "files_ok s X N \<longleftrightarrow>
     (\<forall>k < length (ftab s). f_ref (file_at s k) = fdrefs (uprocs s) k + X k \<and>
        (f_ref (file_at s k) = 0 \<longrightarrow> f_type (file_at s k) = FD_NONE) \<and>
        (f_ref (file_at s k) > 0 \<and> f_type (file_at s k) = FD_NONE \<longrightarrow> k \<in> N)) \<and>
     (\<forall>p < length (uprocs s). length (u_ofile (proc_at s p)) = NOFILE \<and>
        (\<forall>k. Some k \<in> set (u_ofile (proc_at s p)) \<longrightarrow> k < length (ftab s)))"

definition inodes_ok :: "nat \<Rightarrow> kfs \<Rightarrow> (nat \<Rightarrow> int) \<Rightarrow> nat set \<Rightarrow> bool" where
  "inodes_ok n s E L \<longleftrightarrow>
     held n (fsys s) (\<lambda>j. irefs s j + E j) L \<and>
     (\<forall>k < length (ftab s). f_type (file_at s k) = FD_INODE \<longrightarrow> f_ip (file_at s k) < n) \<and>
     (\<forall>p < length (uprocs s). \<forall>j. u_cwd (proc_at s p) = Some j \<longrightarrow> j < n)"

definition kinv :: "nat \<Rightarrow> addr set \<Rightarrow> kfs \<Rightarrow> (nat \<Rightarrow> int) \<Rightarrow> (nat \<Rightarrow> int) \<Rightarrow> nat set \<Rightarrow> nat set \<Rightarrow> bool" where
  "kinv n pool s E X N L \<longleftrightarrow> inodes_ok n s E L \<and> files_ok s X N \<and> pipes_ok pool s"

definition none :: "nat \<Rightarrow> int" where "none j = 0"

abbreviation at_rest :: "nat \<Rightarrow> addr set \<Rightarrow> kfs \<Rightarrow> bool" where
  "at_rest n pool s \<equiv> kinv n pool s none none {} {}"

lemma inc_add: "(\<lambda>j. f j + inc k g j) = inc k (\<lambda>j. f j + g j)" "(\<lambda>j. f j + dec k g j) = dec k (\<lambda>j. f j + g j)"
  by (auto simp: inc_def dec_def)

text \<open>What the invariant depends on.\<close>

lemma kinv_frame:
  assumes "kinv n pool s E X N L" "ftab s' = ftab s" "uprocs s' = uprocs s" "fsys s' = fsys s"
    "kpages s' = kpages s" "kend s' = kend s"
    "\<And>a. writeopen (pipes s' a) = writeopen (pipes s a) \<and> readopen (pipes s' a) = readopen (pipes s a)"
  shows "kinv n pool s' E X N L"
  using assms by (simp add: kinv_def inodes_ok_def files_ok_def pipes_ok_def irefs_def)

text \<open>An operation of the file system.\<close>

lemma kinv_fs:
  assumes "kinv n pool s E X N L" "yields (m (fsys s)) (\<lambda>(x, t). held n t (\<lambda>j. irefs s j + E' x j) (L' x) \<and> Q x)"
  shows "yields (on_fs m s) (\<lambda>(x, s'). kinv n pool s' (E' x) X N (L' x) \<and> Q x \<and>
    ftab s' = ftab s \<and> uprocs s' = uprocs s)"
  unfolding on_fs_def using assms
  by (intro yields_bind [OF assms(2)])
    (auto simp: kinv_def inodes_ok_def files_ok_def pipes_ok_def irefs_def)

lemma kinv_fs_:
  assumes "kinv n pool s E X N L" "yields (m (fsys s)) (\<lambda>t. held n t (\<lambda>j. irefs s j + E' j) L')"
  shows "yields (do_fs m s) (\<lambda>s'. kinv n pool s' E' X N L' \<and> ftab s' = ftab s \<and> uprocs s' = uprocs s)"
  unfolding do_fs_def using assms
  by (intro yields_bind [OF assms(2)])
    (auto simp: kinv_def inodes_ok_def files_ok_def pipes_ok_def irefs_def)

section \<open>The file table\<close>

lemma fupd_fields [simp]:
  "uprocs (fupd k f s) = uprocs s" "fsys (fupd k f s) = fsys s" "pipes (fupd k f s) = pipes s"
  "kpages (fupd k f s) = kpages s" "kend (fupd k f s) = kend s" "devs (fupd k f s) = devs s"
  "ftab (fupd k f s) = (ftab s)[k := f (file_at s k)]" "umem (fupd k f s) = umem s"
  by (simp_all add: fupd_def)

lemma pupd_fields [simp]:
  "ftab (pupd p f s) = ftab s" "fsys (pupd p f s) = fsys s" "pipes (pupd p f s) = pipes s"
  "kpages (pupd p f s) = kpages s" "kend (pupd p f s) = kend s" "devs (pupd p f s) = devs s"
  "uprocs (pupd p f s) = (uprocs s)[p := f (proc_at s p)]" "umem (pupd p f s) = umem s"
  by (simp_all add: pupd_def)

text \<open>A change of one file that leaves what it says of a pipe alone.\<close>

definition pipe_view :: "kfile \<Rightarrow> (addr \<times> bool \<times> bool) option" where
  "pipe_view q = (if f_type q = FD_PIPE then Some (f_pipe q, f_writable q, f_readable q) else None)"

lemma pipes_ok_fupd:
  assumes "pipes_ok pool s" "k < length (ftab s)" "pipe_view (f (file_at s k)) = pipe_view (file_at s k)"
  shows "pipes_ok pool (fupd k f s)"
proof -
  let ?fs = "(ftab s)[k := f (file_at s k)]"
  have nth: "pipe_view (?fs ! i) = pipe_view (ftab s ! i)" if "i < length (ftab s)" for i
    using assms(2,3) that by (cases "i = k") simp_all
  then have "map pipe_view ?fs = map pipe_view (ftab s)" by (intro nth_equalityI) auto
  from arg_cong [OF this, of set] have im: "pipe_view ` set ?fs = pipe_view ` set (ftab s)" unfolding set_map .
  have pe: "pipe_pages fs = {a. \<exists>q \<in> pipe_view ` set fs. \<exists>w r. q = Some (a, w, r)}" for fs
    by (auto simp: pipe_pages_def pipe_view_def)
  have pp: "pipe_pages ?fs = pipe_pages (ftab s)" unfolding pe im ..
  have ee: "live_end fs a w \<longleftrightarrow> (\<exists>q \<in> pipe_view ` set fs. \<exists>r. q = Some (a, w, r))" for fs a w
    by (auto simp: live_end_def pipe_view_def)
  have le: "live_end ?fs = live_end (ftab s)" by (intro ext) (unfold ee im, rule refl)
  have rr: "(\<forall>q \<in> set fs. f_type q = FD_PIPE \<longrightarrow> f_readable q = (\<not> f_writable q)) \<longleftrightarrow>
      (\<forall>q \<in> pipe_view ` set fs. \<forall>a w r. q = Some (a, w, r) \<longrightarrow> r = (\<not> w))" for fs
    by (auto simp: pipe_view_def)
  have same: "f_type x = FD_PIPE \<and> f_type y = FD_PIPE \<and> f_pipe x = f_pipe y \<and> f_writable x = f_writable y \<longleftrightarrow>
      (\<exists>a w r r'. pipe_view x = Some (a, w, r) \<and> pipe_view y = Some (a, w, r'))" for x y
    by (auto simp: pipe_view_def)
  show ?thesis
    using assms(1) unfolding pipes_ok_def fupd_fields rr same pp le im length_list_update by (simp add: nth)
qed

lemma find_upt_SomeD: "find P [0..<m] = Some k \<Longrightarrow> k < m \<and> P k"
  by (auto simp: find_Some_iff)

lemma irefs_fupd:
  "k < length (ftab s) \<Longrightarrow> irefs (fupd k f s) j =
    irefs s j - of_bool (f_type (file_at s k) = FD_INODE \<and> f_ip (file_at s k) = j) +
      of_bool (f_type (f (file_at s k)) = FD_INODE \<and> f_ip (f (file_at s k)) = j)"
  by (simp add: irefs_def filerefs_upd)

lemma inodes_ok_fupd:
  assumes "inodes_ok n s E L" "k < length (ftab s)"
    and "f_type (f (file_at s k)) = f_type (file_at s k)" "f_ip (f (file_at s k)) = f_ip (file_at s k)"
  shows "inodes_ok n (fupd k f s) E L"
proof -
  have "irefs (fupd k f s) j = irefs s j" for j using assms(2-4) by (simp add: irefs_fupd)
  then show ?thesis using assms by (auto simp: inodes_ok_def nth_list_update)
qed

text \<open>Taking and giving up a reference to a file, the last one excepted.\<close>

lemma kinv_count:
  assumes "kinv n pool s E X N L" "k < length (ftab s)" "f_ref (file_at s k) + d > 0"
    and "f_type (file_at s k) = FD_NONE \<Longrightarrow> k \<in> N'" "N - {k} \<subseteq> N'"
  shows "kinv n pool (fupd k (\<lambda>f. f\<lparr>f_ref := f_ref f + d\<rparr>) s) E (X(k := X k + d)) N' L"
proof -
  have "files_ok (fupd k (\<lambda>f. f\<lparr>f_ref := f_ref f + d\<rparr>) s) (X(k := X k + d)) N'"
    using assms by (auto simp: kinv_def files_ok_def nth_list_update)
  then show ?thesis using assms by (simp add: kinv_def pipes_ok_fupd inodes_ok_fupd pipe_view_def)
qed

lemma filealloc_kinv:
  assumes "kinv n pool s E X N L" "filealloc s = (r, s')"
  shows "case r of None \<Rightarrow> s' = s | Some k \<Rightarrow> k < length (ftab s) \<and> kinv n pool s' E (inc k X) (insert k N) L \<and>
    f_ref (file_at s' k) = 1 \<and> f_type (file_at s' k) = FD_NONE \<and> f_ref (file_at s k) = 0 \<and>
    uprocs s' = uprocs s \<and> length (ftab s') = length (ftab s) \<and> (\<forall>l. l \<noteq> k \<longrightarrow> file_at s' l = file_at s l)"
proof (cases "find (\<lambda>k. f_ref (file_at s k) = 0) [0..<length (ftab s)]")
  case None
  then show ?thesis using assms(2) by (simp add: filealloc_def)
next
  case (Some k)
  from find_upt_SomeD [OF this] have k: "k < length (ftab s)" "f_ref (file_at s k) = 0" by auto
  then have "f_type (file_at s k) = FD_NONE" using assms(1) by (auto simp: kinv_def files_ok_def)
  moreover have "fupd k (\<lambda>f. f\<lparr>f_ref := 1\<rparr>) s = fupd k (\<lambda>f. f\<lparr>f_ref := f_ref f + 1\<rparr>) s"
    using k by (simp add: fupd_def)
  ultimately have r: "r = Some k" "s' = fupd k (\<lambda>f. f\<lparr>f_ref := f_ref f + 1\<rparr>) s" and t: "f_type (file_at s k) = FD_NONE"
    using assms(2) Some by (simp_all add: filealloc_def)
  show ?thesis unfolding r
    using kinv_count [OF assms(1) k(1), of 1 "insert k N"] k t by (auto simp: inc_def fupd_def)
qed

lemma filedup_kinv:
  assumes "kinv n pool s E X N L" "k < length (ftab s)"
  shows "yields (filedup k s) (\<lambda>s'. kinv n pool s' E (inc k X) N L \<and> uprocs s' = uprocs s \<and> length (ftab s') = length (ftab s))"
proof (cases "f_ref (file_at s k) < 1")
  case False
  then have "kinv n pool (fupd k (\<lambda>f. f\<lparr>f_ref := f_ref f + 1\<rparr>) s) E (inc k X) N L"
    unfolding inc_def using assms False by (intro kinv_count [OF assms(1,2)]) (auto simp: kinv_def files_ok_def)
  then show ?thesis using False by (simp add: filedup_def fupd_def)
qed (simp add: filedup_def)

section \<open>Closing\<close>

text \<open>Taking the file of one end away.\<close>

lemma end_removed:
  assumes "\<forall>i < length fs. \<forall>j < length fs. f_type (fs ! i) = FD_PIPE \<and> f_type (fs ! j) = FD_PIPE \<and>
      f_pipe (fs ! i) = f_pipe (fs ! j) \<and> f_writable (fs ! i) = f_writable (fs ! j) \<longrightarrow> i = j"
    and "k < length fs" "f_type (fs ! k) = FD_PIPE" "f_type g \<noteq> FD_PIPE"
  shows "live_end (fs[k := g]) b v \<longleftrightarrow> live_end fs b v \<and> \<not> (b = f_pipe (fs ! k) \<and> v = f_writable (fs ! k))"
proof -
  have nth: "live_end xs b v \<longleftrightarrow> (\<exists>i < length xs. f_type (xs ! i) = FD_PIPE \<and> f_pipe (xs ! i) = b \<and> f_writable (xs ! i) = v)" for xs
    unfolding live_end_def by (metis in_set_conv_nth)
  show ?thesis
  proof
    assume "live_end (fs[k := g]) b v"
    then obtain i where i: "i < length fs" "f_type (fs[k := g] ! i) = FD_PIPE" "f_pipe (fs[k := g] ! i) = b"
      "f_writable (fs[k := g] ! i) = v" unfolding nth by auto
    then have "i \<noteq> k" using assms(2,4) by auto
    then show "live_end fs b v \<and> \<not> (b = f_pipe (fs ! k) \<and> v = f_writable (fs ! k))"
      using i assms(1-3) unfolding nth by auto
  next
    assume "live_end fs b v \<and> \<not> (b = f_pipe (fs ! k) \<and> v = f_writable (fs ! k))"
    then obtain i where "i < length fs" "i \<noteq> k" "f_type (fs ! i) = FD_PIPE" "f_pipe (fs ! i) = b" "f_writable (fs ! i) = v"
      unfolding nth by blast
    then show "live_end (fs[k := g]) b v" unfolding nth by (intro exI [of _ i]) simp
  qed
qed

lemma pipe_pages_live: "a \<in> pipe_pages fs \<longleftrightarrow> live_end fs a True \<or> live_end fs a False"
  by (auto simp: pipe_pages_def live_end_def)

lemma close_pipe_ok:
  assumes "pipes_ok pool s" "k < length (ftab s)" "f_type (file_at s k) = FD_PIPE"
    and "a = f_pipe (file_at s k)" "w = f_writable (file_at s k)"
    and "s2 = fupd k (\<lambda>f. f\<lparr>f_ref := 0, f_type := FD_NONE\<rparr>) s"
  shows "yields (close_pipe a w s2) (\<lambda>s'. pipes_ok pool s' \<and> s' = s2\<lparr>pipes := pipes s', kpages := kpages s'\<rparr>)"
proof -
  let ?fs2 = "(ftab s)[k := (file_at s k)\<lparr>f_ref := 0, f_type := FD_NONE\<rparr>]"
  have live: "live_end ?fs2 b v \<longleftrightarrow> live_end (ftab s) b v \<and> \<not> (b = a \<and> v = w)" for b v
    unfolding assms(4,5) by (rule end_removed) (use assms(1-3) in \<open>simp_all add: pipes_ok_def\<close>)
  have lka: "live_end (ftab s) a w" using assms(2-5) by (auto simp: live_end_def)
  then have ain: "a \<in> pipe_pages (ftab s)" by (cases w) (auto simp: pipe_pages_live)
  have pg: "b \<in> pipe_pages ?fs2 \<longleftrightarrow> b \<in> pipe_pages (ftab s) \<and> (b \<noteq> a \<or> live_end (ftab s) a (\<not> w))" for b
    unfolding pipe_pages_live live by (cases w) auto
  obtain xs where xs: "kmem_inv (kend s) (kpages s) xs" "pipe_pages (ftab s) \<inter> set xs = {}"
    "pipe_pages (ftab s) \<union> set xs = pool" using assms(1) by (auto simp: pipes_ok_def)
  have flags: "writeopen (pipes s b) = live_end (ftab s) b True \<and> readopen (pipes s b) = live_end (ftab s) b False \<and>
      page_ok (kend s) b" if "b \<in> pipe_pages (ftab s)" for b
    using assms(1) that by (auto simp: pipes_ok_def)
  have rw: "\<forall>q \<in> set ?fs2. f_type q = FD_PIPE \<longrightarrow> f_readable q = (\<not> f_writable q)"
    unfolding all_set_conv_all_nth
  proof (intro allI impI)
    fix i assume "i < length ?fs2" "f_type (?fs2 ! i) = FD_PIPE"
    then have "i < length (ftab s) \<and> f_type (file_at s i) = FD_PIPE \<and> ?fs2 ! i = file_at s i"
      using assms(2) by (cases "i = k") simp_all
    then show "f_readable (?fs2 ! i) = (\<not> f_writable (?fs2 ! i))" using assms(1) by (auto simp: pipes_ok_def)
  qed
  have un: "\<forall>i < length ?fs2. \<forall>j < length ?fs2. f_type (?fs2 ! i) = FD_PIPE \<and> f_type (?fs2 ! j) = FD_PIPE \<and>
      f_pipe (?fs2 ! i) = f_pipe (?fs2 ! j) \<and> f_writable (?fs2 ! i) = f_writable (?fs2 ! j) \<longrightarrow> i = j"
  proof (intro allI impI)
    fix i j assume ij: "i < length ?fs2" "j < length ?fs2"
      "f_type (?fs2 ! i) = FD_PIPE \<and> f_type (?fs2 ! j) = FD_PIPE \<and>
       f_pipe (?fs2 ! i) = f_pipe (?fs2 ! j) \<and> f_writable (?fs2 ! i) = f_writable (?fs2 ! j)"
    then have "i \<noteq> k" "j \<noteq> k" using assms(2) by auto
    then show "i = j" using ij assms(1) unfolding pipes_ok_def by simp
  qed
  define q where "q = fst (pipeclose w (pipes s a))"
  have q: "writeopen q = (writeopen (pipes s a) \<and> \<not> w)" "readopen q = (readopen (pipes s a) \<and> w)"
    by (auto simp: q_def pipeclose_def)
  define s3 where "s3 = s2\<lparr>pipes := (pipes s2)(a := q)\<rparr>"
  have s3: "ftab s3 = ?fs2" "kend s3 = kend s" "kpages s3 = kpages s" "pipes s3 = (pipes s)(a := q)"
    using assms(6) by (simp_all add: s3_def)
  have fl3: "\<forall>b \<in> pipe_pages ?fs2. writeopen (pipes s3 b) = live_end ?fs2 b True \<and>
      readopen (pipes s3 b) = live_end ?fs2 b False \<and> page_ok (kend s) b"
    using flags pg unfolding live s3 by (auto simp: q)
  show ?thesis
  proof (cases "live_end (ftab s) a (\<not> w)")
    case True
    then have "\<not> (\<not> readopen q \<and> \<not> writeopen q)" using flags [OF ain] lka q by (cases w) auto
    then have c: "close_pipe a w s2 = Inr s3"
      using assms(6) by (auto simp: close_pipe_def q_def s3_def pipeclose_def Let_def split: if_splits)
    have "pipe_pages ?fs2 = pipe_pages (ftab s)" using True pg by blast
    then have "pipes_ok pool s3"
      using xs s3(3) by (intro pipes_okI [OF s3(1,2) rw un fl3, of xs]) simp_all
    then show ?thesis using c by (simp add: s3_def)
  next
    case False
    then have "\<not> readopen q \<and> \<not> writeopen q" using flags [OF ain] q by (cases w) auto
    then have c: "close_pipe a w s2 = free_page a s3"
      using assms(6) by (auto simp: close_pipe_def q_def s3_def pipeclose_def Let_def split: if_splits)
    have "a \<notin> set xs" using ain xs by blast
    then obtain m where m: "kfree (kend s) a (kpages s) = Inr m" "kmem_inv (kend s) m (a # xs)"
      using kfree_inv [OF xs(1)] flags [OF ain] by blast
    have pp: "pipe_pages ?fs2 = pipe_pages (ftab s) - {a}" using False pg by blast
    have "pipe_pages ?fs2 \<inter> set (a # xs) = {}" "pipe_pages ?fs2 \<union> set (a # xs) = pool"
      using xs ain unfolding pp by auto
    then have "pipes_ok pool (s3\<lparr>kpages := m\<rparr>)"
      using m(2) s3 fl3 by (intro pipes_okI [OF _ _ rw un, of _ "kend s" "a # xs"]) simp_all
    then show ?thesis using c m(1) s3 by (simp add: free_page_def s3_def)
  qed
qed

lemma files_ok_last:
  assumes "files_ok s X N" "k < length (ftab s)" "f_ref (file_at s k) = 1"
  shows "files_ok (fupd k (\<lambda>f. f\<lparr>f_ref := 0, f_type := FD_NONE\<rparr>) s) (dec k X) (N - {k})"
  using assms by (auto simp: files_ok_def nth_list_update dec_def)

lemma fileclose_last:
  assumes "f_ref (file_at s k) = 1" "k < length (ftab s)"
  shows "fileclose k s =
    (let ff = file_at s k; s2 = fupd k (\<lambda>f. f\<lparr>f_ref := 0, f_type := FD_NONE\<rparr>) s in
     case f_type ff of
       FD_PIPE \<Rightarrow> close_pipe (f_pipe ff) (f_writable ff) s2
     | FD_INODE \<Rightarrow> do_fs (iput (f_ip ff)) s2
     | FD_NONE \<Rightarrow> Inr s2)"
  using assms by (simp add: fileclose_def Let_def fupd_def cong: ftype.case_cong)

text \<open>A file closed inside a handler is either well typed or, if it is in \<open>N\<close>, about to go.\<close>

lemma fileclose_kinv:
  assumes "kinv n pool s E X N L" "k < length (ftab s)"
    and "k \<in> N \<Longrightarrow> f_ref (file_at s k) = 1" "f_type (file_at s k) = FD_INODE \<Longrightarrow> L = {}"
  shows "yields (fileclose k s) (\<lambda>s'. kinv n pool s' E (dec k X) (N - {k}) L \<and>
    uprocs s' = uprocs s \<and> length (ftab s') = length (ftab s) \<and> (\<forall>l. l \<noteq> k \<longrightarrow> file_at s' l = file_at s l))"
proof -
  note inv = assms(1) [unfolded kinv_def]
  consider "f_ref (file_at s k) < 1" | "f_ref (file_at s k) = 1" | "f_ref (file_at s k) > 1" by linarith
  then show ?thesis
  proof cases
    case 3
    then have "k \<notin> N" using assms(3) by fastforce
    then have "f_type (file_at s k) \<noteq> FD_NONE" using 3 inv assms(2) by (auto simp: files_ok_def)
    with \<open>k \<notin> N\<close> have "kinv n pool (fupd k (\<lambda>f. f\<lparr>f_ref := f_ref f + - 1\<rparr>) s) E (X(k := X k + - 1)) (N - {k}) L"
      using 3 by (intro kinv_count [OF assms(1,2)]) auto
    then show ?thesis using 3 assms(2) by (simp add: fileclose_def Let_def dec_def)
  next
    case 2
    let ?s2 = "fupd k (\<lambda>f. f\<lparr>f_ref := 0, f_type := FD_NONE\<rparr>) s"
    have f2: "files_ok ?s2 (dec k X) (N - {k})" using files_ok_last inv assms(2) 2 by blast
    note cl = fileclose_last [OF 2 assms(2), unfolded Let_def]
    have i2: "inodes_ok n ?s2 (if f_type (file_at s k) = FD_INODE then inc (f_ip (file_at s k)) E else E) L"
    proof -
      have "irefs ?s2 j + (if f_type (file_at s k) = FD_INODE then inc (f_ip (file_at s k)) E else E) j = irefs s j + E j" for j
        using irefs_fupd [OF assms(2)] by (simp add: inc_def)
      then show ?thesis using inv assms(2) by (auto simp: inodes_ok_def nth_list_update)
    qed
    show ?thesis
    proof (cases "f_type (file_at s k)")
      case FD_NONE
      then have "pipes_ok pool ?s2" using inv assms(2) by (intro pipes_ok_fupd) (auto simp: pipe_view_def)
      then show ?thesis using FD_NONE f2 i2 cl assms(2) by (simp add: kinv_def)
    next
      case FD_PIPE
      have "yields (close_pipe (f_pipe (file_at s k)) (f_writable (file_at s k)) ?s2)
        (\<lambda>s'. pipes_ok pool s' \<and> s' = ?s2\<lparr>pipes := pipes s', kpages := kpages s'\<rparr>)"
        by (rule close_pipe_ok) (use inv assms(2) FD_PIPE in auto)
      then show ?thesis unfolding cl kinv_def FD_PIPE ftype.case
      proof (rule yields_weaken)
        fix s' assume p: "pipes_ok pool s' \<and> s' = ?s2\<lparr>pipes := pipes s', kpages := kpages s'\<rparr>"
        have "inodes_ok n s' E L \<and> files_ok s' (dec k X) (N - {k}) \<and> uprocs s' = uprocs s \<and>
          length (ftab s') = length (ftab s) \<and> (\<forall>l. l \<noteq> k \<longrightarrow> file_at s' l = file_at s l)"
          using f2 i2 FD_PIPE assms(2) by (subst (1 2 3 4 5) conjunct2 [OF p]) (simp add: inodes_ok_def files_ok_def irefs_def)
        then show "(inodes_ok n s' E L \<and> files_ok s' (dec k X) (N - {k}) \<and> pipes_ok pool s') \<and> uprocs s' = uprocs s \<and>
            length (ftab s') = length (ftab s) \<and> (\<forall>l. l \<noteq> k \<longrightarrow> file_at s' l = file_at s l)" using p by blast
      qed
    next
      case FD_INODE
      then have "pipes_ok pool ?s2" using inv assms(2) by (intro pipes_ok_fupd) (auto simp: pipe_view_def)
      then have k2: "kinv n pool ?s2 (inc (f_ip (file_at s k)) E) (dec k X) (N - {k}) L"
        using f2 i2 FD_INODE by (simp add: kinv_def)
      have "yields (iput (f_ip (file_at s k)) (fsys ?s2)) (\<lambda>t. held n t (\<lambda>j. irefs ?s2 j + E j) L)"
        using k2 inv FD_INODE assms(2,4) by (intro iput_back) (auto simp: kinv_def inodes_ok_def inc_add)
      from kinv_fs_ [where m = "iput (f_ip (file_at s k))", OF k2 this] show ?thesis
        unfolding cl FD_INODE ftype.case by (rule yields_weaken) (use assms(2) in auto)
    qed
  qed (simp add: fileclose_def)
qed

end
