(* ===== verification/FilesSpec.thy ===== *)
theory FilesSpec
  imports FilesInv CInt
begin

text \<open>
  The system calls keep the account of \<open>FilesInv\<close>: each starts and ends with exact counts, no lock held
  and every page of a pipe accounted for, on every path through it that returns.
\<close>

section \<open>User memory\<close>

lemma store_bytes_kinv:
  "kinv n pool s E X N L \<Longrightarrow> yields (store_bytes pg a bs s)
     (\<lambda>s'. kinv n pool s' E X N L \<and> ftab s' = ftab s \<and> uprocs s' = uprocs s \<and> fsys s' = fsys s \<and> devs s' = devs s)"
proof (induction bs arbitrary: a s)
  case (Cons b bs)
  let ?s = "s\<lparr>umem := (umem s)(pg := (umem s pg)(a := Some b))\<rparr>"
  have "kinv n pool ?s E X N L" by (rule kinv_frame [OF Cons.prems]) simp_all
  from Cons.IH [OF this] show ?case
    by (cases "peek pg a s") (auto elim!: yields_weaken)
qed simp

lemma argfd_yields:
  "yields (argfd p i s) (\<lambda>r. \<forall>fd k. r = Some (fd, k) \<longrightarrow> fd < NOFILE \<and> u_ofile (proc_at s p) ! fd = Some k)"
proof -
  have "unat w < NOFILE" if "\<not> (sint w < 0 \<or> sint w \<ge> int NOFILE)" for w :: "32 word"
    using that sint_pos_nat [of w] by (simp add: not_less not_le NOFILE_def nat_less_iff)
  then show ?thesis unfolding argfd_def
    by (intro yields_bind [where Q = "\<lambda>_. True"]) (auto simp: yields_def split: option.splits if_splits)
qed

text \<open>A check of the arguments that fails returns with nothing done.\<close>

lemma yields_any: "(\<And>r. yields (f r) P) \<Longrightarrow> yields (bindE m f) P"
  by (rule yields_bind [where Q = "\<lambda>_. True"]) (auto simp: yields_def)

lemma yields_orfail: "(r = None \<Longrightarrow> P (- 1, s)) \<Longrightarrow> (\<And>x. r = Some x \<Longrightarrow> yields (f x) P) \<Longrightarrow> yields (orfail r s f) P"
  by (cases r) (simp_all add: orfail_def)

section \<open>Descriptors\<close>

lemma set_fd_kinv:
  assumes "kinv n pool s E X N L" "p < length (uprocs s)" "fd < NOFILE" "\<And>k. v = Some k \<Longrightarrow> k < length (ftab s)"
  shows "kinv n pool (pupd p (\<lambda>q. q\<lparr>u_ofile := (u_ofile q)[fd := v]\<rparr>) s) E
    (\<lambda>k. X k + of_bool (u_ofile (proc_at s p) ! fd = Some k) - of_bool (v = Some k)) N L"
proof -
  let ?s = "pupd p (\<lambda>q. q\<lparr>u_ofile := (u_ofile q)[fd := v]\<rparr>) s"
  note inv = assms(1) [unfolded kinv_def]
  have len: "length (u_ofile (proc_at s p)) = NOFILE" using inv assms(2) by (simp add: files_ok_def)
  have fd: "fdrefs (uprocs ?s) k = fdrefs (uprocs s) k - of_bool (u_ofile (proc_at s p) ! fd = Some k) + of_bool (v = Some k)" for k
    using assms(2,3) len by (simp add: fdrefs_upd count_list_upd)
  have cwd: "u_cwd (proc_at ?s q) = u_cwd (proc_at s q)" if "q < length (uprocs s)" for q
    using that by (cases "q = p") simp_all
  have "cwdrefs (uprocs ?s) j = cwdrefs (uprocs s) j" for j
    using assms(2) by (simp add: cwdrefs_upd)
  then have "irefs ?s j = irefs s j" for j by (simp add: irefs_def)
  then have i: "inodes_ok n ?s E L" using inv cwd by (simp add: inodes_ok_def)
  have "length (u_ofile (proc_at ?s q)) = NOFILE \<and> (\<forall>k. Some k \<in> set (u_ofile (proc_at ?s q)) \<longrightarrow> k < length (ftab s))"
    if "q < length (uprocs s)" for q
    using inv that assms(2,4) by (cases "q = p") (auto simp: files_ok_def dest!: subsetD [OF set_update_subset_insert])
  then have "files_ok ?s (\<lambda>k. X k + of_bool (u_ofile (proc_at s p) ! fd = Some k) - of_bool (v = Some k)) N"
    using inv fd by (simp add: files_ok_def)
  then show ?thesis using i inv by (simp add: kinv_def pipes_ok_def)
qed

lemma fdalloc_kinv:
  assumes "kinv n pool s E X N L" "p < length (uprocs s)" "k < length (ftab s)" "fdalloc p k s = (r, s')"
  shows "case r of None \<Rightarrow> s' = s | Some fd \<Rightarrow> fd < NOFILE \<and> kinv n pool s' E (dec k X) N L \<and>
    ftab s' = ftab s \<and> fsys s' = fsys s \<and> length (uprocs s') = length (uprocs s) \<and>
    u_ofile (proc_at s' p) ! fd = Some k \<and> u_ofile (proc_at s p) ! fd = None"
proof (cases "find (\<lambda>fd. u_ofile (proc_at s p) ! fd = None) [0..<NOFILE]")
  case None
  then show ?thesis using assms(4) by (simp add: fdalloc_def)
next
  case (Some fd)
  from find_upt_SomeD [OF this] have fd: "fd < NOFILE" "u_ofile (proc_at s p) ! fd = None" by auto
  have r: "r = Some fd" "s' = pupd p (\<lambda>q. q\<lparr>u_ofile := (u_ofile q)[fd := Some k]\<rparr>) s"
    using assms(4) Some by (simp_all add: fdalloc_def)
  have "(\<lambda>l. X l + of_bool (u_ofile (proc_at s p) ! fd = Some l) - of_bool (Some k = Some l)) = dec k X"
    using fd by (auto simp: dec_def)
  then have "kinv n pool s' E (dec k X) N L"
    using set_fd_kinv [OF assms(1,2) fd(1), of "Some k"] assms(3) r by simp
  moreover have "length (u_ofile (proc_at s p)) = NOFILE" using assms(1,2) by (simp add: kinv_def files_ok_def)
  ultimately show ?thesis using fd assms(2) r by simp
qed

lemma fdclear_kinv:
  assumes "kinv n pool s E X N L" "p < length (uprocs s)" "fd < NOFILE" "u_ofile (proc_at s p) ! fd = Some k"
  shows "kinv n pool (fdclear p fd s) E (inc k X) N L"
proof -
  have "(\<lambda>l. X l + of_bool (u_ofile (proc_at s p) ! fd = Some l) - of_bool ((None :: nat option) = Some l)) = inc k X"
    using assms(4) by (auto simp: inc_def)
  then show ?thesis using set_fd_kinv [OF assms(1-3), of None] by (simp add: fdclear_def)
qed

lemma fd_valid:
  assumes "kinv n pool s E X N L" "p < length (uprocs s)" "fd < NOFILE" "u_ofile (proc_at s p) ! fd = Some k"
  shows "k < length (ftab s)"
proof -
  have "Some k \<in> set (u_ofile (proc_at s p))" using assms by (metis kinv_def files_ok_def nth_mem)
  then show ?thesis using assms(1,2) by (auto simp: kinv_def files_ok_def)
qed

lemma sys_dup_rest:
  assumes "at_rest n pool s" "p < length (uprocs s)"
  shows "yields (sys_dup p s) (\<lambda>(r, s'). at_rest n pool s')"
  unfolding sys_dup_def
proof (rule yields_bind [OF argfd_yields], rule yields_orfail)
  fix r x
  assume "\<forall>fd k. r = Some (fd, k) \<longrightarrow> fd < NOFILE \<and> u_ofile (proc_at s p) ! fd = Some k" "r = Some x"
  then obtain fd k where x: "x = (fd, k)" "fd < NOFILE" "u_ofile (proc_at s p) ! fd = Some k" by (cases x) auto
  then have k: "k < length (ftab s)" using fd_valid [OF assms] by blast
  obtain r1 s1 where f: "fdalloc p k s = (r1, s1)" by fastforce
  note fa = fdalloc_kinv [OF assms k f]
  show "yields (case x of (_, k) \<Rightarrow> case fdalloc p k s of (None, s1) \<Rightarrow> Inr (- 1, s1)
      | (Some fd, s1) \<Rightarrow> bindE (filedup k s1) (\<lambda>s2. Inr (int fd, s2))) (\<lambda>(r, s'). at_rest n pool s')"
  proof (cases r1)
    case None
    then show ?thesis using x f fa assms(1) by simp
  next
    case (Some fd1)
    then have "kinv n pool s1 none (dec k none) {} {}" "k < length (ftab s1)" using fa k by simp_all
    from filedup_kinv [OF this] show ?thesis using x f Some by (auto intro: yields_bind)
  qed
qed (use assms(1) in simp)

lemma sys_close_rest:
  assumes "at_rest n pool s" "p < length (uprocs s)"
  shows "yields (sys_close p s) (\<lambda>(r, s'). at_rest n pool s')"
  unfolding sys_close_def
proof (rule yields_bind [OF argfd_yields], rule yields_orfail)
  fix r x
  assume "\<forall>fd k. r = Some (fd, k) \<longrightarrow> fd < NOFILE \<and> u_ofile (proc_at s p) ! fd = Some k" "r = Some x"
  then obtain fd k where x: "x = (fd, k)" "fd < NOFILE" "u_ofile (proc_at s p) ! fd = Some k" by (cases x) auto
  then have k: "k < length (ftab s)" using fd_valid [OF assms] by blast
  have c: "kinv n pool (fdclear p fd s) none (inc k none) {} {}" using fdclear_kinv [OF assms x(2,3)] .
  have "yields (fileclose k (fdclear p fd s)) (\<lambda>s'. at_rest n pool s')"
    by (rule yields_weaken [OF fileclose_kinv [OF c]]) (use k in \<open>auto simp: fdclear_def\<close>)
  then show "yields (case x of (fd, k) \<Rightarrow> bindE (fileclose k (fdclear p fd s)) (\<lambda>s1. Inr (0, s1))) (\<lambda>(r, s'). at_rest n pool s')"
    using x by (auto intro: yields_bind)
qed (use assms(1) in simp)

section \<open>Reading and writing\<close>

lemma pipe_flags:
  "pipewrite_loop kd m bs q = (r, rest, q', w) \<Longrightarrow> readopen q' = readopen q \<and> writeopen q' = writeopen q"
  by (induction kd m bs q rule: pipewrite_loop.induct) (auto simp: pput_def split: if_splits)

lemma piperead_copy_flags:
  "readopen (snd (piperead_copy m q)) = readopen q \<and> writeopen (snd (piperead_copy m q)) = writeopen q"
proof (induction m arbitrary: q)
  case (Suc m)
  show ?case using Suc.IH [of "snd (pget q)"] by (auto simp: pget_def Let_def split: prod.splits)
qed simp

lemma piperead_flags:
  "piperead kd m q = (r, bs, q', w) \<Longrightarrow> readopen q' = readopen q \<and> writeopen q' = writeopen q"
  using piperead_copy_flags [of "nat m" q] by (auto simp: piperead_def Let_def split: if_splits prod.splits)

lemma pipe_upd_kinv:
  assumes "kinv n pool s E X N L" "readopen q = readopen (pipes s a)" "writeopen q = writeopen (pipes s a)"
  shows "kinv n pool (s\<lparr>pipes := (pipes s)(a := q)\<rparr>) E X N L"
  by (rule kinv_frame [OF assms(1)]) (use assms(2,3) in simp_all)

lemma pipe_read_rest:
  assumes "at_rest n pool s"
  shows "yields (pipe_read p a dst m s) (\<lambda>(r, s'). at_rest n pool s')"
proof -
  obtain r bs q w where rd: "piperead (u_killed (proc_at s p)) (sint m) (pipes s a) = (r, bs, q, w)"
    by (metis prod_cases4)
  have "at_rest n pool (s\<lparr>pipes := (pipes s)(a := q)\<rparr>)"
    using piperead_flags [OF rd] by (intro pipe_upd_kinv [OF assms]) auto
  from store_bytes_kinv [OF this] show ?thesis unfolding pipe_read_def rd prod.case
    by (rule yields_bind) simp
qed

lemma pipe_write_rest:
  assumes "at_rest n pool s"
  shows "yields (pipe_write p a src m s) (\<lambda>(r, rest, s'). at_rest n pool s')"
  unfolding pipe_write_def
proof (rule yields_any)
  fix bs
  obtain r rest q w where wr: "pipewrite (u_killed (proc_at s p)) ((!) bs) (sint m) (pipes s a) = (r, rest, q, w)"
    by (metis prod_cases4)
  then show "yields (case pipewrite (u_killed (proc_at s p)) ((!) bs) (sint m) (pipes s a) of (r, rest, q, _) \<Rightarrow>
      Inr (r, rest, s\<lparr>pipes := (pipes s)(a := q)\<rparr>)) (\<lambda>(r, rest, s'). at_rest n pool s')"
    using pipe_upd_kinv [OF assms, of q a] pipe_flags by (simp add: pipewrite_def)
qed

lemma pipe_resume_rest:
  assumes "at_rest n pool s"
  shows "yields (pipe_resume p a src m nd s) (\<lambda>(r, rest, s'). at_rest n pool s')"
  unfolding pipe_resume_def
proof (rule yields_any)
  fix bs
  obtain r rest q w where wr: "pipewrite_loop (u_killed (proc_at s p)) (sint m) bs (pipes s a) = (r, rest, q, w)"
    by (metis prod_cases4)
  then show "yields (case pipewrite_loop (u_killed (proc_at s p)) (sint m) bs (pipes s a) of (r, rest, q, _) \<Rightarrow>
      Inr (r, rest, s\<lparr>pipes := (pipes s)(a := q)\<rparr>)) (\<lambda>(r, rest, s'). at_rest n pool s')"
    using pipe_upd_kinv [OF assms, of q a] pipe_flags by simp
qed

text \<open>The offset of a file is not part of the account.\<close>

lemma advance_kinv:
  assumes "kinv n pool s E X N L" "k < length (ftab s)"
  shows "kinv n pool (advance k r s) E X N L"
proof -
  let ?s = "fupd k (\<lambda>q. q\<lparr>f_off := uadd (f_off q) (nat r)\<rparr>) s"
  have "files_ok ?s X N" using assms by (simp add: kinv_def files_ok_def nth_list_update)
  then have "kinv n pool ?s E X N L" using assms by (simp add: kinv_def pipes_ok_fupd inodes_ok_fupd pipe_view_def)
  then show ?thesis using assms(1) by (simp add: advance_def)
qed

lemma ilock_kinv:
  assumes "kinv n pool s E X N L" "i < n"
  shows "yields (do_fs (ilock (Some i)) s)
    (\<lambda>s'. kinv n pool s' E X N (insert i L) \<and> i \<notin> L \<and> ftab s' = ftab s \<and> uprocs s' = uprocs s)"
proof -
  have "held n (fsys s) (\<lambda>j. irefs s j + E j) L" using assms(1) by (simp add: kinv_def inodes_ok_def)
  note h = ilock_held [OF this assms(2)]
  then have "yields (ilock (Some i) (fsys s)) (\<lambda>t. held n t (\<lambda>j. irefs s j + E j) (insert i L))"
    by (rule yields_weaken) simp
  note k = kinv_fs_ [where m = "ilock (Some i)", OF assms(1) this]
  have "yields (do_fs (ilock (Some i)) s) (\<lambda>s'. i \<notin> L)"
    unfolding do_fs_def by (rule yields_bind [OF h]) simp
  with k show ?thesis unfolding yields_def by blast
qed

lemma iunlock_kinv:
  assumes "kinv n pool s E X N {i}"
  shows "yields (do_fs (iunlock (Some i)) s) (\<lambda>s'. kinv n pool s' E X N {} \<and> ftab s' = ftab s \<and> uprocs s' = uprocs s)"
  using assms by (intro kinv_fs_ [OF assms] iunlock_only) (simp add: kinv_def inodes_ok_def)

lemma iunlockput_kinv:
  assumes "kinv n pool s (inc i E) X N {i}"
  shows "yields (do_fs (iunlockput i) s) (\<lambda>s'. kinv n pool s' E X N {} \<and> ftab s' = ftab s \<and> uprocs s' = uprocs s)"
  using assms by (intro kinv_fs_ [OF assms] iunlockput_only) (simp add: kinv_def inodes_ok_def inc_add)

lemma file_ip: "kinv n pool s E X N L \<Longrightarrow> k < length (ftab s) \<Longrightarrow> f_type (file_at s k) = FD_INODE \<Longrightarrow> f_ip (file_at s k) < n"
  by (simp add: kinv_def inodes_ok_def)

lemma readi_kinv:
  assumes "kinv n pool s E X N L"
  shows "yields (on_fs (readi D i off m) s) (\<lambda>(x, s'). kinv n pool s' E X N L \<and> ftab s' = ftab s \<and> uprocs s' = uprocs s)"
proof -
  have h: "held n (fsys s) (\<lambda>j. irefs s j + E j) L" using assms(1) by (simp add: kinv_def inodes_ok_def)
  have "yields (readi D i off m (fsys s)) (\<lambda>(x, t). held n t (\<lambda>j. irefs s j + E j) L \<and> True)"
    using readi_held [OF h] by simp
  from kinv_fs [where m = "readi D i off m", OF assms this] show ?thesis by (rule yields_weaken) auto
qed

lemma writei_kinv:
  assumes "kinv n pool s E X N L"
  shows "yields (on_fs (writei D i src off m) s) (\<lambda>(x, s'). kinv n pool s' E X N L \<and> ftab s' = ftab s \<and> uprocs s' = uprocs s)"
proof -
  have h: "held n (fsys s) (\<lambda>j. irefs s j + E j) L" using assms(1) by (simp add: kinv_def inodes_ok_def)
  have "yields (writei D i src off m (fsys s)) (\<lambda>(x, t). held n t (\<lambda>j. irefs s j + E j) L \<and> True)"
    using writei_held [OF h] by simp
  from kinv_fs [where m = "writei D i src off m", OF assms this] show ?thesis by (rule yields_weaken) auto
qed

lemma fileread_rest:
  assumes "at_rest n pool s" "k < length (ftab s)"
  shows "yields (fileread p k dst m s) (\<lambda>(r, s'). at_rest n pool s')"
proof (cases "f_readable (file_at s k) \<and> f_type (file_at s k) = FD_INODE")
  case False
  then show ?thesis using pipe_read_rest [OF assms(1)] assms(1)
    by (cases "f_type (file_at s k)") (auto simp: fileread_def Let_def)
next
  case True
  let ?i = "f_ip (file_at s k)"
  have fin: "yields (bindE (do_fs (iunlock (Some ?i)) (advance k r t)) (\<lambda>s5. Inr (PRet r, s5))) (\<lambda>(r, s'). at_rest n pool s')"
    if "kinv n pool t none none {} {?i}" "ftab t = ftab s" for t r
    using advance_kinv [OF that(1)] that assms(2) by (intro yields_bind [OF iunlock_kinv]) auto
  have eq: "fileread p k dst m s = bindE (do_fs (ilock (Some ?i)) s) (\<lambda>s1.
      bindE (on_fs (readi (devs s1) ?i (f_off (file_at s k)) (unat m)) s1) (\<lambda>((r, bs), s2).
      bindE (store_bytes (u_pgdir (proc_at s p)) dst bs s2) (\<lambda>s3.
      bindE (do_fs (iunlock (Some ?i)) (advance k r s3)) (\<lambda>s4. Inr (PRet r, s4)))))"
    using True by (simp add: fileread_def Let_def)
  show ?thesis unfolding eq
    by (rule yields_bind [OF ilock_kinv [OF assms(1) file_ip [OF assms conjunct2 [OF True]]]])
      (auto intro!: yields_bind [OF readi_kinv] yields_bind [OF store_bytes_kinv] fin)
qed

lemma filewrite_rest:
  assumes "at_rest n pool s" "k < length (ftab s)"
  shows "yields (filewrite p k src m s) (\<lambda>(r, rest, s'). at_rest n pool s')"
proof (cases "f_writable (file_at s k) \<and> f_type (file_at s k) = FD_INODE")
  case False
  then show ?thesis using pipe_write_rest [OF assms(1)] assms(1)
    by (cases "f_type (file_at s k)") (auto simp: filewrite_def Let_def)
next
  case True
  let ?i = "f_ip (file_at s k)"
  have fin: "yields (bindE (do_fs (iunlock (Some ?i)) (advance k r t)) (\<lambda>s5. Inr (PRet r, [], s5))) (\<lambda>(r, rest, s'). at_rest n pool s')"
    if "kinv n pool t none none {} {?i}" "ftab t = ftab s" for t r
    using advance_kinv [OF that(1)] that assms(2) by (intro yields_bind [OF iunlock_kinv]) auto
  have eq: "filewrite p k src m s = bindE (do_fs (ilock (Some ?i)) s) (\<lambda>s1.
      bindE (load_bytes (u_pgdir (proc_at s p)) src (wcount (devs s1) (ino (fsys s1) ?i) (f_off (file_at s k)) m) s1) (\<lambda>bs.
      bindE (on_fs (writei (devs s1) ?i bs (f_off (file_at s k)) (unat m)) s1) (\<lambda>(r, s2).
      bindE (do_fs (iunlock (Some ?i)) (advance k r s2)) (\<lambda>s3. Inr (PRet r, [], s3)))))"
    using True by (simp add: filewrite_def Let_def)
  show ?thesis unfolding eq
    by (rule yields_bind [OF ilock_kinv [OF assms(1) file_ip [OF assms conjunct2 [OF True]]]], elim conjE,
        rule yields_any, rule yields_bind [OF writei_kinv], assumption) (auto intro!: fin)
qed

end
