(* ===== verification/FilesSys.thy ===== *)
theory FilesSys
  imports FilesSpec
begin

text \<open>
  The account over the remaining system calls: fstat, pipe, the calls on paths, and the descriptors
  over fork and exit.
\<close>

section \<open>Reading, writing, status\<close>

lemma file_of_fd:
  assumes "at_rest n pool s" "p < length (uprocs s)"
  shows "yields (argfd p i s) (\<lambda>r. \<forall>fd k. r = Some (fd, k) \<longrightarrow> k < length (ftab s))"
  by (rule yields_weaken [OF argfd_yields]) (use fd_valid [OF assms] in blast)

lemma sys_read_rest:
  assumes "at_rest n pool s" "p < length (uprocs s)"
  shows "yields (sys_read p s) (\<lambda>(r, s'). at_rest n pool s')"
  unfolding sys_read_def
  by (rule yields_bind [OF file_of_fd [OF assms]])
    (auto intro!: yields_any fileread_rest simp: assms(1) split: option.splits)

lemma sys_write_rest:
  assumes "at_rest n pool s" "p < length (uprocs s)"
  shows "yields (sys_write p s) (\<lambda>(r, rest, s'). at_rest n pool s')"
  unfolding sys_write_def
  by (rule yields_bind [OF file_of_fd [OF assms]])
    (auto intro!: yields_any filewrite_rest simp: assms(1) split: option.splits)

lemma store_stat_kinv:
  "kinv n pool s E X N L \<Longrightarrow> yields (store_stat pg a st s) (\<lambda>s'. kinv n pool s' E X N L)"
  unfolding store_stat_def
  by (auto intro!: yields_bind [OF store_bytes_kinv] yields_weaken [OF store_bytes_kinv])

lemma filestat_rest:
  assumes "at_rest n pool s" "k < length (ftab s)"
  shows "yields (filestat k pg a s) (\<lambda>(r, s'). at_rest n pool s')"
proof (cases "f_type (file_at s k) = FD_INODE")
  case True
  show ?thesis unfolding filestat_def Let_def if_P [OF True]
    by (rule yields_bind [OF ilock_kinv [OF assms(1) file_ip [OF assms True]]])
      (auto intro!: yields_bind [OF store_stat_kinv] yields_bind [OF iunlock_kinv])
qed (use assms(1) in \<open>simp add: filestat_def\<close>)

lemma sys_fstat_rest:
  assumes "at_rest n pool s" "p < length (uprocs s)"
  shows "yields (sys_fstat p s) (\<lambda>(r, s'). at_rest n pool s')"
  unfolding sys_fstat_def
  by (rule yields_bind [OF file_of_fd [OF assms]])
    (auto intro!: yields_orfail yields_any filestat_rest simp: assms(1))

section \<open>Pipes\<close>

text \<open>Two fresh files become the ends of a pipe on a page that was free.\<close>

lemma pipe_made_ok:
  assumes "pipes_ok pool s" "k0 < length (ftab s)" "k1 < length (ftab s)" "k0 \<noteq> k1"
    and "f_type (file_at s k0) = FD_NONE" "f_type (file_at s k1) = FD_NONE"
    and "kmem_inv (kend s) (kpages s) (a # xs)" "pipe_pages (ftab s) \<inter> set (a # xs) = {}"
    "pipe_pages (ftab s) \<union> set (a # xs) = pool" "kmem_inv (kend s) m xs"
    and "fr = (file_at s k0)\<lparr>f_type := FD_PIPE, f_readable := True, f_writable := False, f_pipe := a\<rparr>"
    and "fw = (file_at s k1)\<lparr>f_type := FD_PIPE, f_readable := False, f_writable := True, f_pipe := a\<rparr>"
    and "readopen q" "writeopen q"
  shows "pipes_ok pool (s\<lparr>kpages := m, pipes := (pipes s)(a := q), ftab := (ftab s)[k0 := fr, k1 := fw]\<rparr>)"
proof -
  let ?fs = "(ftab s)[k0 := fr, k1 := fw]"
  have ends: "f_type fr = FD_PIPE" "f_pipe fr = a" "\<not> f_writable fr" "f_readable fr"
    "f_type fw = FD_PIPE" "f_pipe fw = a" "f_writable fw" "\<not> f_readable fw"
    using assms(11,12) by simp_all
  have nth: "?fs ! i = (if i = k1 then fw else if i = k0 then fr else file_at s i)" if "i < length (ftab s)" for i
    using that assms(2-4) by (simp add: nth_list_update)
  have old: "\<forall>i < length (ftab s). f_type (file_at s i) = FD_PIPE \<longrightarrow> f_pipe (file_at s i) \<in> pipe_pages (ftab s) \<and>
      f_readable (file_at s i) = (\<not> f_writable (file_at s i))"
    using assms(1) by (auto simp: pipes_ok_def pipe_pages_def)
  have a: "a \<notin> pipe_pages (ftab s)" "page_ok (kend s) a" "a \<notin> set xs"
    using assms(7,8) kmem_inv_wf [OF assms(7)] by (auto simp: kmem_inv_def)
  have ex: "(\<exists>f \<in> set gs. Q f) \<longleftrightarrow> (\<exists>i < length gs. Q (gs ! i))" for gs :: "kfile list" and Q
    by (metis in_set_conv_nth)
  have live: "live_end ?fs b v \<longleftrightarrow> live_end (ftab s) b v \<or> b = a" for b v
  proof -
    have "(\<exists>i < length (ftab s). f_type (?fs ! i) = FD_PIPE \<and> f_pipe (?fs ! i) = b \<and> f_writable (?fs ! i) = v) \<longleftrightarrow>
        (\<exists>i < length (ftab s). f_type (file_at s i) = FD_PIPE \<and> f_pipe (file_at s i) = b \<and> f_writable (file_at s i) = v) \<or> b = a"
      (is "?l \<longleftrightarrow> ?o \<or> _")
    proof
      assume ?l
      then obtain i where i: "i < length (ftab s)" "f_type (?fs ! i) = FD_PIPE" "f_pipe (?fs ! i) = b"
        "f_writable (?fs ! i) = v" by blast
      show "?o \<or> b = a"
      proof (cases "i = k0 \<or> i = k1")
        case True
        then show ?thesis using i nth [OF i(1)] assms(4) ends by auto
      next
        case False
        then have "?fs ! i = file_at s i" using nth [OF i(1)] by simp
        then show ?thesis using i by auto
      qed
    next
      assume "?o \<or> b = a"
      then show ?l
      proof
        assume ?o
        then obtain i where "i < length (ftab s)" "f_type (file_at s i) = FD_PIPE" "f_pipe (file_at s i) = b"
          "f_writable (file_at s i) = v" by blast
        moreover from this assms(5,6) have "i \<noteq> k0" "i \<noteq> k1" by auto
        ultimately show ?l using nth by (intro exI [of _ i]) simp
      next
        assume "b = a"
        then show ?l using nth assms(2-4) ends
          by (intro exI [of _ "if v then k1 else k0"]) auto
      qed
    qed
    then show ?thesis unfolding live_end_def ex by simp
  qed
  have pg: "pipe_pages ?fs = insert a (pipe_pages (ftab s))"
    by (rule set_eqI) (auto simp: pipe_pages_live live)
  have nl: "\<not> live_end (ftab s) a v" for v using a(1) by (cases v) (auto simp: pipe_pages_live)
  show ?thesis
  proof (rule pipes_okI [where fs = ?fs and e = "kend s" and xs = xs])
    show "\<forall>f \<in> set ?fs. f_type f = FD_PIPE \<longrightarrow> f_readable f = (\<not> f_writable f)"
      unfolding all_set_conv_all_nth
    proof (intro allI impI)
      fix i assume i: "i < length ?fs" "f_type (?fs ! i) = FD_PIPE"
      then have "i < length (ftab s)" by simp
      note n = nth [OF this]
      show "f_readable (?fs ! i) = (\<not> f_writable (?fs ! i))"
        using i ends old unfolding n by (auto split: if_splits)
    qed
    show "\<forall>k < length ?fs. \<forall>l < length ?fs. f_type (?fs ! k) = FD_PIPE \<and> f_type (?fs ! l) = FD_PIPE \<and>
        f_pipe (?fs ! k) = f_pipe (?fs ! l) \<and> f_writable (?fs ! k) = f_writable (?fs ! l) \<longrightarrow> k = l"
    proof (intro allI impI)
      fix k l assume kl: "k < length ?fs" "l < length ?fs"
        "f_type (?fs ! k) = FD_PIPE \<and> f_type (?fs ! l) = FD_PIPE \<and>
         f_pipe (?fs ! k) = f_pipe (?fs ! l) \<and> f_writable (?fs ! k) = f_writable (?fs ! l)"
      have new: "f_pipe (?fs ! i) = a \<longleftrightarrow> i = k0 \<or> i = k1" if "i < length (ftab s)" "f_type (?fs ! i) = FD_PIPE" for i
        using that(2) old a(1) that(1) ends unfolding nth [OF that(1)] by (cases "i = k1"; cases "i = k0") auto
      have len: "k < length (ftab s)" "l < length (ftab s)" using kl(1,2) by simp_all
      note ka = new [OF len(1) conjunct1 [OF kl(3)]] and la = new [OF len(2) conjunct1 [OF conjunct2 [OF kl(3)]]]
      have pe: "f_pipe (?fs ! k) = f_pipe (?fs ! l)" and we: "f_writable (?fs ! k) = f_writable (?fs ! l)"
        using kl(3) by blast+
      show "k = l"
      proof (cases "f_pipe (?fs ! k) = a")
        case True
        then have "k = k0 \<or> k = k1" "l = k0 \<or> l = k1" using ka la pe by metis+
        moreover have "?fs ! k0 = fr" "?fs ! k1 = fw" using assms(2-4) by simp_all
        ultimately show ?thesis using we ends by metis
      next
        case False
        then have "k \<noteq> k0 \<and> k \<noteq> k1" "l \<noteq> k0 \<and> l \<noteq> k1" using ka la pe by metis+
        then have "?fs ! k = file_at s k" "?fs ! l = file_at s l"
          using nth [OF len(1)] nth [OF len(2)] by metis+
        then show ?thesis using kl(3) len assms(1) unfolding pipes_ok_def by metis
      qed
    qed
    have "writeopen (pipes s b) = live_end (ftab s) b True \<and> readopen (pipes s b) = live_end (ftab s) b False \<and>
        page_ok (kend s) b" if "b \<in> pipe_pages (ftab s)" for b
      using assms(1) that by (auto simp: pipes_ok_def)
    then show "\<forall>b \<in> pipe_pages ?fs.
        writeopen (pipes (s\<lparr>kpages := m, pipes := (pipes s)(a := q), ftab := ?fs\<rparr>) b) = live_end ?fs b True \<and>
        readopen (pipes (s\<lparr>kpages := m, pipes := (pipes s)(a := q), ftab := ?fs\<rparr>) b) = live_end ?fs b False \<and>
        page_ok (kend s) b"
      using a assms(13,14) unfolding pg live by auto
    show "pipe_pages ?fs \<inter> set xs = {}" "pipe_pages ?fs \<union> set xs = pool" using assms(8,9) a unfolding pg by auto
  qed (use assms(10) in simp_all)
qed

text \<open>The two ends in place of the fresh files.\<close>

lemma pipe_made_kinv:
  assumes "kinv n pool s none X {k1, k0} {}" "k0 < length (ftab s)" "k1 < length (ftab s)" "k0 \<noteq> k1"
    and "f_type (file_at s k0) = FD_NONE" "f_type (file_at s k1) = FD_NONE" "f_ref (file_at s k0) = 1" "f_ref (file_at s k1) = 1"
    and "kalloc (kpages s) = (a, m)" "a \<noteq> 0"
    and "fr = (file_at s k0)\<lparr>f_type := FD_PIPE, f_readable := True, f_writable := False, f_pipe := a\<rparr>"
    and "fw = (file_at s k1)\<lparr>f_type := FD_PIPE, f_readable := False, f_writable := True, f_pipe := a\<rparr>"
    and "readopen q" "writeopen q"
  shows "kinv n pool (s\<lparr>kpages := m, pipes := (pipes s)(a := q), ftab := (ftab s)[k0 := fr, k1 := fw]\<rparr>) none X {} {}"
    (is "kinv n pool ?s none X {} {}")
proof -
  note inv = assms(1) [unfolded kinv_def]
  obtain xs where xs: "kmem_inv (kend s) (kpages s) xs" "pipe_pages (ftab s) \<inter> set xs = {}"
    "pipe_pages (ftab s) \<union> set xs = pool" using inv by (auto simp: pipes_ok_def)
  have "xs \<noteq> []" using kalloc_inv_empty xs(1) assms(9,10) by fastforce
  then obtain x ys where "xs = x # ys" by (cases xs) auto
  then have ys: "xs = a # ys" "kmem_inv (kend s) m ys" using kalloc_inv_cons [of "kend s" "kpages s" x ys] xs(1) assms(9) by auto
  have "pipes_ok pool ?s"
    using pipe_made_ok [OF _ assms(2-6) xs [unfolded ys(1)] ys(2) assms(11-14)] inv by blast
  moreover have "files_ok ?s X {}"
    using inv assms(2-8,11,12) by (auto simp: files_ok_def nth_list_update)
  moreover have "inodes_ok n ?s none {}"
  proof -
    have "irefs ?s j = irefs s j" for j
      using assms(2-6,11,12) by (simp add: irefs_def filerefs_upd nth_list_update)
    then show ?thesis using inv assms(2-6,11,12) by (auto simp: inodes_ok_def nth_list_update)
  qed
  ultimately show ?thesis by (simp add: kinv_def)
qed

lemma pipealloc_kinv:
  assumes "at_rest n pool s"
  shows "yields (pipealloc s) (\<lambda>(r, s'). case r of None \<Rightarrow> at_rest n pool s'
    | Some (k0, k1) \<Rightarrow> k0 < length (ftab s') \<and> k1 < length (ftab s') \<and> k0 \<noteq> k1 \<and>
        kinv n pool s' none (inc k1 (inc k0 none)) {} {} \<and> uprocs s' = uprocs s)"
proof -
  obtain r1 s1 where f1: "filealloc s = (r1, s1)" by fastforce
  note a1 = filealloc_kinv [OF assms f1]
  show ?thesis
  proof (cases r1)
    case None
    then show ?thesis using f1 a1 assms by (simp add: pipealloc_def)
  next
    case (Some k0)
    then have k1: "kinv n pool s1 none (inc k0 none) {k0} {}" "k0 < length (ftab s1)" "f_ref (file_at s1 k0) = 1"
      "f_type (file_at s1 k0) = FD_NONE" "uprocs s1 = uprocs s" using a1 by simp_all
    obtain r2 s2 where f2: "filealloc s1 = (r2, s2)" by fastforce
    note a2 = filealloc_kinv [OF k1(1) f2]
    show ?thesis
    proof (cases r2)
      case None
      then have "pipealloc s = bindE (fileclose k0 s1) (\<lambda>s3. Inr (None, s3))"
        using f1 f2 a2 Some by (simp add: pipealloc_def)
      moreover have "yields (fileclose k0 s1) (\<lambda>s3. at_rest n pool s3)"
        by (rule yields_weaken [OF fileclose_kinv [OF k1(1,2)]]) (use k1 in auto)
      ultimately show ?thesis by (auto intro: yields_bind)
    next
      case (Some kw)
      then have k2: "kinv n pool s2 none (inc kw (inc k0 none)) {kw, k0} {}" "kw < length (ftab s2)"
        "f_ref (file_at s2 kw) = 1" "f_type (file_at s2 kw) = FD_NONE" "kw \<noteq> k0" "k0 < length (ftab s2)"
        "f_ref (file_at s2 k0) = 1" "f_type (file_at s2 k0) = FD_NONE" "uprocs s2 = uprocs s"
        using a2 k1 by auto
      obtain a m where ka: "kalloc (kpages s2) = (a, m)" by fastforce
      show ?thesis
      proof (cases "a = 0")
        case True
        then have "m = kpages s2" using ka by (auto simp: kalloc_def Let_def split: if_splits)
        then have eq: "pipealloc s = bindE (fileclose k0 s2) (\<lambda>s4. bindE (fileclose kw s4) (\<lambda>s5. Inr (None, s5)))"
          using f1 f2 ka True \<open>r1 = Some k0\<close> Some by (simp add: pipealloc_def)
        have c1: "yields (fileclose k0 s2) (\<lambda>s4. kinv n pool s4 none (inc kw none) {kw} {} \<and>
            kw < length (ftab s4) \<and> f_ref (file_at s4 kw) = 1 \<and> f_type (file_at s4 kw) = FD_NONE)"
        proof (rule yields_weaken [OF fileclose_kinv [OF k2(1,6)]])
          have n: "{kw, k0} - {k0} = {kw}" using k2(5) by auto
          fix x assume "kinv n pool x none (dec k0 (inc kw (inc k0 none))) ({kw, k0} - {k0}) {} \<and> uprocs x = uprocs s2 \<and>
            length (ftab x) = length (ftab s2) \<and> (\<forall>l. l \<noteq> k0 \<longrightarrow> file_at x l = file_at s2 l)"
          then show "kinv n pool x none (inc kw none) {kw} {} \<and> kw < length (ftab x) \<and> f_ref (file_at x kw) = 1 \<and>
            f_type (file_at x kw) = FD_NONE"
            using k2 unfolding n by (simp add: dec_inc_swap)
        qed (use k2 in auto)
        have c2: "yields (fileclose kw t) (\<lambda>s5. at_rest n pool s5)"
          if "kinv n pool t none (inc kw none) {kw} {} \<and> kw < length (ftab t) \<and> f_ref (file_at t kw) = 1 \<and>
            f_type (file_at t kw) = FD_NONE" for t
          by (rule yields_weaken [OF fileclose_kinv [OF conjunct1 [OF that]]]) (use that in auto)
        show ?thesis unfolding eq by (rule yields_bind [OF c1], rule yields_bind [OF c2]) auto
      next
        case False
        let ?q = "(pipes s2 a)\<lparr>readopen := True, writeopen := True, nwrite := 0, nread := 0\<rparr>"
        let ?fr = "(file_at s2 k0)\<lparr>f_type := FD_PIPE, f_readable := True, f_writable := False, f_pipe := a\<rparr>"
        let ?fw = "(file_at s2 kw)\<lparr>f_type := FD_PIPE, f_readable := False, f_writable := True, f_pipe := a\<rparr>"
        let ?t = "s2\<lparr>kpages := m, pipes := (pipes s2)(a := ?q), ftab := (ftab s2)[k0 := ?fr, kw := ?fw]\<rparr>"
        have "pipealloc s = Inr (Some (k0, kw), ?t)"
          using f1 f2 ka False \<open>r1 = Some k0\<close> Some k2(5) by (simp add: pipealloc_def fupd_def Let_def)
        moreover have "kinv n pool ?t none (inc kw (inc k0 none)) {} {}"
          by (rule pipe_made_kinv [OF k2(1) k2(6,2) _ k2(8,4,7,3) ka False refl refl]) (use k2(5) in auto)
        ultimately show ?thesis using k2 by simp
      qed
    qed
  qed
qed

lemma close_two:
  assumes "kinv n pool s none (inc wfl (inc rf none)) {} {}" "rf < length (ftab s)" "wfl < length (ftab s)"
  shows "yields (bindE (fileclose rf s) (\<lambda>t1. bindE (fileclose wfl t1) (\<lambda>t2. Inr (- 1 :: int, t2)))) (\<lambda>(r, s'). at_rest n pool s')"
proof (rule yields_bind [OF fileclose_kinv [OF assms(1,2)]])
  fix t1
  assume "kinv n pool t1 none (dec rf (inc wfl (inc rf none))) ({} - {rf}) {} \<and> uprocs t1 = uprocs s \<and>
    length (ftab t1) = length (ftab s) \<and> (\<forall>l. l \<noteq> rf \<longrightarrow> file_at t1 l = file_at s l)"
  then have "kinv n pool t1 none (inc wfl none) {} {}" "wfl < length (ftab t1)" using assms(3) by (simp_all add: dec_inc_swap)
  from fileclose_kinv [OF this] show "yields (bindE (fileclose wfl t1) (\<lambda>t2. Inr (- 1, t2))) (\<lambda>(r, s'). at_rest n pool s')"
    by (auto intro!: yields_bind [where Q = "at_rest n pool"] elim: yields_weaken)
qed auto

lemma sys_pipe_rest:
  assumes "at_rest n pool s" "p < length (uprocs s)"
  shows "yields (sys_pipe p s) (\<lambda>(r, s'). at_rest n pool s')"
  unfolding sys_pipe_def Let_def
proof (rule yields_any, rule yields_orfail, use assms(1) in simp, rule yields_bind [OF pipealloc_kinv [OF assms(1)]],
    clarify, rule yields_orfail)
  fix fd :: "32 word" and ends s1
  assume "case ends of None \<Rightarrow> at_rest n pool s1
    | Some (k0, k1) \<Rightarrow> k0 < length (ftab s1) \<and> k1 < length (ftab s1) \<and> k0 \<noteq> k1 \<and>
        kinv n pool s1 none (inc k1 (inc k0 none)) {} {} \<and> uprocs s1 = uprocs s"
  note e = this
  show "case (- 1 :: int, s1) of (r, s') \<Rightarrow> at_rest n pool s'" if "ends = None"
    using e that by simp
  fix x assume x: "ends = Some x"
  obtain rf wfl where rw: "x = (rf, wfl)" by (cases x)
  have k: "rf < length (ftab s1)" "wfl < length (ftab s1)" "kinv n pool s1 none (inc wfl (inc rf none)) {} {}"
    "p < length (uprocs s1)" using e assms(2) x rw by simp_all
  obtain r2 s2 where f2: "fdalloc p rf s1 = (r2, s2)" by fastforce
  note a2 = fdalloc_kinv [OF k(3,4,1) f2]
  show "yields (case x of (rf, wfl) \<Rightarrow> case fdalloc p rf s1 of
      (None, s2) \<Rightarrow> bindE (fileclose rf s2) (\<lambda>t1. bindE (fileclose wfl t1) (\<lambda>t2. Inr (- 1, t2)))
    | (Some fd0, s2) \<Rightarrow> (case fdalloc p wfl s2 of
        (None, s3) \<Rightarrow> bindE (fileclose rf (fdclear p fd0 s3)) (\<lambda>t1. bindE (fileclose wfl t1) (\<lambda>t2. Inr (- 1, t2)))
      | (Some fd1, s3) \<Rightarrow>
          bindE (store_bytes (u_pgdir (proc_at s p)) fd (bytes_of_nat 4 fd0) s3) (\<lambda>s4.
          bindE (store_bytes (u_pgdir (proc_at s p)) (fd + 4) (bytes_of_nat 4 fd1) s4) (\<lambda>s5.
          Inr (0 :: int, s5))))) (\<lambda>(r, s'). at_rest n pool s')"
  proof (cases r2)
    case None
    then show ?thesis using f2 a2 rw close_two [OF k(3,1,2)] by simp
  next
    case (Some fd0)
    then have k2: "fd0 < NOFILE" "kinv n pool s2 none (inc wfl none) {} {}" "ftab s2 = ftab s1"
      "p < length (uprocs s2)" "u_ofile (proc_at s2 p) ! fd0 = Some rf" using a2 k(4) by (simp_all add: dec_inc_swap)
    obtain r3 s3 where f3: "fdalloc p wfl s2 = (r3, s3)" by fastforce
    have "wfl < length (ftab s2)" using k(2) k2(3) by simp
    note a3 = fdalloc_kinv [OF k2(2,4) this f3]
    show ?thesis
    proof (cases r3)
      case None
      then have "kinv n pool (fdclear p fd0 s3) none (inc wfl (inc rf none)) {} {}"
        using fdclear_kinv [OF k2(2,4,1,5)] a3 by (simp add: inc_swap)
      from close_two [OF this] show ?thesis
        using k k2 rw f2 f3 None a3 \<open>r2 = Some fd0\<close> by (simp add: fdclear_def)
    next
      case (Some fd1)
      then have "at_rest n pool s3" using a3 by simp
      then show ?thesis using rw f2 f3 Some \<open>r2 = Some fd0\<close>
        by (auto intro!: yields_bind [OF store_bytes_kinv])
    qed
  qed
qed

section \<open>Paths\<close>

lemma cwd_ok:
  assumes "at_rest n pool s" "p < length (uprocs s)" "u_cwd (proc_at s p) \<noteq> None"
  shows "held n (fsys s) (\<lambda>j. irefs s j) {}" "cwd_of p s < n" "1 \<le> irefs s (cwd_of p s)"
proof -
  obtain i where i: "u_cwd (proc_at s p) = Some i" using assms(3) by auto
  show "held n (fsys s) (\<lambda>j. irefs s j) {}" using assms(1) by (simp add: kinv_def inodes_ok_def none_def)
  show "cwd_of p s < n" using assms(1,2) i by (simp add: kinv_def inodes_ok_def cwd_of_def)
  show "1 \<le> irefs s (cwd_of p s)" using irefs_ge_cwd [OF assms(2) i] i by (simp add: cwd_of_def)
qed

text \<open>From the account of the inode cache to that of the kernel.\<close>

lemma none_add: "(\<lambda>j. f j + none j) = f"
  by (simp add: none_def)

lemma inc_opt_add: "inc_opt r (\<lambda>j. f j) = (\<lambda>j. f j + inc_opt r none j)"
  by (cases r) (simp_all add: inc_add none_add)

lemma at_rest_fs:
  assumes "at_rest n pool s" "yields (m (fsys s)) (\<lambda>(r, t). held n t (irefs s) {})"
  shows "yields (on_fs m s) (\<lambda>(r, s'). at_rest n pool s')"
proof -
  have "yields (m (fsys s)) (\<lambda>(x, t). held n t (\<lambda>j. irefs s j + none j) {} \<and> True)"
    using assms(2) by (simp add: none_add)
  from kinv_fs [where m = m, OF assms(1) this] show ?thesis by (rule yields_weaken) auto
qed

lemma opened_fs:
  assumes "at_rest n pool s" "yields (m (fsys s)) (\<lambda>(r, t). held n t (inc_opt r (irefs s)) (L' r) \<and> in_cache n r)"
  shows "yields (on_fs m s) (\<lambda>(r, s'). kinv n pool s' (inc_opt r none) none {} (L' r) \<and> in_cache n r \<and>
    ftab s' = ftab s \<and> uprocs s' = uprocs s)"
proof -
  have "yields (m (fsys s)) (\<lambda>(x, t). held n t (\<lambda>j. irefs s j + inc_opt x none j) (L' x) \<and> in_cache n x)"
    using assms(2) by (simp only: inc_opt_add [of _ "irefs s"])
  from kinv_fs [where m = m, OF assms(1) this] show ?thesis .
qed

lemma sys_link_rest:
  assumes "at_rest n pool s" "p < length (uprocs s)" "u_cwd (proc_at s p) \<noteq> None"
  shows "yields (sys_link p s) (\<lambda>(r, s'). at_rest n pool s')"
  unfolding sys_link_def
  by (auto intro!: yields_any yields_orfail at_rest_fs do_link_held cwd_ok [OF assms] simp: assms(1))

lemma sys_unlink_rest:
  assumes "at_rest n pool s" "p < length (uprocs s)" "u_cwd (proc_at s p) \<noteq> None"
  shows "yields (sys_unlink p s) (\<lambda>(r, s'). at_rest n pool s')"
  unfolding sys_unlink_def
  by (auto intro!: yields_any yields_orfail at_rest_fs do_unlink_held cwd_ok [OF assms] simp: assms(1))

lemma create_kinv:
  assumes "at_rest n pool s" "p < length (uprocs s)" "u_cwd (proc_at s p) \<noteq> None"
  shows "yields (on_fs (create (devs s) (cwd_of p s) path ty major minor) s)
    (\<lambda>(r, s'). kinv n pool s' (inc_opt r none) none {} (set_option r) \<and> in_cache n r \<and> ftab s' = ftab s \<and> uprocs s' = uprocs s)"
  by (rule opened_fs [where m = "create (devs s) (cwd_of p s) path ty major minor", OF assms(1) create_held [OF cwd_ok [OF assms]]])

text \<open>What mkdir and mknod do with the inode they get.\<close>

lemma made_rest:
  assumes "kinv n pool s (inc_opt r none) none {} (set_option r)"
  shows "yields (orfail r s (\<lambda>ip. bindE (do_fs (iunlockput ip) s) (\<lambda>s2. Inr (0, s2)))) (\<lambda>(r, s'). at_rest n pool s')"
  using assms by (auto intro!: yields_orfail yields_bind [OF iunlockput_kinv] simp: orfail_def split: option.splits)

lemma sys_mkdir_rest:
  assumes "at_rest n pool s" "p < length (uprocs s)" "u_cwd (proc_at s p) \<noteq> None"
  shows "yields (sys_mkdir p s) (\<lambda>(r, s'). at_rest n pool s')"
  unfolding sys_mkdir_def
  by (auto intro!: yields_any yields_orfail [where s = s] yields_bind [OF create_kinv [OF assms]] made_rest simp: assms(1))

lemma sys_mknod_rest:
  assumes "at_rest n pool s" "p < length (uprocs s)" "u_cwd (proc_at s p) \<noteq> None"
  shows "yields (sys_mknod p s) (\<lambda>(r, s'). at_rest n pool s')"
  unfolding sys_mknod_def
  by (auto intro!: yields_any yields_orfail [where s = s] yields_bind [OF create_kinv [OF assms]] made_rest simp: assms(1))

end
