(* ===== verification/FilesReach.thy ===== *)
theory FilesReach
  imports FilesSys
begin

unbundle bit_operations_syntax

text \<open>
  open, chdir, and the descriptors over fork and exit; then every state that any interleaving of
  system calls of any processes reaches.
\<close>

section \<open>open and chdir\<close>

lemma fill_file_kinv:
  assumes "kinv n pool s (inc ip none) none {k} {}" "k < length (ftab s)" "f_type (file_at s k) = FD_NONE"
    "f_ref (file_at s k) = 1" "ip < n"
  shows "at_rest n pool (fupd k (\<lambda>f. f\<lparr>f_type := FD_INODE, f_ip := ip, f_off := 0, f_readable := r, f_writable := w\<rparr>) s)"
    (is "at_rest n pool ?s")
proof -
  note inv = assms(1) [unfolded kinv_def]
  have f: "f_ref (file_at s l) = fdrefs (uprocs s) l + none l \<and> (f_ref (file_at s l) = 0 \<longrightarrow> f_type (file_at s l) = FD_NONE) \<and>
      (f_ref (file_at s l) > 0 \<and> f_type (file_at s l) = FD_NONE \<longrightarrow> l = k)" if "l < length (ftab s)" for l
    using inv that by (simp add: files_ok_def)
  have "f_ref (file_at ?s l) = fdrefs (uprocs ?s) l + none l \<and> (f_ref (file_at ?s l) = 0 \<longrightarrow> f_type (file_at ?s l) = FD_NONE) \<and>
      \<not> (f_ref (file_at ?s l) > 0 \<and> f_type (file_at ?s l) = FD_NONE)" if "l < length (ftab s)" for l
  proof (cases "l = k")
    case True
    then show ?thesis using f [OF assms(2)] assms(2,4) by simp
  next
    case False
    then show ?thesis using f [OF that] by auto
  qed
  then have "files_ok ?s none {}" using inv by (simp add: files_ok_def)
  moreover have "pipes_ok pool ?s" using inv assms(2,3) by (intro pipes_ok_fupd) (auto simp: pipe_view_def)
  moreover have "inodes_ok n ?s none {}"
  proof -
    have "irefs ?s j + none j = irefs s j + inc ip none j" for j
      using irefs_fupd [OF assms(2)] assms(3) by (simp add: inc_def none_def)
    then show ?thesis using inv assms(2,5) by (auto simp: inodes_ok_def nth_list_update)
  qed
  ultimately show ?thesis by (simp add: kinv_def)
qed

lemma opened_rest:
  assumes "kinv n pool s (inc ip none) none {} {ip}" "ip < n" "p < length (uprocs s)"
  shows "yields (case filealloc s of
       (None, s2) \<Rightarrow> bindE (do_fs (iunlockput ip) s2) (\<lambda>s3. Inr (- 1, s3))
     | (Some k, s2) \<Rightarrow> (case fdalloc p k s2 of
         (None, s3) \<Rightarrow> bindE (fileclose k s3) (\<lambda>s4. bindE (do_fs (iunlockput ip) s4) (\<lambda>s5. Inr (- 1, s5)))
       | (Some fd, s3) \<Rightarrow> bindE (do_fs (iunlock (Some ip)) s3) (\<lambda>s4.
           Inr (int fd, fupd k (\<lambda>f. f\<lparr>f_type := FD_INODE, f_ip := ip, f_off := 0,
             f_readable := rd, f_writable := wr\<rparr>) s4)))) (\<lambda>(r, s'). at_rest n pool s')"
proof -
  obtain r1 s1 where f1: "filealloc s = (r1, s1)" by fastforce
  note a1 = filealloc_kinv [OF assms(1) f1]
  show ?thesis
  proof (cases r1)
    case None
    then show ?thesis using f1 a1 assms(1) by (auto intro!: yields_bind [OF iunlockput_kinv])
  next
    case (Some k)
    then have k1: "kinv n pool s1 (inc ip none) (inc k none) {k} {ip}" "k < length (ftab s1)"
      "f_ref (file_at s1 k) = 1" "f_type (file_at s1 k) = FD_NONE" "p < length (uprocs s1)" using a1 assms(3) by simp_all
    obtain r2 s2 where f2: "fdalloc p k s1 = (r2, s2)" by fastforce
    note a2 = fdalloc_kinv [OF k1(1,5,2) f2]
    show ?thesis
    proof (cases r2)
      case None
      have "yields (fileclose k s1) (\<lambda>s4. kinv n pool s4 (inc ip none) none {} {ip})"
        by (rule yields_weaken [OF fileclose_kinv [OF k1(1,2)]]) (use k1 in auto)
      then show ?thesis using f1 f2 a2 Some None
        by (auto intro!: yields_bind [OF iunlockput_kinv] elim: yields_bind)
    next
      case (Some fd)
      then have "kinv n pool s2 (inc ip none) none {k} {ip}" "ftab s2 = ftab s1" using a2 by simp_all
      then show ?thesis using f1 f2 Some \<open>r1 = Some k\<close> k1 assms(2)
        by (auto intro!: yields_bind [OF iunlock_kinv] fill_file_kinv)
    qed
  qed
qed

lemma sys_open_rest:
  assumes "at_rest n pool s" "p < length (uprocs s)" "u_cwd (proc_at s p) \<noteq> None"
  shows "yields (sys_open p s) (\<lambda>(r, s'). at_rest n pool s')"
proof -
  have o: "yields (on_fs (open_inode (devs s) (cwd_of p s) path omode) s)
      (\<lambda>(r, s'). kinv n pool s' (inc_opt r none) none {} (set_option r) \<and> in_cache n r \<and> ftab s' = ftab s \<and> uprocs s' = uprocs s)"
    for path omode
    by (rule opened_fs [where m = "open_inode (devs s) (cwd_of p s) path omode",
          OF assms(1) open_inode_held [OF cwd_ok [OF assms]]])
  show ?thesis unfolding sys_open_def
    by (intro yields_any yields_orfail [where s = s] yields_bind [OF o])
      (auto intro!: yields_orfail opened_rest simp: assms)
qed

lemma set_cwd_kinv:
  assumes "kinv n pool s E X N L" "p < length (uprocs s)" "\<And>j. v = Some j \<Longrightarrow> j < n"
  shows "kinv n pool (pupd p (\<lambda>q. q\<lparr>u_cwd := v\<rparr>) s)
    (\<lambda>j. E j + of_bool (u_cwd (proc_at s p) = Some j) - of_bool (v = Some j)) X N L"
proof -
  let ?s = "pupd p (\<lambda>q. q\<lparr>u_cwd := v\<rparr>) s"
  note inv = assms(1) [unfolded kinv_def]
  have of: "u_ofile (proc_at ?s q) = u_ofile (proc_at s q)" if "q < length (uprocs s)" for q
    using that by (cases "q = p") simp_all
  have "fdrefs (uprocs ?s) k = fdrefs (uprocs s) k" for k using assms(2) by (simp add: fdrefs_upd)
  then have "files_ok ?s X N" using inv of by (simp add: files_ok_def)
  moreover have eq: "(\<lambda>j. irefs ?s j + (E j + of_bool (u_cwd (proc_at s p) = Some j) - of_bool (v = Some j))) = (\<lambda>j. irefs s j + E j)"
    using assms(2) by (auto simp: irefs_def cwdrefs_upd)
  have "u_cwd (proc_at ?s q) = Some j \<longrightarrow> j < n" if "q < length (uprocs s)" for q j
    using inv that assms(2,3) by (cases "q = p") (auto simp: inodes_ok_def)
  then have "inodes_ok n ?s (\<lambda>j. E j + of_bool (u_cwd (proc_at s p) = Some j) - of_bool (v = Some j)) L"
    using inv unfolding inodes_ok_def eq by simp
  ultimately show ?thesis using inv by (simp add: kinv_def pipes_ok_def)
qed

lemma iput_kinv:
  assumes "kinv n pool s E X N {}" "i < n"
  shows "yields (do_fs (iput i) s) (\<lambda>s'. kinv n pool s' (dec i E) X N {} \<and> ftab s' = ftab s \<and> uprocs s' = uprocs s)"
proof -
  have "held n (fsys s) (\<lambda>j. irefs s j + E j) {}" using assms(1) by (simp add: kinv_def inodes_ok_def)
  from iput_held [OF this assms(2)] have "yields (iput i (fsys s)) (\<lambda>t. held n t (\<lambda>j. irefs s j + dec i E j) {})"
    by (simp add: inc_add)
  from kinv_fs_ [where m = "iput i", OF assms(1) this] show ?thesis .
qed

lemma sys_chdir_rest:
  assumes "at_rest n pool s" "p < length (uprocs s)" "u_cwd (proc_at s p) \<noteq> None"
  shows "yields (sys_chdir p s) (\<lambda>(r, s'). at_rest n pool s')"
proof -
  obtain c where c: "u_cwd (proc_at s p) = Some c" using assms(3) by auto
  have nm: "yields (on_fs (namei (cwd_of p s) path) s)
      (\<lambda>(r, s'). kinv n pool s' (inc_opt r none) none {} {} \<and> in_cache n r \<and> ftab s' = ftab s \<and> uprocs s' = uprocs s)" for path
    by (rule opened_fs [where m = "namei (cwd_of p s) path" and L' = "\<lambda>_. {}", OF assms(1) namei_held [OF cwd_ok [OF assms]]])
  have sw: "at_rest n pool (pupd p (\<lambda>q. q\<lparr>u_cwd := Some ip\<rparr>) t)"
    if "kinv n pool t (dec c (inc ip none)) none {} {}" "uprocs t = uprocs s" "ip < n" for t ip
  proof -
    have "(\<lambda>j. dec c (inc ip none) j + of_bool (u_cwd (proc_at t p) = Some j) - of_bool (Some ip = Some j)) = none"
      using that(2) c by (auto simp: dec_def inc_def none_def)
    then show ?thesis using set_cwd_kinv [OF that(1), of p "Some ip"] that(2,3) assms(2) by simp
  qed
  have cw: "cwd_of p t = c" "c < n" if "uprocs t = uprocs s" for t
    using that c cwd_ok(2) [OF assms] by (simp_all add: cwd_of_def)
  show ?thesis unfolding sys_chdir_def
    by (intro yields_any yields_orfail [where s = s] yields_bind [OF nm])
      (auto intro!: yields_orfail yields_bind [OF ilock_kinv] yields_bind [OF iunlockput_kinv [where E = none]]
        yields_bind [OF iunlock_kinv] yields_bind [OF iput_kinv] sw simp: assms cw)
qed

section \<open>fork and exit\<close>

definition free_slot :: "nat \<Rightarrow> kfs \<Rightarrow> bool" where
  "free_slot q s \<longleftrightarrow> q < length (uprocs s) \<and> u_cwd (proc_at s q) = None \<and> (\<forall>fd < NOFILE. u_ofile (proc_at s q) ! fd = None)"

lemma dup_loop_kinv:
  "at_rest n pool s \<Longrightarrow> p < length (uprocs s) \<Longrightarrow> q < length (uprocs s) \<Longrightarrow> p \<noteq> q \<Longrightarrow> distinct fds \<Longrightarrow>
   (\<And>i. i \<in> set fds \<Longrightarrow> i < NOFILE \<and> u_ofile (proc_at s q) ! i = None) \<Longrightarrow>
   yields (dup_loop p q fds s) (\<lambda>s'. at_rest n pool s' \<and> map u_cwd (uprocs s') = map u_cwd (uprocs s))"
proof (induction fds arbitrary: s)
  case (Cons i fds)
  show ?case
  proof (cases "u_ofile (proc_at s p) ! i")
    case None
    then show ?thesis using Cons by simp
  next
    case (Some k)
    have i: "i < NOFILE" "u_ofile (proc_at s q) ! i = None" using Cons.prems(6) by auto
    have k: "k < length (ftab s)" using fd_valid [OF Cons.prems(1,2) i(1) Some] .
    let ?set = "pupd q (\<lambda>r. r\<lparr>u_ofile := (u_ofile r)[i := Some k]\<rparr>)"
    show ?thesis unfolding dup_loop.simps Some option.case
    proof (rule yields_bind [OF filedup_kinv [OF Cons.prems(1) k]], elim conjE)
      fix s1 assume s1: "kinv n pool s1 none (inc k none) {} {}" "uprocs s1 = uprocs s" "length (ftab s1) = length (ftab s)"
      have "(\<lambda>l. inc k none l + of_bool (u_ofile (proc_at s1 q) ! i = Some l) - of_bool (Some k = Some l)) = none"
        using s1(2) i by (auto simp: inc_def none_def)
      then have r: "at_rest n pool (?set s1)"
        using set_fd_kinv [OF s1(1), of q i "Some k"] s1 i k Cons.prems(3) by simp
      have cw: "map u_cwd (uprocs (?set s1)) = map u_cwd (uprocs s)"
        using s1(2) Cons.prems(3) by (auto simp: map_update intro!: nth_equalityI simp: nth_list_update)
      have "yields (dup_loop p q fds (?set s1)) (\<lambda>s'. at_rest n pool s' \<and> map u_cwd (uprocs s') = map u_cwd (uprocs (?set s1)))"
      proof (intro Cons.IH r)
        fix j assume "j \<in> set fds"
        then have "j \<noteq> i" "j < NOFILE \<and> u_ofile (proc_at s q) ! j = None" using Cons.prems(5,6) by auto
        then show "j < NOFILE \<and> u_ofile (proc_at (?set s1) q) ! j = None"
          using s1(2) Cons.prems(3) by simp
      qed (use Cons.prems s1(2) in auto)
      then show "yields (dup_loop p q fds (?set s1)) (\<lambda>s'. at_rest n pool s' \<and> map u_cwd (uprocs s') = map u_cwd (uprocs s))"
        unfolding cw .
    qed
  qed
qed simp

lemma cwd_map: "map u_cwd ps = map u_cwd qs \<Longrightarrow> i < length qs \<Longrightarrow> u_cwd (ps ! i) = u_cwd (qs ! i)"
  by (metis length_map nth_map)

lemma fork_files_rest:
  assumes "at_rest n pool s" "p < length (uprocs s)" "u_cwd (proc_at s p) \<noteq> None" "free_slot q s"
  shows "yields (fork_files p q s) (at_rest n pool)"
proof -
  obtain c where c: "u_cwd (proc_at s p) = Some c" using assms(3) by auto
  have q: "q < length (uprocs s)" "u_cwd (proc_at s q) = None" "p \<noteq> q" using assms(3,4) by (auto simp: free_slot_def)
  have "yields (dup_loop p q [0..<NOFILE] s) (\<lambda>s'. at_rest n pool s' \<and> map u_cwd (uprocs s') = map u_cwd (uprocs s))"
    by (rule dup_loop_kinv [OF assms(1,2) q(1,3)]) (use assms(4) in \<open>auto simp: free_slot_def\<close>)
  then show ?thesis unfolding fork_files_def
  proof (rule yields_bind, elim conjE)
    fix s1 assume s1: "at_rest n pool s1" "map u_cwd (uprocs s1) = map u_cwd (uprocs s)"
    have l: "length (uprocs s1) = length (uprocs s)" using s1(2) by (metis length_map)
    have cw: "u_cwd (proc_at s1 p) = Some c" "u_cwd (proc_at s1 q) = None"
      using cwd_map [OF s1(2)] assms(2) q c by simp_all
    note co = cwd_ok [OF s1(1), of p]
    have co': "held n (fsys s1) (irefs s1) {}" "c < n" "1 \<le> irefs s1 c"
      using co cw(1) l assms(2) by (simp_all add: cwd_of_def)
    let ?t = "snd (idup c (fsys s1))" let ?s2 = "s1\<lparr>fsys := ?t\<rparr>"
    have "held n ?t (\<lambda>j. irefs s1 j + inc c none j) {}"
      using idup_held [OF co'] by (simp add: inc_add none_add)
    then have k2: "kinv n pool ?s2 (inc c none) none {} {}"
      using s1(1) by (simp add: kinv_def inodes_ok_def files_ok_def pipes_ok_def irefs_def)
    have "(\<lambda>j. inc c none j + of_bool (u_cwd (proc_at ?s2 q) = Some j) - of_bool (Some c = Some j)) = none"
      using cw by (auto simp: inc_def none_def)
    then have "at_rest n pool (pupd q (\<lambda>r. r\<lparr>u_cwd := Some c\<rparr>) ?s2)"
      using set_cwd_kinv [OF k2, of q "Some c"] q l co'(2) by simp
    then show "yields (case u_cwd (proc_at s1 p) of None \<Rightarrow> Inl (FPanic ''trap'')
      | Some i \<Rightarrow> let (j, t) = idup i (fsys s1) in Inr (pupd q (\<lambda>r. r\<lparr>u_cwd := Some j\<rparr>) (s1\<lparr>fsys := t\<rparr>))) (at_rest n pool)"
      using cw(1) by (simp add: idup_def)
  qed
qed

lemma close_loop_kinv:
  "at_rest n pool s \<Longrightarrow> p < length (uprocs s) \<Longrightarrow> (\<And>i. i \<in> set fds \<Longrightarrow> i < NOFILE) \<Longrightarrow>
   yields (close_loop p fds s) (\<lambda>s'. at_rest n pool s' \<and> map u_cwd (uprocs s') = map u_cwd (uprocs s))"
proof (induction fds arbitrary: s)
  case (Cons i fds)
  show ?case
  proof (cases "u_ofile (proc_at s p) ! i")
    case None
    then show ?thesis using Cons by simp
  next
    case (Some k)
    have i: "i < NOFILE" using Cons.prems(3) by auto
    have k: "k < length (ftab s)" using fd_valid [OF Cons.prems(1,2) i Some] .
    show ?thesis unfolding close_loop.simps Some option.case
    proof (rule yields_bind [OF fileclose_kinv [OF Cons.prems(1) k]])
      fix s1 assume s1: "kinv n pool s1 none (dec k none) ({} - {k}) {} \<and> uprocs s1 = uprocs s \<and>
        length (ftab s1) = length (ftab s) \<and> (\<forall>l. l \<noteq> k \<longrightarrow> file_at s1 l = file_at s l)"
      then have s1': "kinv n pool s1 none (dec k none) {} {}" "uprocs s1 = uprocs s" by simp_all
      have "p < length (uprocs s1)" "u_ofile (proc_at s1 p) ! i = Some k" using s1'(2) Cons.prems(2) Some by simp_all
      from fdclear_kinv [OF s1'(1) this(1) i this(2)] have r: "at_rest n pool (fdclear p i s1)" by simp
      have cw: "map u_cwd (uprocs (fdclear p i s1)) = map u_cwd (uprocs s)"
        using s1'(2) Cons.prems(2) by (auto simp: fdclear_def map_update intro!: nth_equalityI simp: nth_list_update)
      have "yields (close_loop p fds (fdclear p i s1))
          (\<lambda>s'. at_rest n pool s' \<and> map u_cwd (uprocs s') = map u_cwd (uprocs (fdclear p i s1)))"
        using Cons.prems s1'(2) by (intro Cons.IH r) (auto simp: fdclear_def)
      then show "yields (close_loop p fds (fdclear p i s1)) (\<lambda>s'. at_rest n pool s' \<and> map u_cwd (uprocs s') = map u_cwd (uprocs s))"
        unfolding cw .
    qed auto
  qed
qed simp

lemma exit_files_rest:
  assumes "at_rest n pool s" "p < length (uprocs s)" "u_cwd (proc_at s p) \<noteq> None"
  shows "yields (exit_files p s) (at_rest n pool)"
proof -
  obtain c where c: "u_cwd (proc_at s p) = Some c" using assms(3) by auto
  have "yields (close_loop p [0..<NOFILE] s) (\<lambda>s'. at_rest n pool s' \<and> map u_cwd (uprocs s') = map u_cwd (uprocs s))"
    by (rule close_loop_kinv [OF assms(1,2)]) auto
  then show ?thesis unfolding exit_files_def
  proof (rule yields_bind, elim conjE)
    fix s1 assume s1: "at_rest n pool s1" "map u_cwd (uprocs s1) = map u_cwd (uprocs s)"
    have l: "length (uprocs s1) = length (uprocs s)" using s1(2) by (metis length_map)
    have cw: "u_cwd (proc_at s1 p) = Some c" using cwd_map [OF s1(2)] assms(2) c by simp
    have "c < n" using cwd_ok(2) [OF s1(1), of p] cw l assms(2) by (simp add: cwd_of_def)
    note ip = iput_kinv [OF s1(1) this]
    have fin: "at_rest n pool (pupd p (\<lambda>r. r\<lparr>u_cwd := None\<rparr>) s2)"
      if "kinv n pool s2 (dec c none) none {} {}" "uprocs s2 = uprocs s1" for s2
    proof -
      have "(\<lambda>j. dec c none j + of_bool (u_cwd (proc_at s2 p) = Some j) - of_bool ((None :: nat option) = Some j)) = none"
        using that(2) cw by (auto simp: dec_def none_def)
      then show ?thesis using set_cwd_kinv [OF that(1), of p None] that(2) l assms(2) by simp
    qed
    show "yields (case u_cwd (proc_at s1 p) of None \<Rightarrow> Inl (FPanic ''trap'')
      | Some i \<Rightarrow> bindE (do_fs (iput i) s1) (\<lambda>s2. Inr (pupd p (\<lambda>r. r\<lparr>u_cwd := None\<rparr>) s2))) (at_rest n pool)"
      unfolding cw option.case by (rule yields_bind [OF ip]) (use fin in auto)
  qed
qed

section \<open>Every interleaving\<close>

datatype kreq = CDup | CRead | CWrite | CResume addr "32 word" "32 word" nat | CClose | CFstat | CPipe | COpen
  | CLink | CUnlink | CMkdir | CMknod | CChdir | CFork nat | CExit

text \<open>A call of process \<open>p\<close> that returns, or sleeps in a pipe.\<close>

fun kcall :: "kreq \<Rightarrow> nat \<Rightarrow> kfs \<Rightarrow> ferror + kfs" where
  "kcall CDup p s = bindE (sys_dup p s) (\<lambda>(_, t). Inr t)"
| "kcall CRead p s = bindE (sys_read p s) (\<lambda>(_, t). Inr t)"
| "kcall CWrite p s = bindE (sys_write p s) (\<lambda>(_, _, t). Inr t)"
| "kcall (CResume a src m k) p s = bindE (pipe_resume p a src m k s) (\<lambda>(_, _, t). Inr t)"
| "kcall CClose p s = bindE (sys_close p s) (\<lambda>(_, t). Inr t)"
| "kcall CFstat p s = bindE (sys_fstat p s) (\<lambda>(_, t). Inr t)"
| "kcall CPipe p s = bindE (sys_pipe p s) (\<lambda>(_, t). Inr t)"
| "kcall COpen p s = bindE (sys_open p s) (\<lambda>(_, t). Inr t)"
| "kcall CLink p s = bindE (sys_link p s) (\<lambda>(_, t). Inr t)"
| "kcall CUnlink p s = bindE (sys_unlink p s) (\<lambda>(_, t). Inr t)"
| "kcall CMkdir p s = bindE (sys_mkdir p s) (\<lambda>(_, t). Inr t)"
| "kcall CMknod p s = bindE (sys_mknod p s) (\<lambda>(_, t). Inr t)"
| "kcall CChdir p s = bindE (sys_chdir p s) (\<lambda>(_, t). Inr t)"
| "kcall (CFork q) p s = (if free_slot q s then fork_files p q s else Inr s)"
| "kcall CExit p s = exit_files p s"

text \<open>Live processes make calls; in between, user programs run: memory, arguments, sizes and the killed
  flags change as they like.\<close>

inductive kstep :: "kfs \<Rightarrow> kfs \<Rightarrow> bool" where
  kernel: "p < length (uprocs s) \<Longrightarrow> u_cwd (proc_at s p) \<noteq> None \<Longrightarrow> kcall c p s = Inr t \<Longrightarrow> kstep s t"
| user: "ftab t = ftab s \<Longrightarrow> fsys t = fsys s \<Longrightarrow> pipes t = pipes s \<Longrightarrow> kpages t = kpages s \<Longrightarrow> kend t = kend s \<Longrightarrow>
    map (\<lambda>q. (u_ofile q, u_cwd q)) (uprocs t) = map (\<lambda>q. (u_ofile q, u_cwd q)) (uprocs s) \<Longrightarrow> kstep s t"

inductive_cases kstep_cases: "kstep s t"

lemma kcall_rest:
  assumes "at_rest n pool s" "p < length (uprocs s)" "u_cwd (proc_at s p) \<noteq> None"
  shows "yields (kcall c p s) (at_rest n pool)"
proof (cases c)
  case (CFork q)
  then show ?thesis using fork_files_rest [OF assms] assms(1) by simp
next
  case CExit
  then show ?thesis using exit_files_rest [OF assms] by simp
qed (auto intro!: yields_bind [OF sys_dup_rest [OF assms(1,2)]] yields_bind [OF sys_read_rest [OF assms(1,2)]]
    yields_bind [OF sys_write_rest [OF assms(1,2)]] yields_bind [OF pipe_resume_rest [OF assms(1)]]
    yields_bind [OF sys_close_rest [OF assms(1,2)]] yields_bind [OF sys_fstat_rest [OF assms(1,2)]]
    yields_bind [OF sys_pipe_rest [OF assms(1,2)]] yields_bind [OF sys_open_rest [OF assms]]
    yields_bind [OF sys_link_rest [OF assms]] yields_bind [OF sys_unlink_rest [OF assms]]
    yields_bind [OF sys_mkdir_rest [OF assms]] yields_bind [OF sys_mknod_rest [OF assms]]
    yields_bind [OF sys_chdir_rest [OF assms]])

lemma user_rest:
  assumes "at_rest n pool s" "ftab t = ftab s" "fsys t = fsys s" "pipes t = pipes s" "kpages t = kpages s" "kend t = kend s"
    "map (\<lambda>q. (u_ofile q, u_cwd q)) (uprocs t) = map (\<lambda>q. (u_ofile q, u_cwd q)) (uprocs s)"
  shows "at_rest n pool t"
proof -
  have l: "length (uprocs t) = length (uprocs s)" using assms(7) by (metis length_map)
  have nth: "u_ofile (proc_at t q) = u_ofile (proc_at s q) \<and> u_cwd (proc_at t q) = u_cwd (proc_at s q)"
    if "q < length (uprocs s)" for q
  proof -
    have "map (\<lambda>q. (u_ofile q, u_cwd q)) (uprocs t) ! q = map (\<lambda>q. (u_ofile q, u_cwd q)) (uprocs s) ! q" using assms(7) by simp
    then show ?thesis using that l by simp
  qed
  have fd: "fdrefs ps k = sum_list (map (\<lambda>x. int (count_list (fst x) (Some k))) (map (\<lambda>q. (u_ofile q, u_cwd q)) ps))" for ps k
    by (simp add: fdrefs_def comp_def)
  have cw: "cwdrefs ps j = sum_list (map (\<lambda>x. if snd x = Some j then 1 else 0) (map (\<lambda>q. (u_ofile q, u_cwd q)) ps))" for ps j
    by (simp add: cwdrefs_def comp_def)
  have fdt: "fdrefs (uprocs t) = fdrefs (uprocs s)" by (rule ext) (simp only: fd assms(7))
  have ir: "irefs t = irefs s" by (rule ext) (simp only: irefs_def cw assms(2,7))
  have "inodes_ok n t none {}"
    using assms(1) nth unfolding kinv_def inodes_ok_def ir assms(2,3) l by simp
  moreover have "files_ok t none {}"
    using assms(1) nth unfolding kinv_def files_ok_def fdt assms(2) l by simp
  moreover have "pipes_ok pool t" using assms(1) unfolding kinv_def pipes_ok_def assms(2,4-6) by simp
  ultimately show ?thesis by (simp add: kinv_def)
qed

lemma kreach_rest:
  assumes "kstep\<^sup>*\<^sup>* s0 s" "at_rest n pool s0"
  shows "at_rest n pool s"
  using assms
proof (induction rule: rtranclp_induct)
  case (step t u)
  from step.hyps(2) step.IH [OF step.prems] show ?case
  proof (cases rule: kstep.cases)
    case (kernel p c)
    from yieldsD [OF kcall_rest [OF step.IH [OF step.prems] kernel(1,2)] kernel(3)] show ?thesis .
  next
    case user
    then show ?thesis using user_rest [OF step.IH [OF step.prems]] by blast
  qed
qed simp

section \<open>The file layer at boot\<close>

definition zero_file :: kfile where
  "zero_file = \<lparr>f_type = FD_NONE, f_ref = 0, f_readable = False, f_writable = False, f_pipe = 0, f_ip = 0, f_off = 0\<rparr>"

text \<open>After \<open>userinit\<close>: process 0 is in the root directory, inode slot \<open>i\<close>; nothing is open.\<close>

definition boot :: "nat \<Rightarrow> nat \<Rightarrow> addr list \<Rightarrow> kfs \<Rightarrow> bool" where
  "boot n i xs s \<longleftrightarrow>
     ftab s = replicate NFILE zero_file \<and> i < n \<and> length (icache (fsys s)) = n \<and>
     (\<forall>j < n. i_ref (ino (fsys s) j) = (if j = i then 1 else 0) \<and> \<not> i_busy (ino (fsys s) j)) \<and>
     length (uprocs s) > 0 \<and>
     (\<forall>p < length (uprocs s). u_ofile (proc_at s p) = replicate NOFILE None \<and>
        u_cwd (proc_at s p) = (if p = 0 then Some i else None)) \<and>
     kmem_inv (kend s) (kpages s) xs"

lemma boot_rest:
  assumes "boot n i xs s"
  shows "at_rest n (set xs) s"
proof -
  note b = assms [unfolded boot_def]
  have z: "file_at s k = zero_file" if "k < NFILE" for k using b that by simp
  have len: "length (ftab s) = NFILE" using b by simp
  have "u_ofile p = replicate NOFILE None" if "p \<in> set (uprocs s)" for p
    using b that by (auto simp: in_set_conv_nth)
  then have mf: "map (\<lambda>p. int (count_list (u_ofile p) (Some k))) (uprocs s) = map (\<lambda>_. 0) (uprocs s)" for k
    by (intro map_cong) (auto simp: count_list_0_iff)
  have fd: "fdrefs (uprocs s) k = 0" for k unfolding fdrefs_def mf by simp
  have "uprocs s \<noteq> []" using b by auto
  then obtain p0 ps where ps: "uprocs s = p0 # ps" by (cases "uprocs s") auto
  have p0: "u_cwd p0 = Some i" using b ps by fastforce
  have "u_cwd p = None" if p: "p \<in> set ps" for p
  proof -
    obtain j where "j < length ps" "p = ps ! j" using p by (auto simp: in_set_conv_nth)
    then show ?thesis using b ps by (auto dest!: spec [of _ "Suc j"])
  qed
  then have mc: "map (\<lambda>p. if u_cwd p = Some j then 1 else 0 :: int) ps = map (\<lambda>_. 0) ps" for j
    by (intro map_cong) auto
  have cw: "cwdrefs (uprocs s) j = (if j = i then 1 else 0)" for j
    unfolding cwdrefs_def ps list.map(2) mc using p0 by simp
  have fr: "filerefs (ftab s) j = 0" for j using b by (simp add: filerefs_def map_replicate_const zero_file_def sum_list_replicate)
  have ir: "irefs s j = (if j = i then 1 else 0)" for j by (simp add: irefs_def fr cw)
  have "cache_unique (fsys s)"
    using b unfolding cache_unique_def by (metis less_numeral_extra(3))
  then have "inodes_ok n s none {}"
    using b z len ir by (auto simp: inodes_ok_def held_def cache_ok_def none_def zero_file_def split: if_splits)
  moreover have "files_ok s none {}"
    using b z len fd by (auto simp: files_ok_def none_def zero_file_def)
  moreover have "pipes_ok (set xs) s"
  proof -
    have "pipe_pages (ftab s) = {}" using b by (auto simp: pipe_pages_def zero_file_def)
    moreover have "f_type f = FD_NONE" if "f \<in> set (ftab s)" for f using b that by (auto simp: zero_file_def)
    ultimately show ?thesis using b len by (intro pipes_okI [OF refl refl]) (auto simp: z zero_file_def)
  qed
  ultimately show ?thesis by (simp add: kinv_def)
qed

text \<open>C2: Open files are counted exactly, whatever any processes do in any order. In every state that
  any interleaving of system calls reaches after boot (argument checks that fail, tables that are full,
  errors half way and sleeps in pipes included), the count of a file is the number of descriptors that
  name it, over all processes; every descriptor names a file that is open and typed; the count of a
  cached inode is the number of open files and current directories on it, and no inode is left locked;
  the two flags of a pipe say which of its ends are open, and its page is not free, while the free pages
  and the pages of open pipes are together the pages there were at boot, so none is lost.\<close>

theorem open_files_counted:
  assumes "boot n i xs s0" "kstep\<^sup>*\<^sup>* s0 s"
  shows "(\<forall>k < length (ftab s). f_ref (file_at s k) = (\<Sum>p \<leftarrow> uprocs s. int (count_list (u_ofile p) (Some k)))) \<and>
    (\<forall>p < length (uprocs s). \<forall>fd < NOFILE. case u_ofile (proc_at s p) ! fd of None \<Rightarrow> True
       | Some k \<Rightarrow> k < length (ftab s) \<and> f_ref (file_at s k) > 0 \<and> f_type (file_at s k) \<noteq> FD_NONE) \<and>
    (\<forall>j < n. i_ref (ino (fsys s) j) =
         (\<Sum>f \<leftarrow> ftab s. if f_type f = FD_INODE \<and> f_ip f = j then 1 else 0) +
         (\<Sum>p \<leftarrow> uprocs s. if u_cwd p = Some j then 1 else 0) \<and> \<not> i_busy (ino (fsys s) j)) \<and>
    (\<forall>a \<in> pipe_pages (ftab s). writeopen (pipes s a) = live_end (ftab s) a True \<and>
       readopen (pipes s a) = live_end (ftab s) a False) \<and>
    (\<exists>ys. kmem_inv (kend s) (kpages s) ys \<and> pipe_pages (ftab s) \<inter> set ys = {} \<and>
       pipe_pages (ftab s) \<union> set ys = set xs)"
proof -
  have r: "at_rest n (set xs) s" using kreach_rest [OF assms(2) boot_rest [OF assms(1)]] .
  have fd: "case u_ofile (proc_at s p) ! fd of None \<Rightarrow> True
       | Some k \<Rightarrow> k < length (ftab s) \<and> f_ref (file_at s k) > 0 \<and> f_type (file_at s k) \<noteq> FD_NONE"
    if p: "p < length (uprocs s)" "fd < NOFILE" for p fd
  proof (cases "u_ofile (proc_at s p) ! fd")
    case (Some k)
    have k: "k < length (ftab s)" using fd_valid [OF r p Some] .
    have "Some k \<in> set (u_ofile (proc_at s p))" using r p Some by (metis kinv_def files_ok_def nth_mem)
    from fdrefs_ge [OF p(1) this] have "1 \<le> f_ref (file_at s k)" using r k by (simp add: kinv_def files_ok_def none_def)
    then show ?thesis using r k Some by (auto simp: kinv_def files_ok_def)
  qed simp
  have "f_ref (file_at s k) = (\<Sum>p \<leftarrow> uprocs s. int (count_list (u_ofile p) (Some k)))" if "k < length (ftab s)" for k
    using r that by (simp add: kinv_def files_ok_def none_def fdrefs_def)
  moreover have "i_ref (ino (fsys s) j) = (\<Sum>f \<leftarrow> ftab s. if f_type f = FD_INODE \<and> f_ip f = j then 1 else 0) +
      (\<Sum>p \<leftarrow> uprocs s. if u_cwd p = Some j then 1 else 0) \<and> \<not> i_busy (ino (fsys s) j)" if "j < n" for j
    using r that by (simp add: kinv_def inodes_ok_def held_def cache_ok_def none_def irefs_def filerefs_def cwdrefs_def)
  ultimately show ?thesis using fd r unfolding kinv_def pipes_ok_def by blast
qed

text \<open>One process in the root directory, one free page; it makes a pipe.\<close>

definition boot1 :: kfs where
  "boot1 = \<lparr>ftab = replicate NFILE zero_file,
     uprocs = [\<lparr>u_sz = 16, u_esp = 0, u_pgdir = 0, u_killed = False, u_ofile = replicate NOFILE None, u_cwd = Some 0\<rparr>],
     fsys = fs0 1 0, pipes = (\<lambda>_. pinit), kpages = \<lparr>freelist = 4096, run_next = (\<lambda>_. 0)\<rparr>, kend = 4096,
     devs = nodev, umem = (\<lambda>_ _. Some 0)\<rparr>"

lemma boot1_boot: "boot 1 0 [4096] boot1"
  by (simp add: boot_def boot1_def fs0_def inode0_def ino_def kmem_inv_def page_ok_def PGSIZE_def PHYSTOP_def)

lemma load_zeros: "(\<And>a. umem s pg a = Some 0) \<Longrightarrow> load_bytes pg a m s = Inr (replicate m 0)"
  by (induction m arbitrary: a) (simp_all add: peek_def)

lemma word_of_zeros: "word_of_bytes (replicate m 0) = 0"
  by (induction m) (simp_all add: word_of_bytes_def)

lemma store_mapped:
  "(\<And>pg a. umem s pg a \<noteq> None) \<Longrightarrow> \<exists>s'. store_bytes pg a bs s = Inr s' \<and> (\<forall>pg a. umem s' pg a \<noteq> None)"
proof (induction bs arbitrary: a s)
  case (Cons b bs)
  let ?s = "s\<lparr>umem := (umem s)(pg := (umem s pg)(a := Some b))\<rparr>"
  obtain c where "umem s pg a = Some c" using Cons.prems [of pg a] by auto
  moreover have "\<And>pg a. umem ?s pg a \<noteq> None" using Cons.prems by simp
  ultimately show ?case using Cons.IH [of ?s] by (simp add: peek_def)
qed auto

lemma find_first: "k < m \<Longrightarrow> P k \<Longrightarrow> (\<And>i. i < k \<Longrightarrow> \<not> P i) \<Longrightarrow> find P [0..<m] = Some k"
  by (auto simp: find_Some_iff)

lemma filealloc_first:
  "k < length (ftab s) \<Longrightarrow> f_ref (file_at s k) = 0 \<Longrightarrow> (\<And>i. i < k \<Longrightarrow> f_ref (file_at s i) \<noteq> 0) \<Longrightarrow>
   filealloc s = (Some k, fupd k (\<lambda>f. f\<lparr>f_ref := 1\<rparr>) s)"
  by (simp add: filealloc_def find_first)

lemma fdalloc_first:
  "fd < NOFILE \<Longrightarrow> u_ofile (proc_at s p) ! fd = None \<Longrightarrow> (\<And>i. i < fd \<Longrightarrow> u_ofile (proc_at s p) ! i \<noteq> None) \<Longrightarrow>
   fdalloc p k s = (Some fd, pupd p (\<lambda>q. q\<lparr>u_ofile := (u_ofile q)[fd := Some k]\<rparr>) s)"
  by (simp add: fdalloc_def find_first)

lemma boot1_pipe: "\<exists>s. kcall CPipe 0 boot1 = Inr s"
proof -
  have len: "length (ftab boot1) = 100" by (simp add: boot1_def NFILE_def)
  have z: "file_at boot1 k = zero_file" if "k < 100" for k using that by (simp add: boot1_def NFILE_def)
  have a: "argptr_p4 0 0 8 boot1 = Inr (Some 0)"
    by (simp add: argptr_p4_def argint_p4_def fetchint_p4_def load_zeros word_of_zeros boot1_def)
  let ?s1 = "fupd 0 (\<lambda>f. f\<lparr>f_ref := 1\<rparr>) boot1"
  have f1: "filealloc boot1 = (Some 0, ?s1)" using len z by (intro filealloc_first) (simp_all add: zero_file_def)
  have f2: "filealloc ?s1 = (Some 1, fupd 1 (\<lambda>f. f\<lparr>f_ref := 1\<rparr>) ?s1)"
    using len z by (intro filealloc_first) (simp_all add: zero_file_def)
  have ka: "kalloc (kpages (fupd 1 (\<lambda>f. f\<lparr>f_ref := 1\<rparr>) ?s1)) = (4096, \<lparr>freelist = 0, run_next = (\<lambda>_. 0)\<rparr>)"
    by (simp add: kalloc_def boot1_def)
  obtain t where t: "pipealloc boot1 = Inr (Some (0, 1), t)" "uprocs t = uprocs boot1" "umem t = umem boot1"
    unfolding pipealloc_def f1 prod.case option.case f2 ka Let_def by simp
  have u: "proc_at t 0 = proc_at boot1 0" "length (uprocs t) = 1" using t(2) by (simp_all add: boot1_def)
  have o: "u_ofile (proc_at boot1 0) = replicate NOFILE None" by (simp add: boot1_def)
  let ?t1 = "pupd 0 (\<lambda>q. q\<lparr>u_ofile := (u_ofile q)[0 := Some 0]\<rparr>) t"
  have d1: "fdalloc 0 0 t = (Some 0, ?t1)" using u o by (intro fdalloc_first) (simp_all add: NOFILE_def)
  let ?t2 = "pupd 0 (\<lambda>q. q\<lparr>u_ofile := (u_ofile q)[1 := Some 1]\<rparr>) ?t1"
  have d2: "fdalloc 0 1 ?t1 = (Some 1, ?t2)" using u o by (intro fdalloc_first) (simp_all add: NOFILE_def)
  have "umem ?t2 pg x \<noteq> None" for pg x using t(3) by (simp add: boot1_def)
  then obtain t3 where t3: "store_bytes (u_pgdir (proc_at boot1 0)) 0 (bytes_of_nat 4 0) ?t2 = Inr t3"
    "\<And>pg x. umem t3 pg x \<noteq> None" using store_mapped [of ?t2] by metis
  obtain t4 where t4: "store_bytes (u_pgdir (proc_at boot1 0)) 4 (bytes_of_nat 4 1) t3 = Inr t4"
    using store_mapped [of t3] t3(2) by metis
  show ?thesis by (simp add: sys_pipe_def a orfail_def t(1) d1 d2 t3(1) t4 Let_def del: One_nat_def)
qed

theorem open_files_counted_witness:
  "\<exists>s. kcall CPipe 0 boot1 = Inr s \<and> (\<forall>j < 1. i_ref (ino (fsys s) j) =
     (\<Sum>f \<leftarrow> ftab s. if f_type f = FD_INODE \<and> f_ip f = j then 1 else 0) +
     (\<Sum>p \<leftarrow> uprocs s. if u_cwd p = Some j then 1 else 0) \<and> \<not> i_busy (ino (fsys s) j))"
proof -
  obtain s where s: "kcall CPipe 0 boot1 = Inr s" using boot1_pipe by blast
  have "kstep boot1 s" by (rule kstep.kernel [OF _ _ s]) (simp_all add: boot1_def)
  then have "kstep\<^sup>*\<^sup>* boot1 s" by (rule r_into_rtranclp)
  from open_files_counted [OF boot1_boot this] s show ?thesis by blast
qed

end
