(* ===== verification/FilesRead.thy ===== *)
theory FilesRead
  imports FilesReach
begin

text \<open>
  What a read of an open file delivers to user memory, and what a read of \<open>-1\<close> bytes does.
\<close>

text \<open>Storing bytes, with \<open>patch\<close> the contents of the pages after it.\<close>

definition patch :: "32 word \<Rightarrow> byte list \<Rightarrow> (32 word \<Rightarrow> byte option) \<Rightarrow> 32 word \<Rightarrow> byte option" where
  "patch a bs m = (\<lambda>x. if unat (x - a) < length bs then Some (bs ! unat (x - a)) else m x)"

lemma unat_shift:
  assumes "x \<noteq> (a :: 32 word)"
  shows "unat (x - (a + 1)) = unat (x - a) - 1" "0 < unat (x - a)"
proof -
  have "x - a \<noteq> 0" using assms by simp
  then have "unat (x - a - 1) = unat (x - a) - 1" by (simp add: unat_minus_one)
  then show "unat (x - (a + 1)) = unat (x - a) - 1" by (simp add: diff_diff_eq)
  show "0 < unat (x - a)" using \<open>x - a \<noteq> 0\<close> by (simp add: unat_gt_0)
qed

lemma unat_all_ones: "unat (- 1 :: 32 word) = 2 ^ 32 - 1"
proof -
  have "uint (word_of_int (- 1) :: 32 word) = - 1 mod 2 ^ 32" by (simp only: uint_word_of_int) simp
  then show ?thesis by (simp add: unat_eq_nat_uint)
qed

lemma patch_Cons:
  assumes "length bs < 2 ^ 32 - 1"
  shows "patch (a + 1) bs (m(a := Some b)) = patch a (b # bs) m"
proof (rule ext)
  fix x
  show "patch (a + 1) bs (m(a := Some b)) x = patch a (b # bs) m x"
  proof (cases "x = a")
    case True
    have "a - (a + 1) = - 1" by simp
    then have "unat (a - (a + 1)) = 2 ^ 32 - 1" by (simp only: unat_all_ones)
    then show ?thesis using True assms by (simp add: patch_def)
  next
    case False
    from unat_shift [OF this] show ?thesis using False by (auto simp: patch_def nth_Cons')
  qed
qed

lemma store_patch:
  "length bs < 2 ^ 32 \<Longrightarrow> (\<And>j. j < length bs \<Longrightarrow> umem s pg (a + of_nat j) \<noteq> None) \<Longrightarrow>
   store_bytes pg a bs s = Inr (s\<lparr>umem := (umem s)(pg := patch a bs (umem s pg))\<rparr>)"
proof (induction bs arbitrary: a s)
  case Nil
  have "patch a [] (umem s pg) = umem s pg" by (simp add: patch_def)
  then show ?case by simp
next
  case (Cons b bs)
  let ?s = "s\<lparr>umem := (umem s)(pg := (umem s pg)(a := Some b))\<rparr>"
  obtain c where c: "umem s pg a = Some c" using Cons.prems(2) [of 0] by auto
  have "umem ?s pg (a + 1 + of_nat j) \<noteq> None" if "j < length bs" for j
    using Cons.prems(2) [of "Suc j"] that by (simp add: algebra_simps)
  then have "store_bytes pg (a + 1) bs ?s = Inr (?s\<lparr>umem := (umem ?s)(pg := patch (a + 1) bs (umem ?s pg))\<rparr>)"
    using Cons.prems(1) by (intro Cons.IH) auto
  then show ?case using c patch_Cons [of bs a "umem s pg" b] Cons.prems(1)
    by (simp add: peek_def) (simp add: fun_upd_def)
qed

lemma store_unmapped:
  "j < length bs \<Longrightarrow> umem s pg (a + of_nat j) = None \<Longrightarrow> store_bytes pg a bs s = Inl (FPanic ''trap'')"
proof (induction bs arbitrary: a s j)
  case (Cons b bs)
  show ?case
  proof (cases "umem s pg a")
    case (Some c)
    then obtain i where i: "j = Suc i" using Cons.prems(2) by (cases j) auto
    let ?s = "s\<lparr>umem := (umem s)(pg := (umem s pg)(a := Some b))\<rparr>"
    have "a + of_nat j \<noteq> a" using Some Cons.prems(2) by auto
    then have "umem ?s pg (a + 1 + of_nat i) = None" using Cons.prems(2) i by (simp add: algebra_simps)
    with Cons.prems(1) i have "store_bytes pg (a + 1) bs ?s = Inl (FPanic ''trap'')" by (intro Cons.IH [of i]) auto
    then show ?thesis using Some by (simp add: peek_def)
  qed (simp add: peek_def)
qed simp

lemma store_fsys: "store_bytes pg a bs s = Inr u \<Longrightarrow> fsys u = fsys s"
proof (induction bs arbitrary: a s)
  case (Cons b bs)
  from Cons.prems obtain c where
    "store_bytes pg (a + 1) bs (s\<lparr>umem := (umem s)(pg := (umem s pg)(a := Some b))\<rparr>) = Inr u"
    by (auto simp: bindE_Inr_iff)
  from Cons.IH [OF this] show ?case by simp
qed simp

section \<open>A regular file in its direct blocks\<close>

definition plain_file :: "nat \<Rightarrow> fsst \<Rightarrow> bool" where
  "plain_file i t \<longleftrightarrow> i < length (icache t) \<and> i_ref (ino t i) \<ge> 1 \<and> \<not> i_busy (ino t i) \<and> i_valid (ino t i) \<and>
     i_type (ino t i) \<noteq> T_DEV \<and> direct_mapped i t \<and> i_size (ino t i) \<le> NDIRECT * BSIZE"

lemma usub_le:
  assumes "b \<le> a" "a < 2 ^ 32"
  shows "usub a b = a - b"
proof -
  have "a + 2 ^ 32 - b = (a - b) + 2 ^ 32" using assms(1) by linarith
  then have "usub a b = ((a - b) + 2 ^ 32) mod 2 ^ 32" unfolding usub_def by (rule arg_cong)
  also have "\<dots> = (a - b) mod 2 ^ 32" by (rule mod_add_self2)
  also have "\<dots> = a - b" using assms(2) by (intro mod_less) linarith
  finally show ?thesis .
qed

lemma readi_plain:
  assumes "i_type (ino t i) \<noteq> T_DEV" "direct_mapped i t" "off \<le> i_size (ino t i)" "i_size (ino t i) \<le> NDIRECT * BSIZE"
    "off + n < 2 ^ 32"
  shows "readi D i off n t =
    Inr ((int (min n (i_size (ino t i) - off)), map (file_byte i t) [off..<off + min n (i_size (ino t i) - off)]), t)"
proof -
  let ?m = "min n (i_size (ino t i) - off)"
  have u: "uadd off n = off + n" using assms(5) by (simp add: uadd_def)
  have us: "usub (i_size (ino t i)) off = i_size (ino t i) - off"
    using assms(3,4) by (intro usub_le) (simp_all add: NDIRECT_def BSIZE_def)
  have n': "(if uadd off n > i_size (ino t i) then usub (i_size (ino t i)) off else n) = ?m"
  proof (cases "i_size (ino t i) < off + n")
    case True
    then have "min n (i_size (ino t i) - off) = i_size (ino t i) - off" by (intro min_absorb2) linarith
    then show ?thesis using True by (simp only: u us if_P)
  next
    case False
    then have "min n (i_size (ino t i) - off) = n" using assms(3) by (intro min_absorb1) linarith
    then show ?thesis using False by (simp only: u if_not_P not_False_eq_True if_False)
  qed
  have "?m < 2 ^ 31" using assms(4) by (simp add: NDIRECT_def BSIZE_def)
  then have s: "s32 (int ?m) = int ?m" by (intro s32_id) auto
  have "readi_loop i 0 off ?m t = Inr (map (file_byte i t) [off..<off + ?m], t)"
    using readi_loop_direct [OF assms(2), of off ?m 0] assms(3,4) by simp
  moreover have ok: "\<not> (i_size (ino t i) < off \<or> uadd off n < off)" using assms(3) u by simp
  ultimately show ?thesis unfolding readi_def Let_def if_not_P [OF assms(1)] if_not_P [OF ok] n' by (simp add: s)
qed

text \<open>Lock, read and unlock leave the file system as it was.\<close>

lemma fileread_plain:
  assumes "f_readable (file_at s k)" "f_type (file_at s k) = FD_INODE" "k < length (ftab s)"
    and "plain_file (f_ip (file_at s k)) (fsys s)" "f_off (file_at s k) \<le> i_size (ino (fsys s) (f_ip (file_at s k)))"
    and "f_off (file_at s k) + unat n < 2 ^ 32"
    and "bs = map (file_byte (f_ip (file_at s k)) (fsys s)) [f_off (file_at s k)..<f_off (file_at s k) +
      min (unat n) (i_size (ino (fsys s) (f_ip (file_at s k))) - f_off (file_at s k))]"
  shows "fileread p k dst n s =
    bindE (store_bytes (u_pgdir (proc_at s p)) dst bs s) (\<lambda>s1. Inr (PRet (int (length bs)), advance k (int (length bs)) s1))"
proof -
  let ?i = "f_ip (file_at s k)" let ?o = "f_off (file_at s k)"
  let ?L = "iupd ?i (\<lambda>ip. ip\<lparr>i_busy := True\<rparr>) (fsys s)" let ?s1 = "s\<lparr>fsys := ?L\<rparr>"
  have pf: "?i < length (icache (fsys s))" "i_ref (ino (fsys s) ?i) \<ge> 1" "\<not> i_busy (ino (fsys s) ?i)" "i_valid (ino (fsys s) ?i)"
    "i_type (ino (fsys s) ?i) \<noteq> T_DEV" "direct_mapped ?i (fsys s)" "i_size (ino (fsys s) ?i) \<le> NDIRECT * BSIZE"
    using assms(4) by (auto simp: plain_file_def)
  have inoL: "ino ?L ?i = (ino (fsys s) ?i)\<lparr>i_busy := True\<rparr>" using pf(1) by (simp add: ino_iupd)
  have lock: "do_fs (ilock (Some ?i)) s = Inr ?s1" using pf inoL by (simp add: do_fs_def ilock_def Let_def)
  have dL: "direct_mapped ?i ?L" using pf(6) inoL by (simp add: direct_mapped_def)
  have fb: "file_byte ?i ?L x = file_byte ?i (fsys s) x" for x by (simp add: file_byte_def inoL) (simp add: iupd_def)
  have rd: "readi (devs s) ?i ?o (unat n) ?L = Inr ((int (length bs), bs), ?L)"
    using readi_plain [OF _ dL, of ?o "unat n" "devs s"] pf(5,7) assms(5-7) inoL by (simp add: fb)
  have unl: "do_fs (iunlock (Some ?i)) (advance k r t) = Inr ((advance k r t)\<lparr>fsys := fsys s\<rparr>)" if "fsys t = ?L" for t r
  proof -
    have "iupd ?i (\<lambda>ip. ip\<lparr>i_busy := False\<rparr>) ?L = fsys s"
    proof -
      have "(icache (fsys s) ! ?i)\<lparr>i_busy := False\<rparr> = icache (fsys s) ! ?i"
        using pf(3) by (intro inode.equality) (simp_all add: ino_def)
      then show ?thesis using pf(1) by (simp add: iupd_def)
    qed
    moreover have "fsys (advance k r t) = ?L" using that by (simp add: advance_def)
    ultimately show ?thesis using inoL pf(2) by (simp add: do_fs_def iunlock_def)
  qed
  have st: "store_bytes pg a xs (u\<lparr>fsys := t\<rparr>) = map_sum id (\<lambda>v. v\<lparr>fsys := t\<rparr>) (store_bytes pg a xs u)" for pg a xs u t
  proof (induction xs arbitrary: a u)
    case (Cons x xs)
    have sw: "u\<lparr>fsys := t, umem := m\<rparr> = u\<lparr>umem := m\<rparr>\<lparr>fsys := t\<rparr>" for m by (rule kfs.equality) simp_all
    have "store_bytes pg (a + 1) xs (u\<lparr>fsys := t, umem := m\<rparr>) =
        map_sum id (\<lambda>v. v\<lparr>fsys := t\<rparr>) (store_bytes pg (a + 1) xs (u\<lparr>umem := m\<rparr>))" for m
      unfolding sw by (rule Cons.IH)
    then show ?case by (cases "umem u pg a") (simp_all add: peek_def id_def)
  qed simp
  have "fileread p k dst n s = bindE (store_bytes (u_pgdir (proc_at s p)) dst bs ?s1) (\<lambda>s3.
      bindE (do_fs (iunlock (Some ?i)) (advance k (int (length bs)) s3)) (\<lambda>s4. Inr (PRet (int (length bs)), s4)))"
    using assms(1,2) lock rd by (simp add: fileread_def Let_def on_fs_def)
  also have "\<dots> = bindE (store_bytes (u_pgdir (proc_at s p)) dst bs s) (\<lambda>s1. Inr (PRet (int (length bs)), advance k (int (length bs)) s1))"
  proof (cases "store_bytes (u_pgdir (proc_at s p)) dst bs s")
    case (Inr u)
    have "fsys u = fsys s" using store_fsys [OF Inr] .
    then have "(advance k r (u\<lparr>fsys := ?L\<rparr>))\<lparr>fsys := fsys s\<rparr> = advance k r u" for r by (simp add: advance_def fupd_def)
    then show ?thesis using Inr unl [of "u\<lparr>fsys := ?L\<rparr>"] by (simp add: st)
  qed (simp add: st)
  finally show ?thesis .
qed


section \<open>What a read delivers\<close>



text \<open>A file of three bytes open as descriptor 0; the last mapped byte of the process is at 4095.\<close>

definition open1 :: kfs where
  "open1 = boot1\<lparr>ftab := [zero_file\<lparr>f_type := FD_INODE, f_ref := 1, f_readable := True, f_off := 0\<rparr>],
     fsys := (fs0 2 3)\<lparr>disk := (\<lambda>_ _ i. of_nat i + 5)\<rparr>,
     uprocs := [\<lparr>u_sz = 4096, u_esp = 0, u_pgdir = 0, u_killed = False, u_ofile = replicate NOFILE (Some 0), u_cwd = None\<rparr>],
     umem := (\<lambda>_ x. if x < 4096 then Some (if x = 8 \<or> 12 \<le> x \<and> x < 16 then 255 else if x = 9 then 15 else 0) else None)\<rparr>"

lemma open1_file:
  "f_readable (file_at open1 0)" "f_type (file_at open1 0) = FD_INODE" "0 < length (ftab open1)" "f_off (file_at open1 0) = 0"
  "f_ip (file_at open1 0) = 0" "i_size (ino (fsys open1) 0) = 3" "u_pgdir (proc_at open1 0) = 0" "u_sz (proc_at open1 0) = 4096"
  by (simp_all add: open1_def zero_file_def fs0_def inode0_def ino_def)

lemma open1_plain: "plain_file 0 (fsys open1)"
  by (simp add: plain_file_def direct_mapped_def open1_def fs0_def inode0_def ino_def T_DEV_def NDIRECT_def BSIZE_def take_upt)


lemma load_map: "(\<And>j. j < m \<Longrightarrow> umem s pg (a + of_nat j) = Some (f j)) \<Longrightarrow> load_bytes pg a m s = Inr (map f [0..<m])"
proof (induction m arbitrary: a f)
  case (Suc m)
  have "load_bytes pg (a + 1) m s = Inr (map (f \<circ> Suc) [0..<m])"
    using Suc.prems [of "Suc _"] by (intro Suc.IH) (simp add: algebra_simps)
  moreover have "peek pg a s = Inr (f 0)" using Suc.prems [of 0] by (simp add: peek_def)
  ultimately show ?case by (simp add: map_upt_Suc del: upt_Suc)
qed simp


end
