(* ===== verification/Umalloc.thy ===== *)
theory Umalloc
  imports Prelude
begin

text \<open>
  The user library's allocator (user/umalloc.c), after Kernighan and Ritchie: a circular list of free
  blocks in the order of their addresses, searched from \<open>freep\<close>, the block before the last cut.

  A \<open>Header *\<close> is its address; a header is 8 bytes, and sizes count headers, the block's own included.
  The memory of the headers is the two maps \<open>hptr\<close> and \<open>hsize\<close>. \<open>base\<close> is the address the linker gives
  to the first header. Sizes are those of memory that exists, so their sums do not wrap; what the
  caller asks for can, and is reduced where the code's types reduce it. The result \<open>None\<close> is a search
  that does not end.
\<close>

record uheap =
  hptr :: "addr \<Rightarrow> addr"
  hsize :: "addr \<Rightarrow> nat"
  base :: addr
  freep :: addr
  brk :: addr

definition HSZ :: nat where "HSZ = 8"

text \<open>The loop of \<open>free\<close>: the free block after which \<open>bp\<close> belongs.\<close>

partial_function (option) free_scan :: "uheap \<Rightarrow> addr \<Rightarrow> addr \<Rightarrow> addr option" where
  "free_scan s bp p =
     (if bp > p \<and> bp < hptr s p then Some p
      else if p \<ge> hptr s p \<and> (bp > p \<or> bp < hptr s p) then Some p
      else free_scan s bp (hptr s p))"

text \<open>The two joins of \<open>free\<close>, with the block above and with the block below.\<close>

definition join_up :: "addr \<Rightarrow> addr \<Rightarrow> uheap \<Rightarrow> uheap" where
  "join_up bp p s =
     (if bp + HSZ * hsize s bp = hptr s p
      then s\<lparr>hsize := (hsize s)(bp := hsize s bp + hsize s (hptr s p)), hptr := (hptr s)(bp := hptr s (hptr s p))\<rparr>
      else s\<lparr>hptr := (hptr s)(bp := hptr s p)\<rparr>)"

definition join_down :: "addr \<Rightarrow> addr \<Rightarrow> uheap \<Rightarrow> uheap" where
  "join_down bp p s =
     (if p + HSZ * hsize s p = bp
      then s\<lparr>hsize := (hsize s)(p := hsize s p + hsize s bp), hptr := (hptr s)(p := hptr s bp)\<rparr>
      else s\<lparr>hptr := (hptr s)(p := bp)\<rparr>)"

definition ufree :: "addr \<Rightarrow> uheap \<Rightarrow> uheap option" where
  "ufree ap s =
     (let bp = ap - HSZ in
      case free_scan s bp (freep s) of
        None \<Rightarrow> None
      | Some p \<Rightarrow> Some ((join_down bp p (join_up bp p s))\<lparr>freep := p\<rparr>))"

text \<open>\<open>grow\<close> is what the kernel's \<open>sbrk\<close> does with the break: the new one, or \<open>None\<close> for \<open>-1\<close>. Its
  argument is an \<open>int\<close>.\<close>

definition morecore :: "(addr \<Rightarrow> int \<Rightarrow> addr option) \<Rightarrow> nat \<Rightarrow> uheap \<Rightarrow> (addr \<times> uheap) option" where
  "morecore grow nu s =
     (let nu1 = (if nu < 4096 then 4096 else nu) in
      case grow (brk s) (s32 (int (nu1 * HSZ))) of
        None \<Rightarrow> Some (0, s)
      | Some b \<Rightarrow>
          let hp = brk s; s1 = s\<lparr>brk := b, hsize := (hsize s)(hp := nu1)\<rparr>
          in map_option (\<lambda>s2. (freep s2, s2)) (ufree (hp + HSZ) s1))"

text \<open>Taking \<open>n\<close> units from the block \<open>p\<close> behind \<open>prevp\<close>: all of it, or its end.\<close>

definition take_block :: "nat \<Rightarrow> addr \<Rightarrow> addr \<Rightarrow> uheap \<Rightarrow> addr \<times> uheap" where
  "take_block n prevp p s =
     (if hsize s p = n then (p + HSZ, s\<lparr>hptr := (hptr s)(prevp := hptr s p), freep := prevp\<rparr>)
      else
        let k = hsize s p - n; q = p + HSZ * k
        in (q + HSZ, s\<lparr>hsize := (hsize s)(p := k, q := n), freep := prevp\<rparr>))"

partial_function (option) malloc_loop ::
  "(addr \<Rightarrow> int \<Rightarrow> addr option) \<Rightarrow> nat \<Rightarrow> addr \<Rightarrow> addr \<Rightarrow> uheap \<Rightarrow> (addr \<times> uheap) option" where
  "malloc_loop grow n prevp p s =
     (if hsize s p \<ge> n then Some (take_block n prevp p s)
      else if p = freep s then
        (case morecore grow n s of
           None \<Rightarrow> None
         | Some r \<Rightarrow> if fst r = 0 then Some (0, snd r)
                     else malloc_loop grow n (fst r) (hptr (snd r) (fst r)) (snd r))
      else malloc_loop grow n p (hptr s p) s)"

definition nunits :: "nat \<Rightarrow> nat" where
  "nunits nbytes = ((nbytes + HSZ - 1) mod 2 ^ 32) div HSZ + 1"

definition uinit :: "uheap \<Rightarrow> uheap" where
  "uinit s =
     (if freep s = 0
      then s\<lparr>hptr := (hptr s)(base s := base s), freep := base s, hsize := (hsize s)(base s := 0)\<rparr> else s)"

definition umalloc :: "(addr \<Rightarrow> int \<Rightarrow> addr option) \<Rightarrow> nat \<Rightarrow> uheap \<Rightarrow> (addr \<times> uheap) option" where
  "umalloc grow nbytes s =
     (let s1 = uinit s in malloc_loop grow (nunits nbytes) (freep s1) (hptr s1 (freep s1)) s1)"

section \<open>Circular lists\<close>

text \<open>Following \<open>f\<close> from \<open>p\<close> visits \<open>xs\<close> and then arrives at \<open>q\<close>.\<close>

primrec visits :: "(addr \<Rightarrow> addr) \<Rightarrow> addr \<Rightarrow> addr list \<Rightarrow> addr \<Rightarrow> bool" where
  "visits f p [] q \<longleftrightarrow> p = q"
| "visits f p (x # xs) q \<longleftrightarrow> p = x \<and> visits f (f x) xs q"

lemma visits_append: "visits f p (xs @ ys) q \<longleftrightarrow> (\<exists>r. visits f p xs r \<and> visits f r ys q)"
  by (induction xs arbitrary: p) auto

lemma visits_cong: "(\<And>x. x \<in> set xs \<Longrightarrow> f x = g x) \<Longrightarrow> visits f p xs q \<longleftrightarrow> visits g p xs q"
  by (induction xs arbitrary: p) auto

lemma visits_upd [simp]: "a \<notin> set xs \<Longrightarrow> visits (f(a := v)) p xs q \<longleftrightarrow> visits f p xs q"
  by (rule visits_cong) auto

lemma visits_Cons_end: "visits f p (xs @ [x]) q \<Longrightarrow> f x = q"
  by (auto simp: visits_append)

text \<open>The free blocks \<open>bs\<close> of a heap, in the order of their addresses, behind \<open>base\<close>. Neighbours do not
  touch.\<close>

definition apart :: "uheap \<Rightarrow> addr list \<Rightarrow> bool" where
  "apart s xs \<longleftrightarrow> sorted_wrt (\<lambda>x y. x + HSZ * hsize s x < y) xs"

definition heap_list :: "uheap \<Rightarrow> addr list \<Rightarrow> bool" where
  "heap_list s bs \<longleftrightarrow>
     0 < base s \<and> visits (hptr s) (base s) (base s # bs) (base s) \<and> freep s \<in> set (base s # bs) \<and> hsize s (base s) = 0 \<and>
     apart s (base s # bs) \<and> (\<forall>x \<in> set bs. 0 < hsize s x \<and> x + HSZ * hsize s x \<le> brk s)"

definition hblock :: "uheap \<Rightarrow> addr \<Rightarrow> nat set" where
  "hblock s x = {x..<x + HSZ * hsize s x}"

definition heap_bytes :: "uheap \<Rightarrow> addr list \<Rightarrow> nat set" where
  "heap_bytes s bs = (\<Union>x \<in> set bs. hblock s x)"

end
