(* ===== verification/UmallocSpec.thy ===== *)
theory UmallocSpec
  imports Umalloc
begin

text \<open>
  The allocator of the user library keeps its list: \<open>free\<close> puts a block back where it belongs and joins
  it with its neighbours, \<open>malloc\<close> cuts a block out of one free block, and both return.
\<close>

section \<open>Finding the place\<close>

lemma apart_Cons: "apart s (x # xs) \<longleftrightarrow> (\<forall>y \<in> set xs. x + HSZ * hsize s x < y) \<and> apart s xs"
  by (simp add: apart_def)

lemma apart_Nil [simp]: "apart s []" by (simp add: apart_def)

lemma apart_append: "apart s (xs @ ys) \<longleftrightarrow> apart s xs \<and> apart s ys \<and> (\<forall>x \<in> set xs. \<forall>y \<in> set ys. x + HSZ * hsize s x < y)"
  by (auto simp: apart_def sorted_wrt_append)

lemma apart_sorted: "apart s xs \<Longrightarrow> sorted_wrt (<) xs"
  unfolding apart_def by (erule sorted_wrt_mono_rel [rotated]) simp

lemma apart_cong: "(\<And>x. x \<in> set xs \<Longrightarrow> hsize s' x = hsize s x) \<Longrightarrow> apart s' xs \<longleftrightarrow> apart s xs"
  by (induction xs) (simp_all add: apart_Cons)

lemma apart_frame: "apart s xs \<Longrightarrow> \<forall>x \<in> set xs. hsize s' x = hsize s x \<Longrightarrow> apart s' xs"
  using apart_cong [of xs s' s] by blast

lemma scan_forward:
  "visits (hptr s) x (zs @ [p]) q \<Longrightarrow> sorted_wrt (<) (zs @ [p]) \<Longrightarrow> \<forall>z \<in> set (zs @ [p]). z < bp \<Longrightarrow>
   free_scan s bp p = Some p \<Longrightarrow> free_scan s bp x = Some p"
proof (induction zs arbitrary: x)
  case (Cons z zs)
  then have v: "visits (hptr s) (hptr s z) (zs @ [p]) q" "x = z" by auto
  then have "hptr s z = hd (zs @ [p])" by (cases zs) auto
  then have "hptr s z \<in> set (zs @ [p])" by (cases zs) auto
  then have "z < hptr s z" "hptr s z < bp" using Cons.prems(2,3) by auto
  then show ?case using Cons v by (subst free_scan.simps) auto
qed simp

lemma scan_back:
  "visits (hptr s) x zs b \<Longrightarrow> sorted_wrt (<) zs \<Longrightarrow> \<forall>z \<in> set zs. bp < z \<Longrightarrow> b < bp \<Longrightarrow>
   free_scan s bp b = Some p \<Longrightarrow> free_scan s bp x = Some p"
proof (induction zs arbitrary: x)
  case (Cons z zs)
  then have v: "visits (hptr s) (hptr s z) zs b" "x = z" by auto
  have "z < hptr s z \<or> hptr s z = b" using v Cons.prems(2) by (cases zs) auto
  then show ?case using Cons v by (subst free_scan.simps) auto
qed simp

lemma scan_finds:
  assumes "heap_list s bs" "base s # bs = us @ p # vs" "x \<in> set (base s # bs)"
    and "\<forall>z \<in> set (us @ [p]). z < bp" "\<forall>z \<in> set vs. bp < z"
  shows "free_scan s bp x = Some p"
proof -
  let ?b = "base s"
  have v: "visits (hptr s) ?b (us @ p # vs) ?b" and st: "sorted_wrt (<) (us @ p # vs)"
    using assms(1) apart_sorted [of s "us @ p # vs"] unfolding heap_list_def assms(2) by blast+
  have b: "?b \<in> set (us @ [p])" using assms(2) by (cases us) auto
  then have "?b \<le> p" using st by (auto simp: sorted_wrt_append)
  note b = b this
  have p: "free_scan s bp p = Some p"
  proof (cases vs)
    case Nil
    then have "hptr s p = ?b" using v by (auto simp: visits_append)
    then show ?thesis using b assms(4) by (subst free_scan.simps) auto
  next
    case (Cons y ys)
    then have "hptr s p = y" using v by (auto simp: visits_append)
    then show ?thesis using assms(4,5) Cons by (subst free_scan.simps) auto
  qed
  have fwd: "free_scan s bp y = Some p" if y: "y \<in> set (us @ [p])" for y
  proof -
    obtain as zs where z: "us @ [p] = as @ y # zs" using split_list [OF y] by blast
    obtain r where r: "visits (hptr s) r (us @ [p]) (hptr s p)" using v by (auto simp: visits_append)
    then have "visits (hptr s) y (y # zs) (hptr s p)" unfolding z by (auto simp: visits_append)
    moreover have "last (y # zs) = p" using arg_cong [OF z, of last] by simp
    then obtain zs' where "y # zs = zs' @ [p]" by (metis append_butlast_last_id list.distinct(1))
    moreover have "sorted_wrt (<) (us @ [p])" using st by (simp add: sorted_wrt_append)
    then have "sorted_wrt (<) (y # zs)" unfolding z by (simp add: sorted_wrt_append)
    moreover have "\<forall>u \<in> set (y # zs). u < bp" using assms(4) unfolding z by simp
    ultimately show ?thesis using scan_forward [OF _ _ _ p] by metis
  qed
  show ?thesis
  proof (cases "x \<in> set vs")
    case True
    then obtain as zs where z: "vs = as @ x # zs" using split_list by metis
    have "visits (hptr s) x (x # zs) ?b" "sorted_wrt (<) (x # zs)" "\<forall>u \<in> set (x # zs). bp < u"
      using v st assms(5) unfolding z by (auto simp: visits_append sorted_wrt_append)
    moreover have "?b < bp" using b(1) assms(4) by blast
    ultimately show ?thesis using fwd [OF b(1)] by (rule scan_back)
  next
    case False
    then show ?thesis using assms(2,3) fwd by auto
  qed
qed

section \<open>Putting a block back\<close>

lemma in_block: "y \<in> hblock s x \<longleftrightarrow> x \<le> y \<and> y < x + HSZ * hsize s x"
  by (simp add: hblock_def)

lemma block_cong: "hsize s' x = hsize s x \<Longrightarrow> hblock s' x = hblock s x"
  by (simp add: hblock_def)

lemma HSZ_pos [simp]: "0 < HSZ" by (simp add: HSZ_def)

lemma block_disjoint_cases:
  assumes "hblock s x \<inter> hblock s y = {}" "0 < hsize s x" "0 < hsize s y"
  shows "x + HSZ * hsize s x \<le> y \<or> y + HSZ * hsize s y \<le> x"
proof (rule ccontr)
  assume "\<not> ?thesis"
  then have "max x y \<in> hblock s x" "max x y \<in> hblock s y"
    using assms(2,3) by (auto simp: in_block)
  with assms(1) show False by blast
qed

text \<open>The block above: \<open>bp\<close> leads on to the rest of the list, joined with its first block or not.\<close>

lemma join_up_spec:
  assumes "visits (hptr s) (hptr s p) vs b" "apart s vs" "\<forall>x \<in> set vs. bp + HSZ * hsize s bp \<le> x"
    and "b < bp" "0 < hsize s bp" "s1 = join_up bp p s"
  obtains ws where "visits (hptr s1) (hptr s1 bp) ws b" "apart s1 (bp # ws)" "set ws \<subseteq> set vs"
    "hblock s1 bp \<union> (\<Union>x \<in> set ws. hblock s x) = hblock s bp \<union> (\<Union>x \<in> set vs. hblock s x)"
    "hsize s bp \<le> hsize s1 bp" "bp + HSZ * hsize s1 bp \<in> insert (bp + HSZ * hsize s bp) ((\<lambda>x. x + HSZ * hsize s x) ` set vs)"
proof -
  have gt: "bp < x" if "x \<in> set vs" for x
  proof -
    have "bp + HSZ * hsize s bp \<le> x" using assms(3) that by blast
    moreover have "0 < HSZ * hsize s bp" using assms(5) by simp
    ultimately show ?thesis by linarith
  qed
  show ?thesis
  proof (cases "bp + HSZ * hsize s bp = hptr s p")
    case True
    have "hptr s p \<noteq> b" using True assms(4) by simp
    with assms(1) obtain ws where vs: "vs = hptr s p # ws" "visits (hptr s) (hptr s (hptr s p)) ws b" by (cases vs) auto
    let ?v = "hptr s p"
    have s1: "s1 = s\<lparr>hsize := (hsize s)(bp := hsize s bp + hsize s ?v), hptr := (hptr s)(bp := hptr s ?v)\<rparr>"
      using True assms(6) by (simp add: join_up_def)
    have nb: "bp \<notin> set ws" using gt vs(1) by fastforce
    have sz: "bp + HSZ * hsize s1 bp = ?v + HSZ * hsize s ?v" unfolding s1 by (simp add: True [symmetric] algebra_simps)
    have o: "\<forall>x \<in> set ws. hsize s1 x = hsize s x" using nb by (auto simp: s1)
    have "visits (hptr s1) (hptr s1 bp) ws b" using vs(2) nb by (simp add: s1)
    moreover have "apart s1 (bp # ws)"
      using assms(2) apart_frame [OF _ o] by (simp add: vs(1) apart_Cons sz)
    moreover have "set ws \<subseteq> set vs" using vs(1) by auto
    moreover have "hblock s1 bp = hblock s bp \<union> hblock s ?v"
      unfolding hblock_def sz using True by auto
    then have "hblock s1 bp \<union> (\<Union>x \<in> set ws. hblock s x) = hblock s bp \<union> (\<Union>x \<in> set vs. hblock s x)" by (auto simp: vs(1))
    moreover have "hsize s bp \<le> hsize s1 bp" by (simp add: s1)
    ultimately show ?thesis using sz vs(1) by (intro that [of ws]) auto
  next
    case False
    have s1: "s1 = s\<lparr>hptr := (hptr s)(bp := hptr s p)\<rparr>" using False assms(6) by (simp add: join_up_def)
    have nb: "bp \<notin> set vs" using gt by fastforce
    have "bp + HSZ * hsize s bp < x" if x: "x \<in> set vs" for x
    proof -
      obtain ws where vs: "vs = hptr s p # ws" using x assms(1) by (cases vs) auto
      then have "bp + HSZ * hsize s bp < hptr s p" using assms(3) False by fastforce
      also have "hptr s p \<le> x" using x assms(2) unfolding vs by (fastforce simp: apart_Cons)
      finally show ?thesis .
    qed
    then have "apart s1 (bp # vs)" unfolding apart_Cons using assms(2) apart_frame [of s vs s1] by (simp add: s1)
    moreover have "visits (hptr s1) (hptr s1 bp) vs b" using assms(1) nb by (simp add: s1)
    moreover have "hblock s1 bp = hblock s bp" by (rule block_cong) (simp add: s1)
    ultimately show ?thesis by (intro that [of vs]) (simp_all add: s1)
  qed
qed

text \<open>The block below, then the whole list.\<close>

lemma join_down_spec:
  assumes "visits (hptr s) b (us @ [p]) r" "apart s (us @ [p])" "visits (hptr s) (hptr s bp) ws b" "apart s (bp # ws)"
    and "p + HSZ * hsize s p \<le> bp" "p < bp" "s1 = join_down bp p s"
  obtains c where "visits (hptr s1) b (us @ p # c) b" "apart s1 (us @ p # c)" "set c \<subseteq> insert bp (set ws)"
    "hblock s1 p \<union> (\<Union>x \<in> set c. hblock s1 x) = hblock s p \<union> hblock s bp \<union> (\<Union>x \<in> set ws. hblock s x)"
    "hsize s p \<le> hsize s1 p" "if p + HSZ * hsize s p = bp then p + HSZ * hsize s1 p = bp + HSZ * hsize s bp else hsize s1 p = hsize s p \<and> bp \<in> set c"
proof -
  have gt: "p < x" if "x \<in> set ws" for x using that assms(4,6) by (fastforce simp: apart_Cons)
  have lt: "x < p" if "x \<in> set us" for x using that assms(2) by (fastforce simp: apart_append)
  have far: "x + HSZ * hsize s x < y" if "x \<in> set us" "y \<in> insert bp (set ws)" for x y
  proof -
    have "x + HSZ * hsize s x < p" using that(1) assms(2) by (auto simp: apart_append)
    also have "p < y" using that(2) gt assms(6) by auto
    finally show ?thesis .
  qed
  have v: "visits (hptr s) b us p" using assms(1) by (auto simp: visits_append)
  have nus: "p \<notin> set us" using lt by fastforce
  have au: "apart s us" using assms(2) by (simp add: apart_append)
  show ?thesis
  proof (cases "p + HSZ * hsize s p = bp")
    case True
    have s1: "s1 = s\<lparr>hsize := (hsize s)(p := hsize s p + hsize s bp), hptr := (hptr s)(p := hptr s bp)\<rparr>"
      using True assms(7) by (simp add: join_down_def)
    have nw: "p \<notin> set ws" using gt by fastforce
    have sz: "p + HSZ * hsize s1 p = bp + HSZ * hsize s bp" unfolding s1 by (simp add: True [symmetric] algebra_simps)
    have "visits (hptr s1) b (us @ p # ws) b" using v assms(3) nus nw by (auto simp: s1 visits_append)
    moreover have "apart s1 (us @ p # ws)"
    proof -
      have "\<forall>x \<in> set us. hsize s1 x = hsize s x" "\<forall>x \<in> set ws. hsize s1 x = hsize s x" using nus nw by (auto simp: s1)
      moreover have "apart s ws" using assms(4) by (simp add: apart_Cons)
      ultimately have "apart s1 us" "apart s1 ws" using apart_frame au by blast+
      moreover have "\<forall>y \<in> set ws. p + HSZ * hsize s1 p < y" unfolding sz using assms(4) by (simp add: apart_Cons)
      moreover have "x + HSZ * hsize s1 x < y" if "x \<in> set us" "y \<in> insert p (set ws)" for x y
      proof -
        have "hsize s1 x = hsize s x" using that(1) nus by (auto simp: s1)
        then show ?thesis using that far assms(2) by (auto simp: apart_append)
      qed
      ultimately show ?thesis by (auto simp: apart_append apart_Cons)
    qed
    moreover have "hblock s1 p = hblock s p \<union> hblock s bp" unfolding hblock_def sz using True by auto
    moreover have "hblock s1 x = hblock s x" if "x \<in> set ws" for x using that nw by (intro block_cong) (auto simp: s1)
    ultimately show ?thesis using True sz by (intro that [of ws]) (auto simp: s1)
  next
    case False
    have s1: "s1 = s\<lparr>hptr := (hptr s)(p := bp)\<rparr>" using False assms(7) by (simp add: join_down_def)
    have nw: "p \<notin> set (bp # ws)" using gt assms(6) by fastforce
    have "visits (hptr s1) b (us @ p # bp # ws) b" using v assms(3) nus nw by (auto simp: s1 visits_append)
    moreover have "apart s (us @ p # bp # ws)"
    proof -
      have "p + HSZ * hsize s p < y" if "y \<in> set (bp # ws)" for y
        using that assms(4,5) False by (fastforce simp: apart_Cons)
      then show ?thesis using au assms(2,4) far by (auto simp: apart_append apart_Cons)
    qed
    then have "apart s1 (us @ p # bp # ws)" by (rule apart_frame) (simp add: s1)
    moreover have "hblock s1 x = hblock s x" for x by (rule block_cong) (simp add: s1)
    ultimately show ?thesis using False by (intro that [of "bp # ws"]) (auto simp: s1)
  qed
qed

lemma sorted_split:
  "sorted_wrt (<) (b # xs) \<Longrightarrow> b < y \<Longrightarrow> y \<notin> set xs \<Longrightarrow>
   \<exists>us p vs. b # xs = us @ p # vs \<and> (\<forall>z \<in> set (us @ [p]). z < y) \<and> (\<forall>z \<in> set vs. (y :: nat) < z)"
proof (induction xs arbitrary: b)
  case Nil
  then show ?case by (intro exI [of _ "[]"]) auto
next
  case (Cons x xs)
  show ?case
  proof (cases "x < y")
    case True
    then obtain us p vs where "x # xs = us @ p # vs" "\<forall>z \<in> set (us @ [p]). z < y" "\<forall>z \<in> set vs. y < z"
      using Cons.IH [of x] Cons.prems by auto
    then show ?thesis using Cons.prems(2) by (intro exI [of _ "b # us"]) auto
  next
    case False
    then have "\<forall>z \<in> set (x # xs). y < z" using Cons.prems by force
    then show ?thesis using Cons.prems(2) by (intro exI [of _ "[]"]) auto
  qed
qed

lemma join_frame:
  assumes "t = (join_down bp p (join_up bp p s))\<lparr>freep := p\<rparr>"
  shows "base t = base s" "brk t = brk s" "freep t = p" "hsize t = hsize (join_down bp p (join_up bp p s))"
    "hptr t = hptr (join_down bp p (join_up bp p s))" "a \<noteq> bp \<Longrightarrow> a \<noteq> p \<Longrightarrow> hptr t a = hptr s a \<and> hsize t a = hsize s a"
    "p \<noteq> bp \<Longrightarrow> hsize (join_up bp p s) p = hsize s p" "a \<noteq> p \<Longrightarrow> hsize t a = hsize (join_up bp p s) a"
  using assms by (auto simp: join_down_def join_up_def)

lemma ufree_spec:
  assumes fl: "heap_list s bs" and bp: "base s < bp" "0 < hsize s bp" "bp + HSZ * hsize s bp \<le> brk s"
    and dj: "\<forall>x \<in> set bs. hblock s bp \<inter> hblock s x = {}"
  obtains s' bs' where "ufree (bp + HSZ) s = Some s'" "heap_list s' bs'" "heap_bytes s' bs' = heap_bytes s bs \<union> hblock s bp"
    "base s' = base s" "brk s' = brk s" "\<exists>x \<in> set bs'. hsize s bp \<le> hsize s' x" "set bs' \<subseteq> insert bp (set bs)"
    "\<And>a. a \<notin> set (base s # bs) \<Longrightarrow> a \<noteq> bp \<Longrightarrow> hptr s' a = hptr s a \<and> hsize s' a = hsize s a"
proof -
  let ?b = "base s"
  note f = fl [unfolded heap_list_def]
  have bs: "0 < hsize s x" "x + HSZ * hsize s x \<le> brk s" if "x \<in> set bs" for x using f that by auto
  have st: "sorted_wrt (<) (?b # bs)" using f by (intro apart_sorted [of s]) blast
  have nb: "bp \<notin> set bs" using dj bp(2) by (fastforce simp: in_block)
  obtain us p vs where c: "?b # bs = us @ p # vs" "\<forall>z \<in> set (us @ [p]). z < bp" "\<forall>z \<in> set vs. bp < z"
    using sorted_split [OF st bp(1) nb] by blast
  define s1 where "s1 = join_up bp p s"
  define s2 where "s2 = join_down bp p s1"
  define t where "t = s2\<lparr>freep := p\<rparr>"
  note t' = t_def [unfolded s2_def s1_def]
  have tt: "base t = ?b" "brk t = brk s" "freep t = p" "hptr t = hptr s2" "hsize t = hsize s2"
    using join_frame(1-3) [OF t'] by (simp_all add: t_def)
  have scan: "free_scan s bp (freep s) = Some p" using scan_finds [OF fl c(1) _ c(2,3)] f by blast
  have fr: "ufree (bp + HSZ) s = Some t" by (simp add: ufree_def scan t')
  have pbp: "p < bp" using c(2) by simp
  have vsbs: "set vs \<subseteq> set bs"
  proof
    fix x assume x: "x \<in> set vs"
    then have "x \<in> set (?b # bs)" unfolding c(1) by simp
    then show "x \<in> set bs" using c(3) x bp(1) by auto
  qed
  have below: "bp + HSZ * hsize s bp \<le> x" if "x \<in> set vs" for x
  proof -
    have "x \<in> set bs" "bp < x" using that vsbs c(3) by auto
    then show ?thesis using block_disjoint_cases [of s bp x] dj bp(2) bs by force
  qed
  have pend: "p + HSZ * hsize s p \<le> bp"
  proof (cases "p = ?b")
    case True
    then show ?thesis using f bp(1) by simp
  next
    case False
    have "p \<in> set (?b # bs)" unfolding c(1) by simp
    then have "p \<in> set bs" using False by simp
    then show ?thesis using block_disjoint_cases [of s bp p] dj bp(2) bs pbp by force
  qed
  have v: "visits (hptr s) ?b (us @ [p]) (hptr s p)" "visits (hptr s) (hptr s p) vs ?b"
    using f unfolding c(1) by (auto simp: visits_append)
  have a: "apart s (us @ [p])" "apart s vs" using f unfolding c(1) by (auto simp: apart_append apart_Cons)
  obtain ws where w: "visits (hptr s1) (hptr s1 bp) ws ?b" "apart s1 (bp # ws)" "set ws \<subseteq> set vs"
    "hblock s1 bp \<union> (\<Union>x \<in> set ws. hblock s x) = hblock s bp \<union> (\<Union>x \<in> set vs. hblock s x)"
    "hsize s bp \<le> hsize s1 bp" "bp + HSZ * hsize s1 bp \<in> insert (bp + HSZ * hsize s bp) ((\<lambda>x. x + HSZ * hsize s x) ` set vs)"
    by (rule join_up_spec [OF v(2) a(2) ballI [OF below] bp(1,2) s1_def])
  have o1: "hsize s1 x = hsize s x" "hptr s1 x = hptr s x" if "x \<noteq> bp" for x using that by (auto simp: s1_def join_up_def)
  have usbp: "bp \<notin> set (us @ [p])" using c(2) by blast
  have v1: "visits (hptr s1) ?b (us @ [p]) (hptr s p)"
    using v(1) usbp visits_cong [of "us @ [p]" "hptr s1" "hptr s"] o1(2) by metis
  have a1: "apart s1 (us @ [p])" using apart_frame [OF a(1)] usbp o1(1) by metis
  have pend1: "p + HSZ * hsize s1 p \<le> bp" using pend o1(1) [of p] pbp by simp
  obtain d where d: "visits (hptr s2) ?b (us @ p # d) ?b" "apart s2 (us @ p # d)" "set d \<subseteq> insert bp (set ws)"
    "hblock s2 p \<union> (\<Union>x \<in> set d. hblock s2 x) = hblock s1 p \<union> hblock s1 bp \<union> (\<Union>x \<in> set ws. hblock s1 x)"
    "hsize s1 p \<le> hsize s2 p"
    "if p + HSZ * hsize s1 p = bp then p + HSZ * hsize s2 p = bp + HSZ * hsize s1 bp else hsize s2 p = hsize s1 p \<and> bp \<in> set d"
    by (rule join_down_spec [OF v1 a1 w(1,2) pend1 pbp s2_def])
  have o2: "hsize s2 x = hsize s1 x" if "x \<noteq> p" for x using that by (auto simp: s2_def join_down_def)
  have pb: "p \<in> set bs \<and> p \<noteq> ?b \<or> p = ?b \<and> p + HSZ * hsize s1 p \<noteq> bp"
  proof -
    have "p \<in> set (?b # bs)" unfolding c(1) by simp
    then show ?thesis using f bp(1) o1(1) [of ?b] by auto
  qed
  have e1: "bp + HSZ * hsize s1 bp \<le> brk s" using w(6) bp(3) bs(2) vsbs by auto
  define bs' where "bs' = tl (us @ p # d)"
  have L: "us @ p # d = ?b # bs'" using c(1) unfolding bs'_def by (cases us) auto
  have st2: "sorted_wrt (<) (?b # bs')" using d(2) unfolding L by (rule apart_sorted)
  have sub: "set bs' \<subseteq> insert bp (set bs)"
  proof
    fix x assume x: "x \<in> set bs'"
    then have "x \<noteq> ?b" using st2 by auto
    moreover have "x \<in> set (us @ p # d)" unfolding L using x by simp
    then have "x \<in> set (us @ p # vs) \<or> x = bp" using d(3) w(3) by auto
    ultimately show "x \<in> insert bp (set bs)" unfolding c(1) [symmetric] by auto
  qed
  have b0: "hsize s2 ?b = 0"
  proof (cases "p = ?b")
    case True
    then have "hsize s2 p = hsize s1 p" using pb d(6) by (simp split: if_splits)
    then show ?thesis using True o1(1) [of ?b] bp(1) f by simp
  next
    case False
    then show ?thesis using o2 [of ?b] o1(1) [of ?b] bp(1) f by simp
  qed
  have ends: "0 < hsize s2 x \<and> x + HSZ * hsize s2 x \<le> brk s" if x: "x \<in> set bs'" for x
  proof (cases "x = p")
    case True
    have "x \<noteq> ?b" using st2 x by auto
    then have "p \<in> set bs" using True pb by blast
    then show ?thesis using True bs [of p] d(5,6) e1 o1(1) [of p] pbp by (auto split: if_splits)
  next
    case False
    then have "hsize s2 x = hsize s1 x" by (rule o2)
    then show ?thesis using x sub bs [of x] e1 w(5) bp(2) o1(1) [of x] by (cases "x = bp") auto
  qed
  have "heap_list t bs'"
    unfolding heap_list_def
  proof (intro conjI)
    show "visits (hptr t) (base t) (base t # bs') (base t)" using d(1) unfolding L tt .
    show "apart t (base t # bs')" unfolding tt using d(2) unfolding L by (rule apart_frame) (simp add: tt)
    have "p \<in> set (us @ p # d)" by simp
    then show "freep t \<in> set (base t # bs')" unfolding L tt .
    show "0 < base t" "hsize t (base t) = 0" using f b0 unfolding tt by blast+
    show "\<forall>x \<in> set bs'. 0 < hsize t x \<and> x + HSZ * hsize t x \<le> brk t" using ends unfolding tt by blast
  qed
  moreover have "heap_bytes t bs' = heap_bytes s bs \<union> hblock s bp"
  proof -
    have tb: "hblock t x = hblock s2 x" for x by (rule block_cong) (simp add: t_def)
    have "heap_bytes t bs' = (\<Union>x \<in> set (us @ p # d). hblock s2 x)"
      unfolding L heap_bytes_def tb using b0 by (auto simp: hblock_def)
    also have "\<dots> = (\<Union>x \<in> set us. hblock s2 x) \<union> (hblock s1 p \<union> hblock s1 bp \<union> (\<Union>x \<in> set ws. hblock s1 x))"
      unfolding d(4) [symmetric] by auto
    also have "(\<Union>x \<in> set us. hblock s2 x) = (\<Union>x \<in> set us. hblock s x)"
    proof -
      have "x < p" if "x \<in> set us" for x using that a(1) by (fastforce simp: apart_append)
      then show ?thesis using usbp o1(1) o2 by (intro SUP_cong refl block_cong) force
    qed
    also have "hblock s1 p = hblock s p" using pbp by (intro block_cong o1(1)) simp
    also have "(\<Union>x \<in> set ws. hblock s1 x) = (\<Union>x \<in> set ws. hblock s x)"
      using w(3) c(3) by (intro SUP_cong refl block_cong o1(1)) fastforce
    also have "(\<Union>x \<in> set us. hblock s x) \<union> (hblock s p \<union> hblock s1 bp \<union> (\<Union>x \<in> set ws. hblock s x)) =
        (\<Union>x \<in> set (us @ p # vs). hblock s x) \<union> hblock s bp"
      using w(4) by auto
    also have "(\<Union>x \<in> set (us @ p # vs). hblock s x) = heap_bytes s bs"
      unfolding c(1) [symmetric] heap_bytes_def using f by (auto simp: hblock_def)
    finally show ?thesis .
  qed
  moreover have "\<exists>x \<in> set bs'. hsize s bp \<le> hsize t x"
  proof (cases "p + HSZ * hsize s1 p = bp")
    case True
    then have "p + HSZ * hsize s2 p = bp + HSZ * hsize s1 bp" using d(6) by simp
    then have "HSZ * hsize s1 bp \<le> HSZ * hsize s2 p" using pbp by linarith
    then have "hsize s bp \<le> hsize s2 p" using w(5) by simp
    moreover have "p \<in> set (us @ p # d)" by simp
    then have "p \<in> set bs'" unfolding L using True pb by auto
    ultimately show ?thesis by (auto simp: t_def)
  next
    case False
    then have "bp \<in> set (us @ p # d)" using d(6) by simp
    then have "bp \<in> set bs'" unfolding L using bp(1) by auto
    moreover have "hsize s bp \<le> hsize s2 bp" using w(5) o2 [of bp] pbp by simp
    ultimately show ?thesis by (auto simp: t_def)
  qed
  moreover have "hptr t x = hptr s x \<and> hsize t x = hsize s x" if "x \<notin> set (?b # bs)" "x \<noteq> bp" for x
    using join_frame(6) [OF t', of x] that unfolding c(1) by simp
  ultimately show ?thesis by (intro that [OF fr _ _ join_frame(1,2) [OF t'] _ sub])
qed

section \<open>Finding a block\<close>

lemma loop_walk:
  "visits (hptr s) p (zs @ [q]) r \<Longrightarrow> \<forall>z \<in> set zs. hsize s z < n \<and> z \<noteq> freep s \<Longrightarrow>
   malloc_loop grow n prev p s = malloc_loop grow n (last (prev # zs)) q s"
proof (induction zs arbitrary: p prev)
  case (Cons z zs)
  have "malloc_loop grow n prev p s = malloc_loop grow n z (hptr s z) s"
    using Cons.prems by (subst malloc_loop.simps) auto
  also have "\<dots> = malloc_loop grow n (last (z # zs)) q s" using Cons.prems by (intro Cons.IH) auto
  finally show ?case by simp
qed simp

lemma visits_pred: "visits f (f a) (zs @ [q]) r \<Longrightarrow> f (last (a # zs)) = q"
  by (induction zs arbitrary: a) auto

lemma heap_list_rotate:
  assumes "heap_list s bs"
  obtains r where "visits (hptr s) (hptr s (freep s)) (r @ [freep s]) (hptr s (freep s))"
    "set (r @ [freep s]) = set (base s # bs)" "freep s \<notin> set r"
proof -
  obtain us vs where c: "base s # bs = us @ freep s # vs"
    using assms split_list unfolding heap_list_def by metis
  have "visits (hptr s) (base s) (us @ freep s # vs) (base s)" using assms unfolding heap_list_def c by blast
  then have "visits (hptr s) (hptr s (freep s)) ((vs @ us) @ [freep s]) (hptr s (freep s))" by (auto simp: visits_append)
  moreover have "sorted_wrt (<) (us @ freep s # vs)" using assms apart_sorted unfolding heap_list_def c by blast
  then have "freep s \<notin> set (vs @ us)" by (auto simp: sorted_wrt_append)
  moreover have "set ((vs @ us) @ [freep s]) = set (base s # bs)" unfolding c by auto
  ultimately show ?thesis using that by blast
qed

lemma search_found:
  assumes "heap_list s bs" "x \<in> set bs" "n \<le> hsize s x" "0 < n"
  obtains prev q where "q \<in> set bs" "prev \<in> set (base s # bs)" "hptr s prev = q" "n \<le> hsize s q"
    "malloc_loop grow n (freep s) (hptr s (freep s)) s = Some (take_block n prev q s)"
proof -
  obtain r where r: "visits (hptr s) (hptr s (freep s)) (r @ [freep s]) (hptr s (freep s))"
    "set (r @ [freep s]) = set (base s # bs)" "freep s \<notin> set r"
    by (rule heap_list_rotate [OF assms(1)])
  have "\<exists>y \<in> set (r @ [freep s]). n \<le> hsize s y" using assms(2,3) unfolding r(2) by auto
  then obtain zs q ys where z: "r @ [freep s] = zs @ q # ys" "n \<le> hsize s q" "\<forall>y \<in> set zs. \<not> n \<le> hsize s y"
    using split_list_first_prop [of "r @ [freep s]" "\<lambda>y. n \<le> hsize s y"] by blast
  have "zs @ butlast (q # ys) = r" using arg_cong [OF z(1), of butlast] by (simp add: butlast_append split: if_splits)
  then have zr: "set zs \<subseteq> set r" by auto
  obtain t where v: "visits (hptr s) (hptr s (freep s)) (zs @ [q]) t" using r(1) unfolding z(1) by (auto simp: visits_append)
  have "malloc_loop grow n (freep s) (hptr s (freep s)) s = malloc_loop grow n (last (freep s # zs)) q s"
    using z(3) r(3) zr by (intro loop_walk [OF v]) auto
  also have "\<dots> = Some (take_block n (last (freep s # zs)) q s)" using z(2) by (subst malloc_loop.simps) simp
  finally have l: "malloc_loop grow n (freep s) (hptr s (freep s)) s = Some (take_block n (last (freep s # zs)) q s)" .
  have "q \<in> set (r @ [freep s])" unfolding z(1) by simp
  moreover have "q \<noteq> base s" using z(2) assms(1,4) by (auto simp: heap_list_def)
  ultimately have q: "q \<in> set bs" unfolding r(2) by simp
  have "last (freep s # zs) \<in> set (r @ [freep s])" using zr last_in_set [of "freep s # zs"] by auto
  then show ?thesis using q visits_pred [OF v] z(2) l unfolding r(2) by (intro that)
qed

lemma search_failed:
  assumes "heap_list s bs" "\<forall>x \<in> set bs. hsize s x < n" "0 < n"
  shows "malloc_loop grow n (freep s) (hptr s (freep s)) s =
    (case morecore grow n s of None \<Rightarrow> None
     | Some r \<Rightarrow> if fst r = 0 then Some (0, snd r) else malloc_loop grow n (fst r) (hptr (snd r) (fst r)) (snd r))"
proof -
  obtain r where r: "visits (hptr s) (hptr s (freep s)) (r @ [freep s]) (hptr s (freep s))"
    "set (r @ [freep s]) = set (base s # bs)" "freep s \<notin> set r"
    by (rule heap_list_rotate [OF assms(1)])
  have sm: "hsize s x < n" if "x \<in> set (r @ [freep s])" for x
    using that assms unfolding r(2) by (auto simp: heap_list_def)
  have "malloc_loop grow n (freep s) (hptr s (freep s)) s = malloc_loop grow n (last (freep s # r)) (freep s) s"
    using sm r(3) by (intro loop_walk [OF r(1)]) auto
  also have "\<dots> = (case morecore grow n s of None \<Rightarrow> None
     | Some r \<Rightarrow> if fst r = 0 then Some (0, snd r) else malloc_loop grow n (fst r) (hptr (snd r) (fst r)) (snd r))"
    using sm [of "freep s"] by (subst malloc_loop.simps) simp
  finally show ?thesis .
qed

section \<open>Cutting a block\<close>

lemma take_block_spec:
  assumes fl: "heap_list s bs" and q: "q \<in> set bs" "prev \<in> set (base s # bs)" "hptr s prev = q" "0 < n" "n \<le> hsize s q"
  obtains b s' bs' where "take_block n prev q s = (b + HSZ, s')" "heap_list s' bs'" "set bs' \<subseteq> set bs"
    "hsize s' b = n" "hblock s' b \<subseteq> hblock s q" "heap_bytes s' bs' = heap_bytes s bs - hblock s' b" "base s' = base s" "brk s' = brk s"
    "\<forall>a. a \<notin> set (base s # bs) \<longrightarrow> a \<noteq> b \<longrightarrow> hptr s' a = hptr s a \<and> hsize s' a = hsize s a"
proof -
  let ?b = "base s"
  note f = fl [unfolded heap_list_def]
  have st: "sorted_wrt (<) (?b # bs)" using f by (intro apart_sorted [of s]) blast
  obtain as zs where z: "?b # bs = as @ prev # zs" using split_list [OF q(2)] by blast
  have v: "visits (hptr s) ?b (as @ prev # zs) ?b" using f unfolding z by blast
  have "q \<noteq> ?b" using q(1) st by auto
  then obtain cs where cs: "zs = q # cs" using v q(3) by (cases zs) (auto simp: visits_append)
  have c: "?b # bs = as @ prev # q # cs" using z cs by simp
  have v: "visits (hptr s) ?b as prev" "visits (hptr s) (hptr s q) cs ?b" using v unfolding cs by (auto simp: visits_append)
  have ap: "apart s (as @ prev # q # cs)" using f unfolding c by blast
  have dist: "distinct (as @ prev # q # cs)" using apart_sorted [OF ap] strict_sorted_iff by blast
  have other: "hblock s q \<inter> hblock s x = {}" if "x \<in> set bs" "x \<noteq> q" for x
  proof -
    have "x \<in> set (as @ prev # cs)" using that c by (metis in_set_conv_decomp insert_iff list.set(2) set_ConsD set_append Un_iff list.set_intros(2))
    then have "x + HSZ * hsize s x < q \<or> q + HSZ * hsize s q < x" using ap by (auto simp: apart_append apart_Cons)
    then show ?thesis by (auto simp: hblock_def)
  qed
  have fb: "heap_bytes s bs = hblock s q \<union> (\<Union>x \<in> set bs - {q}. hblock s x)" using q(1) by (auto simp: heap_bytes_def)
  have fd: "heap_bytes s bs - X = (hblock s q - X) \<union> (\<Union>x \<in> set bs - {q}. hblock s x)" if "X \<subseteq> hblock s q" for X
    unfolding fb using other that by blast
  show ?thesis
  proof (cases "hsize s q = n")
    case True
    define t where "t = s\<lparr>hptr := (hptr s)(prev := hptr s q), freep := prev\<rparr>"
    have tb: "take_block n prev q s = (q + HSZ, t)" using True by (simp add: take_block_def t_def)
    have bt: "hblock t x = hblock s x" for x by (rule block_cong) (simp add: t_def)
    define bs' where "bs' = tl (as @ prev # cs)"
    have L: "as @ prev # cs = ?b # bs'" using c unfolding bs'_def by (cases as) auto
    have sb: "set bs' = set bs - {q}"
    proof -
      have e: "set (?b # bs') = set (?b # bs) - {q}" unfolding L [symmetric] c using dist by auto
      have "distinct (as @ prev # cs)" using dist by auto
      then have "?b \<notin> set bs'" unfolding L by simp
      then have "set bs' = set (?b # bs') - {?b}" by simp
      also have "\<dots> = set (?b # bs) - {q} - {?b}" unfolding e ..
      also have "?b \<notin> set bs" using st by auto
      then have "set (?b # bs) - {q} - {?b} = set bs - {q}" by (simp add: insert_Diff_if)
      finally show ?thesis .
    qed
    have "visits (hptr t) ?b (as @ prev # cs) ?b" using v dist by (auto simp: t_def visits_append)
    moreover have "apart s (as @ prev # cs)" using ap by (auto simp: apart_append apart_Cons)
    then have "apart t (as @ prev # cs)" by (rule apart_frame) (simp add: t_def)
    moreover have "prev \<in> set (as @ prev # cs)" by simp
    ultimately have "heap_list t bs'" using f sb unfolding L heap_list_def by (simp add: t_def)
    moreover have "heap_bytes t bs' = heap_bytes s bs - hblock t q"
      unfolding bt using fd [of "hblock s q"] by (simp add: heap_bytes_def bt sb)
    ultimately show ?thesis using True tb sb q(2) by (intro that [of q t bs']) (auto simp: t_def hblock_def)
  next
    case False
    define k where "k = hsize s q - n"
    define d where "d = q + HSZ * k"
    define t where "t = s\<lparr>hsize := (hsize s)(q := k, d := n), freep := prev\<rparr>"
    have k: "0 < k" "k + n = hsize s q" using False q(5) by (auto simp: k_def)
    have dn: "d + HSZ * n = q + HSZ * hsize s q" unfolding d_def k(2) [symmetric] by (simp add: algebra_simps)
    have "k < hsize s q" using k(2) q(4) by linarith
    then have dq: "q < d" "d < q + HSZ * hsize s q" using k(1) by (simp_all add: d_def)
    have tb: "take_block n prev q s = (d + HSZ, t)" using False by (simp add: take_block_def t_def k_def d_def Let_def)
    have nd: "d \<notin> set (?b # bs)"
    proof
      assume "d \<in> set (?b # bs)"
      then have "d \<in> set (as @ prev # cs)" unfolding c using dq(1) by auto
      then show False using ap dq by (auto simp: apart_append apart_Cons)
    qed
    have ts: "hsize t x = hsize s x" if "x \<in> set (?b # bs)" "x \<noteq> q" for x using that nd by (auto simp: t_def)
    have tq: "hsize t q = k" "hsize t d = n" using dq(1) by (auto simp: t_def)
    have qk: "HSZ * k \<le> HSZ * hsize s q" using k(2) by simp
    have "apart t (as @ prev # q # cs)"
    proof -
      have le: "HSZ * hsize t x \<le> HSZ * hsize s x" if "x \<in> set (?b # bs)" for x
        using ts [OF that] tq qk by (cases "x = q") auto
      show ?thesis unfolding apart_def
      proof (rule sorted_wrt_mono_rel [OF _ ap [unfolded apart_def]])
        fix x y assume "x \<in> set (as @ prev # q # cs)" "x + HSZ * hsize s x < y"
        then show "x + HSZ * hsize t x < y" using le [of x] unfolding c by linarith
      qed
    qed
    moreover have "0 < hsize t x \<and> x + HSZ * hsize t x \<le> brk t" if x: "x \<in> set bs" for x
    proof (cases "x = q")
      case True
      have "q + HSZ * hsize s q \<le> brk s" using f q(1) by blast
      then have "q + HSZ * k \<le> brk s" using qk by linarith
      then show ?thesis using True tq k(1) by (simp add: t_def)
    next
      case False
      then show ?thesis using f x ts [of x] by (simp add: t_def)
    qed
    moreover have "hsize t ?b = 0" using ts [of ?b] f \<open>q \<noteq> ?b\<close> by simp
    ultimately have "heap_list t bs" using f q(2) unfolding c [symmetric] heap_list_def by (simp add: t_def)
    then have fl: "heap_list t bs" .
    have "hblock t d = {d..<q + HSZ * hsize s q}" unfolding hblock_def tq dn ..
    moreover have "hblock t q = {q..<d}" by (simp add: hblock_def tq d_def)
    ultimately have bq: "hblock s q = hblock t q \<union> hblock t d" "hblock t q \<inter> hblock t d = {}"
      using dq by (auto simp: in_block)
    then have "heap_bytes t bs = heap_bytes s bs - hblock t d"
    proof -
      have "heap_bytes t bs = hblock t q \<union> (\<Union>x \<in> set bs - {q}. hblock t x)" using q(1) by (auto simp: heap_bytes_def)
      also have "(\<Union>x \<in> set bs - {q}. hblock t x) = (\<Union>x \<in> set bs - {q}. hblock s x)"
        using ts by (intro SUP_cong refl block_cong) auto
      also have "hblock t q = hblock s q - hblock t d" using bq by blast
      finally show ?thesis using fd [of "hblock t d"] bq(1) by simp
    qed
    then show ?thesis using fl tb tq bq q(1) by (intro that [of d t bs]) (auto simp: t_def)
  qed
qed

section \<open>Allocation\<close>

text \<open>What the kernel promises of \<open>sbrk\<close> with a positive argument: it moves the break up by as much, or
  fails.\<close>

definition grows :: "(addr \<Rightarrow> int \<Rightarrow> addr option) \<Rightarrow> bool" where
  "grows grow \<longleftrightarrow> (\<forall>b z b'. 0 < z \<longrightarrow> grow b z = Some b' \<longrightarrow> b' = b + nat z)"

abbreviation more_units :: "nat \<Rightarrow> nat" where "more_units n \<equiv> max 4096 n"

lemma heap_list_node: "heap_list s bs \<Longrightarrow> x \<in> set bs \<Longrightarrow> base s < x \<and> x \<in> heap_bytes s bs \<and> x < brk s"
proof -
  assume f: "heap_list s bs" and x: "x \<in> set bs"
  have "0 < HSZ * hsize s x" "x + HSZ * hsize s x \<le> brk s" "x \<in> hblock s x" "base s + HSZ * hsize s (base s) < x"
    using f x by (auto simp: heap_list_def in_block apart_Cons)
  moreover from this have "x < brk s" "base s < x" by linarith+
  ultimately show ?thesis using x by (auto simp: heap_bytes_def)
qed

lemma heap_bytes_bound: "heap_list s bs \<Longrightarrow> y \<in> heap_bytes s bs \<Longrightarrow> base s < y \<and> y < brk s"
proof -
  assume f: "heap_list s bs" and "y \<in> heap_bytes s bs"
  then obtain x where x: "x \<in> set bs" "x \<le> y" "y < x + HSZ * hsize s x" by (auto simp: heap_bytes_def in_block)
  have "x + HSZ * hsize s x \<le> brk s" using f x(1) by (auto simp: heap_list_def)
  then show ?thesis using x heap_list_node [OF f x(1)] by linarith
qed

lemma heap_list_frame:
  assumes "heap_list s bs" "\<forall>x \<in> set (base s # bs). hptr t x = hptr s x \<and> hsize t x = hsize s x"
    and "base t = base s" "freep t = freep s" "brk s \<le> brk t"
  shows "heap_list t bs" "heap_bytes t bs = heap_bytes s bs"
proof -
  note f = assms(1) [unfolded heap_list_def]
  have "visits (hptr t) (base s) (base s # bs) (base s)"
    using f visits_cong [of "base s # bs" "hptr t" "hptr s"] assms(2) by blast
  moreover have "apart t (base s # bs)" using f apart_frame [of s "base s # bs" t] assms(2) by blast
  moreover have "hsize t (base s) = 0" using f assms(2) by simp
  moreover have "0 < hsize t x \<and> x + HSZ * hsize t x \<le> brk t" if "x \<in> set bs" for x
    using f that assms(2,5) by fastforce
  ultimately show "heap_list t bs" unfolding heap_list_def assms(3,4) using f by blast
  show "heap_bytes t bs = heap_bytes s bs"
    unfolding heap_bytes_def using assms(2) by (intro SUP_cong refl block_cong) auto
qed

lemma s32_units:
  assumes "HSZ * m < 2 ^ 31"
  shows "s32 (int (m * HSZ)) = int (HSZ * m)"
proof -
  have "int (HSZ * m) < int (2 ^ 31)" using assms by (simp only: of_nat_less_iff)
  then have "int (HSZ * m) < 2 ^ 31" by (simp only: of_nat_power of_nat_numeral)
  moreover have "0 \<le> int (HSZ * m)" by (rule of_nat_0_le_iff)
  ultimately have "s32 (int (HSZ * m)) = int (HSZ * m)" by (intro s32_id) linarith+
  then show ?thesis by (simp only: mult.commute)
qed

text \<open>More memory: it fails, or the new memory joins the list and one block is large enough.\<close>

lemma morecore_spec:
  assumes fl: "heap_list s bs" and g: "grows grow" and bb: "base s < brk s" and n: "HSZ * more_units n < 2 ^ 31"
    and gr: "grow (brk s) (int (HSZ * more_units n)) = Some b"
  obtains s' bs' where "morecore grow n s = Some (freep s', s')" "heap_list s' bs'" "\<exists>x \<in> set bs'. n \<le> hsize s' x"
    "base s' = base s" "brk s' = b" "b = brk s + HSZ * more_units n" "heap_bytes s' bs' = heap_bytes s bs \<union> {brk s..<b}"
    "\<forall>a. a \<notin> set (base s # bs) \<longrightarrow> a \<noteq> brk s \<longrightarrow> hptr s' a = hptr s a \<and> hsize s' a = hsize s a"
proof -
  let ?m = "more_units n"
  have "0 < int (HSZ * ?m)" by simp
  with g gr have "b = brk s + nat (int (HSZ * ?m))" unfolding grows_def by blast
  then have b: "b = brk s + HSZ * ?m" by (simp only: nat_int)
  define t where "t = s\<lparr>brk := b, hsize := (hsize s)(brk s := ?m)\<rparr>"
  have nm: "brk s \<notin> set (base s # bs)" using bb heap_list_node [OF fl] by auto
  have "\<forall>x \<in> set (base s # bs). hptr t x = hptr s x \<and> hsize t x = hsize s x" using nm by (auto simp: t_def)
  note tf = heap_list_frame [OF fl this]
  have tf: "heap_list t bs" "heap_bytes t bs = heap_bytes s bs" by (rule tf; simp add: t_def b)+
  have tb: "base t = base s" "brk t = b" "hsize t (brk s) = ?m" "hblock t (brk s) = {brk s..<b}" by (simp_all add: t_def b hblock_def)
  have dj: "\<forall>x \<in> set bs. hblock t (brk s) \<inter> hblock t x = {}"
  proof
    fix x assume "x \<in> set bs"
    then have "hblock t x \<subseteq> heap_bytes s bs" unfolding tf(2) [symmetric] by (auto simp: heap_bytes_def)
    then show "hblock t (brk s) \<inter> hblock t x = {}" using heap_bytes_bound [OF fl] unfolding tb(4) by fastforce
  qed
  have "base t < brk s" "0 < hsize t (brk s)" "brk s + HSZ * hsize t (brk s) \<le> brk t" using bb b tb by simp_all
  from ufree_spec [OF tf(1) this dj] obtain s' bs' where u: "ufree (brk s + HSZ) t = Some s'" "heap_list s' bs'"
    "heap_bytes s' bs' = heap_bytes t bs \<union> hblock t (brk s)" "base s' = base t" "brk s' = brk t"
    "\<exists>x \<in> set bs'. hsize t (brk s) \<le> hsize s' x"
    "\<forall>a. a \<notin> set (base t # bs) \<longrightarrow> a \<noteq> brk s \<longrightarrow> hptr s' a = hptr t a \<and> hsize s' a = hsize t a" by metis
  note s32_units [OF n]
  moreover have "(if n < 4096 then 4096 else n) = ?m" by simp
  ultimately have "morecore grow n s = Some (freep s', s')"
    using gr u(1) by (simp add: morecore_def Let_def t_def)
  moreover have "\<exists>x \<in> set bs'. n \<le> hsize s' x" using u(6) unfolding tb(3) by (meson max.cobounded2 le_trans)
  moreover have "\<forall>a. a \<notin> set (base s # bs) \<longrightarrow> a \<noteq> brk s \<longrightarrow> hptr s' a = hptr s a \<and> hsize s' a = hsize s a"
    using u(7) tb(1) by (simp add: t_def)
  ultimately show ?thesis using u(2-5) b unfolding tf(2) tb by (intro that) 
qed

text \<open>The whole of \<open>malloc\<close> for \<open>n\<close> units: out of memory, or a block cut from the free bytes and the new ones.\<close>

definition alloc_ok :: "nat \<Rightarrow> uheap \<Rightarrow> addr list \<Rightarrow> addr \<Rightarrow> uheap \<Rightarrow> addr list \<Rightarrow> bool" where
  "alloc_ok n s bs b s' bs' \<longleftrightarrow> heap_list s' bs' \<and> hsize s' b = n \<and> base s' = base s \<and> brk s \<le> brk s' \<and>
     hblock s' b \<subseteq> heap_bytes s bs \<union> {brk s..<brk s'} \<and> heap_bytes s' bs' = heap_bytes s bs \<union> {brk s..<brk s'} - hblock s' b \<and>
     (\<forall>a. a \<noteq> base s \<longrightarrow> a \<notin> heap_bytes s bs \<longrightarrow> a < brk s \<longrightarrow> hptr s' a = hptr s a \<and> hsize s' a = hsize s a)"

lemma found_ok:
  assumes "heap_list s bs" "x \<in> set bs" "n \<le> hsize s x" "0 < n"
  shows "\<exists>b s' bs'. malloc_loop grow n (freep s) (hptr s (freep s)) s = Some (b + HSZ, s') \<and> alloc_ok n s bs b s' bs' \<and> brk s' = brk s"
proof -
  obtain prev q where q: "q \<in> set bs" "prev \<in> set (base s # bs)" "hptr s prev = q" "n \<le> hsize s q"
    "malloc_loop grow n (freep s) (hptr s (freep s)) s = Some (take_block n prev q s)"
    by (rule search_found [OF assms])
  obtain b s' bs' where t: "take_block n prev q s = (b + HSZ, s')" "heap_list s' bs'" "set bs' \<subseteq> set bs"
    "hsize s' b = n" "hblock s' b \<subseteq> hblock s q" "heap_bytes s' bs' = heap_bytes s bs - hblock s' b" "base s' = base s" "brk s' = brk s"
    "\<forall>a. a \<notin> set (base s # bs) \<longrightarrow> a \<noteq> b \<longrightarrow> hptr s' a = hptr s a \<and> hsize s' a = hsize s a"
    by (rule take_block_spec [OF assms(1) q(1-3) assms(4) q(4)])
  have sub: "hblock s q \<subseteq> heap_bytes s bs" using q(1) by (auto simp: heap_bytes_def)
  have "b \<in> hblock s' b" using t(4) assms(4) by (simp add: in_block)
  then have b: "b \<in> heap_bytes s bs" using sub t(5) by blast
  have "hptr s' a = hptr s a \<and> hsize s' a = hsize s a" if "a \<noteq> base s" "a \<notin> heap_bytes s bs" for a
  proof -
    have "a \<notin> set (base s # bs)" "a \<noteq> b" using that b heap_list_node [OF assms(1)] by auto
    then show ?thesis using t(9) by blast
  qed
  then have "alloc_ok n s bs b s' bs'" using t(2,4-8) sub unfolding alloc_ok_def by auto
  then show ?thesis using q(5) t(1,8) by auto
qed

lemma malloc_loop_spec:
  assumes fl: "heap_list s bs" and g: "grows grow" and bb: "base s < brk s" and n: "HSZ * more_units n < 2 ^ 31" "0 < n"
  shows "malloc_loop grow n (freep s) (hptr s (freep s)) s = Some (0, s) \<and> grow (brk s) (int (HSZ * more_units n)) = None \<or>
    (\<exists>b s' bs'. malloc_loop grow n (freep s) (hptr s (freep s)) s = Some (b + HSZ, s') \<and> alloc_ok n s bs b s' bs')"
proof (cases "\<exists>x \<in> set bs. n \<le> hsize s x")
  case True
  then show ?thesis using found_ok [OF fl _ _ n(2)] by blast
next
  case False
  then have sm: "\<forall>x \<in> set bs. hsize s x < n" by auto
  note m = search_failed [OF fl sm n(2), of grow]
  show ?thesis
  proof (cases "grow (brk s) (int (HSZ * more_units n))")
    case None
    note s32_units [OF n(1)]
    moreover have "(if n < 4096 then 4096 else n) = more_units n" by simp
    ultimately have "morecore grow n s = Some (0, s)" using None by (simp add: morecore_def Let_def)
    then show ?thesis using m None by simp
  next
    case (Some b)
    obtain s1 bs1 where s1: "morecore grow n s = Some (freep s1, s1)" "heap_list s1 bs1" "\<exists>x \<in> set bs1. n \<le> hsize s1 x"
      "base s1 = base s" "brk s1 = b" "b = brk s + HSZ * more_units n" "heap_bytes s1 bs1 = heap_bytes s bs \<union> {brk s..<b}"
      "\<forall>a. a \<notin> set (base s # bs) \<longrightarrow> a \<noteq> brk s \<longrightarrow> hptr s1 a = hptr s a \<and> hsize s1 a = hsize s a"
      by (rule morecore_spec [OF fl g bb n(1) Some])
    have "freep s1 \<in> set (base s1 # bs1)" "0 < base s1" using s1(2) by (auto simp: heap_list_def)
    then have f0: "freep s1 \<noteq> 0" using heap_list_node [OF s1(2)] by fastforce
    obtain c s' bs' where c: "malloc_loop grow n (freep s1) (hptr s1 (freep s1)) s1 = Some (c + HSZ, s')"
      "alloc_ok n s1 bs1 c s' bs'" "brk s' = brk s1" using found_ok [OF s1(2) _ _ n(2)] s1(3) by metis
    note k = c(2) [unfolded alloc_ok_def]
    have "hptr s' a = hptr s a \<and> hsize s' a = hsize s a" if "a \<noteq> base s" "a \<notin> heap_bytes s bs" "a < brk s" for a
    proof -
      have "a \<notin> set (base s # bs)" "a \<noteq> brk s" using that heap_list_node [OF fl] by auto
      moreover have "a \<noteq> base s1" "a \<notin> heap_bytes s1 bs1" "a < brk s1" using that s1(4-7) by auto
      ultimately show ?thesis using s1(8) k by simp
    qed
    then have "alloc_ok n s bs c s' bs'" unfolding alloc_ok_def using k s1(4-7) c(3) by auto
    moreover have "malloc_loop grow n (freep s) (hptr s (freep s)) s = Some (c + HSZ, s')" using m s1(1) f0 c(1) by simp
    ultimately show ?thesis by blast
  qed
qed

end
