(* ===== verification/UmallocProps.thy ===== *)
theory UmallocProps
  imports UmallocSpec
begin

text \<open>
  Programs that use the allocator: calls of \<open>malloc\<close> and \<open>free\<close>, and between them writes to the memory
  they own and calls of \<open>sbrk\<close> of their own. \<open>L\<close> maps every address handed out and not yet freed to the
  bytes asked for.
\<close>

type_synonym live = "addr \<Rightarrow> nat option"

text \<open>A program may write inside its blocks, behind the header, and in memory it gets from \<open>sbrk\<close> itself.\<close>

definition user_writes :: "live \<Rightarrow> uheap \<Rightarrow> uheap \<Rightarrow> bool" where
  "user_writes L s t \<longleftrightarrow> base t = base s \<and> freep t = freep s \<and> brk s \<le> brk t \<and>
     (\<forall>a < brk s. (\<forall>r \<in> dom L. a \<in> hblock s (r - HSZ) \<longrightarrow> a = r - HSZ) \<longrightarrow> hptr t a = hptr s a \<and> hsize t a = hsize s a)"

inductive ustep :: "(addr \<Rightarrow> int \<Rightarrow> addr option) \<Rightarrow> uheap \<times> live \<Rightarrow> uheap \<times> live \<Rightarrow> bool" for grow where
  alloc: "nb + 16 < 2 ^ 31 \<Longrightarrow> umalloc grow nb s = Some (r, t) \<Longrightarrow> ustep grow (s, L) (t, if r = 0 then L else L(r \<mapsto> nb))"
| release: "L r \<noteq> None \<Longrightarrow> ufree r s = Some t \<Longrightarrow> ustep grow (s, L) (t, L(r := None))"
| user: "user_writes L s t \<Longrightarrow> ustep grow (s, L) (t, L)"

definition live_ok :: "uheap \<Rightarrow> addr list \<Rightarrow> live \<Rightarrow> bool" where
  "live_ok s bs L \<longleftrightarrow>
     (\<forall>r nb. L r = Some nb \<longrightarrow> nb + 16 < 2 ^ 31 \<and> base s + HSZ < r \<and> hsize s (r - HSZ) = nunits nb \<and>
        hblock s (r - HSZ) \<subseteq> {..<brk s} \<and> hblock s (r - HSZ) \<inter> heap_bytes s bs = {}) \<and>
     (\<forall>r \<in> dom L. \<forall>t \<in> dom L. r \<noteq> t \<longrightarrow> hblock s (r - HSZ) \<inter> hblock s (t - HSZ) = {})"

definition heap_ok :: "uheap \<Rightarrow> live \<Rightarrow> bool" where
  "heap_ok s L \<longleftrightarrow> 0 < base s \<and> base s < brk s \<and>
     (if freep s = 0 then L = Map.empty else \<exists>bs. heap_list s bs \<and> live_ok s bs L)"

lemma nunits_pos [simp]: "0 < nunits nb" by (simp add: nunits_def)

lemma nunits_enough:
  assumes "nb + 16 < 2 ^ 31"
  shows "nb + HSZ \<le> HSZ * nunits nb" "HSZ * more_units (nunits nb) < 2 ^ 31"
proof -
  have "(nb + 7) mod 2 ^ 32 = nb + 7" using assms by (intro mod_less) simp
  then have n: "nunits nb = (nb + 7) div 8 + 1" by (simp add: nunits_def HSZ_def)
  have d: "8 * ((nb + 7) div 8) + (nb + 7) mod 8 = nb + 7" "(nb + 7) mod 8 < 8" by simp_all
  then show "nb + HSZ \<le> HSZ * nunits nb" unfolding n by (simp add: HSZ_def)
  have "nb + 16 < 2147483648" using assms by simp
  moreover have "8 * ((nb + 7) div 8) \<le> nb + 7" by (rule times_div_less_eq_dividend)
  ultimately have "8 * ((nb + 7) div 8 + 1) < 2147483648" by simp
  then have "HSZ * nunits nb < 2 ^ 31" unfolding n HSZ_def by simp
  then show "HSZ * more_units (nunits nb) < 2 ^ 31" by (simp add: HSZ_def max_def)
qed

lemma header_in: "0 < hsize s b \<Longrightarrow> b \<in> hblock s b" by (simp add: in_block)

lemma block_end: "hblock s b \<subseteq> {..<m} \<Longrightarrow> 0 < hsize s b \<Longrightarrow> b + HSZ * hsize s b \<le> m"
proof -
  assume b: "hblock s b \<subseteq> {..<m}" and "0 < hsize s b"
  then have "0 < HSZ * hsize s b" by simp
  then have "b + HSZ * hsize s b - 1 \<in> hblock s b" unfolding in_block by linarith
  with b have "b + HSZ * hsize s b - 1 < m" by blast
  with \<open>0 < HSZ * hsize s b\<close> show ?thesis by linarith
qed

text \<open>What is kept of the live blocks when the memory outside some set stays.\<close>

lemma live_keep:
  assumes l: "live_ok s bs L" and "base t = base s" "brk s \<le> brk t"
    and "\<And>r nb. L r = Some nb \<Longrightarrow> hsize t (r - HSZ) = hsize s (r - HSZ)"
    and "\<And>r nb. L r = Some nb \<Longrightarrow> hblock s (r - HSZ) \<inter> heap_bytes t bs' = {}"
  shows "live_ok t bs' L"
proof -
  have b: "hblock t (r - HSZ) = hblock s (r - HSZ)" if "L r = Some nb" for r nb
    using assms(4) [OF that] by (rule block_cong)
  note l = l [unfolded live_ok_def]
  have "nb + 16 < 2 ^ 31 \<and> base t + HSZ < r \<and> hsize t (r - HSZ) = nunits nb \<and>
      hblock t (r - HSZ) \<subseteq> {..<brk t} \<and> hblock t (r - HSZ) \<inter> heap_bytes t bs' = {}" if r: "L r = Some nb" for r nb
  proof -
    have z: "nb + 16 < 2 ^ 31" "base s + HSZ < r" "hsize s (r - HSZ) = nunits nb" "hblock s (r - HSZ) \<subseteq> {..<brk s}"
      using l r by blast+
    have "hblock s (r - HSZ) \<subseteq> {..<brk t}" using z(4) assms(3) by (meson lessThan_subset_iff order_trans)
    then show ?thesis using z(1-3) assms(2) assms(4) [OF r] assms(5) [OF r] b [OF r] by simp
  qed
  moreover have "hblock t (r - HSZ) \<inter> hblock t (u - HSZ) = {}" if "r \<in> dom L" "u \<in> dom L" "r \<noteq> u" for r u
  proof -
    have "hblock s (r - HSZ) \<inter> hblock s (u - HSZ) = {}" using l that by blast
    moreover have "hblock t (r - HSZ) = hblock s (r - HSZ)" "hblock t (u - HSZ) = hblock s (u - HSZ)"
      using b \<open>r \<in> dom L\<close> \<open>u \<in> dom L\<close> by blast+
    ultimately show ?thesis by simp
  qed
  ultimately show ?thesis unfolding live_ok_def by blast
qed

lemma live_header:
  assumes "heap_list s bs" "live_ok s bs L" "L r = Some nb"
  shows "r - HSZ \<in> hblock s (r - HSZ)" "r - HSZ \<notin> set (base s # bs)" "r - HSZ \<notin> heap_bytes s bs" "r - HSZ < brk s"
    "r = r - HSZ + HSZ" "base s < r - HSZ" "0 < hsize s (r - HSZ)"
proof -
  note l = assms(2) [unfolded live_ok_def]
  have n: "hsize s (r - HSZ) = nunits nb" "base s + HSZ < r" using l assms(3) by blast+
  then show z: "0 < hsize s (r - HSZ)" "r = r - HSZ + HSZ" and b: "base s < r - HSZ" by simp_all
  from header_in [OF z(1)] show h: "r - HSZ \<in> hblock s (r - HSZ)" .
  then show f: "r - HSZ \<notin> heap_bytes s bs" "r - HSZ < brk s" using l assms(3) by fast+
  show "r - HSZ \<notin> set (base s # bs)" using f b heap_list_node [OF assms(1)] by auto
qed

section \<open>The steps\<close>

lemma init_ok:
  assumes "heap_ok s L"
  obtains bs where "heap_list (uinit s) bs" "live_ok (uinit s) bs L" "base (uinit s) = base s" "brk (uinit s) = brk s"
proof (cases "freep s = 0")
  case True
  then have "heap_list (uinit s) []" "live_ok (uinit s) [] L" using assms
    by (auto simp: heap_ok_def heap_list_def live_ok_def uinit_def apart_Cons)
  then show ?thesis by (rule that) (simp_all add: uinit_def)
next
  case False
  then show ?thesis using assms that by (auto simp: heap_ok_def uinit_def)
qed

lemma heap_list_freep: "heap_list s bs \<Longrightarrow> freep s \<noteq> 0"
  using heap_list_node by (fastforce simp: heap_list_def)

lemma heap_okI: "heap_list s bs \<Longrightarrow> live_ok s bs L \<Longrightarrow> base s < brk s \<Longrightarrow> heap_ok s L"
  unfolding heap_ok_def using heap_list_freep [of s bs] by (auto simp: heap_list_def)

lemma alloc_keeps:
  assumes h: "heap_ok s L" and g: "grows grow" and nb: "nb + 16 < 2 ^ 31"
  obtains "umalloc grow nb s = Some (0, uinit s)" "heap_ok (uinit s) L"
      "grow (brk s) (int (HSZ * more_units (nunits nb))) = None"
  | r t where "umalloc grow nb s = Some (r, t)" "r \<noteq> 0" "heap_ok t (L(r \<mapsto> nb))"
proof -
  obtain bs where f: "heap_list (uinit s) bs" and l: "live_ok (uinit s) bs L" and i: "base (uinit s) = base s" "brk (uinit s) = brk s"
    by (rule init_ok [OF h])
  note cases = that
  let ?s = "uinit s"
  have bb: "base ?s < brk ?s" using h i by (simp add: heap_ok_def)
  from malloc_loop_spec [OF f g bb nunits_enough(2) [OF nb] nunits_pos]
  show thesis
  proof (elim disjE exE conjE)
    assume "malloc_loop grow (nunits nb) (freep ?s) (hptr ?s (freep ?s)) ?s = Some (0, ?s)"
      "grow (brk ?s) (int (HSZ * more_units (nunits nb))) = None"
    then show thesis using heap_okI [OF f l bb] i(2) cases(1) by (simp add: umalloc_def Let_def)
  next
    fix b t bs'
    assume m: "malloc_loop grow (nunits nb) (freep ?s) (hptr ?s (freep ?s)) ?s = Some (b + HSZ, t)"
      and ok: "alloc_ok (nunits nb) ?s bs b t bs'"
    note k = ok [unfolded alloc_ok_def]
    have bin: "b \<in> hblock t b" using k by (intro header_in) simp
    then have b: "base ?s < b" using k heap_bytes_bound [OF f] bb by fastforce
    have l1: "live_ok t bs' L"
    proof (rule live_keep [OF l])
      fix r n assume r: "L r = Some n"
      note lh = live_header [OF f l r]
      show "hsize t (r - HSZ) = hsize ?s (r - HSZ)" using k lh(3,4,6) by (metis less_irrefl)
      have "hblock ?s (r - HSZ) \<inter> heap_bytes ?s bs = {}" "hblock ?s (r - HSZ) \<subseteq> {..<brk ?s}"
        using l r unfolding live_ok_def by blast+
      then show "hblock ?s (r - HSZ) \<inter> heap_bytes t bs' = {}" using k by fastforce
    qed (use k in auto)
    have dj: "hblock t b \<inter> hblock t (r - HSZ) = {}" if r: "L r = Some n" for r n
    proof -
      have "hblock t (r - HSZ) = hblock ?s (r - HSZ)"
        using k live_header(3,4,6) [OF f l r] by (intro block_cong) (metis less_irrefl)
      moreover have "hblock ?s (r - HSZ) \<inter> heap_bytes ?s bs = {}" "hblock ?s (r - HSZ) \<subseteq> {..<brk ?s}"
        using l r unfolding live_ok_def by blast+
      ultimately show ?thesis using k by fastforce
    qed
    have "live_ok t bs' (L(b + HSZ \<mapsto> nb))"
    proof -
      have "hblock t b \<subseteq> {..<brk t}" using k heap_bytes_bound [OF f] by fastforce
      moreover have "hblock t b \<inter> heap_bytes t bs' = {}" using k by blast
      ultimately show ?thesis using l1 nb b k dj unfolding live_ok_def by (auto simp: dom_def)
    qed
    then have "heap_ok t (L(b + HSZ \<mapsto> nb))" using k bb by (intro heap_okI) auto
    then show thesis using m cases(2) [of "b + HSZ" t] by (simp add: umalloc_def Let_def)
  qed
qed

lemma free_keeps:
  assumes h: "heap_ok s L" and r: "L r = Some nb"
  obtains t where "ufree r s = Some t" "heap_ok t (L(r := None))"
proof -
  obtain bs where f: "heap_list s bs" and l: "live_ok s bs L" and bb: "base s < brk s"
    using h r by (auto simp: heap_ok_def split: if_splits)
  note lh = live_header [OF f l r]
  let ?b = "r - HSZ"
  have lb: "hblock s ?b \<subseteq> {..<brk s}" "hblock s ?b \<inter> heap_bytes s bs = {}" using l r unfolding live_ok_def by blast+
  then have "\<forall>x \<in> set bs. hblock s ?b \<inter> hblock s x = {}" by (auto simp: heap_bytes_def)
  from ufree_spec [OF f lh(6,7) block_end [OF lb(1) lh(7)] this] lh(5)
  obtain t bs' where u: "ufree r s = Some t" "heap_list t bs'" "heap_bytes t bs' = heap_bytes s bs \<union> hblock s ?b"
    "base t = base s" "brk t = brk s"
    "\<And>a. a \<notin> set (base s # bs) \<Longrightarrow> a \<noteq> ?b \<Longrightarrow> hptr t a = hptr s a \<and> hsize t a = hsize s a" by metis
  have l': "live_ok s bs (L(r := None))" using l unfolding live_ok_def by auto
  have dj: "hblock s (q - HSZ) \<inter> hblock s ?b = {}" if "(L(r := None)) q = Some n" for q n
    using l that r unfolding live_ok_def dom_def by (auto split: if_splits)
  have "live_ok t bs' (L(r := None))"
  proof (rule live_keep [OF l'])
    fix q n assume q: "(L(r := None)) q = Some n"
    note qh = live_header [OF f l' q]
    have "q - HSZ \<noteq> ?b" using dj [OF q] qh(1) lh(1) by auto
    then show "hsize t (q - HSZ) = hsize s (q - HSZ)" using u(6) qh(2) by blast
    show "hblock s (q - HSZ) \<inter> heap_bytes t bs' = {}" using dj [OF q] q l' unfolding u(3) live_ok_def by blast
  qed (use u in auto)
  then have "heap_ok t (L(r := None))" using u bb by (intro heap_okI) auto
  with u(1) show ?thesis by (rule that)
qed

lemma user_keeps:
  assumes h: "heap_ok s L" and u: "user_writes L s t"
  shows "heap_ok t L"
proof (cases "freep s = 0")
  case True
  then show ?thesis using h u by (auto simp: heap_ok_def user_writes_def)
next
  case False
  then obtain bs where f: "heap_list s bs" and l: "live_ok s bs L" and bb: "base s < brk s"
    using h by (auto simp: heap_ok_def)
  note w = u [unfolded user_writes_def]
  have out: "x \<notin> hblock s (r - HSZ)" if x: "x \<in> set (base s # bs)" and rd: "r \<in> dom L" for x r
  proof -
    obtain n where r: "L r = Some n" using rd by blast
    have "base s < r - HSZ" using live_header(6) [OF f l r] .
    moreover have "hblock s (r - HSZ) \<inter> heap_bytes s bs = {}" using l r unfolding live_ok_def by blast
    ultimately show ?thesis using x heap_list_node [OF f, of x] by (auto simp: in_block)
  qed
  have same: "hptr t x = hptr s x \<and> hsize t x = hsize s x" if x: "x \<in> set (base s # bs)" for x
  proof -
    have "x < brk s" using x bb heap_list_node [OF f] by auto
    moreover have "\<forall>r \<in> dom L. x \<in> hblock s (r - HSZ) \<longrightarrow> x = r - HSZ" using out [OF x] by blast
    ultimately show ?thesis using w by blast
  qed
  have "\<forall>x \<in> set (base s # bs). hptr t x = hptr s x \<and> hsize t x = hsize s x" using same by blast
  from heap_list_frame [OF f this] have ft: "heap_list t bs" "heap_bytes t bs = heap_bytes s bs" using w by auto
  have "live_ok t bs L"
  proof (rule live_keep [OF l])
    fix r n assume r: "L r = Some n"
    note lh = live_header [OF f l r]
    have "\<forall>q \<in> dom L. r - HSZ \<in> hblock s (q - HSZ) \<longrightarrow> r - HSZ = q - HSZ"
      using l lh(1) r unfolding live_ok_def by (metis IntI domI empty_iff)
    then show "hsize t (r - HSZ) = hsize s (r - HSZ)" using w lh(4) by blast
    show "hblock s (r - HSZ) \<inter> heap_bytes t bs = {}" using l r unfolding ft(2) live_ok_def by blast
  qed (use w in auto)
  then show ?thesis using ft(1) bb w by (intro heap_okI) auto
qed

lemma reach_ok:
  assumes "(ustep grow)\<^sup>*\<^sup>* (s0, Map.empty) p" "freep s0 = 0" "0 < base s0" "base s0 < brk s0" "grows grow"
  shows "heap_ok (fst p) (snd p)"
  using assms(1)
proof (induction rule: rtranclp_induct)
  case base
  then show ?case using assms(2-4) by (simp add: heap_ok_def)
next
  case (step p q)
  from step.hyps(2) show ?case
  proof (cases rule: ustep.cases)
    case (alloc nb s r t L)
    then have h: "heap_ok s L" using step.IH by simp
    show ?thesis
    proof (rule alloc_keeps [OF h assms(5) alloc(3)])
      assume "umalloc grow nb s = Some (0, uinit s)" "heap_ok (uinit s) L"
      then show ?thesis using alloc by simp
    next
      fix r' t' assume "umalloc grow nb s = Some (r', t')" "r' \<noteq> 0" "heap_ok t' (L(r' \<mapsto> nb))"
      then show ?thesis using alloc by (simp del: fun_upd_apply)
    qed
  next
    case (release L r s t)
    then have h: "heap_ok s L" using step.IH by simp
    obtain nb where "L r = Some nb" using release(3) by blast
    then obtain t' where "ufree r s = Some t'" "heap_ok t' (L(r := None))" by (rule free_keeps [OF h])
    then show ?thesis using release by (simp del: fun_upd_apply)
  next
    case (user L s t)
    then show ?thesis using user_keeps step.IH by simp
  qed
qed

text \<open>C14: Memory that \<open>malloc\<close> hands out belongs to one block only. Whatever sequence of \<open>malloc\<close>, \<open>free\<close> of
  live blocks, writes of the program into its own blocks and calls of \<open>sbrk\<close> leads to the heap, two
  live blocks, with their headers and the bytes asked for, do not meet, and they lie in the heap above
  the allocator's own header.\<close>

theorem umalloc_live_apart:
  assumes "grows grow" "freep s0 = 0" "0 < base s0" "base s0 < brk s0" "(ustep grow)\<^sup>*\<^sup>* (s0, Map.empty) (s, L)"
    and "L r = Some n" "L t = Some m" "r \<noteq> t"
  shows "{r - HSZ..<r + n} \<inter> {t - HSZ..<t + m} = {} \<and> {r - HSZ..<r + n} \<subseteq> {base s<..<brk s}"
proof -
  have "heap_ok s L" using reach_ok [OF assms(5,2,3,4,1)] by simp
  then obtain bs where f: "heap_list s bs" and l: "live_ok s bs L" using assms(6) by (auto simp: heap_ok_def split: if_splits)
  have sub: "{q - HSZ..<q + k} \<subseteq> hblock s (q - HSZ)" if q: "L q = Some k" for q k
  proof -
    have "hsize s (q - HSZ) = nunits k" "k + 16 < 2 ^ 31" using l q unfolding live_ok_def by blast+
    then have "k + HSZ \<le> HSZ * hsize s (q - HSZ)" using nunits_enough(1) by simp
    then show ?thesis using live_header(5) [OF f l q] by (auto simp: in_block)
  qed
  have "hblock s (r - HSZ) \<inter> hblock s (t - HSZ) = {}" "hblock s (r - HSZ) \<subseteq> {..<brk s}"
    using l assms(6-8) unfolding live_ok_def by blast+
  moreover have "base s < x" if "x \<in> hblock s (r - HSZ)" for x
    using that live_header(6) [OF f l assms(6)] by (simp add: in_block)
  ultimately show ?thesis using sub [OF assms(6)] sub [OF assms(7)] by fastforce
qed

text \<open>C40: The allocator returns. In every heap that such a program reaches, \<open>malloc\<close> of any size up to
  2 GB comes back, with null only if the kernel refuses to grow the heap by what it asks for, and
  \<open>free\<close> of every live block comes back.\<close>

theorem umalloc_returns:
  assumes "grows grow" "freep s0 = 0" "0 < base s0" "base s0 < brk s0" "(ustep grow)\<^sup>*\<^sup>* (s0, Map.empty) (s, L)"
    and "nb + 16 < 2 ^ 31"
  shows "(\<exists>r t. umalloc grow nb s = Some (r, t) \<and> (r = 0 \<longrightarrow> grow (brk s) (int (HSZ * max 4096 (nunits nb))) = None)) \<and>
    (\<forall>r \<in> dom L. ufree r s \<noteq> None)"
proof
  have h: "heap_ok s L" using reach_ok [OF assms(5,2,3,4,1)] by simp
  show "\<exists>r t. umalloc grow nb s = Some (r, t) \<and> (r = 0 \<longrightarrow> grow (brk s) (int (HSZ * max 4096 (nunits nb))) = None)"
    by (rule alloc_keeps [OF h assms(1,6)]) auto
  show "\<forall>r \<in> dom L. ufree r s \<noteq> None"
  proof
    fix r assume "r \<in> dom L"
    then obtain nb where "L r = Some nb" by blast
    then obtain t where "ufree r s = Some t" by (rule free_keeps [OF h])
    then show "ufree r s \<noteq> None" by simp
  qed
qed

text \<open>A heap of one page, and a kernel with a limit of 100000 bytes.\<close>

definition heap1 :: uheap where
  "heap1 = \<lparr>hptr = (\<lambda>_. 0), hsize = (\<lambda>_. 0), base = 16, freep = 0, brk = 4096\<rparr>"

definition grow1 :: "addr \<Rightarrow> int \<Rightarrow> addr option" where
  "grow1 b z = (if 0 < z \<and> b + nat z \<le> 100000 then Some (b + nat z) else None)"

lemma heap1_run: "\<exists>t u. umalloc grow1 10 heap1 = Some (36848, t) \<and> umalloc grow1 20 t = Some (36816, u)"
  by (simp add: umalloc_def uinit_def nunits_def HSZ_def malloc_loop.simps morecore_def ufree_def free_scan.simps
      join_up_def join_down_def take_block_def grow1_def heap1_def s32_def Let_def)

lemma grow1_grows: "grows grow1" by (simp add: grows_def grow1_def)

lemma heap1_reach: "\<exists>s L. (ustep grow1)\<^sup>*\<^sup>* (heap1, Map.empty) (s, L) \<and> L 36848 = Some 10 \<and> L 36816 = Some 20"
proof -
  obtain t u where r: "umalloc grow1 10 heap1 = Some (36848, t)" "umalloc grow1 20 t = Some (36816, u)" using heap1_run by blast
  have "ustep grow1 (heap1, Map.empty) (t, [36848 \<mapsto> 10])" using ustep.alloc [OF _ r(1), of Map.empty] by simp
  moreover have "ustep grow1 (t, [36848 \<mapsto> 10]) (u, [36848 \<mapsto> 10, 36816 \<mapsto> 20])"
    using ustep.alloc [OF _ r(2), of "[36848 \<mapsto> 10]"] by simp
  ultimately have "(ustep grow1)\<^sup>*\<^sup>* (heap1, Map.empty) (u, [36848 \<mapsto> 10, 36816 \<mapsto> 20])" by simp
  then show ?thesis by (intro exI conjI) (assumption | simp)+
qed

theorem umalloc_live_apart_witness:
  "\<exists>s L. (ustep grow1)\<^sup>*\<^sup>* (heap1, Map.empty) (s, L) \<and> L 36848 = Some 10 \<and> L 36816 = Some 20 \<and>
     {36840..<36858} \<inter> {36808..<36836} = ({} :: nat set) \<and> brk s \<ge> 36858"
proof -
  obtain s L where r: "(ustep grow1)\<^sup>*\<^sup>* (heap1, Map.empty) (s, L)" "L 36848 = Some 10" "L 36816 = Some 20"
    using heap1_reach by blast
  have a: "{36848 - HSZ..<36848 + 10} \<inter> {36816 - HSZ..<36816 + 20} = {} \<and> {36848 - HSZ..<36848 + 10} \<subseteq> {base s<..<brk s}"
    by (rule umalloc_live_apart [OF grow1_grows _ _ _ r]) (simp_all add: heap1_def)
  have "(36857 :: nat) \<in> {36848 - HSZ..<36848 + 10}" by (simp add: HSZ_def)
  then have "36857 \<in> {base s<..<brk s}" using a by blast
  then have "36857 < brk s" by simp
  then show ?thesis using r a by (intro exI [of _ s] exI [of _ L]) (simp add: HSZ_def)
qed

theorem umalloc_returns_witness:
  "\<exists>r t. umalloc grow1 10 heap1 = Some (r, t) \<and> r \<noteq> 0"
proof -
  obtain r t where "umalloc grow1 10 heap1 = Some (r, t)"
    "r = 0 \<longrightarrow> grow1 (brk heap1) (int (HSZ * max 4096 (nunits 10))) = None"
    using umalloc_returns [OF grow1_grows _ _ _ rtranclp.rtrancl_refl, of heap1 10] by (auto simp: heap1_def)
  moreover have "grow1 (brk heap1) (int (HSZ * max 4096 (nunits 10))) \<noteq> None"
    by (simp add: grow1_def heap1_def HSZ_def nunits_def)
  ultimately show ?thesis by blast
qed

end
