(* ===== verification/Spec2Isabelle.thy ===== *)
theory Spec2Isabelle
  imports Prelude Pool Fifo BlockDev Kalloc MemSpec CString Pipe ProcSpec StrideSpec Locks ThreadLib FsBlocks Shell MyshExec Grep FsckSpec VmArgs BioProps Spinlock Console Printf FilesRead UmallocProps
begin

text \<open>
  perrOS is a series of operating system projects in C: programs of the first weeks (p1), a shell
  and a stride scheduler (p2), a user-level allocator and null-pointer protection (p3), kernel
  threads with a user thread library (p4), and file system tools (p5). The kernel is xv6; each
  project carries a copy of it, so a file that several projects share is modelled once, from p4.

  \<^bold>\<open>The parts and their theories.\<close>

  \<^item> \<open>Prelude\<close>: panics as values, \<open>bindE\<close>, C integers (\<open>u32\<close>, \<open>s32\<close>, \<open>c_rem\<close>), page arithmetic,
    linked lists in a store, C strings in a list. \<open>Pool\<close> and \<open>Fifo\<close>: two interfaces as locales, a
    stack of free addresses and a bounded queue.
  \<^item> \<open>Kalloc\<close> (kernel/kalloc.c): the intrusive list of free pages; \<open>kalloc\<close> and \<open>kfree\<close> provide
    \<open>lifo_pool\<close>.
  \<^item> \<open>MemAlloc\<close>, \<open>MemInv\<close>, \<open>MemProps\<close>, \<open>MemSpec\<close> (p3/mem/mem.c): the slab stack, which provides
    \<open>lifo_pool\<close>, and the next-fit list. \<open>mem_inv\<close> abstracts memory to a list of adjacent blocks; the
    lemmas show what each list operation does to that list.
  \<^item> \<open>CString\<close> (kernel/string.c, user/ulib.c): byte and string routines on a flat store.
  \<^item> \<open>Pipe\<close> (kernel/pipe.c): the ring with its two wrapping counters, which provides
    \<open>bounded_fifo\<close>; reading, writing and closing with sleeping and wake-up as outcomes.
  \<^item> \<open>ProcBase\<close>, \<open>Proc\<close>, \<open>ProcProps\<close>, \<open>ProcSpec\<close> (p4 kernel/proc.c): the process table as a list of
    slots; \<open>fork\<close>, \<open>clone\<close>, \<open>wait\<close>, \<open>join\<close>, \<open>exit\<close>, \<open>kill\<close>, sleeping and the scheduler. \<open>pstep\<close> is
    one operation of one process and \<open>preach\<close> the tables that any interleaving reaches. What
    proc.c calls in other files (page tables, files, the trap return) is a record of functions.
  \<^item> \<open>Stride\<close>, \<open>StrideSpec\<close> (p2/stride kernel/proc.c): the operations that differ, with 32-bit
    passes; the base of the table is that of \<open>ProcBase\<close>.
  \<^item> \<open>Locks\<close> (locklib.c, cvarlib.c) and \<open>ThreadLib\<close> (threadlib.c): the ticket lock as a step
    relation over threads, the ring of waiting pids, the table of thread stacks.
  \<^item> \<open>Fs\<close>, \<open>FsSpec\<close>, \<open>FsBlocks\<close> (kernel/fs.c, fs.h, file.h): block bitmap, inodes, file contents,
    directories and paths on a disk of bytes. The log of the proofs is \<open>file_byte\<close>, the byte of a
    file at an offset, and \<open>block_used\<close>, the set of blocks the bitmap shows.
  \<^item> \<open>Shell\<close> (p4 user/sh.c): lexer, recursive parser, the cut of tokens in place, \<open>runcmd\<close> as the
    trace of system calls, the prompt loop.
  \<^item> \<open>Mysh\<close>, \<open>MyshExec\<close> (p2/shell/mysh.c, mytee.c): the in-place parser with \<open>strtok\<close>, and the
    executors on tables of descriptors.
  \<^item> \<open>Grep\<close> (p4 user/grep.c, wc.c): the matcher, the search over the buffer, the counters.
  \<^item> \<open>Fsck\<close>, \<open>FsckSpec\<close> (p5/fsck.c): the checker on an image, sharing the byte layout of \<open>Fs\<close>.
  \<^item> \<open>Files\<close> (kernel/file.c, \<open>pipealloc\<close>, the p4 argument checks of kernel/syscall.c, the descriptor half
    of kernel/sysfile.c) and \<open>SysFile\<close> (its system calls on paths): open files on the inodes of \<open>Fs\<close>, the
    rings of \<open>Pipe\<close> and the pages of \<open>Kalloc\<close>. \<open>FsRefs\<close> and \<open>FsHeld\<close> count who holds which inode through
    each operation of \<open>Fs\<close>, with a rule per operation for \<open>yields\<close> (the result satisfies a predicate if
    there is one); \<open>FilesInv\<close> states the invariant \<open>kinv\<close>, in which a call in the middle of its work is
    owed references and locks; \<open>FilesSpec\<close>, \<open>FilesSys\<close> and \<open>FilesReach\<close> carry it through the calls to
    every state that \<open>kstep\<close> reaches. \<open>FilesRead\<close> says what a read delivers.
  \<^item> \<open>Vm\<close>, \<open>VmSpec\<close>, \<open>VmUser\<close>, \<open>VmCopy\<close>, \<open>VmProc\<close>, \<open>VmArgs\<close> (p3 kernel/vm.c, \<open>growproc\<close>, the page fault case of
    trap.c, kernel/syscall.c): page directories and tables as words in physical memory. The proofs see an
    address space as the map from user addresses to bytes that the hardware walk defines; \<open>vstep\<close> is
    one \<open>sbrk\<close> or fault.
  \<^item> \<open>BlockDev\<close> (the interface of an array of blocks, as a locale), \<open>Bio\<close>, \<open>BioSpec\<close>, \<open>BioProps\<close>
    (kernel/bio.c) and \<open>Ide\<close> (kernel/ide.c): the ring of buffers, the queue of requests and the
    interrupt handler; \<open>bstep\<close> is one step of a process or of the controller. The cache provides
    \<open>block_device\<close>, as the disk of \<open>Fs\<close> does.
  \<^item> \<open>Spinlock\<close> (kernel/spinlock.c): several CPUs, \<open>spstep\<close> one atomic step of one of them.
  \<^item> \<open>Umalloc\<close>, \<open>UmallocSpec\<close>, \<open>UmallocProps\<close> (user/umalloc.c): the circular free list as two maps on
    header addresses; \<open>ustep\<close> is one \<open>malloc\<close>, \<open>free\<close> or foreign \<open>sbrk\<close> of a program.
  \<^item> \<open>Console\<close> (kernel/console.c): screen, line discipline, \<open>cprintf\<close>. \<open>Printf\<close> (user/printf.c):
    formatting, with a round trip through \<open>atoi\<close> of \<open>CString\<close>. \<open>CInt\<close> holds facts on signed words.

  \<^bold>\<open>How the parts meet.\<close> A system call checks its arguments (\<open>argptr\<close>, \<open>argstr\<close>), finds the open file of
  the descriptor, and goes to a pipe, a device or an inode; inodes read and write blocks through the
  buffer cache, which drives the disk. \<open>fork\<close> and \<open>exit\<close> of \<open>Proc\<close> enter the file layer as
  \<open>fork_files\<close> and \<open>exit_files\<close>, and the address space layer as \<open>copyuvm\<close> and \<open>freevm\<close>; every page comes
  from \<open>Kalloc\<close>.

  \<^bold>\<open>How the code is represented.\<close> State is passed explicitly; a \<open>panic\<close>, an error return or a
  sleep that does not come back is a branch of a sum. Pointers into a table are indices. A call
  that holds a lock from start to end is one atomic step; where a function gives the lock up, it
  ends there with a sleep outcome. In \<open>Files\<close> a whole system call is one step, and a sleep on a busy
  inode ends the run; the locks of inodes are therefore never contended there. Integers are words or
  are reduced where the code can wrap: pipe and console counters, tickets, passes, addresses,
  sizes of files and of the file system.

  \<^bold>\<open>What the groups of lemmas show.\<close> Invariants of every reachable state (unique pids, exact counts of
  open files and inodes, the allocator's blocks, the page pool, the lock's ticket queue, exclusion of
  spin locks, coherence of the buffer cache, the layout of address spaces); the functional behaviour
  of operations against abstract lists and maps (next-fit, coalescing, pipes, file contents, bitmaps,
  address spaces, the line discipline, \<open>wait\<close> and \<open>exit\<close>); parsers and formatters against reference
  readings; round trips (allocate and free, write and read, nul-terminate and read back, print and
  read a number); fairness of the schedulers and of the disk queue; and what the code does in
  cases where it departs from its purpose, which the manifest lists as findings.

  \<^bold>\<open>Loops and fuel.\<close> Loops are structural or carry a measure. The pointer loops of the allocators, of the
  buffer ring and of the disk queue are partial functions into \<open>option\<close>, and the theorems about them
  include that they return. The shell's parser runs on fuel \<open>4 * length + 4\<close>: each level of the
  recursion consumes a character or moves down one of four levels of the grammar, and
  \<open>parsecmd_terminates\<close> shows it is enough. The walk of fsck over directories takes any fuel; on a
  cycle none is enough.

  \<^bold>\<open>Not modelled.\<close> Device drivers, interrupt routing, boot code and assembly (kbd, uart, lapic, ioapic,
  picirq, timer, mp, main, bootmain) drive hardware registers, as do the parts of vm.c that load
  segments and page tables and \<open>ideinit\<close>; their effect on the parts above enters as parameters.
  Loading of programs (exec.c), the trap frame and the table of system calls (trap.c, syscall,
  sysproc.c) and the image tools (mkfs.c, lfsreader.c) are not
  modelled. usertests.c and the other test programs only call the kernel, and the small user programs
  only chain system calls; multable.c prints a table. p1, p2 and p3 carry copies of the kernel files
  modelled from p4.
\<close>

end
